(* ===== verification/Prelude.thy ===== *)
theory Prelude
  imports Main "HOL-Library.Word"
begin

text \<open>
  Shared vocabulary of the development: the machine types of \<open>include/types.h\<close>, the way the
  kernel can stop (\<open>assert\<close>/\<open>panic\<close> of \<open>include/panic.h\<close> and \<open>include/debug.h\<close>, a bad memory
  access, spinning on a lock that is already held), the error numbers of \<open>include/errno.h\<close> that
  the modelled code returns, the collections of simplification rules the component theories fill,
  the interfaces (locales) that several containers implement, and generic lemmas on lists.
\<close>

unbundle bit_operations_syntax

section \<open>Machine types and outcomes\<close>

type_synonym u8 = "8 word"
type_synonym u16 = "16 word"
type_synonym u32 = "32 word"
type_synonym u64 = "64 word"

text \<open>
  Every function that can stop the kernel returns a value of \<open>'a res\<close>: \<open>Inl\<close> is a fault,
  \<open>Inr\<close> a normal result. \<open>Panic\<close> is \<open>_panic\<close> (reached through \<open>assert\<close> and \<open>panic\<close>, it prints and
  halts), \<open>BadAccess\<close> a read or write outside the object the code means to touch (C++ undefined
  behaviour), \<open>Spin\<close> a spinlock acquired by the holder itself, \<open>DivZero\<close> the divide exception.
\<close>

datatype fault = Panic | BadAccess | Spin | DivZero

type_synonym 'a res = "fault + 'a"

definition bind_res :: "'a res \<Rightarrow> ('a \<Rightarrow> 'b res) \<Rightarrow> 'b res" where
  "bind_res r f = (case r of Inl e \<Rightarrow> Inl e | Inr x \<Rightarrow> f x)"

definition assert_res :: "bool \<Rightarrow> 'a res \<Rightarrow> 'a res" where
  "assert_res b r = (if b then r else Inl Panic)"

section \<open>Error numbers\<close>

text \<open>
  The \<open>int64\<close> results of the file system and the system calls carry \<open>- errno\<close> on failure. They are
  modelled as \<open>int\<close>: every value the modelled code produces is far below \<open>2 ^ 63\<close>.
\<close>

definition ENOENT :: int where "ENOENT = 2"
definition EIO :: int where "EIO = 5"
definition EBADF :: int where "EBADF = 9"
definition EACCES :: int where "EACCES = 13"
definition EFAULT :: int where "EFAULT = 14"
definition ENODEV :: int where "ENODEV = 19"
definition ENOTDIR :: int where "ENOTDIR = 20"
definition EINVAL :: int where "EINVAL = 22"
definition EROFS :: int where "EROFS = 30"

section \<open>Automation\<close>

named_theorems errno_defs \<open>definitions of the error numbers\<close>
named_theorems res_simps \<open>evaluation of the fault monad\<close>
named_theorems abs_simps \<open>what an operation does to the abstract view of its state\<close>
named_theorems inv_intros \<open>what an operation keeps of its invariant\<close>

lemmas errno_defs_all [errno_defs] =
  ENOENT_def EIO_def EBADF_def EACCES_def EFAULT_def ENODEV_def ENOTDIR_def EINVAL_def EROFS_def

lemma bind_res_Inl [simp, res_simps]: "bind_res (Inl e) f = Inl e"
  by (simp add: bind_res_def)

lemma bind_res_Inr [simp, res_simps]: "bind_res (Inr x) f = f x"
  by (simp add: bind_res_def)

lemma bind_res_right [simp, res_simps]: "bind_res r Inr = r"
  by (cases r) simp_all

lemma bind_res_eq_Inr:
  "bind_res r f = Inr y \<longleftrightarrow> (\<exists>x. r = Inr x \<and> f x = Inr y)"
  by (cases r) auto

lemma bind_res_eq_Inl:
  "bind_res r f = Inl e \<longleftrightarrow> r = Inl e \<or> (\<exists>x. r = Inr x \<and> f x = Inl e)"
  by (cases r) auto

lemma assert_res_True [simp, res_simps]: "assert_res True r = r"
  by (simp add: assert_res_def)

lemma assert_res_False [simp, res_simps]: "assert_res False r = Inl Panic"
  by (simp add: assert_res_def)

lemma assert_res_eq_Inr: "assert_res b r = Inr y \<longleftrightarrow> b \<and> r = Inr y"
  by (simp add: assert_res_def)

lemmas res_elims = bind_res_eq_Inr assert_res_eq_Inr

text \<open>
  A loop that may run for ever has a result of type \<open>'a res option\<close>: \<open>None\<close> is a run that does not end.
\<close>

definition bind_opt :: "'a res option \<Rightarrow> ('a \<Rightarrow> 'b res option) \<Rightarrow> 'b res option" where
  "bind_opt r f = (case r of None \<Rightarrow> None | Some (Inl e) \<Rightarrow> Some (Inl e) | Some (Inr x) \<Rightarrow> f x)"

lemma bind_opt_simps [simp, res_simps]:
  "bind_opt None f = None" "bind_opt (Some (Inl e)) f = Some (Inl e)" "bind_opt (Some (Inr x)) f = f x"
  by (simp_all add: bind_opt_def)

section \<open>Generic lemmas\<close>

lemma map_the_Some [simp]: "map (the \<circ> Some) xs = xs"
  by (induction xs) auto

lemma take_Suc_snoc: "n < length xs \<Longrightarrow> take (Suc n) xs = take n xs @ [xs ! n]"
  by (rule take_Suc_conv_app_nth)

lemma map_nth_upt: "map (\<lambda>i. xs ! i) [0..<length xs] = xs"
  by (rule map_nth)

lemma map_Some_the: "None \<notin> set xs \<Longrightarrow> map Some (map the xs) = xs"
  by (induction xs) auto

lemma unat_lt_2p64: "unat (x :: u64) < 2 ^ 64"
  using unsigned_less [of x] by simp

lemma unat_of_nat_u64: "n < 2 ^ 64 \<Longrightarrow> unat (of_nat n :: u64) = n"
  by (simp only: unsigned_of_nat) (simp add: take_bit_nat_eq_self)

lemma unat_lt_2p32: "unat (x :: u32) < 2 ^ 32"
  using unsigned_less [of x] by simp

lemma unat_ucast_u32: "unat (ucast (x :: u32) :: u64) = unat x"
  using unat_lt_2p32 [of x] by (simp add: unsigned_ucast_eq take_bit_nat_eq_self)

lemma sint_small_u64: "unat (x :: u64) < 2 ^ 63 \<Longrightarrow> sint x = int (unat x)"
proof -
  assume "unat x < 2 ^ 63"
  then have "int (unat x) < int (2 ^ 63)" by (simp only: of_nat_less_iff)
  then have u: "uint x < 2 ^ 63" by simp
  then have "\<not> bit (uint x) 63" by (metis bit_take_bit_iff nat_less_le take_bit_int_eq_self uint_nonnegative)
  then show ?thesis using u by (simp add: sint_uint signed_take_bit_eq_if_positive take_bit_int_eq_self)
qed

lemma of_nat_unat_diff:
  fixes a d :: u64
  shows "d + of_nat (unat (a - d)) = a"
  by simp

section \<open>Interfaces\<close>

text \<open>
  A container with a sequence as its abstract value and an operation that appends one element:
  \<open>Vector::push\<close>, \<open>List::push\<close> and \<open>Queue::push\<close> promise this. The operation can fault, so the
  interface gives the condition \<open>room\<close> under which it does not.
\<close>

locale appendable =
  fixes inv :: "'c \<Rightarrow> bool"
    and view :: "'c \<Rightarrow> 'a list"
    and push :: "'c \<Rightarrow> 'a \<Rightarrow> 'c res"
    and room :: "'c \<Rightarrow> bool"
  assumes push_ok: "inv c \<Longrightarrow> room c \<Longrightarrow>
    \<exists>c'. push c x = Inr c' \<and> inv c' \<and> view c' = view c @ [x]"
begin

lemma push_view: "inv c \<Longrightarrow> room c \<Longrightarrow> push c x = Inr c' \<Longrightarrow> view c' = view c @ [x] \<and> inv c'"
  using push_ok [of c x] by auto

end

text \<open>A container that always has room can take any number of elements.\<close>

primrec push_all :: "('c \<Rightarrow> 'a \<Rightarrow> 'c res) \<Rightarrow> 'c \<Rightarrow> 'a list \<Rightarrow> 'c res" where
  "push_all p c [] = Inr c"
| "push_all p c (x # xs) = bind_res (p c x) (\<lambda>c'. push_all p c' xs)"

lemma push_all_append:
  "push_all p c (xs @ ys) = bind_res (push_all p c xs) (\<lambda>c'. push_all p c' ys)"
  by (induction xs arbitrary: c) (auto simp: bind_res_def split: sum.splits)

text \<open>The same recursion is a counting loop that changes a state and can fault.\<close>

abbreviation for_each :: "('s \<Rightarrow> 'a \<Rightarrow> 's res) \<Rightarrow> 'a list \<Rightarrow> 's \<Rightarrow> 's res" where
  "for_each f xs s \<equiv> push_all f s xs"

lemma for_each_inv:
  assumes "\<And>s x s'. P s \<Longrightarrow> x \<in> set xs \<Longrightarrow> f s x = Inr s' \<Longrightarrow> P s'"
    and "P s" "for_each f xs s = Inr s'"
  shows "P s'"
  using assms
proof (induction xs arbitrary: s)
  case (Cons x xs)
  obtain s1 where s1: "f s x = Inr s1" "for_each f xs s1 = Inr s'"
    using Cons.prems(3) by (auto simp: bind_res_eq_Inr)
  have "P s1" using Cons.prems(1) [OF Cons.prems(2) _ s1(1)] by simp
  from Cons.IH [OF _ this s1(2)] Cons.prems(1) show ?case by (meson list.set_intros(2))
qed simp

lemma for_each_reach:
  assumes "\<And>s x s'. P s \<Longrightarrow> f s x = Inr s' \<Longrightarrow> P s'"
    and "P s" "for_each f xs s = Inr s'" "x \<in> set xs"
  shows "\<exists>s1 s2. P s1 \<and> f s1 x = Inr s2"
proof -
  obtain ys zs where sp: "xs = ys @ x # zs" using assms(4) by (meson split_list)
  obtain s1 s2 where s1: "for_each f ys s = Inr s1" "f s1 x = Inr s2"
    using assms(3) unfolding sp by (auto simp: push_all_append bind_res_eq_Inr)
  have "P s1" by (rule for_each_inv [where P = P, OF _ assms(2) s1(1)]) (rule assms(1))
  then show ?thesis using s1(2) by blast
qed

lemma for_each_total:
  assumes "\<And>s x. P s \<Longrightarrow> x \<in> set xs \<Longrightarrow> \<exists>s'. f s x = Inr s' \<and> P s'" "P s"
  shows "\<exists>s'. for_each f xs s = Inr s' \<and> P s'"
  using assms
proof (induction xs arbitrary: s)
  case (Cons x xs)
  obtain s1 where s1: "f s x = Inr s1" "P s1" using Cons.prems by (meson list.set_intros(1))
  have "\<exists>s'. for_each f xs s1 = Inr s' \<and> P s'"
    by (rule Cons.IH [OF _ s1(2)]) (use Cons.prems(1) in \<open>meson list.set_intros(2)\<close>)
  then show ?case using s1(1) by simp
qed simp

lemma for_each_fault:
  assumes "\<And>s x e. x \<in> set xs \<Longrightarrow> f s x = Inl e \<Longrightarrow> e = e0" "for_each f xs s = Inl e"
  shows "e = e0"
  using assms
proof (induction xs arbitrary: s)
  case (Cons x xs)
  show ?case
  proof (cases "f s x")
    case (Inl a)
    then show ?thesis using Cons.prems(1) [OF _ Inl] Cons.prems(2) by simp
  next
    case (Inr s1)
    have "for_each f xs s1 = Inl e" using Cons.prems(2) Inr by simp
    then show ?thesis by (rule Cons.IH [rotated]) (rule Cons.prems(1), auto)
  qed
qed simp

locale growable = appendable +
  assumes always_room: "inv c \<Longrightarrow> room c"
begin

lemma push_all_ok:
  "inv c \<Longrightarrow> \<exists>c'. push_all push c xs = Inr c' \<and> inv c' \<and> view c' = view c @ xs"
proof (induction xs arbitrary: c)
  case (Cons x xs)
  obtain c1 where c1: "push c x = Inr c1" "inv c1" "view c1 = view c @ [x]"
    using push_ok [OF Cons.prems always_room [OF Cons.prems]] by blast
  from Cons.IH [OF c1(2)] c1 show ?case by auto
qed simp

end

text \<open>
  A queue: appending at one end, removing at the other. Removing from an empty queue stops the
  kernel, and a queue that was just popped has room again.
\<close>

locale fifo = appendable +
  fixes pop :: "'a \<Rightarrow> ('b \<times> 'a) res"
  assumes pop_Cons: "inv c \<Longrightarrow> view c = x # xs \<Longrightarrow>
      \<exists>c'. pop c = Inr (x, c') \<and> inv c' \<and> view c' = xs \<and> room c'"
    and pop_Nil: "inv c \<Longrightarrow> view c = [] \<Longrightarrow> pop c = Inl Panic"
begin

text \<open>Popping an element and pushing it again rotates the queue.\<close>

lemma pop_push_rotate:
  assumes "inv c" "view c = x # xs"
  shows "\<exists>c'. bind_res (pop c) (\<lambda>(y, c1). push c1 y) = Inr c' \<and> inv c' \<and> view c' = xs @ [x]"
proof -
  obtain c1 where c1: "pop c = Inr (x, c1)" "inv c1" "view c1 = xs" "room c1"
    using pop_Cons [OF assms] by blast
  from push_ok [OF c1(2,4), of x] c1 show ?thesis by auto
qed

end

text \<open>
  A table with a finite map as its abstract value. \<open>lookup_table\<close> only promises what inserting an
  absent key does; \<open>updating_table\<close> also promises that inserting a present key replaces its value.
\<close>

primrec insert_all :: "('t \<Rightarrow> 'k \<Rightarrow> 'v \<Rightarrow> 't res) \<Rightarrow> 't \<Rightarrow> ('k \<times> 'v) list \<Rightarrow> 't res" where
  "insert_all f t [] = Inr t"
| "insert_all f t (kv # kvs) = bind_res (f t (fst kv) (snd kv)) (\<lambda>t'. insert_all f t' kvs)"

locale lookup_table =
  fixes tinv :: "'t \<Rightarrow> bool"
    and look :: "'t \<Rightarrow> 'k \<Rightarrow> 'v option"
    and ins :: "'t \<Rightarrow> 'k \<Rightarrow> 'v \<Rightarrow> 't res"
  assumes ins_new: "tinv t \<Longrightarrow> look t k = None \<Longrightarrow>
    \<exists>t'. ins t k v = Inr t' \<and> tinv t' \<and> look t' = (look t)(k \<mapsto> v)"
begin

lemma insert_all_new:
  assumes "tinv t" "distinct (map fst kvs)" "\<forall>k \<in> fst ` set kvs. look t k = None"
  shows "\<exists>t'. insert_all ins t kvs = Inr t' \<and> tinv t' \<and> look t' = look t ++ map_of kvs"
  using assms
proof (induction kvs arbitrary: t)
  case (Cons kv kvs)
  obtain k v where kv: "kv = (k, v)" by (cases kv)
  have "look t k = None" using Cons.prems(3) kv by simp
  then obtain t1 where t1: "ins t k v = Inr t1" "tinv t1" "look t1 = (look t)(k \<mapsto> v)"
    using ins_new [OF Cons.prems(1)] by blast
  have d: "distinct (map fst kvs)" and k: "k \<notin> fst ` set kvs" using Cons.prems(2) kv by auto
  have "\<forall>k' \<in> fst ` set kvs. look t1 k' = None"
    using Cons.prems(3) k kv unfolding t1(3) by (metis fun_upd_apply image_insert insertCI list.set(2))
  from Cons.IH [OF t1(2) d this] obtain t' where t': "insert_all ins t1 kvs = Inr t'" "tinv t'"
    "look t' = look t1 ++ map_of kvs" by blast
  have "map_of kvs k = None" using k by (simp add: map_of_eq_None_iff)
  then have "(look t)(k \<mapsto> v) ++ map_of kvs = look t ++ map_of (kv # kvs)"
    using kv by (auto simp: fun_eq_iff map_add_def split: option.splits)
  then have "look t' = look t ++ map_of (kv # kvs)" using t'(3) t1(3) by metis
  moreover have "insert_all ins t (kv # kvs) = Inr t'" using t1(1) t'(1) kv by simp
  ultimately show ?case using t'(2) by blast
qed simp

end

locale updating_table = lookup_table +
  assumes ins_old: "tinv t \<Longrightarrow> look t k = Some u \<Longrightarrow>
    \<exists>t'. ins t k v = Inr t' \<and> tinv t' \<and> look t' = (look t)(k \<mapsto> v)"
begin

lemma ins_any: "tinv t \<Longrightarrow> \<exists>t'. ins t k v = Inr t' \<and> tinv t' \<and> look t' = (look t)(k \<mapsto> v)"
  using ins_new [of t k v] ins_old [of t k _ v] by (cases "look t k") auto

lemma insert_all_any:
  "tinv t \<Longrightarrow> \<exists>t'. insert_all ins t kvs = Inr t' \<and> tinv t' \<and> look t' = look t ++ map_of (rev kvs)"
proof (induction kvs arbitrary: t)
  case (Cons kv kvs)
  obtain t1 where t1: "ins t (fst kv) (snd kv) = Inr t1" "tinv t1" "look t1 = (look t)(fst kv \<mapsto> snd kv)"
    using ins_any [OF Cons.prems] by blast
  have "look t ++ map_of (rev (kv # kvs)) = (look t)(fst kv \<mapsto> snd kv) ++ map_of (rev kvs)"
    by (cases kv) (simp add: map_add_upd_left map_of_append map_add_assoc)
  moreover obtain t' where t': "insert_all ins t1 kvs = Inr t'" "tinv t'"
    "look t' = look t1 ++ map_of (rev kvs)" using Cons.IH [OF t1(2)] by blast
  ultimately have "look t' = look t ++ map_of (rev (kv # kvs))" using t1(3) by metis
  moreover have "insert_all ins t (kv # kvs) = Inr t'" using t1(1) t'(1) by simp
  ultimately show ?case using t'(2) by blast
qed simp

end

end
