(* ===== verification/KMem.thy ===== *)
theory KMem
  imports Prelude
begin

text \<open>
  \<open>kernel/lib/mem.cpp\<close>: the byte operations every other component is built on. Memory is a function
  from 64-bit addresses to bytes; addresses wrap around as pointers do. The loop counters are
  \<open>nat\<close>: they never exceed the \<open>uint64\<close> size they run up to.
\<close>

type_synonym kmem = "u64 \<Rightarrow> u8"

definition load8 :: "kmem \<Rightarrow> u64 \<Rightarrow> u8 list" where
  "load8 m a = map (\<lambda>k. m (a + of_nat k)) [0..<8]"

definition store8 :: "kmem \<Rightarrow> u64 \<Rightarrow> u8 list \<Rightarrow> kmem" where
  "store8 m a bs = (\<lambda>x. if unat (x - a) < 8 then bs ! unat (x - a) else m x)"

function memcpy_words :: "kmem \<Rightarrow> u64 \<Rightarrow> u64 \<Rightarrow> nat \<Rightarrow> nat \<Rightarrow> kmem" where
  "memcpy_words m dst src i n =
     (if i < n
      then memcpy_words (store8 m (dst + of_nat (8 * i)) (load8 m (src + of_nat (8 * i)))) dst src (Suc i) n
      else m)"
  by pat_completeness auto
termination
  by (relation "measure (\<lambda>(m, dst, src, i, n). n - i)") auto

function memcpy_bytes :: "kmem \<Rightarrow> u64 \<Rightarrow> u64 \<Rightarrow> nat \<Rightarrow> nat \<Rightarrow> kmem" where
  "memcpy_bytes m dst src i n =
     (if i < n then memcpy_bytes (m(dst + of_nat i := m (src + of_nat i))) dst src (Suc i) n else m)"
  by pat_completeness auto
termination
  by (relation "measure (\<lambda>(m, dst, src, i, n). n - i)") auto

text \<open>\<open>memcpy\<close>: whole 64-bit words first, then the remaining bytes.\<close>

definition memcpy :: "kmem \<Rightarrow> u64 \<Rightarrow> u64 \<Rightarrow> u64 \<Rightarrow> kmem" where
  "memcpy m dst src sz =
     (let n = unat sz in
      memcpy_bytes (memcpy_words m dst src 0 (n div 8)) dst src (8 * (n div 8)) n)"

fun memmove_back :: "kmem \<Rightarrow> u64 \<Rightarrow> u64 \<Rightarrow> nat \<Rightarrow> kmem" where
  "memmove_back m d s 0 = m"
| "memmove_back m d s (Suc i) = memmove_back (m(d + of_nat i := m (s + of_nat i))) d s i"

definition memmove :: "kmem \<Rightarrow> u64 \<Rightarrow> u64 \<Rightarrow> u64 \<Rightarrow> kmem" where
  "memmove m dst src len =
     (if dst < src then memcpy m dst src len else memmove_back m dst src (unat len))"

function memset_words :: "kmem \<Rightarrow> u64 \<Rightarrow> nat \<Rightarrow> nat \<Rightarrow> kmem" where
  "memset_words m ptr i n =
     (if i < n then memset_words (store8 m (ptr + of_nat (8 * i)) (replicate 8 0)) ptr (Suc i) n else m)"
  by pat_completeness auto
termination
  by (relation "measure (\<lambda>(m, ptr, i, n). n - i)") auto

function memset_bytes :: "kmem \<Rightarrow> u64 \<Rightarrow> u8 \<Rightarrow> nat \<Rightarrow> nat \<Rightarrow> kmem" where
  "memset_bytes m ptr v i n =
     (if i < n then memset_bytes (m(ptr + of_nat i := v)) ptr v (Suc i) n else m)"
  by pat_completeness auto
termination
  by (relation "measure (\<lambda>(m, ptr, v, i, n). n - i)") auto

definition memset :: "kmem \<Rightarrow> u64 \<Rightarrow> u8 \<Rightarrow> u64 \<Rightarrow> kmem" where
  "memset m ptr v sz =
     (let n = unat sz in
      if v = 0 then memset_bytes (memset_words m ptr 0 (n div 8)) ptr 0 (8 * (n div 8)) n
      else memset_bytes m ptr v 0 n)"

function memcmp_from :: "kmem \<Rightarrow> u64 \<Rightarrow> u64 \<Rightarrow> nat \<Rightarrow> nat \<Rightarrow> bool" where
  "memcmp_from m p1 p2 i n =
     (if i < n then (if m (p1 + of_nat i) \<noteq> m (p2 + of_nat i) then False
                     else memcmp_from m p1 p2 (Suc i) n)
      else True)"
  by pat_completeness auto
termination
  by (relation "measure (\<lambda>(m, p1, p2, i, n). n - i)") auto

text \<open>\<open>memcmp\<close> of this kernel returns true for equal regions, unlike the C function of that name.\<close>

definition memcmp :: "kmem \<Rightarrow> u64 \<Rightarrow> u64 \<Rightarrow> u64 \<Rightarrow> bool" where
  "memcmp m p1 p2 sz = memcmp_from m p1 p2 0 (unat sz)"

text \<open>\<open>strlen\<close> counts in an \<open>unsigned int\<close>; the loop does not return when no zero byte is met.\<close>

partial_function (option) strlen_from :: "kmem \<Rightarrow> u64 \<Rightarrow> u32 \<Rightarrow> u32 option" where
  "strlen_from m str i = (if m (str + ucast i) \<noteq> 0 then strlen_from m str (i + 1) else Some i)"

definition strlen :: "kmem \<Rightarrow> u64 \<Rightarrow> u32 option" where
  "strlen m str = strlen_from m str 0"

declare memcpy_words.simps [simp del] memcpy_bytes.simps [simp del]
  memset_words.simps [simp del] memset_bytes.simps [simp del] memcmp_from.simps [simp del]

section \<open>Reference definitions\<close>

text \<open>
  \<open>blit m d s n\<close> is the memory after \<open>n\<close> bytes moved from \<open>s\<close> to \<open>d\<close> all at once, as if through a
  temporary buffer; \<open>fill m p v n\<close> the memory after \<open>n\<close> bytes set.
\<close>

definition blit :: "kmem \<Rightarrow> u64 \<Rightarrow> u64 \<Rightarrow> nat \<Rightarrow> kmem" where
  "blit m d s n = (\<lambda>x. if unat (x - d) < n then m (s + (x - d)) else m x)"

definition fill :: "kmem \<Rightarrow> u64 \<Rightarrow> u8 \<Rightarrow> nat \<Rightarrow> kmem" where
  "fill m p v n = (\<lambda>x. if unat (x - p) < n then v else m x)"

section \<open>Lemmas\<close>

lemma blit_0 [simp]: "blit m d s 0 = m"
  by (simp add: blit_def)

lemma fill_0 [simp]: "fill m p v 0 = m"
  by (simp add: fill_def)

text \<open>Offsets: where \<open>x\<close> lies relative to a region that starts \<open>i\<close> bytes later.\<close>

lemma unat_offset:
  fixes x d :: u64
  assumes "i \<le> unat (x - d)"
  shows "unat (x - (d + of_nat i)) = unat (x - d) - i"
proof -
  have i: "i < 2 ^ 64" using assms unat_lt_2p64 [of "x - d"] by linarith
  have "unat (of_nat i :: u64) = i" using i by (simp add: unat_of_nat)
  then show ?thesis using assms
    by (simp add: diff_diff_eq [symmetric] unat_sub word_le_nat_alt)
qed

lemma unat_offset_below:
  fixes x d :: u64
  assumes "unat (x - d) < i" "i + n \<le> 2 ^ 64"
  shows "n \<le> unat (x - (d + of_nat i))"
proof (cases "n = 0")
  case False
  then have i: "i < 2 ^ 64" using assms by simp
  have u: "unat (of_nat i :: u64) = i" using i by (simp add: unat_of_nat)
  have "unat (x - d - of_nat i) = unat (x - d) + 2 ^ 64 - i"
    using assms(1) u by (simp add: unat_sub_if')
  then show ?thesis using assms by (simp add: diff_diff_eq)
qed simp

lemma offset_region:
  fixes x d :: u64
  assumes "i + n \<le> 2 ^ 64"
  shows "unat (x - (d + of_nat i)) < n \<longleftrightarrow> i \<le> unat (x - d) \<and> unat (x - d) < i + n"
  using unat_offset [of i x d] unat_offset_below [of x d i n] assms
  by (cases "i \<le> unat (x - d)") (auto simp: not_le)

text \<open>
  A forward copy may continue where an earlier one stopped as long as the bytes it still has to
  read were not overwritten: the distance from destination to source is at most \<open>2 ^ 64 - n\<close>.
\<close>

lemma blit_blit_forward:
  assumes ov: "unat (s - d) + (i + c) \<le> 2 ^ 64"
  shows "blit (blit m d s i) (d + of_nat i) (s + of_nat i) c = blit m d s (i + c)"
proof
  fix x
  have ic: "i + c \<le> 2 ^ 64" using ov by simp
  note reg = offset_region [OF ic, of x d]
  show "blit (blit m d s i) (d + of_nat i) (s + of_nat i) c x = blit m d s (i + c) x"
  proof (cases "i \<le> unat (x - d) \<and> unat (x - d) < i + c")
    case True
    let ?k = "unat (x - d)"
    have "unat (s - d + (x - d)) = unat (s - d) + ?k"
      using True ov by (subst unat_plus_if') simp
    then have "i \<le> unat (s + (x - d) - d)" using True by (simp add: algebra_simps)
    then show ?thesis using True reg by (auto simp: blit_def algebra_simps)
  next
    case False
    then show ?thesis using reg by (auto simp: blit_def)
  qed
qed

lemma store8_load8: "store8 m d (load8 m s) = blit m d s 8"
proof
  fix x
  show "store8 m d (load8 m s) x = blit m d s 8 x"
    by (cases "unat (x - d) < 8") (simp_all add: store8_def load8_def blit_def)
qed

lemma upd_blit: "m(d := m s) = blit m d s 1"
proof
  fix x
  have "unat (x - d) < 1 \<longleftrightarrow> x = d" by (simp add: unat_eq_0)
  then show "(m(d := m s)) x = blit m d s 1 x" by (simp add: blit_def)
qed

lemma memcpy_words_blit:
  assumes "unat (s - d) + 8 * n \<le> 2 ^ 64" "i \<le> n"
  shows "memcpy_words (blit m d s (8 * i)) d s i n = blit m d s (8 * n)"
  using assms
proof (induction "n - i" arbitrary: i)
  case 0
  then show ?case by (simp add: memcpy_words.simps)
next
  case (Suc k)
  have step: "blit (blit m d s (8 * i)) (d + of_nat (8 * i)) (s + of_nat (8 * i)) 8 = blit m d s (8 * i + 8)"
    by (rule blit_blit_forward) (use Suc.prems Suc.hyps(2) in linarith)
  have lt: "i < n" using Suc.hyps(2) by simp
  have "memcpy_words (blit m d s (8 * i)) d s i n = memcpy_words (blit m d s (8 * Suc i)) d s (Suc i) n"
    by (subst memcpy_words.simps) (use lt step in \<open>simp add: store8_load8 add.commute\<close>)
  also have "\<dots> = blit m d s (8 * n)" by (rule Suc.hyps(1)) (use Suc in simp_all)
  finally show ?case .
qed

lemma memcpy_bytes_blit:
  assumes "unat (s - d) + n \<le> 2 ^ 64" "i \<le> n"
  shows "memcpy_bytes (blit m d s i) d s i n = blit m d s n"
  using assms
proof (induction "n - i" arbitrary: i)
  case 0
  then show ?case by (simp add: memcpy_bytes.simps)
next
  case (Suc k)
  have step: "blit (blit m d s i) (d + of_nat i) (s + of_nat i) 1 = blit m d s (i + 1)"
    by (rule blit_blit_forward) (use Suc.prems Suc.hyps(2) in linarith)
  have lt: "i < n" using Suc.hyps(2) by simp
  have "memcpy_bytes (blit m d s i) d s i n = memcpy_bytes (blit m d s (Suc i)) d s (Suc i) n"
    by (subst memcpy_bytes.simps) (use lt step in \<open>simp add: upd_blit\<close>)
  then show ?case using Suc by simp
qed

lemma memcpy_blit:
  assumes "unat (src - dst) + unat sz \<le> 2 ^ 64"
  shows "memcpy m dst src sz = blit m dst src (unat sz)"
proof -
  have le: "8 * (unat sz div 8) \<le> unat sz" by simp
  have "unat (src - dst) + 8 * (unat sz div 8) \<le> 2 ^ 64" using assms le by linarith
  from memcpy_words_blit [OF this, of 0]
  have "memcpy_words m dst src 0 (unat sz div 8) = blit m dst src (8 * (unat sz div 8))" by simp
  then show ?thesis using memcpy_bytes_blit [OF assms le] by (simp add: memcpy_def Let_def)
qed

text \<open>
  The backward loop: the mirror image. It may run when the source region does not start inside
  the part of the destination that is written before it is read.
\<close>

lemma blit_snoc_back:
  assumes ov: "unat (d - s) + (i + 1 + c) \<le> 2 ^ 64"
  shows "(blit m (d + of_nat (Suc i)) (s + of_nat (Suc i)) c)
      (d + of_nat i := blit m (d + of_nat (Suc i)) (s + of_nat (Suc i)) c (s + of_nat i)) =
    blit m (d + of_nat i) (s + of_nat i) (Suc c)"
proof
  fix x
  let ?d = "d + of_nat i" and ?s = "s + of_nat i"
  have ds: "d + of_nat (Suc i) = ?d + of_nat 1" "s + of_nat (Suc i) = ?s + of_nat 1"
    by simp_all
  have keep: "blit m (d + of_nat (Suc i)) (s + of_nat (Suc i)) c ?s = m ?s"
  proof (cases "c = 0")
    case False
    have "\<not> unat (?s - (?d + of_nat 1)) < c"
    proof -
      have "unat (?s - ?d) = 0 \<or> c + 1 \<le> unat (?s - ?d)"
      proof (cases "s = d")
        case ne: False
        have "unat (s - d) = 2 ^ 64 - unat (d - s)"
          using ne unat_lt_2p64 [of s] unat_lt_2p64 [of d]
          by (auto simp: unat_sub_if' word_unat_eq_iff)
        then show ?thesis using ov by simp
      qed simp
      then show ?thesis using ov False offset_region [of 1 c ?s ?d] by auto
    qed
    then show ?thesis unfolding ds by (simp add: blit_def)
  qed simp
  show "((blit m (d + of_nat (Suc i)) (s + of_nat (Suc i)) c)
      (?d := blit m (d + of_nat (Suc i)) (s + of_nat (Suc i)) c ?s)) x = blit m ?d ?s (Suc c) x"
  proof (cases "x = ?d")
    case True
    then show ?thesis using keep by (simp add: blit_def)
  next
    case False
    then have nz: "1 \<le> unat (x - ?d)" by (simp add: Suc_le_eq unat_gt_0)
    have "unat (x - (?d + of_nat 1)) < c \<longleftrightarrow> 1 \<le> unat (x - ?d) \<and> unat (x - ?d) < 1 + c"
      by (rule offset_region) (use ov in simp)
    then show ?thesis using False nz unfolding ds by (simp add: blit_def algebra_simps)
  qed
qed

lemma memmove_back_blit:
  assumes "unat (d - s) + n \<le> 2 ^ 64" "i \<le> n"
  shows "memmove_back (blit m (d + of_nat i) (s + of_nat i) (n - i)) d s i = blit m d s n"
  using assms
proof (induction i)
  case (Suc i)
  have "unat (d - s) + (i + 1 + (n - Suc i)) \<le> 2 ^ 64" using Suc.prems by simp
  note step = blit_snoc_back [OF this, of m]
  have "Suc (n - Suc i) = n - i" using Suc.prems by simp
  then show ?case using Suc step by simp
qed simp

text \<open>
  \<open>C37\<close> \<open>memmove\<close> is correct for every overlap of source and destination: whenever neither region
  runs past the end of the address space, the result is the copy through a temporary buffer.
\<close>

theorem memmove_correct:
  assumes "unat dst + unat len \<le> 2 ^ 64" "unat src + unat len \<le> 2 ^ 64"
  shows "memmove m dst src len = blit m dst src (unat len)"
proof (cases "dst < src")
  case True
  then have "unat (src - dst) + unat len \<le> 2 ^ 64"
    using assms by (simp add: unat_sub word_less_nat_alt less_imp_le word_le_nat_alt)
  then show ?thesis using True memcpy_blit by (simp add: memmove_def)
next
  case False
  then have "unat (dst - src) + unat len \<le> 2 ^ 64"
    using assms by (simp add: unat_sub not_less word_le_nat_alt)
  from memmove_back_blit [OF this order_refl, of m] show ?thesis
    using False by (simp add: memmove_def)
qed

theorem memmove_correct_witness:
  "memmove (\<lambda>x. if x = 16 then 7 else 0) 17 16 9 17 = (7 :: u8)"
  by (subst memmove_correct) (simp_all add: blit_def)

section \<open>Filling and comparing\<close>

lemma fill_fill: "i + c \<le> 2 ^ 64 \<Longrightarrow> fill (fill m p v i) (p + of_nat i) v c = fill m p v (i + c)"
  by (rule ext) (auto simp: fill_def offset_region)

lemma upd_fill: "m(p := v) = fill m p v 1"
  by (rule ext) (auto simp: fill_def unat_eq_0)

lemma store8_zero_fill: "store8 m p (replicate 8 0) = fill m p 0 8"
  by (rule ext) (simp add: store8_def fill_def)

lemma memset_words_fill:
  assumes "8 * n \<le> 2 ^ 64" "i \<le> n"
  shows "memset_words (fill m p 0 (8 * i)) p i n = fill m p 0 (8 * n)"
  using assms
proof (induction "n - i" arbitrary: i)
  case 0
  then show ?case by (simp add: memset_words.simps)
next
  case (Suc k)
  have lt: "i < n" using Suc.hyps(2) by simp
  have step: "fill (fill m p 0 (8 * i)) (p + of_nat (8 * i)) 0 8 = fill m p 0 (8 * i + 8)"
    by (rule fill_fill) (use Suc.prems lt in linarith)
  have "memset_words (fill m p 0 (8 * i)) p i n = memset_words (fill m p 0 (8 * Suc i)) p (Suc i) n"
    by (subst memset_words.simps) (use lt step in \<open>simp add: store8_zero_fill add.commute del: replicate.simps\<close>)
  also have "\<dots> = fill m p 0 (8 * n)" by (rule Suc.hyps(1)) (use Suc in simp_all)
  finally show ?case .
qed

lemma memset_bytes_fill:
  assumes "n \<le> 2 ^ 64" "i \<le> n"
  shows "memset_bytes (fill m p v i) p v i n = fill m p v n"
  using assms
proof (induction "n - i" arbitrary: i)
  case 0
  then show ?case by (simp add: memset_bytes.simps)
next
  case (Suc k)
  have lt: "i < n" using Suc.hyps(2) by simp
  have step: "fill (fill m p v i) (p + of_nat i) v 1 = fill m p v (i + 1)"
    by (rule fill_fill) (use Suc.prems lt in linarith)
  have "memset_bytes (fill m p v i) p v i n = memset_bytes (fill m p v (Suc i)) p v (Suc i) n"
    by (subst memset_bytes.simps) (use lt step in \<open>simp add: upd_fill\<close>)
  then show ?case using Suc by simp
qed

lemma memset_fill: "memset m ptr v sz = fill m ptr v (unat sz)"
proof -
  have le: "8 * (unat sz div 8) \<le> unat sz" "unat sz \<le> 2 ^ 64"
    using unat_lt_2p64 [of sz] by (simp_all add: less_imp_le)
  show ?thesis
    using memset_words_fill [of "unat sz div 8" 0 m ptr] le
      memset_bytes_fill [OF le(2,1), of m ptr 0] memset_bytes_fill [OF le(2), of 0 m ptr v]
    by (simp add: memset_def Let_def)
qed

lemma memcmp_from_iff:
  "i \<le> n \<Longrightarrow> memcmp_from m p1 p2 i n \<longleftrightarrow> (\<forall>k. i \<le> k \<and> k < n \<longrightarrow> m (p1 + of_nat k) = m (p2 + of_nat k))"
proof (induction "n - i" arbitrary: i)
  case 0
  then show ?case by (auto simp: memcmp_from.simps)
next
  case (Suc d)
  then have lt: "i < n" by simp
  have split: "i \<le> k \<and> k < n \<longleftrightarrow> k = i \<or> Suc i \<le> k \<and> k < n" for k using lt by auto
  show ?case
    using Suc.hyps(1) [of "Suc i"] Suc.hyps(2) lt
    by (subst memcmp_from.simps) (auto simp: split)
qed

lemma memcmp_iff:
  "memcmp m p1 p2 sz \<longleftrightarrow> (\<forall>k < unat sz. m (p1 + of_nat k) = m (p2 + of_nat k))"
  by (simp add: memcmp_def memcmp_from_iff)

text \<open>\<open>strlen\<close> returns the distance to the first zero byte, when there is one within \<open>2 ^ 32\<close> bytes.\<close>

lemma strlen_from_first_zero:
  assumes "n < 2 ^ 32" "m (str + of_nat n) = 0" "\<forall>k < n. m (str + of_nat k) \<noteq> 0" "i \<le> n"
  shows "strlen_from m str (of_nat i) = Some (of_nat n)"
  using assms(4)
proof (induction "n - i" arbitrary: i)
  case 0
  then have "i = n" by simp
  moreover have "ucast (of_nat n :: u32) = (of_nat n :: u64)"
    using assms(1) by (simp add: unsigned_of_nat take_bit_nat_eq_self)
  ultimately show ?case using assms(2) by (subst strlen_from.simps) simp
next
  case (Suc k)
  then have lt: "i < n" by simp
  have "ucast (of_nat i :: u32) = (of_nat i :: u64)"
    using assms(1) lt by (simp add: unsigned_of_nat take_bit_nat_eq_self)
  moreover have "m (str + of_nat i) \<noteq> 0" using assms(3) lt by blast
  moreover have "strlen_from m str (of_nat (Suc i)) = Some (of_nat n)"
    using Suc.hyps(1) [of "Suc i"] Suc.hyps(2) lt by simp
  ultimately show ?case by (subst strlen_from.simps) (simp add: add.commute)
qed

lemma strlen_first_zero:
  assumes "n < 2 ^ 32" "m (str + of_nat n) = 0" "\<forall>k < n. m (str + of_nat k) \<noteq> 0"
  shows "strlen m str = Some (of_nat n)"
  using strlen_from_first_zero [OF assms, of 0] by (simp add: strlen_def)

end
