(* ===== verification/KVector.thy ===== *)
theory KVector
  imports Prelude
begin

text \<open>
  \<open>include/lib/vector.h\<close>: the growable array. A vector owns its buffer; the buffer is the list of
  its cells, \<open>None\<close> a cell that holds no constructed element (fresh memory of \<open>kmalloc\<close> or
  \<open>krealloc\<close>). A null buffer is the empty list. Sizes are \<open>nat\<close>: the buffer would have to fill the
  address space before the \<open>uint64\<close> fields could wrap. Allocation is taken to succeed, as the
  class never checks it.
\<close>

record 'a vector =
  vdata :: "'a option list"
  vsize :: nat
  vdataSize :: nat

definition vec_null :: "'a vector" where
  "vec_null = \<lparr>vdata = [], vsize = 0, vdataSize = 0\<rparr>"

definition vec_realloc :: "'a vector \<Rightarrow> nat \<Rightarrow> 'a vector" where
  "vec_realloc v newSize =
     v\<lparr>vdataSize := newSize,
       vdata := take newSize (vdata v) @ replicate (newSize - length (vdata v)) None\<rparr>"

definition vec_new :: "'a vector" where
  "vec_new = vec_realloc vec_null 10"

definition vec_new_sized :: "nat \<Rightarrow> 'a vector" where
  "vec_new_sized n = vec_realloc vec_null n"

text \<open>\<open>memcpy\<close> of the first \<open>n\<close> cells of another buffer to position \<open>at\<close> of this one.\<close>

definition vec_blit :: "'a vector \<Rightarrow> nat \<Rightarrow> 'a option list \<Rightarrow> nat \<Rightarrow> 'a vector res" where
  "vec_blit v at src n =
     (if n \<le> length src \<and> at + n \<le> length (vdata v)
      then Inr (v\<lparr>vdata := take at (vdata v) @ take n src @ drop (at + n) (vdata v)\<rparr>)
      else Inl BadAccess)"

definition vec_copy :: "'a vector \<Rightarrow> 'a vector res" where
  "vec_copy other =
     bind_res (vec_blit (vec_realloc vec_null (vdataSize other)) 0 (vdata other) (vsize other))
       (\<lambda>v. Inr (v\<lparr>vsize := vsize other\<rparr>))"

definition vec_assign :: "'a vector \<Rightarrow> 'a vector \<Rightarrow> 'a vector res" where
  "vec_assign v other =
     vec_blit ((vec_realloc v (vsize other))\<lparr>vsize := vsize other\<rparr>) 0 (vdata other) (vsize other)"

definition vec_push :: "'a vector \<Rightarrow> 'a \<Rightarrow> 'a vector res" where
  "vec_push v x =
     (let v' = (if vsize v = vdataSize v
                then vec_realloc v (if vdataSize v \<noteq> 0 then vdataSize v * 2 else 1) else v)
      in if vsize v' < length (vdata v')
         then Inr (v'\<lparr>vdata := (vdata v')[vsize v' := Some x], vsize := Suc (vsize v')\<rparr>)
         else Inl BadAccess)"

text \<open>\<open>operator[]\<close> does not check its index; reading outside the buffer or an unset cell is a fault.\<close>

definition vec_at :: "'a vector \<Rightarrow> nat \<Rightarrow> 'a res" where
  "vec_at v i = (if i < length (vdata v)
                 then (case vdata v ! i of Some x \<Rightarrow> Inr x | None \<Rightarrow> Inl BadAccess)
                 else Inl BadAccess)"

definition vec_set :: "'a vector \<Rightarrow> nat \<Rightarrow> 'a \<Rightarrow> 'a vector res" where
  "vec_set v i x = (if i < length (vdata v) then Inr (v\<lparr>vdata := (vdata v)[i := Some x]\<rparr>)
                    else Inl BadAccess)"

definition vec_empty :: "'a vector \<Rightarrow> bool" where
  "vec_empty v \<longleftrightarrow> vsize v = 0"

text \<open>\<open>find\<close>: the index stands for the returned pointer, \<open>None\<close> for \<open>nullptr\<close>.\<close>

function vec_find_from :: "('a \<Rightarrow> bool) \<Rightarrow> 'a vector \<Rightarrow> nat \<Rightarrow> nat option res" where
  "vec_find_from f v i =
     (if i < vsize v
      then bind_res (vec_at v i) (\<lambda>x. if f x then Inr (Some i) else vec_find_from f v (Suc i))
      else Inr None)"
  by pat_completeness auto
termination
  by (relation "measure (\<lambda>(f, v, i). vsize v - i)") auto

definition vec_find :: "('a \<Rightarrow> bool) \<Rightarrow> 'a vector \<Rightarrow> nat option res" where
  "vec_find f v = vec_find_from f v 0"

text \<open>
  \<open>remove\<close>: every occurrence is squeezed out by moving the tail down by one cell; the cell behind
  the new end keeps its old contents.
\<close>

definition vec_squeeze :: "'a vector \<Rightarrow> nat \<Rightarrow> 'a vector" where
  "vec_squeeze v i =
     v\<lparr>vdata := take i (vdata v) @ take (vsize v - i - 1) (drop (i + 1) (vdata v))
                 @ drop (vsize v - 1) (vdata v),
       vsize := vsize v - 1\<rparr>"

function vec_remove_from :: "'a vector \<Rightarrow> 'a \<Rightarrow> nat \<Rightarrow> 'a vector res" where
  "vec_remove_from v x i =
     (if i < vsize v
      then bind_res (vec_at v i) (\<lambda>y. if y = x then vec_remove_from (vec_squeeze v i) x i
                                      else vec_remove_from v x (Suc i))
      else Inr v)"
  by pat_completeness auto
termination
  by (relation "measure (\<lambda>(v, x, i). vsize v - i)") (auto simp: vec_squeeze_def)

definition vec_remove :: "'a vector \<Rightarrow> 'a \<Rightarrow> 'a vector res" where
  "vec_remove v x = vec_remove_from v x 0"

text \<open>
  \<open>clear\<close> is \<open>memset(_data, 0, dataSize)\<close>: \<open>dataSize\<close> counts elements, \<open>memset\<close> counts bytes. With
  elements of \<open>sz\<close> bytes the cells below \<open>dataSize div sz\<close> become the all-zero element \<open>z\<close>, a cell
  that is only partly overwritten holds no valid element, the cells behind keep their contents, and
  the number of elements does not change.
\<close>

definition vec_clear :: "nat \<Rightarrow> 'a \<Rightarrow> 'a vector \<Rightarrow> 'a vector" where
  "vec_clear sz z v =
     v\<lparr>vdata := map (\<lambda>(i, c). if Suc i * sz \<le> vdataSize v then Some z
                              else if i * sz < vdataSize v then None else c)
                  (enumerate 0 (vdata v))\<rparr>"

declare vec_find_from.simps [simp del] vec_remove_from.simps [simp del]

section \<open>Abstract view and invariant\<close>

definition vec_list :: "'a vector \<Rightarrow> 'a list" where
  "vec_list v = map the (take (vsize v) (vdata v))"

definition vec_inv :: "'a vector \<Rightarrow> bool" where
  "vec_inv v \<longleftrightarrow> length (vdata v) = vdataSize v \<and> vsize v \<le> vdataSize v \<and>
     None \<notin> set (take (vsize v) (vdata v))"

section \<open>Lemmas\<close>

lemma vec_invI:
  assumes "take n d = map Some xs" "length xs = n" "length d = k" "n \<le> k"
  shows "vec_inv \<lparr>vdata = d, vsize = n, vdataSize = k\<rparr>"
    and "vec_list \<lparr>vdata = d, vsize = n, vdataSize = k\<rparr> = xs"
  using assms by (auto simp: vec_inv_def vec_list_def)

text \<open>The invariant says exactly that the buffer starts with the elements of the view.\<close>

lemma vec_inv_iff:
  "vec_inv v \<longleftrightarrow> length (vdata v) = vdataSize v \<and> vsize v \<le> vdataSize v \<and>
     take (vsize v) (vdata v) = map Some (vec_list v)"
proof -
  have "None \<notin> set (take n d) \<longleftrightarrow> take n d = map Some (map the (take n d))" for n and d :: "'a option list"
  proof -
    have "None \<notin> set xs \<longleftrightarrow> xs = map Some (map the xs)" for xs :: "'a option list"
      by (induction xs) auto
    then show ?thesis by blast
  qed
  then show ?thesis by (auto simp: vec_inv_def vec_list_def)
qed

lemma vec_list_length: "vec_inv v \<Longrightarrow> length (vec_list v) = vsize v"
  by (simp add: vec_inv_def vec_list_def)

lemma vec_data_split:
  "vec_inv v \<Longrightarrow> vdata v = map Some (vec_list v) @ drop (vsize v) (vdata v)"
  by (metis append_take_drop_id vec_inv_iff)

lemma vec_at_list: "vec_inv v \<Longrightarrow> i < vsize v \<Longrightarrow> vec_at v i = Inr (vec_list v ! i)"
proof -
  assume v: "vec_inv v" and i: "i < vsize v"
  have "vdata v ! i = (map Some (vec_list v) @ drop (vsize v) (vdata v)) ! i"
    using vec_data_split [OF v] by simp
  also have "\<dots> = Some (vec_list v ! i)" using i vec_list_length [OF v] by (simp add: nth_append)
  finally show ?thesis using v i by (simp add: vec_at_def vec_inv_def)
qed

lemma vec_set_ok:
  assumes "vec_inv v" "i < vsize v"
  shows "\<exists>w. vec_set v i x = Inr w \<and> vec_inv w \<and> vec_list w = (vec_list v)[i := x]"
proof -
  have d: "vdata v = map Some (vec_list v) @ drop (vsize v) (vdata v)" and l: "length (vec_list v) = vsize v"
    using assms(1) by (rule vec_data_split, rule vec_list_length)
  have "take (vsize v) ((vdata v)[i := Some x]) = map Some ((vec_list v)[i := x])"
    using assms l by (simp add: take_update_swap map_update) (simp add: vec_inv_iff)
  moreover have "length (vdata v) = vdataSize v" "vsize v \<le> vdataSize v" using assms(1) by (simp_all add: vec_inv_def)
  ultimately have "vec_inv (v\<lparr>vdata := (vdata v)[i := Some x]\<rparr>) \<and> vec_list (v\<lparr>vdata := (vdata v)[i := Some x]\<rparr>) = (vec_list v)[i := x]"
    using vec_invI [of "vsize v" "(vdata v)[i := Some x]" "(vec_list v)[i := x]" "vdataSize v"] l
    by (cases v) simp
  then show ?thesis using assms \<open>length (vdata v) = vdataSize v\<close> \<open>vsize v \<le> vdataSize v\<close> by (simp add: vec_set_def)
qed

lemma vec_realloc_abs:
  assumes "vec_inv v" "vsize v \<le> n"
  shows "vec_inv (vec_realloc v n) \<and> vec_list (vec_realloc v n) = vec_list v"
  using assms by (auto simp: vec_inv_def vec_list_def vec_realloc_def take_map min_def)

lemma vec_null_inv: "vec_inv vec_null \<and> vec_list vec_null = []"
  by (simp add: vec_inv_def vec_list_def vec_null_def)

lemma vec_new_sized_inv: "vec_inv (vec_new_sized n) \<and> vec_list (vec_new_sized n) = []"
  by (simp add: vec_new_sized_def vec_realloc_def vec_null_def vec_inv_def vec_list_def)

lemma vec_new_inv: "vec_inv vec_new \<and> vec_list vec_new = []"
  unfolding vec_new_def vec_new_sized_def [symmetric] by (rule vec_new_sized_inv)

lemma vec_push_ok:
  assumes v: "vec_inv v"
  shows "\<exists>v'. vec_push v x = Inr v' \<and> vec_inv v' \<and> vec_list v' = vec_list v @ [x]"
proof -
  define w where "w = (if vsize v = vdataSize v
      then vec_realloc v (if vdataSize v \<noteq> 0 then vdataSize v * 2 else 1) else v)"
  have w: "vec_inv w" "vec_list w = vec_list v" "vsize w = vsize v"
    using v vec_realloc_abs [OF v, of "vdataSize v * 2"] vec_realloc_abs [OF v, of 1]
    by (auto simp: w_def vec_realloc_def)
  have lt: "vsize w < vdataSize w" using v by (auto simp: w_def vec_realloc_def vec_inv_def)
  have len: "length (vdata w) = vdataSize w" using w(1) by (simp add: vec_inv_def)
  have "take (Suc (vsize w)) ((vdata w)[vsize w := Some x]) = map Some (vec_list v @ [x])"
    using w lt len by (simp add: take_Suc_conv_app_nth vec_inv_iff)
  then have "vec_inv (w\<lparr>vdata := (vdata w)[vsize w := Some x], vsize := Suc (vsize w)\<rparr>)"
    "vec_list (w\<lparr>vdata := (vdata w)[vsize w := Some x], vsize := Suc (vsize w)\<rparr>) = vec_list v @ [x]"
    using w lt len by (auto simp: vec_inv_iff vec_list_def simp del: map_append)
  then show ?thesis using lt len by (simp add: vec_push_def Let_def flip: w_def)
qed

interpretation vec: growable vec_inv vec_list vec_push "\<lambda>_. True"
  by unfold_locales (use vec_push_ok in auto)

lemma vec_blit_abs:
  assumes "vec_inv v" "n \<le> length src" "None \<notin> set (take n src)" "at \<le> vsize v" "at + n \<le> vdataSize v"
  shows "\<exists>d. vec_blit v at src n = Inr (v\<lparr>vdata := d\<rparr>) \<and> length d = vdataSize v \<and>
    take (at + n) d = map Some (take at (vec_list v) @ map the (take n src))"
proof -
  let ?d = "take at (vdata v) @ take n src @ drop (at + n) (vdata v)"
  have len: "length (vdata v) = vdataSize v" using assms(1) by (simp add: vec_inv_def)
  have "take at (vdata v) = map Some (take at (vec_list v))"
    using assms(1,4) by (metis min.absorb1 take_map take_take vec_inv_iff)
  moreover have "take n src = map Some (map the (take n src))"
    using assms(3) by (simp add: map_Some_the del: map_map)
  moreover have "take (at + n) ?d = take at (vdata v) @ take n src" "length ?d = vdataSize v"
    using assms(2,5) len by simp_all
  moreover have "vec_blit v at src n = Inr (v\<lparr>vdata := ?d\<rparr>)"
    using assms(2,5) len by (simp add: vec_blit_def)
  ultimately show ?thesis by (metis map_append)
qed

lemma vec_copy_ok:
  assumes "vec_inv v"
  shows "\<exists>w. vec_copy v = Inr w \<and> vec_inv w \<and> vec_list w = vec_list v"
proof -
  have "vec_inv (vec_realloc vec_null (vdataSize v))"
    unfolding vec_new_sized_def [symmetric] by (simp add: vec_new_sized_inv)
  from vec_blit_abs [OF this, of "vsize v" "vdata v" 0] assms
  obtain d where d: "vec_blit (vec_realloc vec_null (vdataSize v)) 0 (vdata v) (vsize v) =
      Inr ((vec_realloc vec_null (vdataSize v))\<lparr>vdata := d\<rparr>)" "length d = vdataSize v"
    "take (vsize v) d = map Some (vec_list v)"
    by (auto simp: vec_inv_def vec_realloc_def vec_null_def vec_list_def)
  then show ?thesis using assms
    by (auto simp: vec_copy_def vec_inv_iff vec_list_def vec_realloc_def vec_null_def)
qed

lemma vec_assign_ok:
  assumes "vec_inv v" "vec_inv u"
  shows "\<exists>w. vec_assign v u = Inr w \<and> vec_inv w \<and> vec_list w = vec_list u"
proof -
  let ?r = "(vec_realloc v (vsize u))\<lparr>vsize := vsize u\<rparr>"
  have lens: "length (vdata ?r) = vsize u" "vsize u \<le> length (vdata u)"
    using assms by (simp_all add: vec_realloc_def vec_inv_def)
  then have "vec_assign v u = Inr (?r\<lparr>vdata := take (vsize u) (vdata u)\<rparr>)"
    by (simp add: vec_assign_def vec_blit_def)
  moreover have "vdataSize ?r = vsize u" by (simp add: vec_realloc_def)
  ultimately show ?thesis using assms lens
    by (auto simp: vec_inv_iff vec_list_def)
qed

lemma vec_find_from_spec:
  assumes "vec_inv v" "i \<le> vsize v" "\<forall>j < i. \<not> f (vec_list v ! j)"
  shows "vec_find_from f v i =
    Inr (if \<exists>x \<in> set (vec_list v). f x then Some (LEAST j. j < vsize v \<and> f (vec_list v ! j)) else None)"
  using assms(2,3)
proof (induction "vsize v - i" arbitrary: i)
  case 0
  then have "\<forall>j < length (vec_list v). \<not> f (vec_list v ! j)" using vec_list_length [OF assms(1)] by simp
  then have "\<not> (\<exists>x \<in> set (vec_list v). f x)" by (auto simp: in_set_conv_nth)
  then show ?case using 0 by (subst vec_find_from.simps) simp
next
  case (Suc k)
  then have lt: "i < vsize v" by simp
  show ?case
  proof (cases "f (vec_list v ! i)")
    case True
    have "(LEAST j. j < vsize v \<and> f (vec_list v ! j)) = i"
      using True lt Suc.prems(2) by (intro Least_equality) (auto simp: not_less [symmetric])
    moreover have "\<exists>x \<in> set (vec_list v). f x"
      using True lt vec_list_length [OF assms(1)] by (metis nth_mem)
    ultimately show ?thesis using True lt vec_at_list [OF assms(1) lt]
      by (subst vec_find_from.simps) simp
  next
    case False
    have "vec_find_from f v i = vec_find_from f v (Suc i)"
      using False lt vec_at_list [OF assms(1) lt] by (subst vec_find_from.simps) simp
    then show ?thesis using Suc.hyps(1) [of "Suc i"] Suc.hyps(2) Suc.prems False lt
      by (simp add: less_Suc_eq all_conj_distrib)
  qed
qed

lemma vec_squeeze_abs:
  assumes "vec_inv v" "i < vsize v"
  shows "vec_inv (vec_squeeze v i) \<and>
    vec_list (vec_squeeze v i) = take i (vec_list v) @ drop (Suc i) (vec_list v)"
proof -
  let ?n = "vsize v" and ?d = "vdata v"
  let ?e = "take i ?d @ take (?n - i - 1) (drop (i + 1) ?d) @ drop (?n - 1) ?d"
  have len: "length ?d = vdataSize v" "?n \<le> vdataSize v" using assms by (auto simp: vec_inv_def)
  have pre: "take ?n ?d = map Some (vec_list v)" using assms by (simp add: vec_inv_iff)
  have "take i ?d = map Some (take i (vec_list v))"
    using pre assms(2) by (metis less_imp_le min.absorb1 take_map take_take)
  moreover have "take (?n - i - 1) (drop (i + 1) ?d) = map Some (drop (Suc i) (vec_list v))"
    using pre by (metis Suc_eq_plus1 diff_diff_left drop_map drop_take)
  moreover have "take (?n - 1) ?e = take i ?d @ take (?n - i - 1) (drop (i + 1) ?d)"
    using assms(2) len by simp
  ultimately have "take (?n - 1) ?e = map Some (take i (vec_list v) @ drop (Suc i) (vec_list v))" by simp
  moreover have "length ?e = vdataSize v" using assms(2) len by simp
  ultimately show ?thesis using len by (auto simp: vec_squeeze_def vec_inv_iff vec_list_def)
qed

lemma vec_remove_from_ok:
  assumes "vec_inv v" "i \<le> vsize v"
  shows "\<exists>w. vec_remove_from v x i = Inr w \<and> vec_inv w \<and>
    vec_list w = take i (vec_list v) @ removeAll x (drop i (vec_list v))"
  using assms
proof (induction "vsize v - i" arbitrary: v i)
  case 0
  then show ?case using vec_list_length [OF 0(2)] by (subst vec_remove_from.simps) simp
next
  case (Suc k)
  have lt: "i < vsize v" using Suc.hyps(2) by simp
  have lenv: "length (vec_list v) = vsize v" by (rule vec_list_length [OF Suc.prems(1)])
  have dropi: "drop i (vec_list v) = vec_list v ! i # drop (Suc i) (vec_list v)"
    using lt lenv by (simp add: Cons_nth_drop_Suc)
  note at = vec_at_list [OF Suc.prems(1) lt]
  show ?case
  proof (cases "vec_list v ! i = x")
    case True
    let ?w = "vec_squeeze v i"
    note sq = vec_squeeze_abs [OF Suc.prems(1) lt]
    have "k = vsize ?w - i" "i \<le> vsize ?w" using Suc.hyps(2) lt by (auto simp: vec_squeeze_def)
    from Suc.hyps(1) [OF this(1) conjunct1 [OF sq] this(2)] True at lt dropi sq lenv
    show ?thesis by (subst vec_remove_from.simps) (auto simp: min_def)
  next
    case False
    have "k = vsize v - Suc i" "Suc i \<le> vsize v" using Suc.hyps(2) by auto
    from Suc.hyps(1) [OF this(1) Suc.prems(1) this(2)] False at lt dropi lenv
    show ?thesis by (subst vec_remove_from.simps) (auto simp: take_Suc_conv_app_nth)
  qed
qed

text \<open>
  \<open>Vector::remove\<close> returns for every well-formed vector, keeps it well formed, and leaves
  exactly the elements that differ from its argument, in their order.
\<close>

theorem vec_remove_correct:
  assumes "vec_inv v"
  shows "\<exists>w. vec_remove v x = Inr w \<and> vec_inv w \<and> vec_list w = removeAll x (vec_list v)"
  using vec_remove_from_ok [OF assms, of 0 x] by (simp add: vec_remove_def)

theorem vec_remove_correct_witness:
  "\<exists>w. vec_remove \<lparr>vdata = [Some 1, Some 2, Some (1::nat), None], vsize = 3, vdataSize = 4\<rparr> 1 = Inr w \<and>
    vec_inv w \<and> vec_list w = [2]"
  using vec_remove_correct [of "\<lparr>vdata = [Some 1, Some 2, Some (1::nat), None], vsize = 3, vdataSize = 4\<rparr>" 1]
  by (simp add: vec_inv_def vec_list_def)

text \<open>
  What \<open>clear\<close> leaves behind: the size never changes, and with elements of more than one byte the
  elements from index \<open>dataSize div sz\<close> on (rounded up) are not set to zero.
\<close>

lemma vec_clear_keeps_tail:
  assumes "vec_inv v" "i < vsize v" "vdataSize v \<le> i * sz" "0 < sz"
  shows "vec_at (vec_clear sz z v) i = Inr (vec_list v ! i)" "vsize (vec_clear sz z v) = vsize v"
proof -
  have "\<not> Suc i * sz \<le> vdataSize v" "\<not> i * sz < vdataSize v" using assms(3,4) by simp_all
  then have "vec_at (vec_clear sz z v) i = vec_at v i"
    using assms(1,2) by (auto simp: vec_clear_def vec_at_def vec_inv_def nth_enumerate_eq)
  then show "vec_at (vec_clear sz z v) i = Inr (vec_list v ! i)" using vec_at_list assms by metis
qed (simp add: vec_clear_def)

end
