(* ===== verification/KString.thy ===== *)
theory KString
  imports KVector
begin

text \<open>
  \<open>include/lib/string.h\<close> and \<open>kernel/lib/string.cpp\<close>: \<open>String\<close> is a \<open>Vector<char>\<close> whose view is
  a HOL string. A \<open>const char *\<close> argument is the HOL string of its characters before the zero byte.
  Counters declared \<open>int\<close>, \<open>unsigned\<close> or \<open>uint\<close> are \<open>nat\<close> where they stay below the length of the
  string; \<open>findLastIndex\<close>, whose counter wraps, keeps its 32 bits.
\<close>

type_synonym kstr = "char vector"

definition str_of_cstr :: "string \<Rightarrow> kstr" where
  "str_of_cstr cs =
     (let v = vec_realloc vec_new (length cs)
      in v\<lparr>vdata := map Some cs, vsize := length cs\<rparr>)"

text \<open>\<open>String(const char *str, uint len)\<close> on a pointer into another string's buffer.\<close>

definition str_sub :: "kstr \<Rightarrow> nat \<Rightarrow> nat \<Rightarrow> kstr res" where
  "str_sub s start len =
     bind_res (vec_blit (vec_realloc vec_new len) 0 (drop start (vdata s)) len)
       (\<lambda>v. Inr (v\<lparr>vsize := len\<rparr>))"

definition str_copy :: "kstr \<Rightarrow> kstr res" where
  "str_copy s =
     bind_res (vec_blit (vec_realloc vec_new (vsize s)) 0 (vdata s) (vsize s))
       (\<lambda>v. Inr (v\<lparr>vsize := vsize s\<rparr>))"

definition str_c_str :: "kstr \<Rightarrow> kstr res" where
  "str_c_str s =
     (let s' = (if vdataSize s \<le> vsize s then vec_realloc s (vsize s + 1) else s)
      in vec_set s' (vsize s') (CHR 0x00))"

definition str_eq :: "kstr \<Rightarrow> kstr \<Rightarrow> bool" where
  "str_eq s t = (if vsize s \<noteq> vsize t then False
                 else take (vsize s) (vdata s) = take (vsize s) (vdata t))"

definition str_eq_cstr :: "kstr \<Rightarrow> string \<Rightarrow> bool" where
  "str_eq_cstr s cs = (if length cs \<noteq> vsize s then False
                       else take (vsize s) (vdata s) = map Some cs)"

text \<open>\<open>operator+=(const String &)\<close> and \<open>operator+=(char)\<close>.\<close>

definition str_append :: "kstr \<Rightarrow> kstr \<Rightarrow> kstr res" where
  "str_append s t =
     bind_res (vec_blit (vec_realloc s (vsize s + vsize t)) (vsize s) (vdata t) (vsize t))
       (\<lambda>v. Inr (v\<lparr>vsize := vsize s + vsize t\<rparr>))"

definition str_append_char :: "kstr \<Rightarrow> char \<Rightarrow> kstr res" where
  "str_append_char s c = vec_push s c"

text \<open>\<open>operator+\<close> with a character, a string and a C string.\<close>

definition str_plus_char :: "kstr \<Rightarrow> char \<Rightarrow> kstr res" where
  "str_plus_char s c = bind_res (str_copy s) (\<lambda>v. str_append_char v c)"

definition str_plus :: "kstr \<Rightarrow> kstr \<Rightarrow> kstr res" where
  "str_plus s t =
     bind_res (str_copy s) (\<lambda>v.
       vec_blit (vec_realloc v (vsize s + vsize t)) (vsize s) (vdata t) (vsize t))"

definition str_plus_cstr :: "kstr \<Rightarrow> string \<Rightarrow> kstr res" where
  "str_plus_cstr s cs =
     bind_res (str_copy s) (\<lambda>v.
       vec_blit (vec_realloc v (vsize s + length cs)) 0 (map Some cs) (length cs))"

function str_split_from :: "kstr \<Rightarrow> char \<Rightarrow> nat \<Rightarrow> nat \<Rightarrow> kstr vector \<Rightarrow> kstr vector res" where
  "str_split_from s delim start i result =
     (if i < vsize s
      then bind_res (vec_at s i) (\<lambda>c.
        if c = delim
        then if i - start > 0
             then bind_res (str_sub s start (i - start)) (\<lambda>piece.
                  bind_res (vec_push result piece) (\<lambda>result'.
                    str_split_from s delim (i + 1) (i + 1) result'))
             else str_split_from s delim (i + 1) (i + 1) result
        else str_split_from s delim start (i + 1) result)
      else if i - start > 0
           then bind_res (str_sub s start (i - start)) (\<lambda>piece. vec_push result piece)
           else Inr result)"
  by pat_completeness auto
termination
  by (relation "measure (\<lambda>(s, delim, start, i, result). vsize s - i)") auto

definition str_split :: "kstr \<Rightarrow> char \<Rightarrow> kstr vector res" where
  "str_split s delim = str_split_from s delim 0 0 vec_new"

definition str_slice :: "kstr \<Rightarrow> nat \<Rightarrow> nat \<Rightarrow> kstr res" where
  "str_slice s start end' =
     (if end' = start then Inr (str_of_cstr '''')
      else assert_res (start < vsize s) (assert_res (end' > start) (str_sub s start (end' - start))))"

text \<open>
  \<open>findLastIndex\<close>: \<open>uint i\<close> is always \<open>>= 0\<close>, so the loop only ends by finding the character or by
  reading outside the buffer; the final \<open>return -1\<close> is never reached.
\<close>

partial_function (option) str_rfind :: "kstr \<Rightarrow> char \<Rightarrow> u32 \<Rightarrow> int res option" where
  "str_rfind s c i =
     (case vec_at s (unat i) of
        Inl e \<Rightarrow> Some (Inl e)
      | Inr x \<Rightarrow> if x = c then Some (Inr (uint i)) else str_rfind s c (i - 1))"

definition str_findLastIndex :: "kstr \<Rightarrow> char \<Rightarrow> int res option" where
  "str_findLastIndex s c = str_rfind s c (of_nat (vsize s) - 1)"

declare str_split_from.simps [simp del]

section \<open>Reference definitions\<close>

text \<open>The non-empty pieces of a string between delimiters, \<open>cur\<close> the piece being collected.\<close>

fun pieces :: "char \<Rightarrow> string \<Rightarrow> string \<Rightarrow> string list" where
  "pieces d cur [] = (if cur = [] then [] else [cur])"
| "pieces d cur (c # cs) =
     (if c = d then (if cur = [] then pieces d [] cs else cur # pieces d [] cs)
      else pieces d (cur @ [c]) cs)"

definition components :: "string \<Rightarrow> string list" where
  "components path = pieces (CHR ''/'') [] path"

section \<open>Lemmas\<close>

lemma str_of_cstr_abs [simp]: "vec_inv (str_of_cstr cs)" "vec_list (str_of_cstr cs) = cs"
  by (auto simp: str_of_cstr_def vec_inv_def vec_list_def vec_realloc_def Let_def)

lemma vec_realloc_new: "vec_inv (vec_realloc vec_new n)" "vec_list (vec_realloc vec_new n) = []"
  "vsize (vec_realloc vec_new n) = 0" "vdataSize (vec_realloc vec_new n) = n"
  by (simp_all add: vec_new_def vec_realloc_def vec_null_def vec_inv_def vec_list_def)

lemma vec_blit_new:
  assumes "n \<le> length src" "None \<notin> set (take n src)"
  shows "\<exists>v. bind_res (vec_blit (vec_realloc vec_new n) 0 src n) (\<lambda>v. Inr (v\<lparr>vsize := n\<rparr>)) = Inr v \<and>
    vec_inv v \<and> vec_list v = map the (take n src) \<and> vsize v = n"
proof -
  from vec_blit_abs [OF vec_realloc_new(1) [of n] assms, of 0]
  obtain d where d: "vec_blit (vec_realloc vec_new n) 0 src n = Inr ((vec_realloc vec_new n)\<lparr>vdata := d\<rparr>)"
    "length d = n" "take n d = map Some (map the (take n src))"
    using assms(1) by (auto simp: vec_realloc_new)
  then show ?thesis by (auto simp: vec_realloc_new vec_inv_iff vec_list_def comp_def)
qed

lemma str_sub_ok:
  assumes "vec_inv s" "start + len \<le> vsize s"
  shows "\<exists>v. str_sub s start len = Inr v \<and> vec_inv v \<and> vec_list v = take len (drop start (vec_list s))"
proof -
  have le: "len \<le> length (drop start (vdata s))" using assms by (auto simp: vec_inv_def)
  have eq: "take len (drop start (vdata s)) = map Some (take len (drop start (vec_list s)))"
  proof -
    have "take len (drop start (vdata s)) = take len (drop start (take (vsize s) (vdata s)))"
      using assms(2) by (simp add: drop_take min_def)
    also have "\<dots> = map Some (take len (drop start (vec_list s)))"
      using assms(1) by (simp add: vec_inv_iff take_map drop_map)
    finally show ?thesis .
  qed
  then have "None \<notin> set (take len (drop start (vdata s)))" by auto
  from vec_blit_new [OF le this] eq show ?thesis by (auto simp: str_sub_def)
qed

lemma str_copy_ok:
  assumes "vec_inv s"
  shows "\<exists>v. str_copy s = Inr v \<and> vec_inv v \<and> vec_list v = vec_list s \<and> vsize v = vsize s"
  using vec_blit_new [of "vsize s" "vdata s"] assms
  by (auto simp: str_copy_def vec_inv_def vec_list_def)

lemma str_eq_abs: "vec_inv s \<Longrightarrow> vec_inv t \<Longrightarrow> str_eq s t \<longleftrightarrow> vec_list s = vec_list t"
proof -
  assume a: "vec_inv s" "vec_inv t"
  have "vsize s = vsize t \<Longrightarrow> take (vsize s) (vdata t) = map Some (vec_list t)"
    using a(2) by (simp add: vec_inv_iff)
  moreover have "take (vsize s) (vdata s) = map Some (vec_list s)" using a(1) by (simp add: vec_inv_iff)
  moreover have "vec_list s = vec_list t \<Longrightarrow> vsize s = vsize t"
    using a vec_list_length by metis
  ultimately show ?thesis by (auto simp: str_eq_def inj_map_eq_map)
qed

lemma str_eq_cstr_abs: "vec_inv s \<Longrightarrow> str_eq_cstr s cs \<longleftrightarrow> vec_list s = cs"
  by (auto simp: str_eq_cstr_def vec_list_length vec_inv_iff inj_map_eq_map)

lemma str_append_ok:
  assumes "vec_inv s" "vec_inv t"
  shows "\<exists>v. str_append s t = Inr v \<and> vec_inv v \<and> vec_list v = vec_list s @ vec_list t"
proof -
  let ?r = "vec_realloc s (vsize s + vsize t)"
  have r: "vec_inv ?r" "vec_list ?r = vec_list s" using vec_realloc_abs [OF assms(1)] by simp_all
  have sz: "vsize ?r = vsize s" "vdataSize ?r = vsize s + vsize t" by (simp_all add: vec_realloc_def)
  have t: "vsize t \<le> length (vdata t)" "None \<notin> set (take (vsize t) (vdata t))"
    using assms(2) by (simp_all add: vec_inv_def)
  from vec_blit_abs [OF r(1) t, of "vsize s"] sz r
  obtain d where "vec_blit ?r (vsize s) (vdata t) (vsize t) = Inr (?r\<lparr>vdata := d\<rparr>)"
    "length d = vsize s + vsize t" "take (vsize s + vsize t) d = map Some (vec_list s @ vec_list t)"
    using vec_list_length [OF assms(1)] by (auto simp: vec_list_def [of t])
  then show ?thesis using sz
    by (auto simp: str_append_def vec_inv_iff vec_list_def simp del: map_append)
qed

text \<open>
  Two of the three concatenation operators do not concatenate. \<open>operator+(const String &)\<close>
  copies the second operand behind the first but never increases the size, and
  \<open>operator+(const char *)\<close> writes its operand over the beginning of the copy: the results read as
  the first operand alone, and as the operand followed by the tail of the first one.
\<close>

theorem str_plus_drops_operand:
  assumes "vec_inv s" "vec_inv t" "length cs \<le> vsize s"
  shows "(\<exists>v. str_plus s t = Inr v \<and> vec_list v = vec_list s) \<and>
    (\<exists>v. str_plus_cstr s cs = Inr v \<and> vec_list v = cs @ drop (length cs) (vec_list s))"
proof
  obtain v where v: "str_copy s = Inr v" "vec_inv v" "vec_list v = vec_list s" "vsize v = vsize s"
    using str_copy_ok [OF assms(1)] by blast
  have r: "vec_inv (vec_realloc v n)" "vec_list (vec_realloc v n) = vec_list s"
    "vsize (vec_realloc v n) = vsize s" "vdataSize (vec_realloc v n) = n" if "vsize s \<le> n" for n
    using vec_realloc_abs [OF v(2), of n] v that by (simp_all add: vec_realloc_def)
  have len: "length (vec_list s) = vsize s" by (rule vec_list_length [OF assms(1)])
  have t: "vsize t \<le> length (vdata t)" "None \<notin> set (take (vsize t) (vdata t))"
    using assms(2) by (simp_all add: vec_inv_def)
  from vec_blit_abs [OF r(1) t, of "vsize s + vsize t" "vsize s"] r [of "vsize s + vsize t"] len
  obtain d where d: "vec_blit (vec_realloc v (vsize s + vsize t)) (vsize s) (vdata t) (vsize t) =
      Inr ((vec_realloc v (vsize s + vsize t))\<lparr>vdata := d\<rparr>)"
    "take (vsize s + vsize t) d = map Some (vec_list s @ map the (take (vsize t) (vdata t)))" by auto
  have "take (vsize s) d = map Some (vec_list s)"
    using arg_cong [OF d(2), of "take (vsize s)"] len by (simp add: min_def)
  then show "\<exists>v. str_plus s t = Inr v \<and> vec_list v = vec_list s"
    using v d(1) r(3) [of "vsize s + vsize t"] by (auto simp: str_plus_def vec_list_def)
  let ?n = "vsize s + length cs"
  have p: "take (vsize s) (vdata (vec_realloc v ?n)) = map Some (vec_list s)"
    using r [of ?n] by (simp add: vec_inv_iff)
  have lr: "length (vdata (vec_realloc v ?n)) = ?n" using r(1,4) [of ?n] by (simp add: vec_inv_def)
  have "take (vsize s) (map Some cs @ drop (length cs) (vdata (vec_realloc v ?n))) =
      map Some (cs @ drop (length cs) (vec_list s))"
    using assms(3) arg_cong [OF p, of "drop (length cs)"] by (simp add: drop_take drop_map)
  moreover have "vec_blit (vec_realloc v ?n) 0 (map Some cs) (length cs) =
      Inr ((vec_realloc v ?n)\<lparr>vdata := map Some cs @ drop (length cs) (vdata (vec_realloc v ?n))\<rparr>)"
    using lr by (simp add: vec_blit_def)
  ultimately show "\<exists>v. str_plus_cstr s cs = Inr v \<and> vec_list v = cs @ drop (length cs) (vec_list s)"
    using v r(3) [of ?n] by (auto simp: str_plus_cstr_def vec_list_def simp del: map_append)
qed

theorem str_plus_drops_operand_witness:
  "(\<exists>v. str_plus (str_of_cstr ''ab'') (str_of_cstr ''cd'') = Inr v \<and> vec_list v = ''ab'') \<and>
    (\<exists>v. str_plus_cstr (str_of_cstr ''ab'') ''c'' = Inr v \<and> vec_list v = ''cb'')"
proof -
  have "length ''c'' \<le> vsize (str_of_cstr ''ab'')" by (simp add: str_of_cstr_def Let_def)
  from str_plus_drops_operand [OF _ _ this, of "str_of_cstr ''cd''"] show ?thesis by simp
qed

section \<open>Splitting\<close>

lemma str_split_from_ok:
  assumes "vec_inv s" "start \<le> i" "i \<le> vsize s" "vec_inv result"
  shows "\<exists>r. str_split_from s delim start i result = Inr r \<and> vec_inv r \<and>
    (\<forall>p \<in> set (vec_list r). p \<in> set (vec_list result) \<or> vec_inv p) \<and>
    map vec_list (vec_list r) = map vec_list (vec_list result) @
      pieces delim (take (i - start) (drop start (vec_list s))) (drop i (vec_list s))"
  using assms(2-4)
proof (induction "vsize s - i" arbitrary: start i result)
  case 0
  have len: "length (vec_list s) = vsize s" by (rule vec_list_length [OF assms(1)])
  have i: "i = vsize s" using 0 by simp
  show ?case
  proof (cases "i - start > 0")
    case True
    obtain p where p: "str_sub s start (i - start) = Inr p" "vec_inv p"
      "vec_list p = take (i - start) (drop start (vec_list s))"
      using str_sub_ok [OF assms(1), of start "i - start"] 0 i by auto
    obtain r where "vec_push result p = Inr r" "vec_inv r" "vec_list r = vec_list result @ [p]"
      using vec_push_ok [OF 0(4)] by blast
    then show ?thesis using True i p len by (subst str_split_from.simps) auto
  next
    case False
    then show ?thesis using 0 i len by (subst str_split_from.simps) auto
  qed
next
  case (Suc k)
  have len: "length (vec_list s) = vsize s" by (rule vec_list_length [OF assms(1)])
  have lt: "i < vsize s" using Suc.hyps(2) by simp
  note at = vec_at_list [OF assms(1) lt]
  have dropi: "drop i (vec_list s) = vec_list s ! i # drop (Suc i) (vec_list s)"
    using lt len by (simp add: Cons_nth_drop_Suc)
  have k: "k = vsize s - (i + 1)" using Suc.hyps(2) by simp
  show ?case
  proof (cases "vec_list s ! i = delim")
    case False
    have "take (i + 1 - start) (drop start (vec_list s)) =
        take (i - start) (drop start (vec_list s)) @ [vec_list s ! i]"
      using Suc.prems(1) lt len by (simp add: Suc_diff_le take_Suc_conv_app_nth)
    with Suc.hyps(1) [OF k _ _ Suc.prems(3), of start] Suc.prems(1) lt False at dropi
    show ?thesis by (subst str_split_from.simps) simp
  next
    case True
    show ?thesis
    proof (cases "i - start > 0")
      case pos: True
      obtain p where p: "str_sub s start (i - start) = Inr p" "vec_inv p"
        "vec_list p = take (i - start) (drop start (vec_list s))"
        using str_sub_ok [OF assms(1), of start "i - start"] Suc.prems(1) lt by auto
      obtain r1 where r1: "vec_push result p = Inr r1" "vec_inv r1" "vec_list r1 = vec_list result @ [p]"
        using vec_push_ok [OF Suc.prems(3)] by blast
      have ne: "take (i - start) (drop start (vec_list s)) \<noteq> []" using pos lt len by simp
      from Suc.hyps(1) [OF k _ _ r1(2), of "i + 1"] lt obtain r where
        "str_split_from s delim (i + 1) (i + 1) r1 = Inr r" "vec_inv r"
        "\<forall>q \<in> set (vec_list r). q \<in> set (vec_list r1) \<or> vec_inv q"
        "map vec_list (vec_list r) = map vec_list (vec_list r1) @ pieces delim [] (drop (i + 1) (vec_list s))"
        by auto
      then show ?thesis using lt True at dropi p r1 pos ne by (subst str_split_from.simps) auto
    next
      case zero: False
      from Suc.hyps(1) [OF k _ _ Suc.prems(3), of "i + 1"] lt True at dropi zero
      show ?thesis by (subst str_split_from.simps) auto
    qed
  qed
qed

text \<open>
  \<open>String::split\<close> always returns, and what it returns is exactly the list of the non-empty
  pieces of the string between delimiters, each a well-formed string of its own.
\<close>

theorem str_split_correct:
  assumes "vec_inv s"
  shows "\<exists>r. str_split s delim = Inr r \<and> vec_inv r \<and> (\<forall>p \<in> set (vec_list r). vec_inv p) \<and>
    map vec_list (vec_list r) = pieces delim [] (vec_list s)"
  using str_split_from_ok [OF assms, of 0 0 vec_new delim]
  by (simp add: str_split_def vec_new_inv)

theorem str_split_correct_witness:
  "\<exists>r. str_split (str_of_cstr ''/a//bc'') (CHR ''/'') = Inr r \<and>
    map vec_list (vec_list r) = [''a'', ''bc'']"
  using str_split_correct [OF str_of_cstr_abs(1), of "''/a//bc''" "CHR ''/''"] by auto

lemma pieces_append_nodelim:
  "d \<notin> set xs \<Longrightarrow> pieces d cur (xs @ ys) = pieces d (cur @ xs) ys"
  by (induction xs arbitrary: cur) auto

lemma pieces_nonempty: "p \<in> set (pieces d cur cs) \<Longrightarrow> p \<noteq> []"
  by (induction d cur cs rule: pieces.induct) (auto split: if_splits)

lemma pieces_nodelim: "d \<notin> set cur \<Longrightarrow> p \<in> set (pieces d cur cs) \<Longrightarrow> d \<notin> set p"
  by (induction d cur cs rule: pieces.induct) (auto split: if_splits)

lemma pieces_concat: "concat (pieces d cur cs) = cur @ filter (\<lambda>c. c \<noteq> d) cs"
  by (induction d cur cs rule: pieces.induct) auto

text \<open>Joining path components with slashes in front, and splitting the result again.\<close>

definition join_path :: "string list \<Rightarrow> string" where
  "join_path cs = concat (map (\<lambda>c. CHR ''/'' # c) cs)"

text \<open>
  Splitting a path is the inverse of joining its components: any list of non-empty components
  without a slash survives the round trip.
\<close>

lemma components_join_path:
  assumes "\<forall>c \<in> set cs. c \<noteq> [] \<and> CHR ''/'' \<notin> set c"
  shows "components (join_path cs) = cs"
proof -
  have "pieces (CHR ''/'') cur (join_path cs) = (if cur = [] then cs else cur # cs)" for cur
    using assms
  proof (induction cs arbitrary: cur)
    case (Cons c cs)
    have "pieces (CHR ''/'') [] (c @ join_path cs) = pieces (CHR ''/'') c (join_path cs)"
      using Cons.prems pieces_append_nodelim [of "CHR ''/''" c "[]"] by simp
    then show ?case using Cons by (simp add: join_path_def)
  qed (simp add: join_path_def)
  then show ?thesis by (simp add: components_def)
qed

section \<open>Searching backwards\<close>

lemma str_rfind_down:
  assumes "vec_inv s" "vsize s < 2 ^ 32" "i < vsize s" "j \<le> i" "vec_list s ! j = c"
    "\<forall>k. j < k \<and> k \<le> i \<longrightarrow> vec_list s ! k \<noteq> c"
  shows "str_rfind s c (of_nat i) = Some (Inr (int j))"
  using assms(3-6)
proof (induction i)
  case 0
  then show ?case using vec_at_list [OF assms(1), of 0] by (subst str_rfind.simps) simp
next
  case (Suc i)
  have u: "unat (of_nat (Suc i) :: u32) = Suc i" "uint (of_nat (Suc i) :: u32) = int (Suc i)"
    using Suc.prems(1) assms(2) by (simp_all add: unsigned_of_nat take_bit_nat_eq_self del: of_nat_Suc)
  show ?case
  proof (cases "j = Suc i")
    case True
    then show ?thesis using vec_at_list [OF assms(1) Suc.prems(1)] Suc.prems u
      by (subst str_rfind.simps) (simp del: of_nat_Suc)
  next
    case False
    then have "vec_list s ! Suc i \<noteq> c" using Suc.prems by auto
    then have "str_rfind s c (of_nat (Suc i)) = str_rfind s c (of_nat (Suc i) - 1)"
      using vec_at_list [OF assms(1) Suc.prems(1)] u by (subst str_rfind.simps) (simp del: of_nat_Suc)
    then show ?thesis using Suc False by simp
  qed
qed

lemma str_rfind_none:
  assumes "vec_inv s" "vdataSize s < 2 ^ 32" "i < vsize s" "\<forall>k \<le> i. vec_list s ! k \<noteq> c"
  shows "str_rfind s c (of_nat i) = str_rfind s c (- 1)"
  using assms(3,4)
proof (induction i)
  case 0
  then show ?case using vec_at_list [OF assms(1), of 0] by (subst str_rfind.simps) simp
next
  case (Suc i)
  have "Suc i < 2 ^ 32" using Suc.prems assms(1,2) by (simp add: vec_inv_def)
  then have u: "unat (of_nat (Suc i) :: u32) = Suc i"
    by (simp add: unsigned_of_nat take_bit_nat_eq_self del: of_nat_Suc)
  have "str_rfind s c (of_nat (Suc i)) = str_rfind s c (of_nat (Suc i) - 1)"
    using vec_at_list [OF assms(1) Suc.prems(1)] Suc.prems(2) u
    by (subst str_rfind.simps) (simp del: of_nat_Suc)
  then show ?case using Suc by simp
qed

lemma str_rfind_wrapped:
  assumes "vec_inv s" "vdataSize s < 2 ^ 32"
  shows "str_rfind s c (- 1) = Some (Inl BadAccess)"
proof -
  have "unat (- 1 :: u32) = 2 ^ 32 - 1" by (simp add: unsigned_minus_1_eq_mask mask_eq_exp_minus_1)
  then have "vec_at s (unat (- 1 :: u32)) = Inl BadAccess"
    using assms by (simp add: vec_at_def vec_inv_def)
  then show ?thesis by (subst str_rfind.simps) simp
qed

text \<open>
  \<open>findLastIndex\<close> returns the last index of a character that occurs in the string; for a
  character that does not occur it never returns \<open>-1\<close>: the unsigned counter wraps and the loop
  reads outside the buffer.
\<close>

theorem str_findLastIndex_correct:
  assumes "vec_inv s" "vdataSize s < 2 ^ 32"
  shows "str_findLastIndex s c =
    (if c \<in> set (vec_list s)
     then Some (Inr (int (GREATEST j. j < vsize s \<and> vec_list s ! j = c)))
     else Some (Inl BadAccess))"
proof (cases "vsize s")
  case 0
  then have "vec_list s = []" using vec_list_length [OF assms(1)] by simp
  then show ?thesis using 0 str_rfind_wrapped [OF assms] by (simp add: str_findLastIndex_def)
next
  case (Suc n)
  have len: "length (vec_list s) = Suc n" using vec_list_length [OF assms(1)] Suc by simp
  have e: "(of_nat (Suc n) - 1 :: u32) = of_nat n" by simp
  have bound: "vsize s < 2 ^ 32" using assms by (simp add: vec_inv_def)
  show ?thesis
  proof (cases "c \<in> set (vec_list s)")
    case True
    let ?P = "\<lambda>j. j < vsize s \<and> vec_list s ! j = c"
    have ex: "\<exists>j. ?P j" using True len Suc by (auto simp: in_set_conv_nth)
    then have G: "?P (GREATEST j. ?P j)" by (rule GreatestI_ex_nat [where b = "vsize s"]) auto
    have gt: "\<forall>k. (GREATEST j. ?P j) < k \<and> k \<le> n \<longrightarrow> vec_list s ! k \<noteq> c"
    proof (intro allI impI notI)
      fix k assume k: "(GREATEST j. ?P j) < k \<and> k \<le> n" and "vec_list s ! k = c"
      then have "?P k" using Suc by simp
      then have "k \<le> (GREATEST j. ?P j)" by (rule Greatest_le_nat [where b = "vsize s"]) auto
      then show False using k by simp
    qed
    have "str_rfind s c (of_nat n) = Some (Inr (int (GREATEST j. ?P j)))"
      by (rule str_rfind_down [OF assms(1) bound _ _ _ gt]) (use G Suc in auto)
    then show ?thesis using True Suc e by (simp add: str_findLastIndex_def)
  next
    case False
    then have "\<forall>k \<le> n. vec_list s ! k \<noteq> c" using len by (auto simp: in_set_conv_nth less_Suc_eq_le)
    then show ?thesis using str_rfind_none [OF assms, of n c] str_rfind_wrapped [OF assms] Suc False e
      by (simp add: str_findLastIndex_def)
  qed
qed

theorem str_findLastIndex_correct_witness:
  "str_findLastIndex (str_of_cstr ''abc'') (CHR ''/'') = Some (Inl BadAccess)"
  by (subst str_findLastIndex_correct) (simp_all add: str_of_cstr_def vec_realloc_def Let_def vec_inv_def vec_list_def)

end
