(* ===== verification/KList.thy ===== *)
theory KList
  imports Prelude
begin

text \<open>
  \<open>include/lib/list.h\<close>: the singly linked list with \<open>head\<close>, \<open>last\<close> and \<open>length\<close>. The nodes live in a
  heap of their own (a list shares its nodes with no one); \<open>lbrk\<close> is the next address \<open>kmalloc\<close>
  hands out, so a freed address is never reused and a dangling pointer is visible as a pointer to
  an address without a node. Dereferencing a null or dangling pointer is a fault.
\<close>

record 'a lnode =
  ldata :: 'a
  lnext :: "nat option"

record 'a klist =
  lheap :: "nat \<Rightarrow> 'a lnode option"
  lhead :: "nat option"
  llast :: "nat option"
  llength :: nat
  lbrk :: nat

definition lst_empty :: "'a klist" where
  "lst_empty = \<lparr>lheap = (\<lambda>_. None), lhead = None, llast = None, llength = 0, lbrk = 1\<rparr>"

definition lst_deref :: "'a klist \<Rightarrow> nat option \<Rightarrow> (nat \<times> 'a lnode) res" where
  "lst_deref l p = (case p of None \<Rightarrow> Inl BadAccess
     | Some a \<Rightarrow> (case lheap l a of None \<Rightarrow> Inl BadAccess | Some n \<Rightarrow> Inr (a, n)))"

definition lst_alloc :: "'a klist \<Rightarrow> 'a \<Rightarrow> nat option \<Rightarrow> 'a klist" where
  "lst_alloc l x nxt =
     l\<lparr>lheap := (lheap l)(lbrk l \<mapsto> \<lparr>ldata = x, lnext = nxt\<rparr>), lbrk := Suc (lbrk l)\<rparr>"

definition lst_set_next :: "'a klist \<Rightarrow> nat option \<Rightarrow> nat option \<Rightarrow> 'a klist res" where
  "lst_set_next l p nxt =
     bind_res (lst_deref l p) (\<lambda>(a, n). Inr (l\<lparr>lheap := (lheap l)(a \<mapsto> n\<lparr>lnext := nxt\<rparr>)\<rparr>))"

definition lst_push :: "'a klist \<Rightarrow> 'a \<Rightarrow> 'a klist res" where
  "lst_push l x =
     (let new = Some (lbrk l); l1 = lst_alloc l x None in
      if lhead l = None
      then Inr (l1\<lparr>lhead := new, llast := new, llength := Suc (llength l)\<rparr>)
      else assert_res (llast l \<noteq> None)
             (bind_res (lst_set_next l1 (llast l) new)
                (\<lambda>l2. Inr (l2\<lparr>llast := new, llength := Suc (llength l)\<rparr>))))"

fun lst_walk :: "'a klist \<Rightarrow> nat option \<Rightarrow> nat \<Rightarrow> nat option res" where
  "lst_walk l p 0 = Inr p"
| "lst_walk l p (Suc n) = bind_res (lst_deref l p) (\<lambda>(a, nd). lst_walk l (lnext nd) n)"

definition lst_get :: "'a klist \<Rightarrow> nat \<Rightarrow> 'a option res" where
  "lst_get l index =
     (if index \<ge> llength l then Inr None
      else bind_res (lst_walk l (lhead l) index) (\<lambda>p.
           bind_res (lst_deref l p) (\<lambda>(a, nd). Inr (Some (ldata nd)))))"

definition lst_insert :: "'a klist \<Rightarrow> nat \<Rightarrow> 'a \<Rightarrow> 'a klist res" where
  "lst_insert l index x =
     assert_res (index \<le> llength l)
       (let new = Some (lbrk l) in
        if index = 0
        then Inr ((lst_alloc l x (lhead l))\<lparr>lhead := new, llength := Suc (llength l)\<rparr>)
        else bind_res (lst_walk l (lhead l) (index - 1)) (\<lambda>current.
             bind_res (lst_deref l current) (\<lambda>(c, nd).
             bind_res (lst_set_next (lst_alloc l x (lnext nd)) current new) (\<lambda>l2.
               Inr (l2\<lparr>llast := (if current = llast l then new else llast l),
                       llength := Suc (llength l)\<rparr>)))))"

definition lst_free :: "'a klist \<Rightarrow> nat option \<Rightarrow> 'a klist res" where
  "lst_free l p = bind_res (lst_deref l p) (\<lambda>(a, n). Inr (l\<lparr>lheap := (lheap l)(a := None)\<rparr>))"

definition lst_remove :: "'a klist \<Rightarrow> nat \<Rightarrow> 'a klist res" where
  "lst_remove l index =
     assert_res (index < llength l)
       (if index = 0
        then bind_res (lst_deref l (lhead l)) (\<lambda>(a, nd).
             bind_res (lst_free l (lhead l)) (\<lambda>l1.
               Inr (l1\<lparr>lhead := lnext nd, llast := (if llength l = 1 then lnext nd else llast l),
                       llength := llength l - 1\<rparr>)))
        else bind_res (lst_walk l (lhead l) (index - 1)) (\<lambda>current.
             bind_res (lst_deref l current) (\<lambda>(c, cn).
             bind_res (lst_deref l (lnext cn)) (\<lambda>(t, tn).
             bind_res (lst_set_next l current (lnext tn)) (\<lambda>l1.
             bind_res (lst_free l1 (Some t)) (\<lambda>l2.
               Inr (l2\<lparr>llast := (if index + 1 = llength l then current else llast l),
                       llength := llength l - 1\<rparr>)))))))"

fun lst_free_chain :: "'a klist \<Rightarrow> nat option \<Rightarrow> nat \<Rightarrow> 'a klist res" where
  "lst_free_chain l p 0 = Inr l"
| "lst_free_chain l p (Suc n) =
     bind_res (lst_deref l p) (\<lambda>(a, nd).
     bind_res (lst_free l p) (\<lambda>l1. lst_free_chain l1 (lnext nd) n))"

text \<open>\<open>clear\<close> resets \<open>head\<close> and \<open>length\<close> but leaves \<open>last\<close> pointing at the freed last node.\<close>

definition lst_clear :: "'a klist \<Rightarrow> 'a klist res" where
  "lst_clear l = bind_res (lst_free_chain (l\<lparr>lhead := None\<rparr>) (lhead l) (llength l))
     (\<lambda>l1. Inr (l1\<lparr>llength := 0\<rparr>))"

definition lst_end :: "'a klist \<Rightarrow> nat option res" where
  "lst_end l = (if llast l = None then Inr None
                else bind_res (lst_deref l (llast l)) (\<lambda>(a, nd). Inr (lnext nd)))"

text \<open>
  The iterator loop \<open>for (it = begin(); it != end(); it++)\<close> with a test in its body: the index and
  the element it stops at. \<open>None\<close> of the option type is a loop that does not end.
\<close>

partial_function (option) lst_scan ::
  "('a \<Rightarrow> bool) \<Rightarrow> 'a klist \<Rightarrow> nat option \<Rightarrow> nat \<Rightarrow> (nat \<times> 'a) option res option" where
  "lst_scan f l p y =
     (case lst_end l of
        Inl e \<Rightarrow> Some (Inl e)
      | Inr q \<Rightarrow> if p = q then Some (Inr None)
                else (case lst_deref l p of
                        Inl e \<Rightarrow> Some (Inl e)
                      | Inr an \<Rightarrow> if f (ldata (snd an)) then Some (Inr (Some (y, ldata (snd an))))
                                 else lst_scan f l (lnext (snd an)) (Suc y)))"

section \<open>Abstract view and invariant\<close>

primrec chain :: "(nat \<Rightarrow> 'a lnode option) \<Rightarrow> nat option \<Rightarrow> nat list \<Rightarrow> nat option \<Rightarrow> bool" where
  "chain h p [] q \<longleftrightarrow> p = q"
| "chain h p (a # as) q \<longleftrightarrow> p = Some a \<and> (\<exists>n. h a = Some n \<and> chain h (lnext n) as q)"

fun lst_addrs :: "(nat \<Rightarrow> 'a lnode option) \<Rightarrow> nat option \<Rightarrow> nat \<Rightarrow> nat list" where
  "lst_addrs h p 0 = []"
| "lst_addrs h p (Suc n) = (case p of None \<Rightarrow> []
     | Some a \<Rightarrow> (case h a of None \<Rightarrow> [] | Some nd \<Rightarrow> a # lst_addrs h (lnext nd) n))"

definition lst_view :: "'a klist \<Rightarrow> 'a list" where
  "lst_view l = map (\<lambda>a. ldata (the (lheap l a))) (lst_addrs (lheap l) (lhead l) (llength l))"

definition lst_rep :: "'a klist \<Rightarrow> nat list \<Rightarrow> bool" where
  "lst_rep l as \<longleftrightarrow> chain (lheap l) (lhead l) as None \<and> distinct as \<and> llength l = length as \<and>
     (as \<noteq> [] \<longrightarrow> llast l = Some (last as)) \<and> (\<forall>a \<ge> lbrk l. lheap l a = None)"

definition lst_inv :: "'a klist \<Rightarrow> bool" where
  "lst_inv l \<longleftrightarrow> (\<exists>as. lst_rep l as)"

section \<open>Chains\<close>

lemma chain_append: "chain h p (as @ bs) q \<longleftrightarrow> (\<exists>r. chain h p as r \<and> chain h r bs q)"
  by (induction as arbitrary: p) auto

lemma chain_upd [simp]: "a \<notin> set as \<Longrightarrow> chain (h(a := v)) p as q \<longleftrightarrow> chain h p as q"
  by (induction as arbitrary: p) auto

lemma chain_dom: "chain h p as q \<Longrightarrow> a \<in> set as \<Longrightarrow> h a \<noteq> None"
  by (induction as arbitrary: p) auto

lemma chain_addrs: "chain h p as None \<Longrightarrow> lst_addrs h p (length as) = as"
  by (induction as arbitrary: p) auto

lemma chain_relink_last:
  assumes "chain h p (as @ [b]) None" "distinct (as @ [b])" "h b = Some n"
  shows "chain (h(b \<mapsto> n\<lparr>lnext := q\<rparr>)) p (as @ [b]) q"
  using assms by (auto simp: chain_append)

lemma lst_rep_view: "lst_rep l as \<Longrightarrow> lst_view l = map (\<lambda>a. ldata (the (lheap l a))) as"
  by (simp add: lst_rep_def lst_view_def chain_addrs)

lemma lst_rep_fresh: "lst_rep l as \<Longrightarrow> lbrk l \<notin> set as"
  by (auto simp: lst_rep_def dest: chain_dom)

lemma lst_view_length: "lst_inv l \<Longrightarrow> length (lst_view l) = llength l"
proof -
  assume "lst_inv l"
  then obtain as where as: "lst_rep l as" by (auto simp: lst_inv_def)
  then show ?thesis unfolding lst_rep_view [OF as] by (simp add: lst_rep_def)
qed

lemma lst_empty_inv: "lst_inv lst_empty" "lst_view lst_empty = []"
  by (auto simp: lst_inv_def lst_rep_def lst_empty_def lst_view_def intro!: exI [of _ "[]"])

section \<open>Operations\<close>

lemma lst_push_ok:
  assumes "lst_inv l"
  shows "\<exists>l'. lst_push l x = Inr l' \<and> lst_inv l' \<and> lst_view l' = lst_view l @ [x]"
proof -
  obtain as where as: "lst_rep l as" using assms by (auto simp: lst_inv_def)
  let ?a = "lbrk l"
  have fresh: "?a \<notin> set as" by (rule lst_rep_fresh [OF as])
  show ?thesis
  proof (cases as rule: rev_cases)
    case Nil
    let ?l = "(lst_alloc l x None)\<lparr>lhead := Some ?a, llast := Some ?a, llength := Suc (llength l)\<rparr>"
    have "lst_rep ?l [?a]" using as Nil by (simp add: lst_rep_def lst_alloc_def)
    moreover from this have "lst_view ?l = [x]" by (simp add: lst_rep_view lst_alloc_def)
    moreover have "lst_view l = []" using as Nil by (simp add: lst_rep_view)
    moreover have "lst_push l x = Inr ?l" using as Nil by (simp add: lst_push_def Let_def lst_rep_def)
    ultimately show ?thesis unfolding lst_inv_def by auto
  next
    case (snoc bs b)
    obtain n where n: "lheap l b = Some n" using as snoc by (auto simp: lst_rep_def chain_append)
    have last: "llast l = Some b" and ab: "b \<noteq> ?a" using as snoc fresh by (auto simp: lst_rep_def)
    obtain hd where ne: "lhead l = Some hd" using as snoc by (cases bs) (auto simp: lst_rep_def)
    let ?h = "(lheap l)(?a \<mapsto> \<lparr>ldata = x, lnext = None\<rparr>, b \<mapsto> n\<lparr>lnext := Some ?a\<rparr>)"
    let ?l = "l\<lparr>lheap := ?h, lbrk := Suc ?a, llast := Some ?a, llength := Suc (llength l)\<rparr>"
    have c: "chain (lheap l) (lhead l) (bs @ [b]) None" "distinct (bs @ [b])"
      using as snoc by (simp_all add: lst_rep_def)
    have "chain ((lheap l)(b \<mapsto> n\<lparr>lnext := Some ?a\<rparr>)) (lhead l) (bs @ [b]) (Some ?a)"
      by (rule chain_relink_last [OF c n])
    then have "chain ?h (lhead l) (bs @ [b]) (Some ?a)"
      using fresh snoc ab by (subst fun_upd_twist) auto
    then have "chain ?h (lhead l) (as @ [?a]) None"
      using snoc ab by (subst chain_append) auto
    then have rep: "lst_rep ?l (as @ [?a])" using as fresh snoc n ab by (auto simp: lst_rep_def)
    have "lst_view ?l = lst_view l @ [x]"
      unfolding lst_rep_view [OF rep] lst_rep_view [OF as] using fresh n ab by auto
    moreover have "lst_push l x = Inr ?l"
      using ne last n ab by (simp add: lst_push_def Let_def lst_alloc_def lst_set_next_def lst_deref_def)
    ultimately show ?thesis using rep by (auto simp: lst_inv_def)
  qed
qed

interpretation lst: growable lst_inv lst_view lst_push "\<lambda>_. True"
  by unfold_locales (use lst_push_ok in auto)

lemma lst_walk_chain:
  "chain (lheap l) p as None \<Longrightarrow> i < length as \<Longrightarrow> lst_walk l p i = Inr (Some (as ! i))"
proof (induction as arbitrary: p i)
  case (Cons a as)
  then show ?case by (cases i) (auto simp: lst_deref_def)
qed simp

lemma lst_get_ok:
  assumes "lst_inv l"
  shows "lst_get l i = Inr (if i < llength l then Some (lst_view l ! i) else None)"
proof -
  obtain as where as: "lst_rep l as" using assms by (auto simp: lst_inv_def)
  have c: "chain (lheap l) (lhead l) as None" "llength l = length as" using as by (auto simp: lst_rep_def)
  show ?thesis
  proof (cases "i < llength l")
    case True
    then have "lheap l (as ! i) \<noteq> None" using chain_dom [OF c(1)] c(2) by simp
    then obtain n where "lheap l (as ! i) = Some n" by blast
    then show ?thesis using True c lst_walk_chain [OF c(1)]
      by (simp add: lst_get_def lst_deref_def lst_rep_view [OF as])
  qed (simp add: lst_get_def)
qed

lemma lst_remove_ok:
  assumes "lst_inv l" "i < llength l"
  shows "\<exists>l'. lst_remove l i = Inr l' \<and> lst_inv l' \<and>
    lst_view l' = take i (lst_view l) @ drop (Suc i) (lst_view l)"
proof -
  obtain as where as: "lst_rep l as" using assms by (auto simp: lst_inv_def)
  have c: "chain (lheap l) (lhead l) as None" "distinct as" "llength l = length as"
    using as by (auto simp: lst_rep_def)
  show ?thesis
  proof (cases i)
    case 0
    then obtain a bs where ab: "as = a # bs" using assms c(3) by (cases as) auto
    obtain n where n: "lheap l a = Some n" "lhead l = Some a" "chain (lheap l) (lnext n) bs None"
      using c(1) ab by auto
    let ?l = "l\<lparr>lheap := (lheap l)(a := None), lhead := lnext n,
      llast := (if llength l = 1 then lnext n else llast l), llength := llength l - 1\<rparr>"
    have rep: "lst_rep ?l bs" using as ab n c by (auto simp: lst_rep_def)
    have "lst_view ?l = drop 1 (lst_view l)"
      unfolding lst_rep_view [OF rep] lst_rep_view [OF as] using ab c(2) by auto
    moreover have "lst_remove l i = Inr ?l"
      using 0 assms(2) n by (simp add: lst_remove_def lst_deref_def lst_free_def)
    ultimately show ?thesis using rep 0 by (auto simp: lst_inv_def)
  next
    case (Suc j)
    have j: "j < length as" "Suc j < length as" using assms(2) c(3) Suc by auto
    obtain xs ys b t where sp: "as = xs @ b # t # ys" "length xs = j"
    proof -
      have "as = take j as @ as ! j # as ! Suc j # drop (Suc (Suc j)) as"
        using j by (metis Cons_nth_drop_Suc id_take_nth_drop)
      then show ?thesis using that [of "take j as" "as ! j"] j by simp
    qed
    obtain bn tn where bn: "lheap l b = Some bn" "lnext bn = Some t"
      and tn: "lheap l t = Some tn" "chain (lheap l) (lnext tn) ys None"
      and pre: "chain (lheap l) (lhead l) xs (Some b)"
      using c(1) sp by (auto simp: chain_append)
    have dist: "b \<noteq> t" "b \<notin> set xs" "t \<notin> set xs" "b \<notin> set ys" "t \<notin> set ys" using c(2) sp(1) by auto
    let ?h = "(lheap l)(b \<mapsto> bn\<lparr>lnext := lnext tn\<rparr>, t := None)"
    let ?l = "l\<lparr>lheap := ?h, llast := (if i + 1 = llength l then Some b else llast l),
      llength := llength l - 1\<rparr>"
    have "chain ?h (lhead l) (xs @ b # ys) None"
      using pre tn dist by (auto simp: chain_append)
    moreover have "ys = [] \<longleftrightarrow> i + 1 = llength l" using c(3) sp Suc by auto
    ultimately have rep: "lst_rep ?l (xs @ b # ys)" using as sp bn tn by (auto simp: lst_rep_def)
    have "lst_view ?l = take i (lst_view l) @ drop (Suc i) (lst_view l)"
      unfolding lst_rep_view [OF rep] lst_rep_view [OF as] using sp Suc dist bn by auto
    moreover have "lst_remove l i = Inr ?l"
    proof -
      have "lst_walk l (lhead l) (i - 1) = Inr (Some b)"
        using lst_walk_chain [OF c(1) j(1)] Suc sp by (simp add: nth_append)
      then show ?thesis using Suc assms(2) bn tn dist
        by (simp add: lst_remove_def lst_deref_def lst_set_next_def lst_free_def)
    qed
    ultimately show ?thesis using rep by (auto simp: lst_inv_def)
  qed
qed

lemma lst_free_chain_ok:
  assumes "chain (lheap l) p as None" "distinct as"
  shows "lst_free_chain l p (length as) = Inr (l\<lparr>lheap := (\<lambda>a. if a \<in> set as then None else lheap l a)\<rparr>)"
  using assms
proof (induction as arbitrary: l p)
  case (Cons a as)
  obtain n where n: "p = Some a" "lheap l a = Some n" "chain (lheap l) (lnext n) as None"
    using Cons.prems by auto
  let ?l = "l\<lparr>lheap := (lheap l)(a := None)\<rparr>"
  have "chain (lheap ?l) (lnext n) as None" "distinct as" using n Cons.prems by simp_all
  note ih = Cons.IH [OF this]
  have "(\<lambda>x. if x \<in> set as then None else lheap ?l x) =
      (\<lambda>x. if x \<in> set (a # as) then None else lheap l x)" by auto
  with ih n show ?case by (simp add: lst_deref_def lst_free_def del: list.set)
qed simp

lemma lst_clear_ok:
  assumes "lst_inv l"
  shows "\<exists>l'. lst_clear l = Inr l' \<and> lst_inv l' \<and> lst_view l' = []"
proof -
  obtain as where as: "lst_rep l as" using assms by (auto simp: lst_inv_def)
  let ?l = "l\<lparr>lhead := None\<rparr>"
  have "lst_free_chain ?l (lhead l) (length as) =
      Inr (?l\<lparr>lheap := (\<lambda>a. if a \<in> set as then None else lheap ?l a)\<rparr>)"
    using lst_free_chain_ok [of ?l "lhead l" as] as by (simp add: lst_rep_def)
  then show ?thesis using as
    by (auto simp: lst_clear_def lst_rep_def lst_inv_def lst_view_def intro!: exI [of _ "[]"])
qed

lemma lst_end_ok:
  assumes "lst_inv l" "llength l > 0"
  shows "lst_end l = Inr None"
proof -
  obtain as where as: "lst_rep l as" using assms by (auto simp: lst_inv_def)
  then have ne: "as \<noteq> []" using assms(2) by (auto simp: lst_rep_def)
  then obtain bs b where "as = bs @ [b]" by (cases as rule: rev_cases) auto
  then show ?thesis using as by (auto simp: lst_end_def lst_deref_def lst_rep_def chain_append)
qed

lemma lst_scan_chain:
  assumes "lst_end l = Inr None" "chain (lheap l) p as None"
  shows "lst_scan f l p y = Some (Inr (map_option (\<lambda>i. (y + i, ldata (the (lheap l (as ! i)))))
    (List.find (\<lambda>i. f (ldata (the (lheap l (as ! i))))) [0..<length as])))"
  using assms(2)
proof (induction as arbitrary: p y)
  case Nil
  then show ?case by (subst lst_scan.simps) (simp add: assms(1))
next
  case (Cons a as)
  obtain n where n: "p = Some a" "lheap l a = Some n" "chain (lheap l) (lnext n) as None"
    using Cons.prems by auto
  have up: "[0..<length (a # as)] = 0 # map Suc [0..<length as]"
    by (simp add: upt_conv_Cons map_Suc_upt del: upt_Suc)
  have find_map: "List.find P (map Suc xs) = map_option Suc (List.find (P \<circ> Suc) xs)" for P xs
    by (induction xs) auto
  show ?case
    using n Cons.IH [OF n(3)] assms(1) unfolding up
    by (subst lst_scan.simps) (auto simp: lst_deref_def find_map option.map_comp comp_def)
qed

lemma lst_scan_ok:
  assumes "lst_inv l" "llength l > 0"
  shows "lst_scan f l (lhead l) 0 = Some (Inr (map_option (\<lambda>i. (i, lst_view l ! i))
    (List.find (\<lambda>i. f (lst_view l ! i)) [0..<llength l])))"
proof -
  obtain as where as: "lst_rep l as" using assms by (auto simp: lst_inv_def)
  have c: "chain (lheap l) (lhead l) as None" "llength l = length as" using as by (auto simp: lst_rep_def)
  have v: "\<forall>i \<in> set [0..<length as]. lst_view l ! i = ldata (the (lheap l (as ! i)))"
    by (simp add: lst_rep_view [OF as])
  have cong: "List.find P xs = List.find Q xs" if "\<forall>x \<in> set xs. P x = Q x" for P Q and xs :: "nat list"
    using that by (induction xs) auto
  have mem: "List.find P xs = Some i \<Longrightarrow> i \<in> set xs" for P i and xs :: "nat list"
    by (induction xs) (auto split: if_splits)
  have find: "List.find (\<lambda>i. f (lst_view l ! i)) [0..<length as] =
      List.find (\<lambda>i. f (ldata (the (lheap l (as ! i))))) [0..<length as]"
    by (rule cong) (use v in auto)
  show ?thesis
    unfolding lst_scan_chain [OF lst_end_ok [OF assms] c(1), of f 0] c(2) find
    using v mem [of _ "[0..<length as]"] by (auto simp: map_option_case split: option.splits)
qed

text \<open>\<open>insert\<close> is right for every position of a list that has elements.\<close>

lemma lst_insert_ok:
  assumes "lst_inv l" "i \<le> llength l" "0 < llength l"
  shows "\<exists>l'. lst_insert l i x = Inr l' \<and> lst_inv l' \<and>
    lst_view l' = take i (lst_view l) @ x # drop i (lst_view l)"
proof -
  obtain as where as: "lst_rep l as" using assms by (auto simp: lst_inv_def)
  have c: "chain (lheap l) (lhead l) as None" "distinct as" "llength l = length as"
    using as by (auto simp: lst_rep_def)
  let ?a = "lbrk l"
  have fresh: "?a \<notin> set as" by (rule lst_rep_fresh [OF as])
  show ?thesis
  proof (cases i)
    case 0
    let ?l = "(lst_alloc l x (lhead l))\<lparr>lhead := Some ?a, llength := Suc (llength l)\<rparr>"
    have rep: "lst_rep ?l (?a # as)" using as fresh assms(3) by (auto simp: lst_rep_def lst_alloc_def)
    have "lst_view ?l = x # lst_view l"
      unfolding lst_rep_view [OF rep] lst_rep_view [OF as] using fresh by (auto simp: lst_alloc_def)
    then show ?thesis using 0 rep by (auto simp: lst_insert_def lst_inv_def Let_def)
  next
    case (Suc j)
    have j: "j < length as" using assms(2) c(3) Suc by simp
    obtain xs ys b where sp: "as = xs @ b # ys" "length xs = j"
      using j id_take_nth_drop [OF j] by (metis length_take min.absorb4)
    obtain bn where bn: "lheap l b = Some bn" "chain (lheap l) (lnext bn) ys None"
      and pre: "chain (lheap l) (lhead l) xs (Some b)" using c(1) sp by (auto simp: chain_append)
    have dist: "b \<notin> set xs" "b \<notin> set ys" "?a \<noteq> b" "?a \<notin> set xs" "?a \<notin> set ys" using c(2) sp(1) fresh by auto
    let ?h = "(lheap l)(?a \<mapsto> \<lparr>ldata = x, lnext = lnext bn\<rparr>, b \<mapsto> bn\<lparr>lnext := Some ?a\<rparr>)"
    let ?l = "l\<lparr>lheap := ?h, lbrk := Suc ?a, llast := (if Some b = llast l then Some ?a else llast l),
      llength := Suc (llength l)\<rparr>"
    have "chain ?h (lhead l) (xs @ b # ?a # ys) None" using pre bn dist by (auto simp: chain_append)
    moreover have "ys \<noteq> [] \<Longrightarrow> last ys \<noteq> b" using dist(2) by auto
    ultimately have rep: "lst_rep ?l (xs @ b # ?a # ys)" using as sp bn dist by (auto simp: lst_rep_def)
    have "lst_view ?l = take i (lst_view l) @ x # drop i (lst_view l)"
      unfolding lst_rep_view [OF rep] lst_rep_view [OF as] using sp Suc dist bn by auto
    moreover have "lst_walk l (lhead l) (i - 1) = Inr (Some b)"
      using lst_walk_chain [OF c(1) j] Suc sp by (simp add: nth_append)
    then have "lst_insert l i x = Inr ?l" using Suc assms(2) bn dist
      by (simp add: lst_insert_def Let_def lst_deref_def lst_set_next_def lst_alloc_def)
    ultimately show ?thesis using rep by (auto simp: lst_inv_def)
  qed
qed

text \<open>
  The linked list implements a sequence: on every well-formed list \<open>push\<close> appends, \<open>get\<close>
  indexes, \<open>remove\<close> deletes one position and \<open>clear\<close> empties, none of them faults or loses a node,
  and each leaves a well-formed list.
\<close>

theorem klist_implements_sequence:
  assumes "lst_inv l"
  shows "(\<exists>l'. lst_push l x = Inr l' \<and> lst_inv l' \<and> lst_view l' = lst_view l @ [x]) \<and>
    lst_get l i = Inr (if i < length (lst_view l) then Some (lst_view l ! i) else None) \<and>
    (i < length (lst_view l) \<longrightarrow> (\<exists>l'. lst_remove l i = Inr l' \<and> lst_inv l' \<and>
       lst_view l' = take i (lst_view l) @ drop (Suc i) (lst_view l))) \<and>
    (\<exists>l'. lst_clear l = Inr l' \<and> lst_inv l' \<and> lst_view l' = [])"
  using lst_push_ok [OF assms] lst_get_ok [OF assms] lst_remove_ok [OF assms] lst_clear_ok [OF assms]
    lst_view_length [OF assms] by simp

theorem klist_implements_sequence_witness:
  "lst_get (lst_empty :: nat klist) 0 = Inr None"
  using klist_implements_sequence [OF lst_empty_inv(1), where x = "0 :: nat" and i = 0]
  by (simp add: lst_empty_inv(2))

text \<open>
  \<open>insert(0, x)\<close> on an empty list does not set \<open>last\<close>: the \<open>push\<close> that follows fails its
  assertion and stops the kernel. On a list emptied by \<open>clear\<close> the stale \<open>last\<close> is dereferenced.
\<close>

theorem lst_insert_empty_breaks_push:
  "(\<exists>l. lst_insert lst_empty 0 x = Inr l \<and> lst_push l y = Inl Panic) \<and>
   (\<exists>l1 l2 l3. lst_push lst_empty x = Inr l1 \<and> lst_clear l1 = Inr l2 \<and> lst_insert l2 0 x = Inr l3 \<and>
     lst_push l3 y = Inl BadAccess)"
  by (simp add: lst_insert_def lst_empty_def lst_push_def lst_alloc_def Let_def lst_clear_def
      lst_deref_def lst_free_def lst_set_next_def)

end
