(* ===== verification/KQueue.thy ===== *)
theory KQueue
  imports Prelude
begin

text \<open>
  \<open>include/lib/queue.h\<close>: the ring buffer behind the run queues of the scheduler. As in the vector
  the buffer is a list of cells, \<open>None\<close> a cell never written.
\<close>

record 'a kqueue =
  qdata :: "'a option list"
  qsize :: nat
  qdataSize :: nat
  qlastRead :: nat
  qlastWritten :: nat

definition q_new_sized :: "nat \<Rightarrow> 'a kqueue" where
  "q_new_sized n = \<lparr>qdata = replicate n None, qsize = 0, qdataSize = n, qlastRead = 0, qlastWritten = 0\<rparr>"

definition q_new :: "'a kqueue" where
  "q_new = q_new_sized 10"

definition q_realloc :: "'a kqueue \<Rightarrow> nat \<Rightarrow> 'a kqueue" where
  "q_realloc q newSize =
     q\<lparr>qdataSize := newSize,
       qdata := take newSize (qdata q) @ replicate (newSize - length (qdata q)) None\<rparr>"

definition q_push :: "'a kqueue \<Rightarrow> 'a \<Rightarrow> 'a kqueue res" where
  "q_push q x =
     (let q1 = (if qsize q \<ge> qdataSize q
                then q_realloc q (if qdataSize q \<noteq> 0 then qdataSize q * 2 else 1) else q);
          w = qlastWritten q1 mod qdataSize q1
      in if w < length (qdata q1)
         then Inr (q1\<lparr>qdata := (qdata q1)[w := Some x], qlastWritten := w + 1, qsize := qsize q1 + 1\<rparr>)
         else Inl BadAccess)"

definition q_front :: "'a kqueue \<Rightarrow> 'a res" where
  "q_front q = assert_res (qsize q > 0)
     (if qlastRead q < length (qdata q)
      then (case qdata q ! qlastRead q of Some x \<Rightarrow> Inr x | None \<Rightarrow> Inl BadAccess)
      else Inl BadAccess)"

definition q_pop :: "'a kqueue \<Rightarrow> ('a \<times> 'a kqueue) res" where
  "q_pop q = bind_res (q_front q) (\<lambda>x.
     Inr (x, q\<lparr>qlastRead := (qlastRead q + 1) mod qdataSize q, qsize := qsize q - 1\<rparr>))"

definition q_empty :: "'a kqueue \<Rightarrow> bool" where
  "q_empty q \<longleftrightarrow> qsize q = 0"

text \<open>
  \<open>replaceAll\<close>: the loop runs from \<open>lastRead\<close> to \<open>lastWritten\<close> with a 32-bit counter.
\<close>

partial_function (option) q_replace_from :: "'a kqueue \<Rightarrow> 'a \<Rightarrow> 'a \<Rightarrow> u32 \<Rightarrow> 'a kqueue res option" where
  "q_replace_from q value by' i =
     (if unat i \<noteq> qlastWritten q
      then (let i' = (if unat i = qdataSize q then 0 else i) in
            if unat i' < length (qdata q)
            then q_replace_from
                   (if qdata q ! unat i' = Some value then q\<lparr>qdata := (qdata q)[unat i' := Some by']\<rparr> else q)
                   value by' (i' + 1)
            else Some (Inl BadAccess))
      else Some (Inr q))"

definition q_replaceAll :: "'a kqueue \<Rightarrow> 'a \<Rightarrow> 'a \<Rightarrow> 'a kqueue res option" where
  "q_replaceAll q value by' = q_replace_from q value by' (of_nat (qlastRead q))"

section \<open>Abstract view and invariant\<close>

definition q_idx :: "'a kqueue \<Rightarrow> nat \<Rightarrow> nat" where
  "q_idx q k = (qlastRead q + k) mod qdataSize q"

definition q_view :: "'a kqueue \<Rightarrow> 'a list" where
  "q_view q = map (\<lambda>k. the (qdata q ! q_idx q k)) [0..<qsize q]"

definition q_inv :: "'a kqueue \<Rightarrow> bool" where
  "q_inv q \<longleftrightarrow> length (qdata q) = qdataSize q \<and> qsize q \<le> qdataSize q \<and>
     (if qdataSize q = 0 then qlastRead q = 0 \<and> qlastWritten q = 0
      else qlastRead q < qdataSize q \<and> qlastWritten q \<le> qdataSize q \<and>
           qlastWritten q mod qdataSize q = (qlastRead q + qsize q) mod qdataSize q \<and>
           (qlastWritten q = 0 \<longrightarrow> qsize q = 0)) \<and>
     (\<forall>k \<in> {..<qsize q}. qdata q ! q_idx q k \<noteq> None)"

text \<open>The queue can take an element without losing one: it is not full, or it is not wrapped.\<close>

definition q_room :: "'a kqueue \<Rightarrow> bool" where
  "q_room q \<longleftrightarrow> qsize q < qdataSize q \<or> qlastRead q = 0"

section \<open>Lemmas\<close>

lemma q_view_length [simp]: "length (q_view q) = qsize q"
  by (simp add: q_view_def)

lemma q_new_sized_inv: "q_inv (q_new_sized n)" "q_view (q_new_sized n) = []"
  by (simp_all add: q_new_sized_def q_inv_def q_view_def)

text \<open>Two live positions of the ring are different cells, and none is the next free one.\<close>

lemma ring_inj:
  fixes n :: nat
  assumes "(r + i) mod n = (r + j) mod n" "i < n" "j < n"
  shows "i = j"
proof -
  have le: "i = j" if "(r + i) mod n = (r + j) mod n" "i \<le> j" "j < n" for i j
  proof -
    have "n dvd (r + j) - (r + i)" using that by (metis add_le_cancel_left mod_eq_dvd_iff_nat)
    then have "n dvd j - i" by simp
    then show ?thesis using that by (meson dvd_imp_le le_antisym less_imp_diff_less not_less zero_less_diff)
  qed
  show ?thesis
  proof (cases "i \<le> j")
    case False
    then show ?thesis using le [of j i] assms by simp
  qed (use le assms in blast)
qed

lemma q_inv_cell: "q_inv q \<Longrightarrow> k < qsize q \<Longrightarrow> qdata q ! q_idx q k = Some (q_view q ! k)"
  by (auto simp: q_inv_def q_view_def)

lemma q_idx_bound: "q_inv q \<Longrightarrow> 0 < qdataSize q \<Longrightarrow> q_idx q k < length (qdata q)"
  by (simp add: q_inv_def q_idx_def)

lemma q_view_eqI:
  assumes "qsize q = length xs" "\<And>k. k < length xs \<Longrightarrow> qdata q ! q_idx q k = Some (xs ! k)"
  shows "q_view q = xs"
  using assms by (intro nth_equalityI) (auto simp: q_view_def)

text \<open>Appending to a ring that has a free cell: the next cell is the one the new index names.\<close>

lemma q_push_free:
  assumes "q_inv q" "qsize q < qdataSize q"
  shows "\<exists>q'. q_push q x = Inr q' \<and> q_inv q' \<and> q_view q' = q_view q @ [x]"
proof -
  let ?n = "qdataSize q" and ?w = "q_idx q (qsize q)"
  let ?q = "q\<lparr>qdata := (qdata q)[?w := Some x], qlastWritten := ?w + 1, qsize := qsize q + 1\<rparr>"
  have n: "0 < ?n" and len: "length (qdata q) = ?n" using assms by (auto simp: q_inv_def)
  have w: "qlastWritten q mod ?n = ?w" "?w < ?n"
    using assms n by (auto simp: q_inv_def q_idx_def)
  have idx: "q_idx ?q k = q_idx q k" for k by (simp add: q_idx_def)
  have new: "q_idx q k \<noteq> ?w" if "k < qsize q" for k
    using ring_inj [of "qlastRead q" k ?n "qsize q"] that assms by (auto simp: q_idx_def)
  have cell: "qdata ?q ! q_idx ?q k = Some ((q_view q @ [x]) ! k)" if "k < qsize q + 1" for k
  proof (cases "k = qsize q")
    case True
    then show ?thesis using w len idx by (simp add: nth_append)
  next
    case False
    then have k: "k < qsize q" using that by simp
    have "(qdata q)[?w := Some x] ! q_idx q k = qdata q ! q_idx q k"
      by (rule nth_list_update_neq) (use new [OF k] in simp)
    then show ?thesis using q_inv_cell [OF assms(1) k] idx k by (simp add: nth_append)
  qed
  have view: "q_view ?q = q_view q @ [x]" by (rule q_view_eqI) (use cell in simp_all)
  have "(?w + 1) mod ?n = (qlastRead q + (qsize q + 1)) mod ?n"
    by (simp add: q_idx_def mod_Suc_eq)
  moreover have "?w + 1 \<le> ?n" using w(2) by simp
  ultimately have inv: "q_inv ?q" using assms(1,2) cell n unfolding q_inv_def by simp
  have "q_push q x = Inr ?q" using assms(2) w len by (simp add: q_push_def Let_def)
  then show ?thesis using view inv by blast
qed

text \<open>Growing a ring that starts at cell 0 keeps its contents and makes room.\<close>

lemma q_grow_unwrapped:
  assumes "q_inv q" "qsize q = qdataSize q" "qlastRead q = 0"
  defines "g \<equiv> q_realloc q (if qdataSize q \<noteq> 0 then qdataSize q * 2 else 1)"
  shows "q_inv g" "q_view g = q_view q" "qsize g < qdataSize g" "q_push q x = q_push g x"
proof -
  have lw: "qlastWritten q = qdataSize q"
  proof (cases "qdataSize q = 0")
    case False
    then have "qlastWritten q \<le> qdataSize q" "qlastWritten q mod qdataSize q = 0" "qlastWritten q \<noteq> 0"
      using assms(1-3) by (auto simp: q_inv_def)
    then show ?thesis by (metis le_neq_implies_less mod_less)
  qed (use assms(1) in \<open>simp add: q_inv_def\<close>)
  have len: "length (qdata q) = qdataSize q" using assms(1) by (simp add: q_inv_def)
  have cell: "qdata g ! q_idx g k = Some (q_view q ! k)" if "k < qsize q" for k
    using q_inv_cell [OF assms(1) that] that assms(2,3) len
    by (auto simp: g_def q_realloc_def q_idx_def nth_append)
  show lt: "qsize g < qdataSize g" using assms(2) by (auto simp: g_def q_realloc_def)
  show "q_view g = q_view q"
    by (rule q_view_eqI) (use cell in \<open>simp_all add: g_def q_realloc_def\<close>)
  show "q_inv g" using cell assms(2,3) lw len by (auto simp: q_inv_def g_def q_realloc_def)
  show "q_push q x = q_push g x"
  proof -
    have "(if qsize q \<ge> qdataSize q then q_realloc q (if qdataSize q \<noteq> 0 then qdataSize q * 2 else 1) else q) = g"
      using assms(2) by (simp add: g_def)
    moreover have "(if qsize g \<ge> qdataSize g then q_realloc g (if qdataSize g \<noteq> 0 then qdataSize g * 2 else 1) else g) = g"
      using lt by simp
    ultimately show ?thesis unfolding q_push_def by (simp only:)
  qed
qed

lemma q_push_ok:
  assumes "q_inv q" "q_room q"
  shows "\<exists>q'. q_push q x = Inr q' \<and> q_inv q' \<and> q_view q' = q_view q @ [x]"
proof (cases "qsize q < qdataSize q")
  case True
  then show ?thesis by (rule q_push_free [OF assms(1)])
next
  case False
  then have "qsize q = qdataSize q" "qlastRead q = 0" using assms by (auto simp: q_inv_def q_room_def)
  note g = q_grow_unwrapped [OF assms(1) this]
  from q_push_free [OF g(1,3), of x] show ?thesis unfolding g(2) g(4) [of x] .
qed

lemma q_pop_ok:
  assumes "q_inv q" "q_view q = x # xs"
  shows "\<exists>q'. q_pop q = Inr (x, q') \<and> q_inv q' \<and> q_view q' = xs \<and> q_room q'"
proof -
  let ?n = "qdataSize q"
  let ?q = "q\<lparr>qlastRead := (qlastRead q + 1) mod ?n, qsize := qsize q - 1\<rparr>"
  have sz: "qsize q = Suc (length xs)" using assms(2) q_view_length [of q] by simp
  then have n: "0 < ?n" using assms(1) by (auto simp: q_inv_def)
  have r: "q_idx q 0 = qlastRead q" using assms(1) n by (auto simp: q_idx_def q_inv_def)
  have front: "q_front q = Inr x"
    using q_inv_cell [OF assms(1), of 0] q_idx_bound [OF assms(1) n, of 0] sz assms(2) r
    by (simp add: q_front_def)
  have idx: "q_idx ?q k = q_idx q (Suc k)" for k by (simp add: q_idx_def mod_add_left_eq)
  have cell: "qdata ?q ! q_idx ?q k = Some (xs ! k)" if "k < length xs" for k
    using q_inv_cell [OF assms(1), of "Suc k"] that sz idx assms(2) by simp
  have view: "q_view ?q = xs" by (rule q_view_eqI) (use cell sz in simp_all)
  have "((qlastRead q + 1) mod ?n + (qsize q - 1)) mod ?n = (qlastRead q + qsize q) mod ?n"
    using sz by (simp add: mod_add_left_eq)
  then have inv: "q_inv ?q" using assms(1) n cell sz by (auto simp: q_inv_def)
  have "q_room ?q" using assms(1) sz by (auto simp: q_room_def q_inv_def)
  moreover have "q_pop q = Inr (x, ?q)" by (simp add: q_pop_def front)
  ultimately show ?thesis using view inv by blast
qed

lemma q_pop_empty: "q_inv q \<Longrightarrow> q_view q = [] \<Longrightarrow> q_pop q = Inl Panic"
  using q_view_length [of q] by (simp add: q_pop_def q_front_def)

interpretation q: fifo q_inv q_view q_push q_room q_pop
  by unfold_locales (rule q_push_ok q_pop_ok q_pop_empty; assumption)+

text \<open>
  \<open>C31\<close> The ring buffer refines a FIFO sequence: as long as the queue is not full, or does not
  wrap around, \<open>push\<close> appends (growing the buffer when it must) and \<open>pop\<close> returns and removes the
  oldest element; both keep the queue well formed, and only an empty queue makes \<open>pop\<close> panic.
\<close>

theorem kqueue_refines_fifo:
  assumes "q_inv q"
  shows "(q_room q \<longrightarrow> (\<exists>q'. q_push q x = Inr q' \<and> q_inv q' \<and> q_view q' = q_view q @ [x])) \<and>
    (case q_view q of [] \<Rightarrow> q_pop q = Inl Panic
     | y # ys \<Rightarrow> (\<exists>q'. q_pop q = Inr (y, q') \<and> q_inv q' \<and> q_view q' = ys \<and> q_room q'))"
proof (rule conjI)
  show "q_room q \<longrightarrow> (\<exists>q'. q_push q x = Inr q' \<and> q_inv q' \<and> q_view q' = q_view q @ [x])"
    using q.push_ok [OF assms] by blast
qed (use q.pop_Cons [OF assms] q.pop_Nil [OF assms] in \<open>cases "q_view q"; simp\<close>)

theorem kqueue_refines_fifo_witness:
  "\<exists>q'. q_push (q_new_sized 0) (7 :: nat) = Inr q' \<and> q_inv q' \<and> q_view q' = [7]"
proof -
  have room: "q_room (q_new_sized 0 :: nat kqueue)" by (simp add: q_room_def q_new_sized_def)
  show ?thesis using conjunct1 [OF kqueue_refines_fifo [OF q_new_sized_inv(1) [of 0], of "7 :: nat"]] room
    by (simp add: q_new_sized_inv(2))
qed

text \<open>
  When the queue is full and wrapped, \<open>push\<close> doubles the buffer without moving the wrapped
  part and then writes to the cell of the oldest element: the new element becomes the front of the
  queue and the oldest one is lost.
\<close>

theorem q_push_full_wrapped_loses_front:
  assumes "q_inv q" "qsize q = qdataSize q" "0 < qlastRead q"
  shows "\<exists>q'. q_push q x = Inr q' \<and> q_front q' = Inr x \<and> qsize q' = Suc (qsize q) \<and>
    qlastRead q' = qlastRead q"
proof -
  let ?n = "qdataSize q"
  have n: "0 < ?n" "qlastRead q < ?n" "length (qdata q) = ?n" "qlastWritten q \<le> ?n"
    "qlastWritten q mod ?n = qlastRead q"
    using assms by (auto simp: q_inv_def split: if_splits)
  then have lw: "qlastWritten q = qlastRead q"
    using assms(3) by (cases "qlastWritten q = ?n") auto
  then have "qlastWritten q mod (?n * 2) = qlastRead q" using n by simp
  then show ?thesis using assms(2) n by (simp add: q_push_def q_realloc_def Let_def q_front_def)
qed

theorem q_push_full_wrapped_loses_front_witness:
  "let q = \<lparr>qdata = [Some (30 :: nat), Some 10, Some 20], qsize = 3, qdataSize = 3, qlastRead = 1, qlastWritten = 1\<rparr>
   in q_view q = [10, 20, 30] \<and> (\<exists>q'. q_push q 40 = Inr q' \<and> q_front q' = Inr 40)"
proof -
  let ?q = "\<lparr>qdata = [Some (30 :: nat), Some 10, Some 20], qsize = 3, qdataSize = 3, qlastRead = 1, qlastWritten = 1\<rparr>"
  have "{..<3 :: nat} = {0, 1, 2}" by auto
  then have "q_inv ?q" by (simp add: q_inv_def q_idx_def)
  from q_push_full_wrapped_loses_front [OF this, of 40]
  have "\<exists>q'. q_push ?q 40 = Inr q' \<and> q_front q' = Inr 40" by auto
  moreover have "[0..<3] = [0, 1, 2]" by (simp add: upt_rec)
  then have "q_view ?q = [10, 20, 30]" by (simp add: q_view_def q_idx_def)
  ultimately show ?thesis by (simp only: Let_def)
qed

section \<open>Replacing\<close>

text \<open>The cells of a buffer with every occurrence between two positions replaced.\<close>

definition q_mark :: "'a \<Rightarrow> 'a \<Rightarrow> nat \<Rightarrow> nat \<Rightarrow> 'a option list \<Rightarrow> 'a option list" where
  "q_mark v b lo hi d = map (\<lambda>k. if lo \<le> k \<and> k < hi \<and> d ! k = Some v then Some b else d ! k) [0..<length d]"

lemma q_mark_length [simp]: "length (q_mark v b lo hi d) = length d"
  by (simp add: q_mark_def)

lemma q_mark_nth:
  "k < length d \<Longrightarrow> q_mark v b lo hi d ! k = (if lo \<le> k \<and> k < hi \<and> d ! k = Some v then Some b else d ! k)"
  by (simp add: q_mark_def)

lemma q_mark_empty [simp]: "q_mark v b lo lo d = d"
  by (rule nth_equalityI) (auto simp: q_mark_nth)

lemma q_mark_step:
  assumes "i < hi" "i < length d"
  shows "q_mark v b (Suc i) hi (if d ! i = Some v then d[i := Some b] else d) = q_mark v b i hi d"
proof (rule nth_equalityI)
  fix k
  assume "k < length (q_mark v b (Suc i) hi (if d ! i = Some v then d[i := Some b] else d))"
  then have "k < length d" by (simp split: if_splits)
  then show "q_mark v b (Suc i) hi (if d ! i = Some v then d[i := Some b] else d) ! k = q_mark v b i hi d ! k"
    using assms by (cases "k = i") (auto simp: q_mark_nth nth_list_update)
qed simp

lemma q_replace_run:
  assumes "length (qdata q) = qdataSize q" "qdataSize q < 2 ^ 32" "i \<le> m" "m \<le> qdataSize q"
    "\<forall>k. i \<le> k \<and> k < m \<longrightarrow> k \<noteq> qlastWritten q"
  shows "q_replace_from q v b (of_nat i) = q_replace_from (q\<lparr>qdata := q_mark v b i m (qdata q)\<rparr>) v b (of_nat m)"
  using assms
proof (induction "m - i" arbitrary: i q)
  case (Suc d)
  have lt: "i < m" "i < qdataSize q" using Suc.hyps(2) Suc.prems by auto
  have u: "unat (of_nat i :: u32) = i"
    using lt Suc.prems(2) by (simp add: unsigned_of_nat take_bit_nat_eq_self)
  let ?d = "if qdata q ! i = Some v then (qdata q)[i := Some b] else qdata q"
  let ?q = "if qdata q ! i = Some v then q\<lparr>qdata := (qdata q)[i := Some b]\<rparr> else q"
  have q': "?q = q\<lparr>qdata := ?d\<rparr>" by simp
  have "i \<noteq> qlastWritten q" using Suc.prems(5) lt by blast
  then have "q_replace_from q v b (of_nat i) = q_replace_from ?q v b (of_nat i + 1)"
    using u lt Suc.prems(1) by (subst q_replace_from.simps) (simp add: Let_def)
  also have "\<dots> = q_replace_from ?q v b (of_nat (Suc i))" by (simp add: add.commute)
  also have "\<dots> = q_replace_from (?q\<lparr>qdata := q_mark v b (Suc i) m (qdata ?q)\<rparr>) v b (of_nat m)"
    by (rule Suc.hyps(1)) (use Suc in auto)
  also have "qdata ?q = ?d" by simp
  also have "q_mark v b (Suc i) m ?d = q_mark v b i m (qdata q)"
    by (rule q_mark_step) (use lt Suc.prems(1) in simp_all)
  finally show ?case by simp
qed simp

lemma q_replace_stop:
  "qlastWritten q < 2 ^ 32 \<Longrightarrow> q_replace_from q v b (of_nat (qlastWritten q)) = Some (Inr q)"
  by (subst q_replace_from.simps) (simp add: unsigned_of_nat take_bit_nat_eq_self)

lemma q_replace_wrap:
  assumes "0 < qdataSize q" "qdataSize q < 2 ^ 32" "qlastWritten q \<noteq> qdataSize q" "qlastWritten q \<noteq> 0"
  shows "q_replace_from q v b (of_nat (qdataSize q)) = q_replace_from q v b 0"
proof -
  have u: "unat (of_nat (qdataSize q) :: u32) = qdataSize q"
    using assms(2) by (simp add: unsigned_of_nat take_bit_nat_eq_self)
  show ?thesis using assms u
    by (subst (1 2) q_replace_from.simps) (simp add: Let_def)
qed

text \<open>The cells the loop visits.\<close>

definition q_visited :: "'a kqueue \<Rightarrow> nat \<Rightarrow> bool" where
  "q_visited q k \<longleftrightarrow> (if qlastRead q \<le> qlastWritten q then qlastRead q \<le> k \<and> k < qlastWritten q
                     else qlastRead q \<le> k \<or> k < qlastWritten q)"

lemma q_replaceAll_cells:
  assumes inv: "q_inv q" and n: "qdataSize q < 2 ^ 32"
  shows "\<exists>d. q_replaceAll q v b = Some (Inr (q\<lparr>qdata := d\<rparr>)) \<and> length d = qdataSize q \<and>
    (\<forall>k < qdataSize q. d ! k = (if q_visited q k \<and> qdata q ! k = Some v then Some b else qdata q ! k))"
proof (cases "qlastRead q \<le> qlastWritten q")
  case True
  have len: "length (qdata q) = qdataSize q" "qlastWritten q \<le> qdataSize q"
    using inv by (auto simp: q_inv_def split: if_splits)
  let ?d = "q_mark v b (qlastRead q) (qlastWritten q) (qdata q)"
  have "q_replaceAll q v b = q_replace_from (q\<lparr>qdata := ?d\<rparr>) v b (of_nat (qlastWritten q))"
    unfolding q_replaceAll_def by (rule q_replace_run) (use len n True in auto)
  then have "q_replaceAll q v b = Some (Inr (q\<lparr>qdata := ?d\<rparr>))"
    using q_replace_stop [of "q\<lparr>qdata := ?d\<rparr>" v b] len n by simp
  then show ?thesis using len True by (auto simp: q_mark_nth q_visited_def)
next
  case False
  have len: "length (qdata q) = qdataSize q" "qlastRead q < qdataSize q" "0 < qdataSize q"
    using inv False by (auto simp: q_inv_def split: if_splits)
  have nz: "qlastWritten q \<noteq> 0"
  proof
    assume z: "qlastWritten q = 0"
    then have "qlastRead q mod qdataSize q = 0" using inv len by (auto simp: q_inv_def)
    then show False using len(2) False by simp
  qed
  let ?d1 = "q_mark v b (qlastRead q) (qdataSize q) (qdata q)"
  let ?d2 = "q_mark v b 0 (qlastWritten q) ?d1"
  have "q_replaceAll q v b = q_replace_from (q\<lparr>qdata := ?d1\<rparr>) v b (of_nat (qdataSize q))"
    unfolding q_replaceAll_def by (rule q_replace_run) (use len n False in auto)
  also have "\<dots> = q_replace_from (q\<lparr>qdata := ?d1\<rparr>) v b (of_nat 0)"
    using q_replace_wrap [of "q\<lparr>qdata := ?d1\<rparr>" v b] len n False nz by simp
  also have "\<dots> = q_replace_from (q\<lparr>qdata := ?d2\<rparr>) v b (of_nat (qlastWritten q))"
    using q_replace_run [of "q\<lparr>qdata := ?d1\<rparr>" 0 "qlastWritten q" v b] len n False by simp
  also have "\<dots> = Some (Inr (q\<lparr>qdata := ?d2\<rparr>))"
    using q_replace_stop [of "q\<lparr>qdata := ?d2\<rparr>" v b] len n False by simp
  finally show ?thesis using len False by (auto simp: q_mark_nth q_visited_def)
qed

lemma q_live_visited:
  assumes "q_inv q" "k < qsize q" "qsize q < qdataSize q \<or> qlastRead q = 0"
  shows "q_visited q (q_idx q k)"
proof -
  let ?n = "qdataSize q" and ?r = "qlastRead q" and ?w = "qlastWritten q" and ?s = "qsize q"
  have b: "?r < ?n" "?w \<le> ?n" "?w mod ?n = (?r + ?s) mod ?n" "?s \<le> ?n" "?w \<noteq> 0"
    using assms(1,2) by (auto simp: q_inv_def split: if_splits)
  show ?thesis
  proof (cases "?r + ?s < ?n")
    case True
    then have "?w = ?r + ?s" using b assms(2) by (cases "?w = ?n") (auto simp: mod_if)
    then show ?thesis using True assms(2) by (simp add: q_visited_def q_idx_def)
  next
    case False
    have m: "(?r + ?s) mod ?n = ?r + ?s - ?n" using False b by (simp add: mod_if le_mod_geq)
    show ?thesis
    proof (cases "?r + ?s = ?n")
      case True
      then have "?w = ?n" using b m by (cases "?w = ?n") (auto simp: mod_if)
      then show ?thesis using True assms(2) b by (simp add: q_visited_def q_idx_def)
    next
      case gt: False
      then have w: "?w = ?r + ?s - ?n" using False b m by (cases "?w = ?n") (auto simp: mod_if)
      then have "?w < ?r" using assms(3) b gt by auto
      moreover have "q_idx q k = (if ?r + k < ?n then ?r + k else ?r + k - ?n)"
        using assms(2) b by (auto simp: q_idx_def mod_if le_mod_geq)
      ultimately show ?thesis using w assms(2) gt False b by (auto simp: q_visited_def)
    qed
  qed
qed

text \<open>
  \<open>replaceAll\<close> returns and replaces exactly the elements equal to its first argument, in
  place, whenever the queue is not both full and wrapped. In that one case (\<open>lastRead\<close> and
  \<open>lastWritten\<close> coincide on a full ring) the loop does not run at all and nothing is replaced.
\<close>

theorem q_replaceAll_correct:
  assumes "q_inv q" "qdataSize q < 2 ^ 32"
  shows "(qsize q < qdataSize q \<or> qlastRead q = 0 \<longrightarrow>
      (\<exists>q'. q_replaceAll q v b = Some (Inr q') \<and> q_inv q' \<and>
        q_view q' = map (\<lambda>x. if x = v then b else x) (q_view q))) \<and>
    (qsize q = qdataSize q \<and> 0 < qlastRead q \<longrightarrow> q_replaceAll q v b = Some (Inr q))"
proof (intro conjI impI)
  assume room: "qsize q < qdataSize q \<or> qlastRead q = 0"
  obtain d where d: "q_replaceAll q v b = Some (Inr (q\<lparr>qdata := d\<rparr>))" "length d = qdataSize q"
    "\<forall>k < qdataSize q. d ! k = (if q_visited q k \<and> qdata q ! k = Some v then Some b else qdata q ! k)"
    using q_replaceAll_cells [OF assms] by blast
  let ?q = "q\<lparr>qdata := d\<rparr>" and ?f = "\<lambda>x. if x = v then b else x"
  have idx: "q_idx ?q k = q_idx q k" for k by (simp add: q_idx_def)
  have cell: "qdata ?q ! q_idx ?q k = Some (map ?f (q_view q) ! k)" if k: "k < qsize q" for k
  proof -
    have "0 < qdataSize q" using k assms(1) by (auto simp: q_inv_def)
    then have "q_idx q k < qdataSize q" by (simp add: q_idx_def)
    then show ?thesis using d(3) q_live_visited [OF assms(1) k room] q_inv_cell [OF assms(1) k] k idx by simp
  qed
  have "q_view ?q = map ?f (q_view q)" by (rule q_view_eqI) (use cell in simp_all)
  moreover have "q_inv ?q" using assms(1) d(2) cell unfolding q_inv_def by simp
  ultimately show "\<exists>q'. q_replaceAll q v b = Some (Inr q') \<and> q_inv q' \<and> q_view q' = map ?f (q_view q)"
    using d(1) by blast
next
  assume full: "qsize q = qdataSize q \<and> 0 < qlastRead q"
  then have "qlastWritten q mod qdataSize q = qlastRead q" "qlastRead q < qdataSize q" "qlastWritten q \<le> qdataSize q"
    using assms(1) by (auto simp: q_inv_def split: if_splits)
  then have "qlastWritten q = qlastRead q" using full by (cases "qlastWritten q = qdataSize q") auto
  then show "q_replaceAll q v b = Some (Inr q)"
    using q_replace_stop [of q v b] \<open>qlastRead q < qdataSize q\<close> assms(2) by (simp add: q_replaceAll_def)
qed

theorem q_replaceAll_correct_witness:
  "q_replaceAll \<lparr>qdata = [Some (30 :: nat), Some 10], qsize = 2, qdataSize = 2, qlastRead = 1, qlastWritten = 1\<rparr> 10 0 =
    Some (Inr \<lparr>qdata = [Some (30 :: nat), Some 10], qsize = 2, qdataSize = 2, qlastRead = 1, qlastWritten = 1\<rparr>)"
proof -
  have "{..<2 :: nat} = {0, 1}" by auto
  then have "q_inv \<lparr>qdata = [Some (30 :: nat), Some 10], qsize = 2, qdataSize = 2, qlastRead = 1, qlastWritten = 1\<rparr>"
    by (simp add: q_inv_def q_idx_def)
  from q_replaceAll_correct [OF this, of 10 0] show ?thesis by simp
qed

end
