(* ===== verification/KHashMap.thy ===== *)
theory KHashMap
  imports KList
begin

text \<open>
  \<open>include/lib/hashMap.h\<close> and \<open>kernel/lib/hashMap.cpp\<close>: an array of \<open>List<Node>\<close> buckets, selected by
  \<open>hash(key) % m_size\<close>. The key type's \<open>hash\<close> overload is a parameter of the operations; both
  overloads of the source are defined below. Results are wrapped in \<open>option\<close> where a loop over a
  bucket could run forever.
\<close>

record ('k, 'v) hashMap =
  hm_size :: nat
  hm_entries :: "('k \<times> 'v) klist list option"

section \<open>Hash functions\<close>

text \<open>A \<open>char\<close> is signed: promoted to \<open>int\<close> and converted to \<open>unsigned\<close> it is sign extended.\<close>

definition char_u32 :: "char \<Rightarrow> u32" where
  "char_u32 c = scast (of_char c :: u8)"

function hash_string_from :: "string \<Rightarrow> nat \<Rightarrow> u32 \<Rightarrow> u32" where
  "hash_string_from key i hash =
     (if i < length key
      then hash_string_from key (Suc i) (char_u32 (key ! i) + push_bit 6 hash + push_bit 16 hash - hash)
      else hash)"
  by pat_completeness auto
termination
  by (relation "measure (\<lambda>(key, i, hash). length key - i)") auto

definition hash_string :: "string \<Rightarrow> u32" where
  "hash_string key = hash_string_from key 0 0"

definition hash_u32 :: "u32 \<Rightarrow> u32" where
  "hash_u32 key = key"

declare hash_string_from.simps [simp del]

section \<open>Operations\<close>

definition hm_alloc :: "('k, 'v) hashMap \<Rightarrow> ('k, 'v) hashMap" where
  "hm_alloc h = (case hm_entries h of Some es \<Rightarrow> h
                 | None \<Rightarrow> h\<lparr>hm_entries := Some (replicate (hm_size h) lst_empty)\<rparr>)"

definition hm_new_sized :: "nat \<Rightarrow> ('k, 'v) hashMap" where
  "hm_new_sized n = hm_alloc \<lparr>hm_size = n, hm_entries = None\<rparr>"

definition hm_new :: "('k, 'v) hashMap" where
  "hm_new = hm_new_sized 10"

definition hm_bucket :: "('k \<Rightarrow> u32) \<Rightarrow> ('k, 'v) hashMap \<Rightarrow> 'k \<Rightarrow> (nat \<times> ('k \<times> 'v) klist) res" where
  "hm_bucket hash h key =
     (if hm_size h = 0 then Inl DivZero
      else let i = unat (hash key) mod hm_size h in
           case hm_entries h of None \<Rightarrow> Inl BadAccess
           | Some es \<Rightarrow> if i < length es then Inr (i, es ! i) else Inl BadAccess)"

definition hm_put :: "('k, 'v) hashMap \<Rightarrow> nat \<Rightarrow> ('k \<times> 'v) klist \<Rightarrow> ('k, 'v) hashMap" where
  "hm_put h i b = h\<lparr>hm_entries := map_option (\<lambda>es. es[i := b]) (hm_entries h)\<rparr>"

definition hm_get :: "('k \<Rightarrow> u32) \<Rightarrow> ('k, 'v) hashMap \<Rightarrow> 'k \<Rightarrow> 'v option res option" where
  "hm_get hash h0 key =
     (let h = hm_alloc h0 in
      case hm_bucket hash h key of
        Inl e \<Rightarrow> Some (Inl e)
      | Inr (i, b) \<Rightarrow>
          if llength b = 0 then Some (Inr None)
          else if llength b = 1
          then Some (bind_res (lst_get b 0) (\<lambda>n.
                 case n of None \<Rightarrow> Inl BadAccess
                 | Some kv \<Rightarrow> if fst kv = key then Inr (Some (snd kv)) else Inr None))
          else (case lst_scan (\<lambda>kv. fst kv = key) b (lhead b) 0 of
                  None \<Rightarrow> None
                | Some (Inl e) \<Rightarrow> Some (Inl e)
                | Some (Inr r) \<Rightarrow> Some (Inr (map_option (snd \<circ> snd) r))))"

text \<open>\<open>set\<close> always appends, also when the key is already present.\<close>

definition hm_set :: "('k \<Rightarrow> u32) \<Rightarrow> ('k, 'v) hashMap \<Rightarrow> 'k \<Rightarrow> 'v \<Rightarrow> ('k, 'v) hashMap res" where
  "hm_set hash h0 key value =
     (let h = hm_alloc h0 in
      bind_res (hm_bucket hash h key) (\<lambda>(i, b).
      bind_res (lst_push b (key, value)) (\<lambda>b'. Inr (hm_put h i b'))))"

text \<open>\<open>remove\<close> clears a bucket of one node without looking at its key.\<close>

definition hm_remove :: "('k \<Rightarrow> u32) \<Rightarrow> ('k, 'v) hashMap \<Rightarrow> 'k \<Rightarrow> ('k, 'v) hashMap res option" where
  "hm_remove hash h0 key =
     (let h = hm_alloc h0 in
      case hm_bucket hash h key of
        Inl e \<Rightarrow> Some (Inl e)
      | Inr (i, b) \<Rightarrow>
          if llength b = 0 then Some (Inl Panic)
          else if llength b = 1 then Some (bind_res (lst_clear b) (\<lambda>b'. Inr (hm_put h i b')))
          else (case lst_scan (\<lambda>kv. fst kv = key) b (lhead b) 0 of
                  None \<Rightarrow> None
                | Some (Inl e) \<Rightarrow> Some (Inl e)
                | Some (Inr None) \<Rightarrow> Some (Inl Panic)
                | Some (Inr (Some (y, kv))) \<Rightarrow>
                    Some (bind_res (lst_remove b y) (\<lambda>b'. Inr (hm_put h i b')))))"

section \<open>Abstract view and invariant\<close>

definition hm_index :: "('k \<Rightarrow> u32) \<Rightarrow> ('k, 'v) hashMap \<Rightarrow> 'k \<Rightarrow> nat" where
  "hm_index hash h key = unat (hash key) mod hm_size h"

definition hm_view :: "('k \<Rightarrow> u32) \<Rightarrow> ('k, 'v) hashMap \<Rightarrow> 'k \<Rightarrow> ('k \<times> 'v) list" where
  "hm_view hash h key = lst_view (the (hm_entries h) ! hm_index hash h key)"

definition hm_look :: "('k \<Rightarrow> u32) \<Rightarrow> ('k, 'v) hashMap \<Rightarrow> 'k \<Rightarrow> 'v option" where
  "hm_look hash h key = map_of (hm_view hash h key) key"

definition hm_inv :: "('k \<Rightarrow> u32) \<Rightarrow> ('k, 'v) hashMap \<Rightarrow> bool" where
  "hm_inv hash h \<longleftrightarrow> 0 < hm_size h \<and>
     (\<exists>es. hm_entries h = Some es \<and> length es = hm_size h \<and> (\<forall>b \<in> set es. lst_inv b))"

definition hm_nodup :: "('k \<Rightarrow> u32) \<Rightarrow> ('k, 'v) hashMap \<Rightarrow> bool" where
  "hm_nodup hash h \<longleftrightarrow> (\<forall>b \<in> set (the (hm_entries h)). distinct (map fst (lst_view b)))"

section \<open>Hashing is polynomial evaluation\<close>

lemma hash_step: "c + push_bit 6 h + push_bit 16 h - h = h * 65599 + (c :: u32)"
  by (simp add: push_bit_eq_mult algebra_simps)

lemma hash_string_from_poly:
  "i \<le> length key \<Longrightarrow> hash_string_from key i h =
     h * 65599 ^ (length key - i) + (\<Sum>j = i..<length key. char_u32 (key ! j) * 65599 ^ (length key - 1 - j))"
proof (induction "length key - i" arbitrary: i h)
  case 0
  then show ?case by (simp add: hash_string_from.simps)
next
  case (Suc d)
  then have lt: "i < length key" by simp
  have e: "length key - i = Suc (length key - Suc i)" using lt by simp
  have "hash_string_from key i h = hash_string_from key (Suc i) (h * 65599 + char_u32 (key ! i))"
    by (subst hash_string_from.simps) (simp only: lt if_True hash_step)
  also have "\<dots> = (h * 65599 + char_u32 (key ! i)) * 65599 ^ (length key - Suc i) +
      (\<Sum>j = Suc i..<length key. char_u32 (key ! j) * 65599 ^ (length key - 1 - j))"
    by (rule Suc.hyps(1)) (use Suc.hyps(2) lt in simp_all)
  also have "\<dots> = h * 65599 ^ (length key - i) +
      (\<Sum>j = i..<length key. char_u32 (key ! j) * 65599 ^ (length key - 1 - j))"
    using lt by (simp add: sum.atLeast_Suc_lessThan e algebra_simps)
  finally show ?case .
qed

text \<open>
  The string hash (the loop with two shifts and a subtraction) is the polynomial of the
  characters at 65599, modulo \<open>2 ^ 32\<close>.
\<close>

theorem hash_string_polynomial:
  "hash_string key = (\<Sum>j = 0..<length key. char_u32 (key ! j) * 65599 ^ (length key - 1 - j))"
  by (simp add: hash_string_def hash_string_from_poly)

section \<open>Lookup\<close>

lemma hm_new_sized_inv:
  assumes "0 < n"
  shows "hm_inv hash (hm_new_sized n)" "hm_look hash (hm_new_sized n) = Map.empty" "hm_nodup hash (hm_new_sized n)"
  using assms by (auto simp: hm_inv_def hm_new_sized_def hm_alloc_def hm_look_def hm_view_def hm_index_def
      hm_nodup_def lst_empty_inv)

lemma hm_invD:
  assumes "hm_inv hash h"
  obtains es where "hm_entries h = Some es" "length es = hm_size h" "hm_alloc h = h"
    "hm_index hash h key < length es" "lst_inv (es ! hm_index hash h key)"
    "hm_bucket hash h key = Inr (hm_index hash h key, es ! hm_index hash h key)"
  using assms that
  by (auto simp: hm_inv_def hm_bucket_def hm_alloc_def hm_index_def Let_def)

text \<open>Scanning a bucket for a key is \<open>map_of\<close> on its sequence.\<close>

lemma find_key_map_of:
  "map_option (\<lambda>i. snd (xs ! i)) (List.find (\<lambda>i. fst (xs ! i) = k) [0..<length xs]) = map_of xs k"
proof (induction xs)
  case (Cons x xs)
  have up: "[0..<length (x # xs)] = 0 # map Suc [0..<length xs]"
    by (simp add: upt_conv_Cons map_Suc_upt del: upt_Suc)
  have find_map: "List.find P (map Suc ys) = map_option Suc (List.find (P \<circ> Suc) ys)" for P ys
    by (induction ys) auto
  show ?case unfolding up using Cons by (cases x) (auto simp: find_map option.map_comp comp_def)
qed simp

lemma find_key_Some:
  "List.find (\<lambda>i. fst (xs ! i) = k) [0..<length xs] = Some y \<Longrightarrow>
    y < length xs \<and> fst (xs ! y) = k \<and> (\<forall>j < y. fst (xs ! j) \<noteq> k)"
  by (auto simp: find_Some_iff)

lemma find_key_None:
  "List.find (\<lambda>i. fst (xs ! i) = k) [0..<length xs] = None \<longleftrightarrow> k \<notin> fst ` set xs"
proof -
  have "k \<in> fst ` set xs \<longleftrightarrow> (\<exists>i < length xs. fst (xs ! i) = k)"
    by (metis image_iff in_set_conv_nth)
  then show ?thesis by (simp add: find_None_iff)
qed

lemma hm_get_ok:
  assumes "hm_inv hash h"
  shows "hm_get hash h key = Some (Inr (hm_look hash h key))"
proof -
  obtain es where es: "hm_entries h = Some es" "hm_alloc h = h" "lst_inv (es ! hm_index hash h key)"
    "hm_bucket hash h key = Inr (hm_index hash h key, es ! hm_index hash h key)"
    using hm_invD [OF assms] by metis
  let ?b = "es ! hm_index hash h key"
  have look: "hm_look hash h key = map_of (lst_view ?b) key" using es by (simp add: hm_look_def hm_view_def)
  have len: "length (lst_view ?b) = llength ?b" by (rule lst_view_length [OF es(3)])
  consider "llength ?b = 0" | "llength ?b = 1" | "llength ?b > 1" by linarith
  then show ?thesis
  proof cases
    case 2
    then obtain kv where "lst_view ?b = [kv]" using len by (cases "lst_view ?b") auto
    then show ?thesis using 2 es look lst_get_ok [OF es(3), of 0]
      by (cases kv) (simp add: hm_get_def)
  next
    case 3
    then have "lst_scan (\<lambda>kv. fst kv = key) ?b (lhead ?b) 0 =
        Some (Inr (map_option (\<lambda>i. (i, lst_view ?b ! i))
          (List.find (\<lambda>i. fst (lst_view ?b ! i) = key) [0..<length (lst_view ?b)])))"
      using lst_scan_ok [OF es(3), of "\<lambda>kv. fst kv = key"] len by simp
    then show ?thesis using 3 es look find_key_map_of [of "lst_view ?b" key]
      by (simp add: hm_get_def option.map_comp comp_def)
  qed (use es look len in \<open>simp add: hm_get_def\<close>)
qed

text \<open>What replacing one bucket does to the table.\<close>

lemma hm_put_abs:
  assumes "hm_inv hash h" "lst_inv b" "i = hm_index hash h key"
  shows "hm_inv hash (hm_put h i b)"
    "hm_view hash (hm_put h i b) k = (if hm_index hash h k = i then lst_view b else hm_view hash h k)"
    "hm_index hash (hm_put h i b) k = hm_index hash h k"
proof -
  obtain es where es: "hm_entries h = Some es" "length es = hm_size h" "\<forall>b \<in> set es. lst_inv b" "0 < hm_size h"
    using assms(1) by (auto simp: hm_inv_def)
  have i: "i < length es" using es assms(3) by (simp add: hm_index_def)
  show "hm_inv hash (hm_put h i b)" using es assms(2) set_update_subset_insert [of es i b]
    by (fastforce simp: hm_inv_def hm_put_def)
  show "hm_view hash (hm_put h i b) k = (if hm_index hash h k = i then lst_view b else hm_view hash h k)"
    using es i by (auto simp: hm_view_def hm_put_def hm_index_def)
qed (simp add: hm_index_def hm_put_def)

lemma hm_set_view:
  assumes "hm_inv hash h"
  shows "\<exists>h'. hm_set hash h key v = Inr h' \<and> hm_inv hash h' \<and> (\<forall>k. hm_view hash h' k =
    (if hm_index hash h k = hm_index hash h key then hm_view hash h k @ [(key, v)] else hm_view hash h k))"
proof -
  obtain es where es: "hm_entries h = Some es" "hm_alloc h = h" "lst_inv (es ! hm_index hash h key)"
    "hm_bucket hash h key = Inr (hm_index hash h key, es ! hm_index hash h key)"
    using hm_invD [OF assms] by metis
  let ?b = "es ! hm_index hash h key"
  obtain b' where b': "lst_push ?b (key, v) = Inr b'" "lst_inv b'" "lst_view b' = lst_view ?b @ [(key, v)]"
    using lst_push_ok [OF es(3)] by blast
  have "hm_view hash h k = lst_view ?b" if "hm_index hash h k = hm_index hash h key" for k
    using that es by (simp add: hm_view_def)
  then show ?thesis using b' es hm_put_abs [OF assms b'(2) refl, of key] by (auto simp: hm_set_def)
qed

lemma hm_set_new:
  assumes "hm_inv hash h" "hm_look hash h key = None"
  shows "\<exists>h'. hm_set hash h key v = Inr h' \<and> hm_inv hash h' \<and> hm_look hash h' = (hm_look hash h)(key \<mapsto> v)"
proof -
  obtain h' where h': "hm_set hash h key v = Inr h'" "hm_inv hash h'" "\<forall>k. hm_view hash h' k =
    (if hm_index hash h k = hm_index hash h key then hm_view hash h k @ [(key, v)] else hm_view hash h k)"
    using hm_set_view [OF assms(1)] by blast
  have "hm_look hash h' k = ((hm_look hash h)(key \<mapsto> v)) k" for k
    using assms(2) h'(3) by (auto simp: hm_look_def map_add_def split: option.splits)
  then show ?thesis using h' by auto
qed

interpretation hm: lookup_table "hm_inv hash" "hm_look hash" "hm_set hash" for hash :: "'k \<Rightarrow> u32"
  by unfold_locales (rule hm_set_new)

lemma hm_set_look:
  assumes "hm_inv hash h"
  shows "\<exists>h'. hm_set hash h key v = Inr h' \<and> hm_inv hash h' \<and>
    hm_look hash h' = (if hm_look hash h key = None then (hm_look hash h)(key \<mapsto> v) else hm_look hash h)"
proof (cases "hm_look hash h key")
  case None
  then show ?thesis using hm.ins_new [OF assms None] by simp
next
  case (Some u)
  obtain h' where h': "hm_set hash h key v = Inr h'" "hm_inv hash h'" "\<forall>k. hm_view hash h' k =
    (if hm_index hash h k = hm_index hash h key then hm_view hash h k @ [(key, v)] else hm_view hash h k)"
    using hm_set_view [OF assms] by blast
  have "hm_look hash h' k = hm_look hash h k" for k
    using Some h'(3) by (auto simp: hm_look_def map_add_def split: option.splits)
  then show ?thesis using h' Some by auto
qed

text \<open>
  \<open>get\<close> always ends and returns what the table holds; \<open>set\<close> of a new key adds exactly that
  binding; \<open>set\<close> of a key that is already there changes nothing a later \<open>get\<close> can see, because the
  new node is appended behind the old one.
\<close>

theorem hashMap_get_set:
  assumes "hm_inv hash h"
  shows "hm_get hash h key = Some (Inr (hm_look hash h key)) \<and>
    (\<exists>h'. hm_set hash h key v = Inr h' \<and> hm_inv hash h' \<and>
      hm_look hash h' = (if hm_look hash h key = None then (hm_look hash h)(key \<mapsto> v) else hm_look hash h))"
  using hm_get_ok [OF assms] hm_set_look [OF assms] by blast

theorem hashMap_get_set_witness:
  "\<exists>h'. hm_set hash_u32 (hm_new_sized 4 :: (u32, nat) hashMap) 7 1 = Inr h' \<and> hm_inv hash_u32 h' \<and>
    hm_look hash_u32 h' = [7 \<mapsto> 1]"
  using hashMap_get_set [OF hm_new_sized_inv(1) [of 4 hash_u32], of 7 "1 :: nat"]
  by (simp add: hm_new_sized_inv(2))

section \<open>Removal\<close>

lemma hm_remove_view:
  assumes "hm_inv hash h" "hm_remove hash h key = Some (Inr h')"
  shows "hm_inv hash h' \<and> (\<exists>y < length (hm_view hash h key).
    (length (hm_view hash h key) = 1 \<or> fst (hm_view hash h key ! y) = key) \<and>
    (\<forall>k. hm_view hash h' k = (if hm_index hash h k = hm_index hash h key
       then take y (hm_view hash h k) @ drop (Suc y) (hm_view hash h k) else hm_view hash h k)))"
proof -
  obtain es where es: "hm_entries h = Some es" "hm_alloc h = h" "lst_inv (es ! hm_index hash h key)"
    "hm_bucket hash h key = Inr (hm_index hash h key, es ! hm_index hash h key)"
    using hm_invD [OF assms(1)] by metis
  let ?b = "es ! hm_index hash h key"
  have len: "length (lst_view ?b) = llength ?b" by (rule lst_view_length [OF es(3)])
  have v: "hm_view hash h k = lst_view ?b" if "hm_index hash h k = hm_index hash h key" for k
    using that es by (simp add: hm_view_def)
  have fin: ?thesis if "lst_inv b'" "h' = hm_put h (hm_index hash h key) b'"
    "lst_view b' = take y (lst_view ?b) @ drop (Suc y) (lst_view ?b)" "y < llength ?b"
    "llength ?b = 1 \<or> fst (lst_view ?b ! y) = key" for b' y
  proof (intro conjI exI [of _ y])
    note put = hm_put_abs [OF assms(1) that(1) refl, of key]
    show "hm_inv hash h'" using put(1) that(2) by simp
    show "\<forall>k. hm_view hash h' k = (if hm_index hash h k = hm_index hash h key
       then take y (hm_view hash h k) @ drop (Suc y) (hm_view hash h k) else hm_view hash h k)"
      using put(2) that(2,3) v by simp
  qed (use that(4,5) v len in auto)
  consider "llength ?b = 0" | "llength ?b = 1" | "llength ?b > 1" by linarith
  then show ?thesis
  proof cases
    case 1
    then show ?thesis using assms(2) es by (simp add: hm_remove_def)
  next
    case 2
    obtain b' where b': "lst_clear ?b = Inr b'" "lst_inv b'" "lst_view b' = []"
      using lst_clear_ok [OF es(3)] by blast
    have "lst_view b' = take 0 (lst_view ?b) @ drop (Suc 0) (lst_view ?b)" using 2 b'(3) len by simp
    then show ?thesis using fin [of b' 0] b' 2 assms(2) es by (simp add: hm_remove_def)
  next
    case 3
    let ?f = "List.find (\<lambda>i. fst (lst_view ?b ! i) = key) [0..<length (lst_view ?b)]"
    have scan: "lst_scan (\<lambda>kv. fst kv = key) ?b (lhead ?b) 0 =
        Some (Inr (map_option (\<lambda>i. (i, lst_view ?b ! i)) ?f))"
      using lst_scan_ok [OF es(3), of "\<lambda>kv. fst kv = key"] len 3 by simp
    obtain y where y: "?f = Some y" using assms(2) es 3 scan by (cases ?f) (auto simp: hm_remove_def)
    have yb: "y < llength ?b" "fst (lst_view ?b ! y) = key" using find_key_Some [OF y] len by auto
    obtain b' where b': "lst_remove ?b y = Inr b'" "lst_inv b'"
      "lst_view b' = take y (lst_view ?b) @ drop (Suc y) (lst_view ?b)"
      using lst_remove_ok [OF es(3) yb(1)] by blast
    then show ?thesis using fin [of b' y] yb 3 assms(2) es scan y by (simp add: hm_remove_def)
  qed
qed

lemma hm_remove_returns:
  assumes "hm_inv hash h" "hm_look hash h key \<noteq> None"
  shows "\<exists>h'. hm_remove hash h key = Some (Inr h')"
proof -
  obtain es where es: "hm_entries h = Some es" "hm_alloc h = h" "lst_inv (es ! hm_index hash h key)"
    "hm_bucket hash h key = Inr (hm_index hash h key, es ! hm_index hash h key)"
    using hm_invD [OF assms(1)] by metis
  let ?b = "es ! hm_index hash h key"
  have len: "length (lst_view ?b) = llength ?b" by (rule lst_view_length [OF es(3)])
  have mem: "key \<in> fst ` set (lst_view ?b)"
    using assms(2) es by (auto simp: hm_look_def hm_view_def map_of_eq_None_iff)
  then have pos: "llength ?b > 0" using len by (cases "lst_view ?b") auto
  show ?thesis
  proof (cases "llength ?b = 1")
    case True
    then show ?thesis using es lst_clear_ok [OF es(3)] by (auto simp: hm_remove_def)
  next
    case False
    let ?f = "List.find (\<lambda>i. fst (lst_view ?b ! i) = key) [0..<length (lst_view ?b)]"
    obtain y where y: "?f = Some y" using mem find_key_None [of "lst_view ?b" key] by fastforce
    then have "y < llength ?b" using find_key_Some [OF y] len by simp
    then obtain b' where "lst_remove ?b y = Inr b'" using lst_remove_ok [OF es(3)] by blast
    moreover have "lst_scan (\<lambda>kv. fst kv = key) ?b (lhead ?b) 0 = Some (Inr (Some (y, lst_view ?b ! y)))"
      using lst_scan_ok [OF es(3) pos, of "\<lambda>kv. fst kv = key"] len y by simp
    ultimately show ?thesis using es False pos by (auto simp: hm_remove_def)
  qed
qed

lemma map_of_remove_nth:
  assumes "distinct (map fst xs)" "y < length xs"
  shows "map_of (take y xs @ drop (Suc y) xs) = (map_of xs)(fst (xs ! y) := None)"
proof
  fix k
  have e: "xs = take y xs @ [xs ! y] @ drop (Suc y) xs" using id_take_nth_drop [OF assms(2)] by simp
  have "distinct (map fst (take y xs @ [xs ! y] @ drop (Suc y) xs))" using assms(1) e by simp
  then have "fst (xs ! y) \<notin> fst ` set (take y xs)" "fst (xs ! y) \<notin> fst ` set (drop (Suc y) xs)"
    by auto
  then have n: "map_of (take y xs) (fst (xs ! y)) = None" "map_of (drop (Suc y) xs) (fst (xs ! y)) = None"
    by (simp_all add: map_of_eq_None_iff)
  have m: "map_of xs k = map_of (take y xs @ [xs ! y] @ drop (Suc y) xs) k" using e by simp
  show "map_of (take y xs @ drop (Suc y) xs) k = ((map_of xs)(fst (xs ! y) := None)) k"
    unfolding fun_upd_apply m using n by (cases "xs ! y") (auto simp: map_add_def split: option.splits)
qed

text \<open>
  \<open>remove\<close> of a key that is present, in a table without duplicate keys, ends normally and
  deletes exactly that binding.
\<close>

theorem hashMap_remove_present:
  assumes "hm_inv hash h" "hm_nodup hash h" "hm_look hash h key = Some v"
  shows "\<exists>h'. hm_remove hash h key = Some (Inr h') \<and> hm_inv hash h' \<and>
    hm_look hash h' = (hm_look hash h)(key := None)"
proof -
  obtain h' where h': "hm_remove hash h key = Some (Inr h')"
    using hm_remove_returns [OF assms(1)] assms(3) by blast
  obtain y where inv: "hm_inv hash h'" and y: "y < length (hm_view hash h key)"
    "length (hm_view hash h key) = 1 \<or> fst (hm_view hash h key ! y) = key"
    "\<forall>k. hm_view hash h' k = (if hm_index hash h k = hm_index hash h key
       then take y (hm_view hash h k) @ drop (Suc y) (hm_view hash h k) else hm_view hash h k)"
    using hm_remove_view [OF assms(1) h'] by blast
  have bucket: "hm_view hash h k = hm_view hash h key" if "hm_index hash h k = hm_index hash h key" for k
    using that by (simp add: hm_view_def)
  have d: "distinct (map fst (hm_view hash h key))"
    using assms(1,2) by (auto simp: hm_nodup_def hm_inv_def hm_view_def hm_index_def)
  have "key \<in> fst ` set (hm_view hash h key)"
    using assms(3) by (force simp: hm_look_def dest: map_of_SomeD)
  then have fst_y: "fst (hm_view hash h key ! y) = key"
    using y(1,2) by (cases "hm_view hash h key") auto
  have "hm_look hash h' k = ((hm_look hash h)(key := None)) k" for k
    using y(3) map_of_remove_nth [OF d y(1)] fst_y bucket [of k]
    by (cases "hm_index hash h k = hm_index hash h key") (auto simp: hm_look_def)
  then show ?thesis using h' inv by blast
qed

theorem hashMap_remove_present_witness:
  "\<exists>h h'. hm_set hash_u32 (hm_new_sized 4 :: (u32, nat) hashMap) 7 1 = Inr h \<and>
    hm_remove hash_u32 h 7 = Some (Inr h') \<and> hm_look hash_u32 h' = Map.empty"
proof -
  obtain h where h: "hm_set hash_u32 (hm_new_sized 4 :: (u32, nat) hashMap) 7 1 = Inr h" "hm_inv hash_u32 h"
    "hm_look hash_u32 h = [7 \<mapsto> 1]"
    using hm_set_new [OF hm_new_sized_inv(1) [of 4 hash_u32], of 7 "1 :: nat"] by (auto simp: hm_new_sized_inv(2))
  have rep: "replicate 4 b = [b, b, b, b]" for b :: "(u32 \<times> nat) klist"
    by (simp add: eval_nat_numeral)
  have "hm_nodup hash_u32 h" using h(1)
    by (auto simp: hm_set_def hm_new_sized_def hm_alloc_def hm_bucket_def hash_u32_def lst_push_def lst_empty_def
        Let_def hm_put_def hm_nodup_def lst_view_def lst_alloc_def rep)
  from hashMap_remove_present [OF h(2) this, of 7 1] h show ?thesis by auto
qed

text \<open>
  \<open>remove\<close> of a key that is absent deletes an unrelated binding when the key's bucket holds a
  single node, and stops the kernel in every other case.
\<close>

theorem hashMap_remove_absent:
  assumes "hm_inv hash h" "hm_look hash h key = None"
  shows "(case hm_view hash h key of
      [(k, v)] \<Rightarrow> k \<noteq> key \<and> (\<exists>h'. hm_remove hash h key = Some (Inr h') \<and> hm_view hash h' key = [])
    | _ \<Rightarrow> hm_remove hash h key = Some (Inl Panic))"
proof -
  obtain es where es: "hm_entries h = Some es" "hm_alloc h = h" "lst_inv (es ! hm_index hash h key)"
    "hm_bucket hash h key = Inr (hm_index hash h key, es ! hm_index hash h key)"
    using hm_invD [OF assms(1)] by metis
  let ?b = "es ! hm_index hash h key"
  have v: "hm_view hash h key = lst_view ?b" using es by (simp add: hm_view_def)
  have len: "length (lst_view ?b) = llength ?b" by (rule lst_view_length [OF es(3)])
  have abs: "key \<notin> fst ` set (lst_view ?b)" using assms(2) v by (simp add: hm_look_def map_of_eq_None_iff)
  consider "lst_view ?b = []" | k u where "lst_view ?b = [(k, u)]" | x y zs where "lst_view ?b = x # y # zs"
    by (cases "lst_view ?b" rule: remdups_adj.cases) auto
  then show ?thesis
  proof cases
    case 1
    then show ?thesis using es v len by (simp add: hm_remove_def)
  next
    case 2
    obtain b' where b': "lst_clear ?b = Inr b'" "lst_inv b'" "lst_view b' = []"
      using lst_clear_ok [OF es(3)] by blast
    then have "hm_remove hash h key = Some (Inr (hm_put h (hm_index hash h key) b'))"
      using 2 es len by (simp add: hm_remove_def)
    then show ?thesis using 2 v abs hm_put_abs(2) [OF assms(1) b'(2) refl, of key key] b'(3) by auto
  next
    case 3
    then have l: "llength ?b > 1" using len by simp
    have "lst_scan (\<lambda>kv. fst kv = key) ?b (lhead ?b) 0 = Some (Inr None)"
      using lst_scan_ok [OF es(3), of "\<lambda>kv. fst kv = key"] l len abs find_key_None [of "lst_view ?b" key] by simp
    then show ?thesis using 3 v es l by (simp add: hm_remove_def)
  qed
qed

theorem hashMap_remove_absent_witness:
  "hm_remove hash_u32 (hm_new_sized 4 :: (u32, nat) hashMap) 3 = Some (Inl Panic)"
proof -
  let ?h = "hm_new_sized 4 :: (u32, nat) hashMap"
  have "hm_inv hash_u32 ?h" "hm_look hash_u32 ?h 3 = None" by (simp_all add: hm_new_sized_inv)
  from hashMap_remove_absent [OF this] show ?thesis
    by (simp add: hm_view_def hm_new_sized_def hm_alloc_def hm_index_def hash_u32_def lst_empty_inv)
qed

end
