(* ===== verification/KTrees.thy ===== *)
theory KTrees
  imports Prelude
begin

text \<open>
  \<open>include/lib/binaryTree.h\<close> (the unbalanced search tree the IOAPIC driver keeps its IRQ map in) and
  \<open>include/lib/tree.h\<close> (a tree of heap nodes with child lists). A \<open>BinaryTree\<close> owns its nodes, so a
  node with its two child pointers is a value of \<open>btree\<close>; the loops that walk down with \<open>current\<close> are
  recursion on it. A node of \<open>Tree\<close> carries its address, because \<open>deleteNode\<close> compares addresses.
\<close>

section \<open>Binary search tree\<close>

datatype ('k, 'v) btree = BLeaf | BNode (bkey: 'k) (bvalue: 'v) (bleft: "('k, 'v) btree") (bright: "('k, 'v) btree")

fun bt_insert :: "('k :: linorder, 'v) btree \<Rightarrow> 'k \<Rightarrow> 'v \<Rightarrow> ('k, 'v) btree" where
  "bt_insert BLeaf key value = BNode key value BLeaf BLeaf"
| "bt_insert (BNode k v l r) key value =
     (if key = k then BNode k value l r
      else if key < k then BNode k v (bt_insert l key value) r
      else BNode k v l (bt_insert r key value))"

fun bt_find :: "('k :: linorder, 'v) btree \<Rightarrow> 'k \<Rightarrow> 'v option" where
  "bt_find BLeaf key = None"
| "bt_find (BNode k v l r) key =
     (if key = k then Some v else if key < k then bt_find l key else bt_find r key)"

primrec bt_keys :: "('k, 'v) btree \<Rightarrow> 'k set" where
  "bt_keys BLeaf = {}"
| "bt_keys (BNode k v l r) = insert k (bt_keys l \<union> bt_keys r)"

primrec bt_inv :: "('k :: linorder, 'v) btree \<Rightarrow> bool" where
  "bt_inv BLeaf = True"
| "bt_inv (BNode k v l r) \<longleftrightarrow> bt_inv l \<and> bt_inv r \<and> (\<forall>x \<in> bt_keys l. x < k) \<and> (\<forall>x \<in> bt_keys r. k < x)"

lemma bt_insert_keys [abs_simps]: "bt_keys (bt_insert t key v) = insert key (bt_keys t)"
  by (induction t) auto

lemma bt_insert_inv [inv_intros]: "bt_inv t \<Longrightarrow> bt_inv (bt_insert t key v)"
  by (induction t) (auto simp: abs_simps)

lemma bt_find_insert [abs_simps]: "bt_find (bt_insert t key v) k = (if k = key then Some v else bt_find t k)"
  by (induction t) auto

lemma bt_find_dom: "bt_inv t \<Longrightarrow> dom (bt_find t) = bt_keys t"
proof (induction t)
  case (BNode k v l r)
  have "bt_find l x = None" if "\<not> x < k" for x using BNode that by fastforce
  moreover have "bt_find r x = None" if "\<not> k < x" for x using BNode that by fastforce
  ultimately show ?case using BNode by (auto simp: dom_def split: if_splits)
qed auto

interpretation bt: updating_table bt_inv bt_find "\<lambda>t k v. Inr (bt_insert t k v)"
  by unfold_locales (auto simp: abs_simps fun_eq_iff intro: inv_intros)

text \<open>
  Any sequence of insertions into a search tree leaves a search tree whose keys are exactly the
  keys inserted, and \<open>find\<close> returns the value inserted last for each of them.
\<close>

theorem bt_insert_sequence:
  assumes "bt_inv t"
  shows "\<exists>t'. insert_all (\<lambda>t k v. Inr (bt_insert t k v)) t kvs = Inr t' \<and> bt_inv t' \<and>
    bt_find t' = bt_find t ++ map_of (rev kvs) \<and> bt_keys t' = bt_keys t \<union> fst ` set kvs"
proof -
  obtain t' where t': "insert_all (\<lambda>t k v. Inr (bt_insert t k v)) t kvs = Inr t'" "bt_inv t'"
    "bt_find t' = bt_find t ++ map_of (rev kvs)" using bt.insert_all_any [OF assms] by blast
  have "bt_keys t' = dom (bt_find t')" using bt_find_dom [OF t'(2)] by simp
  also have "\<dots> = bt_keys t \<union> fst ` set kvs"
    unfolding t'(3) dom_map_add dom_map_of_conv_image_fst bt_find_dom [OF assms] by auto
  finally show ?thesis using t' by blast
qed

theorem bt_insert_sequence_witness:
  "\<exists>t'. insert_all (\<lambda>t k v. Inr (bt_insert t k v)) BLeaf [(3 :: nat, 1 :: nat), (5, 2), (3, 7)] = Inr t' \<and>
    bt_inv t' \<and> bt_find t' = [3 \<mapsto> 7, 5 \<mapsto> 2]"
proof -
  have "bt_inv (BLeaf :: (nat, nat) btree)" by simp
  from bt_insert_sequence [OF this, of "[(3, 1), (5, 2), (3, 7)]"] obtain t' where
    t': "insert_all (\<lambda>t k v. Inr (bt_insert t k v)) BLeaf [(3 :: nat, 1 :: nat), (5, 2), (3, 7)] = Inr t'"
    "bt_inv t'" "bt_find t' = bt_find BLeaf ++ map_of (rev [(3, 1), (5, 2), (3, 7)])" by blast
  have "bt_find t' = [3 \<mapsto> 7, 5 \<mapsto> 2]" unfolding t'(3) by (auto simp: fun_eq_iff)
  then show ?thesis using t'(1,2) by blast
qed

section \<open>Tree of heap nodes\<close>

datatype 'a tnode = TNode (taddr: nat) (tdata: 'a) (tchildren: "'a tnode list")

definition tree_setRoot :: "nat \<Rightarrow> 'a \<Rightarrow> 'a tnode" where
  "tree_setRoot a d = TNode a d []"

definition tree_addChild :: "'a tnode \<Rightarrow> nat \<Rightarrow> 'a \<Rightarrow> 'a tnode" where
  "tree_addChild p a d = (case p of TNode b e cs \<Rightarrow> TNode b e (cs @ [TNode a d []]))"

text \<open>The search of \<open>deleteNode\<close> for a node in a child list, which removes the entry it finds.\<close>

fun tree_unlink :: "nat \<Rightarrow> 'a tnode list \<Rightarrow> 'a tnode list option" where
  "tree_unlink a [] = None"
| "tree_unlink a (c # cs) = (if taddr c = a then Some cs else map_option ((#) c) (tree_unlink a cs))"

fun tree_delete :: "'a tnode \<Rightarrow> 'a tnode res" and tree_delete_all :: "'a tnode list \<Rightarrow> 'a tnode list res" where
  "tree_delete (TNode a d cs) = bind_res (tree_delete_all cs) (\<lambda>cs'.
     case tree_unlink a cs' of None \<Rightarrow> Inl Panic | Some cs'' \<Rightarrow> Inr (TNode a d cs''))"
| "tree_delete_all [] = Inr []"
| "tree_delete_all (c # cs) = bind_res (tree_delete c) (\<lambda>c'. bind_res (tree_delete_all cs) (\<lambda>cs'. Inr (c' # cs')))"

text \<open>
  \<open>deleteNode\<close> searches a node among its own children instead of among its parent's, and so
  stops the kernel on every node: the recursion reaches a node without children, which is never
  found.
\<close>

theorem tree_delete_panics: "tree_delete n = Inl Panic"
proof (induction n)
  case (TNode a d cs)
  then show ?case by (cases cs) auto
qed

end
