(* ===== verification/Spinlock.thy ===== *)
theory Spinlock
  imports Prelude
begin

text \<open>
  \<open>include/synchronization/spinlock.h\<close> and \<open>include/lib/lockGuard.h\<close>. The lock is one flag, taken by
  an atomic compare and swap. The first section gives the operations on the flag; the other theories
  use them for code that runs on one processor, where waiting for a lock that is already held is the
  fault \<open>Spin\<close>. The second section gives the interleaving semantics of any number of processors.
\<close>

section \<open>Operations\<close>

definition cas :: "bool \<Rightarrow> bool \<Rightarrow> bool \<Rightarrow> bool \<times> bool" where
  "cas flag old new = (if flag = old then (True, new) else (False, flag))"

definition spin_tryLock :: "bool \<Rightarrow> bool \<times> bool" where
  "spin_tryLock flag = cas flag False True"

text \<open>One run of \<open>lock\<close> with nobody else to release the flag.\<close>

definition spin_lock :: "bool \<Rightarrow> bool res" where
  "spin_lock flag = (case cas flag False True of (ok, flag') \<Rightarrow> if ok then Inr flag' else Inl Spin)"

definition spin_unlock :: "bool \<Rightarrow> bool" where
  "spin_unlock flag = False"

definition spin_islock :: "bool \<Rightarrow> bool" where
  "spin_islock flag = flag"

lemma spin_simps [simp]:
  "spin_lock False = Inr True" "spin_lock True = Inl Spin" "spin_unlock b = False"
  "spin_tryLock False = (True, True)" "spin_tryLock True = (False, True)" "spin_islock b = b"
  by (simp_all add: spin_lock_def cas_def spin_unlock_def spin_tryLock_def spin_islock_def)

text \<open>\<open>LockGuard\<close>: the constructor locks, the destructor unlocks on every way out of the scope.\<close>

definition with_guard :: "bool \<Rightarrow> (bool \<Rightarrow> 'a res) \<Rightarrow> ('a \<times> bool) res" where
  "with_guard flag body =
     bind_res (spin_lock flag) (\<lambda>l. bind_res (body l) (\<lambda>x. Inr (x, spin_unlock l)))"

lemma with_guard_simps [simp]:
  "with_guard False body = bind_res (body True) (\<lambda>x. Inr (x, False))"
  "with_guard True body = Inl Spin"
  by (simp_all add: with_guard_def)

section \<open>Interleaving of processors\<close>

text \<open>
  \<open>Spinning\<close> is the loop of \<open>lock\<close>, \<open>Critical\<close> the code between \<open>lock\<close> (or a successful \<open>tryLock\<close>)
  and \<open>unlock\<close>. Every step is one atomic access to the flag.
\<close>

datatype pc = Outside | Spinning | Critical

record lock_state =
  ls_flag :: bool
  ls_pc :: "nat \<Rightarrow> pc"

definition ls_init :: lock_state where
  "ls_init = \<lparr>ls_flag = False, ls_pc = (\<lambda>_. Outside)\<rparr>"

inductive lock_step :: "lock_state \<Rightarrow> lock_state \<Rightarrow> bool" where
  call_lock: "ls_pc s t = Outside \<Longrightarrow> lock_step s (s\<lparr>ls_pc := (ls_pc s)(t := Spinning)\<rparr>)"
| lock_cas: "ls_pc s t = Spinning \<Longrightarrow> cas (ls_flag s) False True = (ok, flag') \<Longrightarrow>
    lock_step s (s\<lparr>ls_flag := flag', ls_pc := (ls_pc s)(t := if ok then Critical else Spinning)\<rparr>)"
| try_lock: "ls_pc s t = Outside \<Longrightarrow> spin_tryLock (ls_flag s) = (ok, flag') \<Longrightarrow>
    lock_step s (s\<lparr>ls_flag := flag', ls_pc := (ls_pc s)(t := if ok then Critical else Outside)\<rparr>)"
| unlock: "ls_pc s t = Critical \<Longrightarrow>
    lock_step s (s\<lparr>ls_flag := spin_unlock (ls_flag s), ls_pc := (ls_pc s)(t := Outside)\<rparr>)"

inductive_cases lock_stepE: "lock_step s s'"

inductive lock_reach :: "lock_state \<Rightarrow> bool" where
  init: "lock_reach ls_init"
| step: "lock_reach s \<Longrightarrow> lock_step s s' \<Longrightarrow> lock_reach s'"

definition holders :: "lock_state \<Rightarrow> nat set" where
  "holders s = {t. ls_pc s t = Critical}"

definition lock_inv :: "lock_state \<Rightarrow> bool" where
  "lock_inv s \<longleftrightarrow> (if ls_flag s then \<exists>t. holders s = {t} else holders s = {})"

lemma lock_inv_step: "lock_step s s' \<Longrightarrow> lock_inv s \<Longrightarrow> lock_inv s'"
proof (induction rule: lock_step.induct)
  case (call_lock s t)
  have "holders (s\<lparr>ls_pc := (ls_pc s)(t := Spinning)\<rparr>) = holders s" using call_lock(1) by (auto simp: holders_def)
  then show ?case using call_lock(2) by (simp add: lock_inv_def)
next
  case (lock_cas s t ok flag')
  have "(ls_pc s)(t := Spinning) = ls_pc s" using lock_cas(1) by (simp add: fun_upd_idem)
  then show ?case using lock_cas
    by (cases "ls_flag s") (auto simp: lock_inv_def holders_def cas_def)
next
  case (try_lock s t ok flag')
  have "(ls_pc s)(t := Outside) = ls_pc s" using try_lock(1) by (simp add: fun_upd_idem)
  then show ?case using try_lock
    by (cases "ls_flag s") (auto simp: lock_inv_def holders_def)
next
  case (unlock s t)
  then have "t \<in> holders s" by (simp add: holders_def)
  then have "holders s = {t}" using unlock(2) by (auto simp: lock_inv_def split: if_splits)
  then show ?case by (auto simp: lock_inv_def holders_def)
qed

lemma lock_reach_inv: "lock_reach s \<Longrightarrow> lock_inv s"
proof (induction rule: lock_reach.induct)
  case init
  show ?case by (simp add: lock_inv_def ls_init_def holders_def)
qed (rule lock_inv_step)

text \<open>
  \<open>C32\<close> Mutual exclusion and progress of the spinlock, for any number of processors: in every
  reachable state at most one of them is in a critical section and the flag says whether there is
  one; and when none is, every spinning processor can take the lock in one step.
\<close>

theorem spinlock_mutual_exclusion:
  assumes "lock_reach s"
  shows "(\<forall>t u. ls_pc s t = Critical \<and> ls_pc s u = Critical \<longrightarrow> t = u) \<and>
    (ls_flag s \<longleftrightarrow> (\<exists>t. ls_pc s t = Critical)) \<and>
    (\<forall>t. ls_pc s t = Spinning \<and> \<not> ls_flag s \<longrightarrow> (\<exists>s'. lock_step s s' \<and> ls_pc s' t = Critical))"
proof (intro conjI)
  have inv: "lock_inv s" by (rule lock_reach_inv [OF assms])
  show "\<forall>t u. ls_pc s t = Critical \<and> ls_pc s u = Critical \<longrightarrow> t = u"
    using inv by (auto simp: lock_inv_def holders_def set_eq_iff split: if_splits)
  show "ls_flag s \<longleftrightarrow> (\<exists>t. ls_pc s t = Critical)"
    using inv by (auto simp: lock_inv_def holders_def split: if_splits)
  show "\<forall>t. ls_pc s t = Spinning \<and> \<not> ls_flag s \<longrightarrow> (\<exists>s'. lock_step s s' \<and> ls_pc s' t = Critical)"
  proof (intro allI impI)
    fix t assume t: "ls_pc s t = Spinning \<and> \<not> ls_flag s"
    then have "cas (ls_flag s) False True = (True, True)" by (simp add: cas_def)
    from lock_step.lock_cas [OF _ this, of t] t
    show "\<exists>s'. lock_step s s' \<and> ls_pc s' t = Critical" by fastforce
  qed
qed

theorem spinlock_mutual_exclusion_witness:
  "\<exists>s. lock_reach s \<and> ls_pc s 0 = Critical \<and> ls_pc s 1 = Spinning \<and> ls_flag s"
proof -
  define s1 where "s1 = ls_init\<lparr>ls_pc := (ls_pc ls_init)(1 := Spinning)\<rparr>"
  define s2 where "s2 = s1\<lparr>ls_flag := True, ls_pc := (ls_pc s1)(0 := Critical)\<rparr>"
  have "lock_step ls_init s1" unfolding s1_def by (rule lock_step.call_lock) (simp add: ls_init_def)
  moreover have "lock_step s1 s2"
    using lock_step.try_lock [of s1 0 True True] by (simp add: s1_def s2_def ls_init_def)
  ultimately have r: "lock_reach s2" by (blast intro: lock_reach.intros)
  have "ls_pc s2 0 = Critical" "ls_pc s2 1 = Spinning" by (simp_all add: s1_def s2_def ls_init_def)
  moreover have "ls_flag s2" using spinlock_mutual_exclusion [OF r] calculation(1) by blast
  ultimately show ?thesis using r by blast
qed

end
