(* ===== verification/Physical.thy ===== *)
theory Physical
  imports Spinlock
begin

text \<open>
  \<open>kernel/memory/physical.cpp\<close>: the bitmap allocator of physical pages. A bit set means the page is
  used; the bit of page \<open>i\<close> is bit \<open>7 - i mod 8\<close> of byte \<open>i div 8\<close>. Page numbers are \<open>nat\<close> (they are
  below \<open>2 ^ 52\<close>, being 64-bit addresses divided by 4096), addresses \<open>u64\<close>. An access past the end of
  the bitmap hits the multiboot structure copied behind it and is the fault \<open>BadAccess\<close>.
\<close>

record phys =
  ph_bitmap :: "u8 list"
  ph_lock :: bool

section \<open>Bits of the bitmap\<close>

definition bm_mask :: "nat \<Rightarrow> u8" where
  "bm_mask i = drop_bit (i mod 8) 0b10000000"

definition bm_get :: "u8 list \<Rightarrow> nat \<Rightarrow> bool res" where
  "bm_get bm i = (if i div 8 < length bm then Inr ((bm ! (i div 8)) AND bm_mask i \<noteq> 0) else Inl BadAccess)"

definition bm_set1 :: "u8 list \<Rightarrow> nat \<Rightarrow> u8 list res" where
  "bm_set1 bm i = (if i div 8 < length bm
     then Inr (bm[i div 8 := (bm ! (i div 8)) OR bm_mask i]) else Inl BadAccess)"

definition bm_clear1 :: "u8 list \<Rightarrow> nat \<Rightarrow> u8 list res" where
  "bm_clear1 bm i = (if i div 8 < length bm
     then Inr (bm[i div 8 := (bm ! (i div 8)) AND NOT (bm_mask i)]) else Inl BadAccess)"

definition bm_setUsed :: "u8 list \<Rightarrow> nat \<Rightarrow> nat \<Rightarrow> u8 list res" where
  "bm_setUsed bm index len = for_each bm_set1 [index..<index + len] bm"

definition bm_setFree :: "u8 list \<Rightarrow> nat \<Rightarrow> nat \<Rightarrow> u8 list res" where
  "bm_setFree bm index len = for_each bm_clear1 [index..<index + len] bm"

section \<open>Allocation\<close>

text \<open>
  The loop of \<open>findFreePages\<close>: \<open>sz\<close> (\<open>size\<close> in the code) counts the free pages found in a row, \<open>index\<close> is where they
  start. The result \<open>None\<close> is the panic behind the loop.
\<close>

function bm_find_from :: "u8 list \<Rightarrow> nat \<Rightarrow> nat \<Rightarrow> nat \<Rightarrow> nat \<Rightarrow> nat \<Rightarrow> nat res" where
  "bm_find_from bm count alignment i sz index =
     (if i < length bm * 8
      then bind_res (bm_get bm i) (\<lambda>u.
             if \<not> u
             then if sz = 0 \<and> alignment = 0 then Inl DivZero
                  else if sz = 0 \<and> (i * 4096) mod alignment \<noteq> 0
                  then bm_find_from bm count alignment (Suc i) sz index
                  else let index = (if sz = 0 then i else index) in
                       if Suc sz = count then Inr index
                       else bm_find_from bm count alignment (Suc i) (Suc sz) index
             else bm_find_from bm count alignment (Suc i) 0 index)
      else Inl Panic)"
  by pat_completeness auto
termination
  by (relation "measure (\<lambda>(bm, c, a, i, s, x). length bm * 8 - i)") auto

declare bm_find_from.simps [simp del]

definition ph_findFreePages :: "phys \<Rightarrow> nat \<Rightarrow> nat \<Rightarrow> bool \<Rightarrow> (u64 \<times> phys) res" where
  "ph_findFreePages p count alignment do_lock =
     bind_res (if do_lock then spin_lock (ph_lock p) else Inr (ph_lock p)) (\<lambda>l.
     assert_res (count > 0) (
     bind_res (bm_find_from (ph_bitmap p) count alignment 0 0 0) (\<lambda>index.
     Inr (of_nat (index * 4096), p\<lparr>ph_lock := if do_lock then spin_unlock l else l\<rparr>))))"

definition ph_getFreePages :: "phys \<Rightarrow> nat \<Rightarrow> nat \<Rightarrow> (u64 \<times> phys) res" where
  "ph_getFreePages p count alignment =
     bind_res (spin_lock (ph_lock p)) (\<lambda>l.
     bind_res (ph_findFreePages (p\<lparr>ph_lock := l\<rparr>) count alignment False) (\<lambda>(pages, p1).
     bind_res (bm_setUsed (ph_bitmap p1) (unat pages div 4096) count) (\<lambda>bm.
     Inr (pages, p1\<lparr>ph_bitmap := bm, ph_lock := spin_unlock (ph_lock p1)\<rparr>))))"

text \<open>\<open>freePages\<close> does not take the lock.\<close>

definition ph_freePages :: "phys \<Rightarrow> u64 \<Rightarrow> nat \<Rightarrow> phys res" where
  "ph_freePages p address count =
     assert_res (address AND 0xFFF = 0) (
     bind_res (bm_setFree (ph_bitmap p) (unat address div 4096) count) (\<lambda>bm. Inr (p\<lparr>ph_bitmap := bm\<rparr>)))"

section \<open>Initialisation\<close>

record mmap_entry =
  mm_base :: u64
  mm_length :: u64
  mm_type :: u32

definition mm_available :: "mmap_entry \<Rightarrow> bool" where
  "mm_available e \<longleftrightarrow> mm_type e = 1"

definition mm_end :: "mmap_entry \<Rightarrow> u64" where
  "mm_end e = mm_base e + mm_length e"

definition mm_memorySize :: "mmap_entry list \<Rightarrow> u64" where
  "mm_memorySize es = fold (\<lambda>e m. if mm_available e \<and> mm_end e > m then mm_end e else m) es 0"

definition page_round :: "u64 \<Rightarrow> u64" where
  "page_round x = (if x AND 0xFFF \<noteq> 0 then (x OR 0xFFF) + 1 else x)"

definition ph_bitmapSize :: "mmap_entry list \<Rightarrow> u64" where
  "ph_bitmapSize es = page_round (mm_memorySize es div 4096 div 8)"

text \<open>
  \<open>init\<close>. Its inputs are the memory map, the physical address of \<open>_end\<close>, the total size of the
  multiboot structure (copied behind the bitmap), the address of \<open>physical_pml2\<close> and the word stored
  there, and the bounds of the initrd module. The copy itself touches no state of the allocator.
\<close>

record boot_info =
  bi_mmap :: "mmap_entry list"
  bi_end :: u64
  bi_multiboot :: u32
  bi_pml2 :: u64
  bi_pml2_word :: u64
  bi_initrd_start :: u32
  bi_initrd_end :: u32

definition ph_firstPage :: "boot_info \<Rightarrow> nat" where
  "ph_firstPage b = unat ((bi_end b + ph_bitmapSize (bi_mmap b) + page_round (ucast (bi_multiboot b))) div 4096)"

definition ph_init_region :: "boot_info \<Rightarrow> u8 list \<Rightarrow> mmap_entry \<Rightarrow> u8 list res" where
  "ph_init_region b bm e =
     (if mm_available e
      then for_each (\<lambda>bm y. if y \<ge> ph_firstPage b then bm_setFree bm y 1 else Inr bm)
             [unat (mm_base e div 4096)..<unat (mm_end e div 4096)] bm
      else Inr bm)"

definition ph_init :: "boot_info \<Rightarrow> phys res" where
  "ph_init b =
     bind_res (for_each (ph_init_region b) (bi_mmap b) (replicate (unat (ph_bitmapSize (bi_mmap b))) 0xFF)) (\<lambda>bm1.
     bind_res (if bi_pml2_word b = 0
               then for_each (\<lambda>bm i. bm_setFree bm (unat (bi_pml2 b div 4096) + i) 1) [0..<512] bm1
               else Inr bm1) (\<lambda>bm2.
     bind_res (bm_setUsed bm2 (unat (bi_initrd_start b div 4096))
                 (unat ((bi_initrd_end b - bi_initrd_start b) div 4096))) (\<lambda>bm3.
     Inr \<lparr>ph_bitmap = bm3, ph_lock = False\<rparr>)))"

section \<open>The set of used pages\<close>

definition used :: "u8 list \<Rightarrow> nat \<Rightarrow> bool" where
  "used bm i \<longleftrightarrow> i div 8 < length bm \<and> bit (bm ! (i div 8)) (7 - i mod 8)"

abbreviation pages :: "u8 list \<Rightarrow> nat" where
  "pages bm \<equiv> length bm * 8"

lemma bit_0x80: "bit (0b10000000 :: u8) m \<longleftrightarrow> m = 7"
proof -
  have e: "(0b10000000 :: u8) = 2 ^ 7" by simp
  show ?thesis unfolding e bit_exp_iff by auto
qed

lemma bm_mask_bit: "bit (bm_mask i) n \<longleftrightarrow> n = 7 - i mod 8"
proof -
  have "bit (bm_mask i) n \<longleftrightarrow> i mod 8 + n = 7"
    by (simp only: bm_mask_def bit_drop_bit_eq bit_0x80 comp_def)
  moreover have "i mod 8 < 8" by simp
  ultimately show ?thesis by arith
qed

lemma bm_get_used: "i < pages bm \<Longrightarrow> bm_get bm i = Inr (used bm i)"
proof -
  assume i: "i < pages bm"
  then have d: "i div 8 < length bm" by (simp add: div_less_iff_less_mult)
  have l: "7 - i mod 8 < (8 :: nat)" by simp
  have "((bm ! (i div 8)) AND bm_mask i = 0) = (\<forall>n. \<not> (bit (bm ! (i div 8)) n \<and> n = 7 - i mod 8))"
    by (simp only: bit_eq_iff [of _ 0] bit_and_iff bm_mask_bit bit_0_eq bot_apply) (use l in auto)
  then show ?thesis using d by (auto simp: bm_get_def used_def)
qed

lemma page_index_eq: "i div 8 = j div 8 \<Longrightarrow> 7 - i mod 8 = 7 - j mod 8 \<Longrightarrow> (i :: nat) = j"
proof -
  assume a: "i div 8 = j div 8" "7 - i mod 8 = 7 - j mod 8"
  have "i mod 8 = j mod 8" using a(2) mod_less_divisor [of 8 i] mod_less_divisor [of 8 j] by arith
  then show ?thesis using a(1) by (metis div_mult_mod_eq)
qed

lemma bm_set1_ok:
  assumes "i < pages bm"
  shows "\<exists>bm'. bm_set1 bm i = Inr bm' \<and> length bm' = length bm \<and> (\<forall>j. used bm' j \<longleftrightarrow> used bm j \<or> j = i)"
proof -
  have d: "i div 8 < length bm" using assms by (simp add: div_less_iff_less_mult)
  have "used (bm[i div 8 := (bm ! (i div 8)) OR bm_mask i]) j \<longleftrightarrow> used bm j \<or> j = i" for j
    using d page_index_eq [of j i]
    by (cases "j div 8 = i div 8") (auto simp: used_def bit_or_iff bm_mask_bit)
  then show ?thesis using d by (simp add: bm_set1_def)
qed

lemma bm_clear1_ok:
  assumes "i < pages bm"
  shows "\<exists>bm'. bm_clear1 bm i = Inr bm' \<and> length bm' = length bm \<and> (\<forall>j. used bm' j \<longleftrightarrow> used bm j \<and> j \<noteq> i)"
proof -
  have d: "i div 8 < length bm" using assms by (simp add: div_less_iff_less_mult)
  have "used (bm[i div 8 := (bm ! (i div 8)) AND NOT (bm_mask i)]) j \<longleftrightarrow> used bm j \<and> j \<noteq> i" for j
    using d page_index_eq [of j i]
    by (cases "j div 8 = i div 8") (auto simp: used_def bit_and_iff bit_not_iff bm_mask_bit)
  then show ?thesis using d by (simp add: bm_clear1_def)
qed

lemma bm_setUsed_ok:
  "index + len \<le> pages bm \<Longrightarrow> \<exists>bm'. bm_setUsed bm index len = Inr bm' \<and> length bm' = length bm \<and>
    (\<forall>j. used bm' j \<longleftrightarrow> used bm j \<or> index \<le> j \<and> j < index + len)"
proof (induction len)
  case (Suc len)
  then obtain b1 where b1: "bm_setUsed bm index len = Inr b1" "length b1 = length bm"
    "\<forall>j. used b1 j \<longleftrightarrow> used bm j \<or> index \<le> j \<and> j < index + len" by auto
  obtain b2 where "bm_set1 b1 (index + len) = Inr b2" "length b2 = length b1"
    "\<forall>j. used b2 j \<longleftrightarrow> used b1 j \<or> j = index + len"
    using bm_set1_ok [of "index + len" b1] Suc.prems b1(2) by auto
  moreover from this have "\<forall>j. used b2 j \<longleftrightarrow> used bm j \<or> index \<le> j \<and> j < index + Suc len"
    using b1(3) by (metis add_Suc_right le_add1 less_Suc_eq)
  ultimately show ?case using b1 by (simp add: bm_setUsed_def push_all_append)
qed (auto simp: bm_setUsed_def)

lemma bm_setFree_ok:
  "index + len \<le> pages bm \<Longrightarrow> \<exists>bm'. bm_setFree bm index len = Inr bm' \<and> length bm' = length bm \<and>
    (\<forall>j. used bm' j \<longleftrightarrow> used bm j \<and> \<not> (index \<le> j \<and> j < index + len))"
proof (induction len)
  case (Suc len)
  then obtain b1 where b1: "bm_setFree bm index len = Inr b1" "length b1 = length bm"
    "\<forall>j. used b1 j \<longleftrightarrow> used bm j \<and> \<not> (index \<le> j \<and> j < index + len)" by auto
  obtain b2 where "bm_clear1 b1 (index + len) = Inr b2" "length b2 = length b1"
    "\<forall>j. used b2 j \<longleftrightarrow> used b1 j \<and> j \<noteq> index + len"
    using bm_clear1_ok [of "index + len" b1] Suc.prems b1(2) by auto
  moreover from this have "\<forall>j. used b2 j \<longleftrightarrow> used bm j \<and> \<not> (index \<le> j \<and> j < index + Suc len)"
    using b1(3) by (metis add_Suc_right le_add1 less_Suc_eq)
  ultimately show ?case using b1 by (simp add: bm_setFree_def push_all_append)
qed (auto simp: bm_setFree_def)

text \<open>A bitmap is determined by its length and its used pages.\<close>

lemma bitmap_eqI:
  assumes "length a = length b" "\<And>i. used a i \<longleftrightarrow> used b i"
  shows "a = b"
proof (rule nth_equalityI [OF assms(1)])
  fix k assume k: "k < length a"
  show "a ! k = b ! k"
  proof (rule bit_eqI)
    fix n assume "possible_bit TYPE(u8) n"
    then have n: "n \<le> 7" by simp
    define m where "m = 7 - n"
    have m: "m < 8" "7 - m = n" using n by (auto simp: m_def)
    have "(k * 8 + m) div 8 = k" "(k * 8 + m) mod 8 = m" using m by auto
    then show "bit (a ! k) n \<longleftrightarrow> bit (b ! k) n"
      using assms(2) [of "k * 8 + m"] assms(1) k m(2) by (simp add: used_def)
  qed
qed

section \<open>First fit\<close>

text \<open>\<open>fits bm count alignment s\<close>: \<open>count\<close> free pages in a row start at the aligned page \<open>s\<close>.\<close>

definition fits :: "u8 list \<Rightarrow> nat \<Rightarrow> nat \<Rightarrow> nat \<Rightarrow> bool" where
  "fits bm count alignment s \<longleftrightarrow> s + count \<le> pages bm \<and> (s * 4096) mod alignment = 0 \<and>
     (\<forall>j < count. \<not> used bm (s + j))"

definition find_inv :: "u8 list \<Rightarrow> nat \<Rightarrow> nat \<Rightarrow> nat \<Rightarrow> nat \<Rightarrow> nat \<Rightarrow> bool" where
  "find_inv bm count alignment i sz index \<longleftrightarrow> sz < count \<and> i \<le> pages bm \<and>
     (\<forall>s < i - sz. \<not> fits bm count alignment s) \<and>
     (sz > 0 \<longrightarrow> i = index + sz \<and> (index * 4096) mod alignment = 0 \<and> (\<forall>j < sz. \<not> used bm (index + j)))"

lemma fits_blocked: "fits bm count alignment s \<Longrightarrow> used bm i \<Longrightarrow> \<not> (s \<le> i \<and> i < s + count)"
  by (auto simp: fits_def) (metis add_diff_inverse_nat add_less_cancel_left not_less)

lemma bm_find_from_spec:
  assumes "find_inv bm count alignment i sz index" "0 < alignment"
  shows "bm_find_from bm count alignment i sz index =
    (if \<exists>s. fits bm count alignment s then Inr (LEAST s. fits bm count alignment s) else Inl Panic)"
  using assms
proof (induction bm count alignment i sz index rule: bm_find_from.induct)
  case (1 bm count alignment i sz index)
  note inv = 1(4)
  let ?f = "fits bm count alignment"
  show ?case
  proof (cases "i < pages bm")
    case False
    then have "\<not> ?f s" for s
      using inv by (cases "s < i - sz") (auto simp: find_inv_def fits_def)
    then show ?thesis using False by (subst bm_find_from.simps) simp
  next
    case True
    note get = bm_get_used [OF True]
    consider (used) "used bm i" | (unaligned) "\<not> used bm i" "sz = 0" "(i * 4096) mod alignment \<noteq> 0"
      | (found) "\<not> used bm i" "sz > 0 \<or> (i * 4096) mod alignment = 0" "Suc sz = count"
      | (more) "\<not> used bm i" "sz > 0 \<or> (i * 4096) mod alignment = 0" "Suc sz \<noteq> count"
      by (metis gr0I)
    then show ?thesis
    proof cases
      case used
      have "\<not> ?f s" if "s < Suc i" for s
      proof (cases "s < i - sz")
        case False
        then have "s \<le> i \<and> i < s + count" using that inv by (auto simp: find_inv_def)
        then show ?thesis using fits_blocked used by blast
      qed (use inv in \<open>simp add: find_inv_def\<close>)
      then have "find_inv bm count alignment (Suc i) 0 index" using inv True by (simp add: find_inv_def)
      from 1(3) [OF True _ this 1(5), of True] used show ?thesis
        by (subst bm_find_from.simps) (simp add: True get)
    next
      case unaligned
      have "\<not> ?f s" if "s < Suc i" for s
        using that unaligned inv by (cases "s = i") (auto simp: find_inv_def fits_def)
      then have "find_inv bm count alignment (Suc i) sz index" using inv True unaligned(2) by (simp add: find_inv_def)
      from 1(1) [OF True _ _ _ this 1(5), of False] unaligned 1(5) show ?thesis
        by (subst bm_find_from.simps) (simp add: True get)
    next
      case found
      let ?x = "if sz = 0 then i else index"
      have i: "i = ?x + sz" and al: "(?x * 4096) mod alignment = 0" and fr: "\<forall>j < Suc sz. \<not> used bm (?x + j)"
        using inv found(1,2) by (auto simp: find_inv_def less_Suc_eq)
      have "?f ?x" using i al fr found(3) True unfolding fits_def by fastforce
      moreover have "\<not> ?f s" if "s < ?x" for s using that i inv by (auto simp: find_inv_def)
      ultimately have "(LEAST s. ?f s) = ?x" "\<exists>s. ?f s" by (auto intro!: Least_equality simp: not_less [symmetric])
      then show ?thesis using found 1(5)
        by (subst bm_find_from.simps) (auto simp: True get)
    next
      case more
      let ?x = "if sz = 0 then i else index"
      have i: "i = ?x + sz" and al: "(?x * 4096) mod alignment = 0" and fr: "\<forall>j < Suc sz. \<not> used bm (?x + j)"
        using inv more(1,2) by (auto simp: find_inv_def less_Suc_eq)
      have "find_inv bm count alignment (Suc i) (Suc sz) ?x"
        using inv True more i al fr by (auto simp: find_inv_def)
      from 1(2) [OF True _ _ _ refl _ this 1(5), of False] more 1(5) show ?thesis
        by (subst bm_find_from.simps) (auto simp: True get Let_def)
    qed
  qed
qed

section \<open>Allocating and freeing\<close>

text \<open>
  The invariant bounds the bitmap to one tebibyte of memory: page table entries hold 28-bit frame
  numbers.
\<close>

definition ph_inv :: "phys \<Rightarrow> bool" where
  "ph_inv p \<longleftrightarrow> length (ph_bitmap p) \<le> 2 ^ 25 \<and> \<not> ph_lock p"

abbreviation ph_used :: "phys \<Rightarrow> nat \<Rightarrow> bool" where
  "ph_used p \<equiv> used (ph_bitmap p)"

lemma page_address:
  assumes "s < 2 ^ 28"
  shows "unat (of_nat (s * 4096) :: u64) = s * 4096" "unat (of_nat (s * 4096) :: u64) div 4096 = s"
    "(of_nat (s * 4096) :: u64) AND 0xFFF = 0"
proof -
  have l: "s * 4096 < 2 ^ 64" using assms by simp
  then show u: "unat (of_nat (s * 4096) :: u64) = s * 4096" by (rule unat_of_nat_u64)
  then show "unat (of_nat (s * 4096) :: u64) div 4096 = s" by simp
  have "(of_nat (s * 4096) :: u64) AND 0xFFF = take_bit 12 (of_nat (s * 4096))"
    by (simp add: take_bit_eq_mask mask_eq_exp_minus_1)
  also have "unat \<dots> = take_bit 12 (s * 4096)" by (simp only: unsigned_take_bit_eq u)
  then have "take_bit 12 (of_nat (s * 4096) :: u64) = 0" by (simp add: word_unat_eq_iff take_bit_eq_mod)
  finally show "(of_nat (s * 4096) :: u64) AND 0xFFF = 0" .
qed

lemma fits_bound: "fits bm count alignment s \<Longrightarrow> length bm \<le> 2 ^ 25 \<Longrightarrow> 0 < count \<Longrightarrow> s < 2 ^ 28"
  by (simp add: fits_def)

lemma ph_getFreePages_ok:
  assumes "ph_inv p" "0 < count" "0 < alignment" "\<exists>s. fits (ph_bitmap p) count alignment s"
  defines "s \<equiv> LEAST s. fits (ph_bitmap p) count alignment s"
  shows "\<exists>p'. ph_getFreePages p count alignment = Inr (of_nat (s * 4096), p') \<and> ph_inv p' \<and>
    length (ph_bitmap p') = length (ph_bitmap p) \<and> fits (ph_bitmap p) count alignment s \<and>
    (\<forall>i. ph_used p' i \<longleftrightarrow> ph_used p i \<or> s \<le> i \<and> i < s + count)"
proof -
  have f: "fits (ph_bitmap p) count alignment s" unfolding s_def by (rule LeastI_ex [OF assms(4)])
  have b: "s < 2 ^ 28" using fits_bound [OF f] assms(1,2) by (simp add: ph_inv_def)
  have "find_inv (ph_bitmap p) count alignment 0 0 0" using assms(2) by (simp add: find_inv_def)
  from bm_find_from_spec [OF this assms(3)] assms(4)
  have find: "bm_find_from (ph_bitmap p) count alignment 0 0 0 = Inr s" by (simp add: s_def)
  obtain bm where bm: "bm_setUsed (ph_bitmap p) s count = Inr bm" "length bm = length (ph_bitmap p)"
    "\<forall>i. used bm i \<longleftrightarrow> ph_used p i \<or> s \<le> i \<and> i < s + count"
    using bm_setUsed_ok [of s count "ph_bitmap p"] f by (auto simp: fits_def)
  show ?thesis using assms(1,2) f find bm page_address [OF b]
    by (simp add: ph_getFreePages_def ph_findFreePages_def ph_inv_def)
qed

lemma ph_getFreePages_full:
  assumes "ph_inv p" "0 < count" "0 < alignment" "\<nexists>s. fits (ph_bitmap p) count alignment s"
  shows "ph_getFreePages p count alignment = Inl Panic"
proof -
  have "find_inv (ph_bitmap p) count alignment 0 0 0" using assms(2) by (simp add: find_inv_def)
  from bm_find_from_spec [OF this assms(3)] assms(4)
  have "bm_find_from (ph_bitmap p) count alignment 0 0 0 = Inl Panic" by simp
  then show ?thesis using assms(1,2) by (simp add: ph_getFreePages_def ph_findFreePages_def ph_inv_def)
qed

lemma ph_freePages_ok:
  assumes "unat a = s * 4096" "s + count \<le> pages (ph_bitmap p)" "s < 2 ^ 28"
  shows "\<exists>p'. ph_freePages p a count = Inr p' \<and> ph_lock p' = ph_lock p \<and>
    length (ph_bitmap p') = length (ph_bitmap p) \<and>
    (\<forall>i. ph_used p' i \<longleftrightarrow> ph_used p i \<and> \<not> (s \<le> i \<and> i < s + count))"
proof -
  have a: "a = of_nat (s * 4096)" using assms(1) page_address(1) [OF assms(3)] by (simp add: word_unat_eq_iff)
  have al: "a AND 0xFFF = 0" unfolding a by (rule page_address(3) [OF assms(3)])
  have "unat a div 4096 = s" using assms(1) by simp
  then show ?thesis using bm_setFree_ok [OF assms(2)] al by (auto simp: ph_freePages_def)
qed

text \<open>
  \<open>C2\<close> \<open>Physical::getFreePages\<close> is a sound and complete first-fit allocator: when some aligned run of
  \<open>count\<close> free pages exists it returns the lowest one, marks exactly these pages used and leaves
  the lock free; when none exists it panics.
\<close>

theorem getFreePages_first_fit:
  assumes "ph_inv p" "0 < count" "0 < alignment"
  shows "if \<exists>s. fits (ph_bitmap p) count alignment s
    then \<exists>p' s. ph_getFreePages p count alignment = Inr (of_nat (s * 4096), p') \<and>
      fits (ph_bitmap p) count alignment s \<and> (\<forall>s' < s. \<not> fits (ph_bitmap p) count alignment s') \<and>
      ph_inv p' \<and> (\<forall>i. ph_used p' i \<longleftrightarrow> ph_used p i \<or> s \<le> i \<and> i < s + count)
    else ph_getFreePages p count alignment = Inl Panic"
proof (cases "\<exists>s. fits (ph_bitmap p) count alignment s")
  case True
  then show ?thesis using ph_getFreePages_ok [OF assms True] not_less_Least by (simp only: if_True) blast
qed (use ph_getFreePages_full [OF assms] in simp)

text \<open>A bitmap of eight pages of which the first three are used.\<close>

definition sample_phys :: phys where
  "sample_phys = \<lparr>ph_bitmap = [0xE0], ph_lock = False\<rparr>"

lemma sample_phys_used: "ph_used sample_phys i \<longleftrightarrow> i < 3"
proof -
  have e: "bit (0xE0 :: u8) m \<longleftrightarrow> 5 \<le> m \<and> m < 8" for m
  proof -
    have "(0xE0 :: u8) = push_bit 5 (mask 3)" by (simp add: mask_eq_exp_minus_1 push_bit_eq_mult)
    then show ?thesis by (simp only: bit_push_bit_iff bit_mask_iff possible_bit_word) auto
  qed
  have "ph_used sample_phys i \<longleftrightarrow> i div 8 < 1 \<and> 5 \<le> 7 - i mod 8"
  proof (cases "i div 8 = 0")
    case True
    then show ?thesis by (simp only: used_def sample_phys_def phys.select_convs nth_Cons_0 e list.size) auto
  qed (simp add: used_def sample_phys_def)
  also have "\<dots> \<longleftrightarrow> i < 3" by presburger
  finally show ?thesis .
qed

lemma sample_phys_fits: "fits (ph_bitmap sample_phys) 2 4096 s \<longleftrightarrow> 3 \<le> s \<and> s \<le> 6"
proof -
  have "(\<forall>j < (2 :: nat). \<not> ph_used sample_phys (s + j)) \<longleftrightarrow> 3 \<le> s"
    by (auto simp: sample_phys_used less_Suc_eq numeral_2_eq_2 dest: spec [of _ 0])
  then show ?thesis by (auto simp: fits_def) (auto simp: sample_phys_def)
qed

theorem getFreePages_first_fit_witness:
  "\<exists>p'. ph_getFreePages sample_phys 2 4096 = Inr (3 * 4096, p') \<and> (\<forall>i. ph_used p' i \<longleftrightarrow> i < 5)"
proof -
  have inv: "ph_inv sample_phys" by (simp add: ph_inv_def sample_phys_def)
  have ex: "\<exists>s. fits (ph_bitmap sample_phys) 2 4096 s" unfolding sample_phys_fits by (intro exI [of _ 3]) simp
  have pos: "0 < (2 :: nat)" "0 < (4096 :: nat)" by simp_all
  obtain p' s where s: "ph_getFreePages sample_phys 2 4096 = Inr (of_nat (s * 4096), p')"
    "3 \<le> s \<and> s \<le> 6" "\<forall>s' < s. \<not> (3 \<le> s' \<and> s' \<le> 6)"
    "\<forall>i. ph_used p' i \<longleftrightarrow> i < 3 \<or> s \<le> i \<and> i < s + 2"
    using getFreePages_first_fit [OF inv pos, unfolded if_P [OF ex]] unfolding sample_phys_fits sample_phys_used
    by blast
  have s3: "s = 3" using s(2) spec [OF s(3), of 3] by simp
  have "ph_used p' i \<longleftrightarrow> i < 5" for i using spec [OF s(4), of i] s3 by auto
  then show ?thesis using s(1) s3 by simp
qed

text \<open>
  Freeing the pages that an allocation returned restores the allocator exactly, bit for bit.
\<close>

theorem freePages_getFreePages:
  assumes "ph_inv p" "0 < count" "0 < alignment" "ph_getFreePages p count alignment = Inr (a, p')"
  shows "ph_freePages p' a count = Inr p"
proof -
  have ex: "\<exists>s. fits (ph_bitmap p) count alignment s"
    using ph_getFreePages_full [OF assms(1-3)] assms(4) by fastforce
  define s where "s = (LEAST s. fits (ph_bitmap p) count alignment s)"
  have s: "a = of_nat (s * 4096)" "ph_inv p'" "length (ph_bitmap p') = length (ph_bitmap p)"
    "fits (ph_bitmap p) count alignment s" "\<forall>i. ph_used p' i \<longleftrightarrow> ph_used p i \<or> s \<le> i \<and> i < s + count"
    using ph_getFreePages_ok [OF assms(1-3) ex] assms(4) unfolding s_def by auto
  have b: "s < 2 ^ 28" using fits_bound [OF s(4)] assms(1,2) by (simp add: ph_inv_def)
  have le: "s + count \<le> pages (ph_bitmap p')" using s(3,4) by (simp add: fits_def)
  obtain q where q: "ph_freePages p' a count = Inr q" "ph_lock q = ph_lock p'"
    "length (ph_bitmap q) = length (ph_bitmap p')"
    "\<forall>i. ph_used q i \<longleftrightarrow> ph_used p' i \<and> \<not> (s \<le> i \<and> i < s + count)"
    using ph_freePages_ok [OF _ le b, of a] page_address(1) [OF b] s(1) by blast
  have free: "\<not> ph_used p i" if "s \<le> i" "i < s + count" for i
    using s(4) that by (auto simp: fits_def dest: spec [of _ "i - s"])
  have "ph_bitmap q = ph_bitmap p"
    by (rule bitmap_eqI) (use q(3,4) s(3,5) free in auto)
  moreover have "ph_lock q = ph_lock p" using q(2) s(2) assms(1) by (simp add: ph_inv_def)
  ultimately show ?thesis using q(1) by simp
qed

theorem freePages_getFreePages_witness:
  "\<exists>a p'. ph_getFreePages sample_phys 2 4096 = Inr (a, p') \<and> ph_freePages p' a 2 = Inr sample_phys"
proof -
  have inv: "ph_inv sample_phys" by (simp add: ph_inv_def sample_phys_def)
  have pos: "0 < (2 :: nat)" "0 < (4096 :: nat)" by simp_all
  have "\<exists>s. fits (ph_bitmap sample_phys) 2 4096 s" unfolding sample_phys_fits by (intro exI [of _ 3]) simp
  then obtain a p' where "ph_getFreePages sample_phys 2 4096 = Inr (a, p')"
    using ph_getFreePages_ok [OF inv pos] by blast
  then show ?thesis using freePages_getFreePages [OF inv pos] by blast
qed

section \<open>Frame allocator interface\<close>

text \<open>
  What the page table code needs of the allocator: a frame that was free becomes used, and nothing
  else changes. \<open>alloc_n\<close> is the pattern of all its clients, one frame after the other.
\<close>

primrec alloc_n :: "('s \<Rightarrow> (u64 \<times> 's) res) \<Rightarrow> nat \<Rightarrow> 's \<Rightarrow> (u64 list \<times> 's) res" where
  "alloc_n alloc 0 s = Inr ([], s)"
| "alloc_n alloc (Suc n) s = bind_res (alloc s) (\<lambda>(a, s1).
     bind_res (alloc_n alloc n s1) (\<lambda>(as, s2). Inr (a # as, s2)))"

definition frame :: "u64 \<Rightarrow> nat" where
  "frame a = unat a div 4096"

locale frame_allocator =
  fixes finv :: "'s \<Rightarrow> bool"
    and fused :: "'s \<Rightarrow> nat \<Rightarrow> bool"
    and falloc :: "'s \<Rightarrow> (u64 \<times> 's) res"
    and limit :: nat
  assumes alloc_ok: "finv s \<Longrightarrow> falloc s = Inr (a, s') \<Longrightarrow> finv s' \<and> unat a = frame a * 4096 \<and>
    frame a < limit \<and> \<not> fused s (frame a) \<and> (\<forall>i. fused s' i \<longleftrightarrow> fused s i \<or> i = frame a)"
begin

text \<open>Frames allocated one after the other are pairwise distinct and were all free.\<close>

lemma alloc_n_ok:
  "finv s \<Longrightarrow> alloc_n falloc n s = Inr (as, s') \<Longrightarrow> finv s' \<and> length as = n \<and> distinct (map frame as) \<and>
    (\<forall>a \<in> set as. \<not> fused s (frame a)) \<and> (\<forall>i. fused s' i \<longleftrightarrow> fused s i \<or> i \<in> frame ` set as)"
proof (induction n arbitrary: s as)
  case (Suc n)
  then obtain a s1 bs where a: "falloc s = Inr (a, s1)" "alloc_n falloc n s1 = Inr (bs, s')" "as = a # bs"
    by (auto simp: bind_res_eq_Inr)
  note ok = alloc_ok [OF Suc.prems(1) a(1)]
  have "finv s1" using ok by blast
  note ih = Suc.IH [OF this a(2)]
  have "frame a \<notin> frame ` set bs" using ih ok by auto
  then show ?case using ih ok a(3) by auto
qed simp

end

definition ph_limited :: "nat \<Rightarrow> phys \<Rightarrow> bool" where
  "ph_limited n p \<longleftrightarrow> ph_inv p \<and> pages (ph_bitmap p) \<le> n"

interpretation fr: frame_allocator "ph_limited n" "\<lambda>p. ph_used p" "\<lambda>p. ph_getFreePages p 1 4096" n for n
proof unfold_locales
  fix p a p'
  assume lim: "ph_limited n p" and g: "ph_getFreePages p 1 4096 = Inr (a, p')"
  have inv: "ph_inv p" using lim by (simp add: ph_limited_def)
  have pos: "0 < (1 :: nat)" "0 < (4096 :: nat)" by simp_all
  have ex: "\<exists>s. fits (ph_bitmap p) 1 4096 s"
    using ph_getFreePages_full [OF inv pos] g by fastforce
  define s where "s = (LEAST s. fits (ph_bitmap p) 1 4096 s)"
  have s: "a = of_nat (s * 4096)" "ph_inv p'" "length (ph_bitmap p') = length (ph_bitmap p)"
    "fits (ph_bitmap p) 1 4096 s" "\<forall>i. ph_used p' i \<longleftrightarrow> ph_used p i \<or> s \<le> i \<and> i < s + 1"
    using ph_getFreePages_ok [OF inv pos ex] g unfolding s_def by auto
  have b: "s < 2 ^ 28" using fits_bound [OF s(4)] inv by (simp add: ph_inv_def)
  have "frame a = s" using page_address(2) [OF b] s(1) by (simp add: frame_def)
  then show "ph_limited n p' \<and> unat a = frame a * 4096 \<and> frame a < n \<and> \<not> ph_used p (frame a) \<and>
      (\<forall>i. ph_used p' i \<longleftrightarrow> ph_used p i \<or> i = frame a)"
    using s b page_address(1) [OF b] lim by (auto simp: fits_def ph_limited_def)
qed

section \<open>What initialisation reserves\<close>

lemma for_each_clears:
  assumes "\<And>bm x bm'. x \<in> set xs \<Longrightarrow> f bm x = Inr bm' \<Longrightarrow>
      length bm' = length bm \<and> (\<forall>j. used bm' j \<longleftrightarrow> used bm j \<and> \<not> C x j)"
    and "for_each f xs bm = Inr bm'"
  shows "length bm' = length bm \<and> (\<forall>j. used bm' j \<longleftrightarrow> used bm j \<and> \<not> (\<exists>x \<in> set xs. C x j))"
  using assms
proof (induction xs arbitrary: bm)
  case (Cons x xs)
  obtain b1 where b1: "f bm x = Inr b1" "for_each f xs b1 = Inr bm'"
    using Cons.prems(2) by (auto simp: bind_res_eq_Inr)
  have "length bm' = length b1 \<and> (\<forall>j. used bm' j \<longleftrightarrow> used b1 j \<and> \<not> (\<exists>x \<in> set xs. C x j))"
    by (rule Cons.IH [OF _ b1(2)]) (rule Cons.prems(1), auto)
  then show ?case using Cons.prems(1) [OF _ b1(1)] by auto
qed simp

lemma bm_setUsed_Inr:
  "bm_setUsed bm index len = Inr bm' \<Longrightarrow> length bm' = length bm \<and>
    (\<forall>j. used bm' j \<longleftrightarrow> used bm j \<or> index \<le> j \<and> j < index + len)"
proof (induction len arbitrary: bm')
  case (Suc len)
  then obtain b1 where b1: "bm_setUsed bm index len = Inr b1" "bm_set1 b1 (index + len) = Inr bm'"
    by (auto simp: bm_setUsed_def push_all_append bind_res_eq_Inr)
  then have "index + len < pages b1"
    by (simp add: bm_set1_def less_mult_imp_div_less div_less_iff_less_mult split: if_splits)
  then have "length bm' = length b1" "\<forall>j. used bm' j \<longleftrightarrow> used b1 j \<or> j = index + len"
    using bm_set1_ok [of "index + len" b1] b1(2) by auto
  moreover from this have "\<forall>j. used bm' j \<longleftrightarrow> used bm j \<or> index \<le> j \<and> j < index + Suc len"
    using Suc.IH [OF b1(1)] by (metis add_Suc_right le_add1 less_Suc_eq)
  ultimately show ?case using Suc.IH [OF b1(1)] by simp
qed (auto simp: bm_setUsed_def)

lemma bm_setFree1_Inr:
  "bm_setFree bm y 1 = Inr bm' \<Longrightarrow> y < pages bm \<and> length bm' = length bm \<and>
    (\<forall>j. used bm' j \<longleftrightarrow> used bm j \<and> \<not> j = y)"
proof -
  assume a: "bm_setFree bm y 1 = Inr bm'"
  then have c: "bm_clear1 bm y = Inr bm'" by (simp add: bm_setFree_def)
  then have "y < pages bm" by (simp add: bm_clear1_def div_less_iff_less_mult split: if_splits)
  then show ?thesis using bm_clear1_ok [of y bm] c by auto
qed

lemmas bm_setFree_Suc_0 = bm_setFree1_Inr [unfolded One_nat_def]

definition in_region :: "boot_info \<Rightarrow> mmap_entry \<Rightarrow> nat \<Rightarrow> bool" where
  "in_region b e i \<longleftrightarrow> mm_available e \<and> ph_firstPage b \<le> i \<and>
     unat (mm_base e div 4096) \<le> i \<and> i < unat (mm_end e div 4096)"

definition in_pml2 :: "boot_info \<Rightarrow> nat \<Rightarrow> bool" where
  "in_pml2 b i \<longleftrightarrow> bi_pml2_word b = 0 \<and> unat (bi_pml2 b div 4096) \<le> i \<and> i < unat (bi_pml2 b div 4096) + 512"

definition in_initrd :: "boot_info \<Rightarrow> nat \<Rightarrow> bool" where
  "in_initrd b i \<longleftrightarrow> unat (bi_initrd_start b div 4096) \<le> i \<and>
     i < unat (bi_initrd_start b div 4096) + unat ((bi_initrd_end b - bi_initrd_start b) div 4096)"

lemma ph_init_region_Inr:
  assumes "ph_init_region b bm e = Inr bm'"
  shows "length bm' = length bm \<and> (\<forall>j. used bm' j \<longleftrightarrow> used bm j \<and> \<not> in_region b e j) \<and>
    (\<forall>j. in_region b e j \<longrightarrow> j < pages bm)"
proof (cases "mm_available e")
  case True
  let ?f = "\<lambda>bm y. if y \<ge> ph_firstPage b then bm_setFree bm y 1 else Inr bm"
  let ?l = "[unat (mm_base e div 4096)..<unat (mm_end e div 4096)]"
  have run: "for_each ?f ?l bm = Inr bm'" using assms True by (simp add: ph_init_region_def)
  have "length bm' = length bm \<and>
      (\<forall>j. used bm' j \<longleftrightarrow> used bm j \<and> \<not> (\<exists>x \<in> set ?l. x \<ge> ph_firstPage b \<and> j = x))"
    by (rule for_each_clears [OF _ run]) (auto dest: bm_setFree_Suc_0 split: if_splits)
  moreover have "j < pages bm" if j: "in_region b e j" for j
  proof -
    have jl: "j \<in> set ?l" "j \<ge> ph_firstPage b" using j by (auto simp: in_region_def)
    obtain xs ys where sp: "?l = xs @ j # ys" using jl(1) by (meson split_list)
    obtain b1 b2 where "for_each ?f xs bm = Inr b1" "?f b1 j = Inr b2"
      using run unfolding sp by (auto simp: push_all_append bind_res_eq_Inr)
    moreover from this(1) have "length b1 = length bm"
      by (rule for_each_inv [where P = "\<lambda>c. length c = length bm", rotated 2])
        (auto dest: bm_setFree_Suc_0 split: if_splits)
    ultimately show ?thesis using bm_setFree1_Inr [of b1 j b2] jl(2) by simp
  qed
  ultimately show ?thesis using True by (auto simp: in_region_def)
qed (use assms in \<open>simp add: ph_init_region_def in_region_def\<close>)

lemma used_replicate_FF: "used (replicate n 0xFF) i \<longleftrightarrow> i < n * 8"
proof -
  have b: "bit (0xFF :: u8) (7 - i mod 8)"
  proof -
    have e: "(0xFF :: u8) = mask 8" by (simp add: mask_eq_exp_minus_1)
    show ?thesis unfolding e bit_mask_iff by simp
  qed
  show ?thesis
  proof (cases "i div 8 < n")
    case True
    then show ?thesis using b by (simp only: used_def nth_replicate length_replicate) (simp add: div_less_iff_less_mult)
  qed (simp add: used_def div_less_iff_less_mult)
qed

text \<open>
  \<open>C36\<close> After \<open>Physical::init\<close> a page is free exactly when it lies in available memory above the
  kernel, the bitmap and the copied multiboot structure, or in the 512 pages behind
  \<open>physical_pml2\<close> that \<open>init\<close> gives back when the word there is zero, and is not among the whole pages
  counted from the start of the initrd. In particular the last page of an initrd whose size is not a
  multiple of 4096 is not reserved.
\<close>

theorem ph_init_free_pages:
  assumes "ph_init b = Inr p" "i < pages (ph_bitmap p)"
  shows "\<not> ph_used p i \<longleftrightarrow> ((\<exists>e \<in> set (bi_mmap b). in_region b e i) \<or> in_pml2 b i) \<and> \<not> in_initrd b i"
proof -
  let ?n = "unat (ph_bitmapSize (bi_mmap b))"
  obtain b1 b2 b3 where b1: "for_each (ph_init_region b) (bi_mmap b) (replicate ?n 0xFF) = Inr b1"
    and b2: "(if bi_pml2_word b = 0
      then for_each (\<lambda>bm i. bm_setFree bm (unat (bi_pml2 b div 4096) + i) 1) [0..<512] b1 else Inr b1) = Inr b2"
    and b3: "bm_setUsed b2 (unat (bi_initrd_start b div 4096))
      (unat ((bi_initrd_end b - bi_initrd_start b) div 4096)) = Inr b3" and p: "p = \<lparr>ph_bitmap = b3, ph_lock = False\<rparr>"
    using assms(1) by (auto simp: ph_init_def bind_res_eq_Inr)
  have r1: "length b1 = ?n \<and> (\<forall>j. used b1 j \<longleftrightarrow> j < ?n * 8 \<and> \<not> (\<exists>e \<in> set (bi_mmap b). in_region b e j))"
    using for_each_clears [OF _ b1, of "in_region b"] ph_init_region_Inr [of b] used_replicate_FF by auto
  have r2: "length b2 = length b1 \<and> (\<forall>j. used b2 j \<longleftrightarrow> used b1 j \<and> \<not> in_pml2 b j)"
  proof (cases "bi_pml2_word b = 0")
    case True
    let ?x = "unat (bi_pml2 b div 4096)"
    have "length b2 = length b1 \<and> (\<forall>j. used b2 j \<longleftrightarrow> used b1 j \<and> \<not> (\<exists>k \<in> set [0..<512]. j = ?x + k))"
      by (rule for_each_clears) (use b2 True in \<open>auto dest: bm_setFree_Suc_0\<close>)
    moreover have "(\<exists>k \<in> set [0..<512]. j = ?x + k) \<longleftrightarrow> in_pml2 b j" for j
      using True unfolding in_pml2_def set_upt by (auto intro!: bexI [of _ "j - ?x"])
    ultimately show ?thesis by blast
  qed (use b2 in \<open>simp add: in_pml2_def\<close>)
  have r3: "length b3 = length b2" "used b3 i \<longleftrightarrow> used b2 i \<or> in_initrd b i"
    using bm_setUsed_Inr [OF b3] by (simp_all add: in_initrd_def)
  show ?thesis using assms(2) r1 r2 r3 p by auto
qed

definition init_in_range :: "boot_info \<Rightarrow> bool" where
  "init_in_range b \<longleftrightarrow> (\<forall>j. (\<exists>e \<in> set (bi_mmap b). in_region b e j) \<or> in_pml2 b j \<or> in_initrd b j
     \<longrightarrow> j < unat (ph_bitmapSize (bi_mmap b)) * 8)"

lemma bm_setFree1_total: "y < pages bm \<Longrightarrow> \<exists>bm'. bm_setFree bm y 1 = Inr bm' \<and> length bm' = length bm"
  using bm_setFree_ok [of y 1 bm] by auto

lemma bm_setFree1_fault: "bm_setFree bm y 1 = Inl e \<Longrightarrow> e = BadAccess"
  by (auto simp: bm_setFree_def bm_clear1_def split: if_splits)

lemma bm_setUsed_fault: "bm_setUsed bm x n = Inl e \<Longrightarrow> e = BadAccess"
  unfolding bm_setUsed_def by (erule for_each_fault [rotated]) (simp add: bm_set1_def split: if_splits)

lemma ph_init_region_total:
  assumes "length bm = n" "\<And>j. in_region b e j \<Longrightarrow> j < n * 8"
  shows "\<exists>bm'. ph_init_region b bm e = Inr bm' \<and> length bm' = n"
proof (cases "mm_available e")
  case True
  have "\<exists>bm'. for_each (\<lambda>bm y. if y \<ge> ph_firstPage b then bm_setFree bm y 1 else Inr bm)
      [unat (mm_base e div 4096)..<unat (mm_end e div 4096)] bm = Inr bm' \<and> length bm' = n"
  proof (rule for_each_total [where P = "\<lambda>bm. length bm = n", OF _ assms(1)])
    fix c :: "u8 list" and y assume c: "length c = n" and y: "y \<in> set [unat (mm_base e div 4096)..<unat (mm_end e div 4096)]"
    show "\<exists>c'. (if y \<ge> ph_firstPage b then bm_setFree c y 1 else Inr c) = Inr c' \<and> length c' = n"
    proof (cases "y \<ge> ph_firstPage b")
      case yes: True
      then have "y < pages c" using assms(2) [of y] y True c by (simp add: in_region_def)
      from bm_setFree1_total [OF this] yes c show ?thesis by simp
    qed (simp add: c)
  qed
  then show ?thesis using True by (simp add: ph_init_region_def)
qed (use assms(1) in \<open>simp add: ph_init_region_def\<close>)

lemma ph_init_region_fault: "ph_init_region b bm x = Inl e \<Longrightarrow> e = BadAccess"
  unfolding ph_init_region_def
  by (auto split: if_splits elim!: for_each_fault [rotated] dest: bm_setFree1_fault [unfolded One_nat_def])

lemma ph_init_fault: "ph_init b = Inl e \<Longrightarrow> e = BadAccess"
  unfolding ph_init_def bind_res_eq_Inl
  by (auto split: if_splits elim!: for_each_fault [rotated] dest: ph_init_region_fault bm_setUsed_fault
      bm_setFree1_fault [unfolded One_nat_def])

text \<open>Initialisation ends normally when every page it touches has a bit.\<close>

lemma ph_init_returns:
  assumes "init_in_range b"
  shows "\<exists>p. ph_init b = Inr p \<and> length (ph_bitmap p) = unat (ph_bitmapSize (bi_mmap b))"
proof -
  let ?n = "unat (ph_bitmapSize (bi_mmap b))"
  note range = assms [unfolded init_in_range_def, rule_format]
  have "\<exists>b1. for_each (ph_init_region b) (bi_mmap b) (replicate ?n 0xFF) = Inr b1 \<and> length b1 = ?n"
    by (rule for_each_total [where P = "\<lambda>bm. length bm = ?n"]) (use range in \<open>auto intro!: ph_init_region_total\<close>)
  then obtain b1 where b1: "for_each (ph_init_region b) (bi_mmap b) (replicate ?n 0xFF) = Inr b1" "length b1 = ?n" by blast
  let ?s2 = "if bi_pml2_word b = 0
    then for_each (\<lambda>bm i. bm_setFree bm (unat (bi_pml2 b div 4096) + i) 1) [0..<512] b1 else Inr b1"
  have "\<exists>b2. ?s2 = Inr b2 \<and> length b2 = ?n"
  proof (cases "bi_pml2_word b = 0")
    case True
    have "\<exists>b2. for_each (\<lambda>bm i. bm_setFree bm (unat (bi_pml2 b div 4096) + i) 1) [0..<512] b1 = Inr b2 \<and> length b2 = ?n"
    proof (rule for_each_total [where P = "\<lambda>bm. length bm = ?n", OF _ b1(2)])
      fix c :: "u8 list" and i assume c: "length c = ?n" and i: "i \<in> set [0..<512]"
      have "unat (bi_pml2 b div 4096) + i < pages c" using range [of "unat (bi_pml2 b div 4096) + i"] True i c
        by (simp add: in_pml2_def)
      then show "\<exists>c'. bm_setFree c (unat (bi_pml2 b div 4096) + i) 1 = Inr c' \<and> length c' = ?n"
        using bm_setFree1_total c by metis
    qed
    then show ?thesis using True by simp
  qed (simp add: b1(2))
  then obtain b2 where b2: "?s2 = Inr b2" "length b2 = ?n" by blast
  let ?i = "unat (bi_initrd_start b div 4096)" and ?l = "unat ((bi_initrd_end b - bi_initrd_start b) div 4096)"
  have "\<exists>b3. bm_setUsed b2 ?i ?l = Inr b3"
  proof (cases "?l = 0")
    case False
    then have "in_initrd b (?i + ?l - 1)" by (simp add: in_initrd_def)
    then have "?i + ?l - 1 < ?n * 8" using range by blast
    then show ?thesis using bm_setUsed_ok [of ?i ?l b2] b2(2) False by fastforce
  qed (simp add: bm_setUsed_def)
  then obtain b3 where b3: "bm_setUsed b2 ?i ?l = Inr b3" by blast
  have "length b3 = ?n" using bm_setUsed_Inr [OF b3] b2(2) by simp
  then show ?thesis unfolding ph_init_def using b1(1) b2(1) b3 by simp
qed

lemma ph_init_overrun:
  assumes "e \<in> set (bi_mmap b)" "in_region b e j" "unat (ph_bitmapSize (bi_mmap b)) * 8 \<le> j"
  shows "ph_init b = Inl BadAccess"
proof (cases "ph_init b")
  case (Inr p)
  let ?n = "unat (ph_bitmapSize (bi_mmap b))"
  obtain b1 where "for_each (ph_init_region b) (bi_mmap b) (replicate ?n 0xFF) = Inr b1"
    using Inr by (auto simp: ph_init_def bind_res_eq_Inr)
  from for_each_reach [where P = "\<lambda>c. length c = ?n", OF _ _ this assms(1)] ph_init_region_Inr
  obtain c c' where "length c = ?n" "ph_init_region b c e = Inr c'" by fastforce
  then show ?thesis using ph_init_region_Inr [of b c e c'] assms(2,3) by auto
qed (simp add: ph_init_fault)

definition overrun_boot :: boot_info where
  "overrun_boot = \<lparr>bi_mmap = [\<lparr>mm_base = 0, mm_length = 0x8001000, mm_type = 1\<rparr>], bi_end = 0x200000,
     bi_multiboot = 0x400, bi_pml2 = 0x300000, bi_pml2_word = 1, bi_initrd_start = 0, bi_initrd_end = 0\<rparr>"

text \<open>
  The bitmap can be too small for the memory it describes: its size divides the number of pages
  by eight before rounding. With 128 MiB and one page of memory the bitmap has 32768 bits, and
  \<open>init\<close> clears a bit behind its end, in the multiboot structure it just copied there.
\<close>

theorem ph_init_overrun_128MiB: "ph_init overrun_boot = Inl BadAccess"
proof (rule ph_init_overrun)
  let ?e = "\<lparr>mm_base = 0, mm_length = 0x8001000, mm_type = 1\<rparr> :: mmap_entry"
  show "?e \<in> set (bi_mmap overrun_boot)" by (simp add: overrun_boot_def)
  have m: "ph_bitmapSize (bi_mmap overrun_boot) = 0x1000"
    by (simp add: ph_bitmapSize_def overrun_boot_def mm_memorySize_def mm_available_def mm_end_def page_round_def)
  have "ph_firstPage overrun_boot = 0x202"
    unfolding ph_firstPage_def m by (simp add: overrun_boot_def page_round_def)
  then show "in_region overrun_boot ?e 0x8000"
    by (simp add: in_region_def mm_available_def mm_end_def)
  show "unat (ph_bitmapSize (bi_mmap overrun_boot)) * 8 \<le> 0x8000" unfolding m by simp
qed

definition small_boot :: boot_info where
  "small_boot = \<lparr>bi_mmap = [\<lparr>mm_base = 0, mm_length = 0x20000, mm_type = 1\<rparr>], bi_end = 0,
     bi_multiboot = 0x400, bi_pml2 = 0, bi_pml2_word = 1, bi_initrd_start = 0x10000, bi_initrd_end = 0x11800\<rparr>"

lemma small_boot_facts:
  "ph_bitmapSize (bi_mmap small_boot) = 0x1000" "ph_firstPage small_boot = 2"
  "in_initrd small_boot i \<longleftrightarrow> i = 16"
  "(\<exists>e \<in> set (bi_mmap small_boot). in_region small_boot e i) \<longleftrightarrow> 2 \<le> i \<and> i < 32" "\<not> in_pml2 small_boot i"
proof -
  show m: "ph_bitmapSize (bi_mmap small_boot) = 0x1000"
    by (simp add: ph_bitmapSize_def small_boot_def mm_memorySize_def mm_available_def mm_end_def page_round_def)
  show f: "ph_firstPage small_boot = 2"
    unfolding ph_firstPage_def m by (simp add: small_boot_def page_round_def)
  show "in_initrd small_boot i \<longleftrightarrow> i = 16" by (auto simp: in_initrd_def small_boot_def)
  show "(\<exists>e \<in> set (bi_mmap small_boot). in_region small_boot e i) \<longleftrightarrow> 2 \<le> i \<and> i < 32"
    unfolding in_region_def f by (simp add: small_boot_def mm_available_def mm_end_def)
  show "\<not> in_pml2 small_boot i" by (simp add: in_pml2_def small_boot_def)
qed

theorem ph_init_free_pages_witness:
  "\<exists>p. ph_init small_boot = Inr p \<and> \<not> ph_used p 2 \<and> ph_used p 1 \<and> ph_used p 16 \<and> \<not> ph_used p 17"
proof -
  have "init_in_range small_boot" unfolding init_in_range_def by (auto simp: small_boot_facts(1,3,4,5))
  from ph_init_returns [OF this] obtain p where p: "ph_init small_boot = Inr p" "length (ph_bitmap p) = 0x1000"
    unfolding small_boot_facts by auto
  have u: "\<not> ph_used p i \<longleftrightarrow> 2 \<le> i \<and> i < 32 \<and> i \<noteq> 16" if "i < 32768" for i
    using ph_init_free_pages [OF p(1), of i] that p(2) by (simp add: small_boot_facts)
  show ?thesis using p(1) u [of 2] u [of 1] u [of 16] u [of 17] by auto
qed

section \<open>Two processors\<close>

text \<open>
  \<open>getFreePages\<close> sets bits with the lock held, \<open>freePages\<close> clears bits without it. Each update of a
  byte is a load followed by a store. The state is the byte that holds the bits of two pages, with
  the progress of a processor that allocates page \<open>i\<close> and of one that frees page \<open>j\<close>.
\<close>

datatype rmw = Before | Loaded u8 | Done

record race =
  rc_byte :: u8
  rc_alloc :: rmw
  rc_free :: rmw

inductive race_step :: "nat \<Rightarrow> nat \<Rightarrow> race \<Rightarrow> race \<Rightarrow> bool" for i j where
  alloc_load: "rc_alloc s = Before \<Longrightarrow> race_step i j s (s\<lparr>rc_alloc := Loaded (rc_byte s)\<rparr>)"
| alloc_store: "rc_alloc s = Loaded v \<Longrightarrow> race_step i j s (s\<lparr>rc_byte := v OR bm_mask i, rc_alloc := Done\<rparr>)"
| free_load: "rc_free s = Before \<Longrightarrow> race_step i j s (s\<lparr>rc_free := Loaded (rc_byte s)\<rparr>)"
| free_store: "rc_free s = Loaded v \<Longrightarrow> race_step i j s (s\<lparr>rc_byte := v AND NOT (bm_mask j), rc_free := Done\<rparr>)"

definition race_init :: "u8 \<Rightarrow> race" where
  "race_init b = \<lparr>rc_byte = b, rc_alloc = Before, rc_free = Before\<rparr>"

definition race_outcomes :: "nat \<Rightarrow> nat \<Rightarrow> u8 \<Rightarrow> u8 set" where
  "race_outcomes i j b = {rc_byte s | s. (race_step i j)\<^sup>*\<^sup>* (race_init b) s \<and> rc_alloc s = Done \<and> rc_free s = Done}"

definition race_inv :: "nat \<Rightarrow> nat \<Rightarrow> u8 \<Rightarrow> race \<Rightarrow> bool" where
  "race_inv i j b s \<longleftrightarrow>
     (let a = b OR bm_mask i; f = b AND NOT (bm_mask j); ok = (b OR bm_mask i) AND NOT (bm_mask j) in
      case (rc_alloc s, rc_free s) of
        (Done, Done) \<Rightarrow> rc_byte s \<in> {ok, a, f}
      | (Done, Loaded w) \<Rightarrow> rc_byte s = a \<and> w \<in> {b, a}
      | (Done, Before) \<Rightarrow> rc_byte s = a
      | (Loaded v, Done) \<Rightarrow> rc_byte s = f \<and> v \<in> {b, f}
      | (Before, Done) \<Rightarrow> rc_byte s = f
      | (Loaded v, Loaded w) \<Rightarrow> rc_byte s = b \<and> v = b \<and> w = b
      | (Loaded v, Before) \<Rightarrow> rc_byte s = b \<and> v = b
      | (Before, Loaded w) \<Rightarrow> rc_byte s = b \<and> w = b
      | (Before, Before) \<Rightarrow> rc_byte s = b)"

lemma masks_commute:
  assumes "i \<noteq> j" "i div 8 = j div 8"
  shows "(b AND NOT (bm_mask j)) OR bm_mask i = (b OR bm_mask i) AND NOT (bm_mask j)"
proof (rule bit_eqI)
  fix n assume "possible_bit TYPE(u8) n"
  then have "n < 8" by simp
  then show "bit ((b AND NOT (bm_mask j)) OR bm_mask i) n \<longleftrightarrow> bit ((b OR bm_mask i) AND NOT (bm_mask j)) n"
    using page_index_eq [OF assms(2)] assms(1) by (auto simp: bit_and_iff bit_or_iff bit_not_iff bm_mask_bit)
qed

lemma race_inv_step:
  assumes "i \<noteq> j" "i div 8 = j div 8" "race_step i j s s'" "race_inv i j b s"
  shows "race_inv i j b s'"
  using assms(3,4) masks_commute [OF assms(1,2)]
  by cases (auto simp: race_inv_def Let_def split: rmw.splits)

lemma race_reach_inv:
  assumes "i \<noteq> j" "i div 8 = j div 8" "(race_step i j)\<^sup>*\<^sup>* (race_init b) s"
  shows "race_inv i j b s"
  using assms(3)
proof (induction rule: rtranclp_induct)
  case base
  show ?case by (simp add: race_inv_def race_init_def)
next
  case (step y z)
  from race_inv_step [OF assms(1,2) step(2,3)] show ?case .
qed

lemma race_run:
  assumes "(race_step i j)\<^sup>*\<^sup>* (race_init b) \<lparr>rc_byte = v, rc_alloc = x, rc_free = y\<rparr>"
  shows "x = Before \<Longrightarrow> (race_step i j)\<^sup>*\<^sup>* (race_init b) \<lparr>rc_byte = v, rc_alloc = Loaded v, rc_free = y\<rparr>"
    "x = Loaded w \<Longrightarrow> (race_step i j)\<^sup>*\<^sup>* (race_init b) \<lparr>rc_byte = w OR bm_mask i, rc_alloc = Done, rc_free = y\<rparr>"
    "y = Before \<Longrightarrow> (race_step i j)\<^sup>*\<^sup>* (race_init b) \<lparr>rc_byte = v, rc_alloc = x, rc_free = Loaded v\<rparr>"
    "y = Loaded w \<Longrightarrow> (race_step i j)\<^sup>*\<^sup>* (race_init b) \<lparr>rc_byte = w AND NOT (bm_mask j), rc_alloc = x, rc_free = Done\<rparr>"
  using race_step.intros [of "\<lparr>rc_byte = v, rc_alloc = x, rc_free = y\<rparr>"] assms
  by (fastforce intro: rtranclp.rtrancl_into_rtrancl)+

text \<open>
  Because \<open>freePages\<close> does not take the lock, an allocation and a release that touch the same
  byte of the bitmap have exactly three outcomes: the right one, one in which the release is lost,
  and one in which the allocation is lost, so that the page just handed out is marked free again.
\<close>

theorem freePages_race:
  assumes "i \<noteq> j" "i div 8 = j div 8"
  shows "race_outcomes i j b = {(b OR bm_mask i) AND NOT (bm_mask j), b OR bm_mask i, b AND NOT (bm_mask j)}"
proof
  show "race_outcomes i j b \<subseteq> {(b OR bm_mask i) AND NOT (bm_mask j), b OR bm_mask i, b AND NOT (bm_mask j)}"
    using race_reach_inv [OF assms] by (fastforce simp: race_outcomes_def race_inv_def Let_def)
  have start: "(race_step i j)\<^sup>*\<^sup>* (race_init b) \<lparr>rc_byte = b, rc_alloc = Before, rc_free = Before\<rparr>"
    by (simp add: race_init_def)
  note a1 = race_run(1) [OF start refl]
  note seq = race_run(4) [OF race_run(3) [OF race_run(2) [OF a1 refl] refl] refl]
  note both = race_run(3) [OF a1 refl]
  note lostf = race_run(2) [OF race_run(4) [OF both refl] refl]
  note losta = race_run(4) [OF race_run(2) [OF both refl] refl]
  show "{(b OR bm_mask i) AND NOT (bm_mask j), b OR bm_mask i, b AND NOT (bm_mask j)} \<subseteq> race_outcomes i j b"
    unfolding race_outcomes_def using seq lostf losta by force
qed

theorem freePages_race_witness: "\<exists>b. b \<in> race_outcomes 3 0 0xE0 \<and> b AND bm_mask 3 = 0"
proof -
  have "(0xE0 :: u8) AND NOT (bm_mask 0) \<in> race_outcomes 3 0 0xE0"
    using freePages_race [of 3 0 "0xE0"] by simp
  moreover have "((0xE0 :: u8) AND NOT (bm_mask 0)) AND bm_mask 3 = 0" by (simp add: bm_mask_def)
  ultimately show ?thesis by blast
qed

end
