(* ===== verification/Paging.thy ===== *)
theory Paging
  imports Physical
begin

text \<open>
  \<open>kernel/memory/virtual.cpp\<close> and \<open>include/memory.h\<close>, first part: page table entries and the three
  operations that walk the four levels, \<open>mapPage\<close>, \<open>unmapPage\<close> and \<open>getPage\<close>. The memory of page
  tables is a function from a frame number and an entry index to the raw 64-bit entry; the kernel
  reaches it through the window at \<open>0xFFFF800000000000\<close>. An address space is its \<open>cr3\<close> and its lock.
\<close>

section \<open>Page table entries\<close>

definition pml_present :: "u64 \<Rightarrow> bool" where "pml_present raw = bit raw 0"
definition pml_writable :: "u64 \<Rightarrow> bool" where "pml_writable raw = bit raw 1"
definition pml_user :: "u64 \<Rightarrow> bool" where "pml_user raw = bit raw 2"
definition pml_size :: "u64 \<Rightarrow> bool" where "pml_size raw = bit raw 7"

text \<open>
  The bit-field \<open>address\<close> is 28 bits wide, so the operand of \<open>UNSHIFT\<close> is promoted to \<open>int\<close> and
  shifted as a 32-bit number; the result is sign extended when it is converted to \<open>uint64\<close>.
\<close>

definition pml_address :: "u64 \<Rightarrow> u32" where
  "pml_address raw = ucast (take_bit 28 (drop_bit 12 raw))"

definition pml_unshift :: "u64 \<Rightarrow> u64" where
  "pml_unshift raw = scast (push_bit 12 (pml_address raw))"

text \<open>The frame of the table an entry leads to; a negative \<open>int\<close> leaves the physical memory window.\<close>

definition pml_table :: "u64 \<Rightarrow> nat res" where
  "pml_table raw = (if unat (pml_unshift raw) < 2 ^ 47 then Inr (frame (pml_unshift raw)) else Inl BadAccess)"

definition getKernelVirtualAddress :: "u64 \<Rightarrow> u64" where
  "getKernelVirtualAddress p = p + 0xFFFF800000000000"

definition makeCanonical :: "u64 \<Rightarrow> u64" where
  "makeCanonical a = (if a AND push_bit 47 1 \<noteq> 0 then a OR 0xFFFF000000000000 else a AND 0xFFFFFFFFFFFF)"

definition pml4_index :: "u64 \<Rightarrow> nat" where "pml4_index va = unat (drop_bit 39 va AND 0x1FF)"
definition pml3_index :: "u64 \<Rightarrow> nat" where "pml3_index va = unat (drop_bit 30 va AND 0x1FF)"
definition pml2_index :: "u64 \<Rightarrow> nat" where "pml2_index va = unat (drop_bit 21 va AND 0x1FF)"
definition table_index :: "u64 \<Rightarrow> nat" where "table_index va = unat (drop_bit 12 va AND 0x1FF)"

section \<open>State\<close>

record vmem =
  vm_phys :: phys
  vm_tab :: "nat \<Rightarrow> nat \<Rightarrow> u64"

record aspace =
  as_cr3 :: u64
  as_lock :: bool

definition pml4 :: "aspace \<Rightarrow> nat" where
  "pml4 space = frame (as_cr3 space)"

definition tab_write :: "vmem \<Rightarrow> nat \<Rightarrow> nat \<Rightarrow> u64 \<Rightarrow> vmem" where
  "tab_write m f i e = m\<lparr>vm_tab := (vm_tab m)(f := (vm_tab m f)(i := e))\<rparr>"

definition tab_clear :: "vmem \<Rightarrow> nat \<Rightarrow> vmem" where
  "tab_clear m f = m\<lparr>vm_tab := (vm_tab m)(f := \<lambda>_. 0)\<rparr>"

section \<open>Operations\<close>

text \<open>
  The block that \<open>mapPage\<close> repeats for the three upper levels: an entry that is not present gets a
  fresh zeroed table, with the flags given. The result is the frame of the table below the entry.
\<close>

definition pml_ensure :: "vmem \<Rightarrow> nat \<Rightarrow> nat \<Rightarrow> u64 \<Rightarrow> (nat \<times> vmem) res" where
  "pml_ensure m f i flags =
     (if \<not> pml_present (vm_tab m f i)
      then bind_res (ph_getFreePages (vm_phys m) 1 4096) (\<lambda>(address, p).
             let m1 = tab_clear (tab_write (m\<lparr>vm_phys := p\<rparr>) f i (address OR flags)) (frame address) in
             bind_res (pml_table (vm_tab m1 f i)) (\<lambda>g. Inr (g, m1)))
      else bind_res (pml_table (vm_tab m f i)) (\<lambda>g. Inr (g, m)))"

definition take_lock :: "bool \<Rightarrow> aspace \<Rightarrow> aspace res" where
  "take_lock do_lock space =
     (if do_lock then bind_res (spin_lock (as_lock space)) (\<lambda>l. Inr (space\<lparr>as_lock := l\<rparr>)) else Inr space)"

definition drop_lock :: "bool \<Rightarrow> aspace \<Rightarrow> aspace" where
  "drop_lock do_lock space = (if do_lock then space\<lparr>as_lock := spin_unlock (as_lock space)\<rparr> else space)"

definition mapPage :: "vmem \<Rightarrow> aspace \<Rightarrow> u64 \<Rightarrow> u64 \<Rightarrow> u64 \<Rightarrow> bool \<Rightarrow> (vmem \<times> aspace) res" where
  "mapPage m space physicalAddress virtualAddress flags do_lock =
     (let physicalAddress = physicalAddress AND NOT 0xFFF;
          i4 = pml4_index virtualAddress;
          fl = (if i4 < 128 then 7 else 3) in
      bind_res (take_lock do_lock space) (\<lambda>space.
      bind_res (pml_ensure m (pml4 space) i4 fl) (\<lambda>(f3, m).
      bind_res (pml_ensure m f3 (pml3_index virtualAddress) fl) (\<lambda>(f2, m).
      bind_res (pml_ensure m f2 (pml2_index virtualAddress) fl) (\<lambda>(f1, m).
      Inr (tab_write m f1 (table_index virtualAddress) (physicalAddress OR flags OR 1),
           drop_lock do_lock space))))))"

text \<open>An upper entry that \<open>unmapPage\<close> follows: it panics when the entry is not present.\<close>

definition pml_follow :: "vmem \<Rightarrow> nat \<Rightarrow> nat \<Rightarrow> nat res" where
  "pml_follow m f i = assert_res (pml_present (vm_tab m f i)) (pml_table (vm_tab m f i))"

definition unmapPage :: "vmem \<Rightarrow> aspace \<Rightarrow> u64 \<Rightarrow> (u64 \<times> vmem \<times> aspace) res" where
  "unmapPage m space virtualAddress =
     bind_res (take_lock True space) (\<lambda>space.
     bind_res (pml_follow m (pml4 space) (pml4_index virtualAddress)) (\<lambda>f3.
     bind_res (pml_follow m f3 (pml3_index virtualAddress)) (\<lambda>f2.
     bind_res (pml_follow m f2 (pml2_index virtualAddress)) (\<lambda>f1.
     let i = table_index virtualAddress; e = vm_tab m f1 i in
     assert_res (pml_present e) (
     Inr (pml_unshift (e AND NOT 1), tab_write m f1 i (e AND NOT 1), drop_lock True space))))))"

text \<open>
  \<open>getPage\<close> returns a pointer to the last-level entry, here its table and index, or null. It holds
  the lock through a \<open>LockGuard\<close>.
\<close>

definition pml_step :: "vmem \<Rightarrow> nat \<Rightarrow> nat \<Rightarrow> nat option res" where
  "pml_step m f i = (let e = vm_tab m f i in
     if \<not> pml_present e then Inr None
     else if pml_size e then Inr None
     else bind_res (pml_table e) (\<lambda>g. Inr (Some g)))"

definition opt_res :: "'a option res \<Rightarrow> ('a \<Rightarrow> 'b option res) \<Rightarrow> 'b option res" where
  "opt_res r f = bind_res r (\<lambda>x. case x of None \<Rightarrow> Inr None | Some y \<Rightarrow> f y)"

definition getPage :: "vmem \<Rightarrow> aspace \<Rightarrow> u64 \<Rightarrow> (nat \<times> nat) option res" where
  "getPage m space virtualAddress =
     bind_res (with_guard (as_lock space) (\<lambda>l.
       opt_res (pml_step m (pml4 space) (pml4_index virtualAddress)) (\<lambda>f3.
       opt_res (pml_step m f3 (pml3_index virtualAddress)) (\<lambda>f2.
       opt_res (pml_step m f2 (pml2_index virtualAddress)) (\<lambda>f1.
       Inr (Some (f1, table_index virtualAddress))))))) (\<lambda>(r, l). Inr r)"

section \<open>What the processor sees\<close>

text \<open>
  \<open>node\<close> follows a path of entry indices from a table and gives the table it ends in; it stops at an
  entry that is not present or maps a large page. It is written over the address bits of the entries and knows nothing of the kernel's arithmetic. \<open>translate\<close> is
  the last-level entry the processor finds for a path of four indices.
\<close>

definition pml_frame :: "u64 \<Rightarrow> nat" where
  "pml_frame e = unat (take_bit 28 (drop_bit 12 e))"

fun node :: "(nat \<Rightarrow> nat \<Rightarrow> u64) \<Rightarrow> nat \<Rightarrow> nat list \<Rightarrow> nat option" where
  "node t f [] = Some f"
| "node t f (i # is) = (if pml_present (t f i) \<and> \<not> pml_size (t f i) then node t (pml_frame (t f i)) is else None)"

definition translate :: "(nat \<Rightarrow> nat \<Rightarrow> u64) \<Rightarrow> nat \<Rightarrow> nat list \<Rightarrow> nat \<Rightarrow> u64 option" where
  "translate t f p i = (case node t f p of None \<Rightarrow> None
     | Some g \<Rightarrow> if pml_present (t g i) then Some (t g i) else None)"

text \<open>The entry at index \<open>i\<close> of the table at path \<open>q\<close> maps a large page.\<close>

definition huge :: "(nat \<Rightarrow> nat \<Rightarrow> u64) \<Rightarrow> nat \<Rightarrow> nat list \<Rightarrow> nat \<Rightarrow> bool" where
  "huge t f q i \<longleftrightarrow> (case node t f q of None \<Rightarrow> False | Some g \<Rightarrow> pml_present (t g i) \<and> pml_size (t g i))"

definition upper :: "u64 \<Rightarrow> nat list" where
  "upper va = [pml4_index va, pml3_index va, pml2_index va]"

definition mmu :: "vmem \<Rightarrow> aspace \<Rightarrow> u64 \<Rightarrow> u64 option" where
  "mmu m space va = translate (vm_tab m) (pml4 space) (upper va) (table_index va)"

definition no_huge :: "vmem \<Rightarrow> aspace \<Rightarrow> u64 \<Rightarrow> bool" where
  "no_huge m space va \<longleftrightarrow> \<not> huge (vm_tab m) (pml4 space) [] (pml4_index va) \<and>
     \<not> huge (vm_tab m) (pml4 space) [pml4_index va] (pml3_index va) \<and>
     \<not> huge (vm_tab m) (pml4 space) [pml4_index va, pml3_index va] (pml2_index va)"

definition vpath :: "nat list \<Rightarrow> bool" where
  "vpath p \<longleftrightarrow> length p \<le> 3 \<and> (\<forall>i \<in> set p. i < 512)"

text \<open>
  The invariant: physical memory ends below 2 GiB (so that the 32-bit shift is harmless), every table
  reachable from the root is a used frame below that limit, and the tables form a tree.
\<close>

definition tables_ok :: "phys \<Rightarrow> (nat \<Rightarrow> nat \<Rightarrow> u64) \<Rightarrow> nat \<Rightarrow> bool" where
  "tables_ok p t root \<longleftrightarrow>
     (\<forall>q f. vpath q \<and> node t root q = Some f \<longrightarrow> f < 2 ^ 19 \<and> ph_used p f) \<and>
     (\<forall>q q' f. vpath q \<and> vpath q' \<and> node t root q = Some f \<and> node t root q' = Some f \<longrightarrow> q = q')"

definition vm_inv :: "vmem \<Rightarrow> aspace \<Rightarrow> bool" where
  "vm_inv m space \<longleftrightarrow> ph_limited (2 ^ 19) (vm_phys m) \<and> tables_ok (vm_phys m) (vm_tab m) (pml4 space)"

section \<open>Entries built by the kernel\<close>

lemma unat_drop_12: "unat (drop_bit 12 a) = frame a"
  by (simp only: unsigned_drop_bit_eq frame_def) (simp add: drop_bit_eq_div take_bit_nat_eq_self [OF unat_lt_2p64])

lemma scast_small:
  assumes "unat (w :: u32) < 2 ^ 31"
  shows "unat (scast w :: u64) = unat w"
proof -
  have "int (unat w) < int (2 ^ 31)" using assms by (simp only: of_nat_less_iff)
  then have u: "uint w < 2 ^ 31" by simp
  then have "\<not> bit (uint w) 31" by (metis bit_take_bit_iff nat_less_le take_bit_int_eq_self uint_nonnegative)
  then have "sint w = uint w" using u
    by (simp add: sint_uint signed_take_bit_eq_if_positive take_bit_int_eq_self)
  then have "(scast w :: u64) = ucast w" by (metis scast_eq ucast_eq)
  moreover have "take_bit 64 (unat w) = unat w" using assms by (intro take_bit_nat_eq_self) simp
  ultimately show ?thesis by (simp add: unsigned_ucast_eq)
qed

lemma pml_entry_fields:
  assumes "unat a = frame a * 4096" "frame a < 2 ^ 19" "fl = 7 \<or> fl = 3"
  shows "pml_present (a OR fl)" "pml_frame (a OR fl) = frame a" "\<not> pml_size (a OR fl)"
proof -
  have "drop_bit 12 fl = 0" using assms(3) by auto
  then have "drop_bit 12 (a OR fl) = drop_bit 12 a" by (simp only: drop_bit_or or.right_neutral)
  then have "pml_frame (a OR fl) = take_bit 28 (frame a)"
    by (simp only: pml_frame_def unsigned_take_bit_eq unat_drop_12)
  then show "pml_frame (a OR fl) = frame a"
    using assms(2) by (simp add: take_bit_nat_eq_self)
  have "bit fl 0" using assms(3) by auto
  then show "pml_present (a OR fl)" by (simp only: pml_present_def bit_or_iff simp_thms)
  have "unat (a AND 0xFFF) = 0"
  proof -
    have "a AND 0xFFF = take_bit 12 a" by (simp add: take_bit_eq_mask mask_eq_exp_minus_1)
    then have "unat (a AND 0xFFF) = take_bit 12 (unat a)" by (simp only: unsigned_take_bit_eq)
    then show ?thesis unfolding assms(1) by (simp add: take_bit_eq_mod)
  qed
  then have "a AND 0xFFF = 0" by (simp add: word_unat_eq_iff)
  then have "\<not> bit (a AND 0xFFF) 7" by simp
  moreover have "bit (0xFFF :: u64) 7" "\<not> bit fl 7" using assms(3) by auto
  ultimately show "\<not> pml_size (a OR fl)" by (simp only: pml_size_def bit_or_iff bit_and_iff simp_thms)
qed

lemma pml_table_eq:
  assumes "pml_frame e < 2 ^ 19"
  shows "pml_table e = Inr (pml_frame e)" "unat (pml_unshift e) = pml_frame e * 4096"
proof -
  let ?x = "pml_address e"
  have x: "unat ?x = pml_frame e"
    by (simp add: pml_address_def pml_frame_def unsigned_ucast_eq unsigned_take_bit_eq take_bit_take_bit)
  have "unat (push_bit 12 ?x) = take_bit 32 (push_bit 12 (pml_frame e))"
    by (simp only: unsigned_push_bit_eq x) simp
  also have "\<dots> = pml_frame e * 4096" using assms by (simp add: push_bit_eq_mult take_bit_nat_eq_self)
  finally have px: "unat (push_bit 12 ?x) = pml_frame e * 4096" .
  then have "unat (push_bit 12 ?x) < 2 ^ 31" using assms by simp
  from scast_small [OF this] show u: "unat (pml_unshift e) = pml_frame e * 4096" by (simp only: px pml_unshift_def)
  show "pml_table e = Inr (pml_frame e)" using u assms by (simp add: pml_table_def frame_def)
qed

section \<open>Paths\<close>

lemma node_append: "node t f (p @ q) = (case node t f p of None \<Rightarrow> None | Some g \<Rightarrow> node t g q)"
  by (induction t f p rule: node.induct) auto

lemma node_snoc: "node t f (q @ [k]) = (case node t f q of None \<Rightarrow> None
    | Some g \<Rightarrow> if pml_present (t g k) \<and> \<not> pml_size (t g k) then Some (pml_frame (t g k)) else None)"
  by (auto simp: node_append split: option.splits)

lemma index_bounds [simp]:
  "pml4_index va < 512" "pml3_index va < 512" "pml2_index va < 512" "table_index va < 512"
proof -
  have b: "unat (x AND 0x1FF) < 512" for x :: u64
  proof -
    have "x AND 0x1FF = take_bit 9 x" by (simp add: take_bit_eq_mask mask_eq_exp_minus_1)
    then show ?thesis by (simp only: unsigned_take_bit_eq) (simp add: take_bit_eq_mod)
  qed
  show "pml4_index va < 512" "pml3_index va < 512" "pml2_index va < 512" "table_index va < 512"
    by (simp_all only: pml4_index_def pml3_index_def pml2_index_def table_index_def b)
qed

lemma vpath_simps [simp]: "vpath []" "vpath (q @ [k]) \<longleftrightarrow> length q < 3 \<and> k < 512 \<and> (\<forall>i \<in> set q. i < 512)"
  by (auto simp: vpath_def)

text \<open>
  Installing a fresh zeroed table below an entry that was not present: the path to the entry now
  leads to the new table, and nothing else changes.
\<close>

lemma node_ensure:
  assumes ok: "tables_ok p t root" and pq: "vpath (q @ [i])" and f: "node t root q = Some f"
    and np: "\<not> pml_present (t f i)" and fresh: "\<not> ph_used p a"
    and e: "pml_present e" "pml_frame e = a" "\<not> pml_size e"
    and t': "t' = (t(f := (t f)(i := e)))(a := \<lambda>_. 0)"
  shows "vpath r \<Longrightarrow> node t' root r = (if r = q @ [i] then Some a else node t root r)"
proof (induction r rule: rev_induct)
  case (snoc k r)
  have vr: "vpath r" "vpath q" using snoc.prems pq by (auto simp: vpath_def)
  have fa: "f \<noteq> a" using ok fresh f vr(2) by (auto simp: tables_ok_def)
  have z: "\<not> pml_present (0 :: u64)" by (simp add: pml_present_def)
  show ?case
  proof (cases "r = q @ [i]")
    case True
    then have "node t' root r = Some a" using snoc by (simp add: vpath_def)
    moreover have "node t root r = None" using True f np by (simp add: node_snoc)
    ultimately have "node t' root (r @ [k]) = None" "node t root (r @ [k]) = None"
      using z by (simp_all only: node_snoc option.case) (simp add: t')
    then show ?thesis using True by simp
  next
    case False
    then have ih: "node t' root r = node t root r" using snoc.IH [OF vr(1)] by simp
    show ?thesis
    proof (cases "node t root r")
      case None
      then show ?thesis using ih f by (auto simp: node_snoc)
    next
      case (Some g)
      have ga: "g \<noteq> a" using ok fresh Some vr(1) by (auto simp: tables_ok_def)
      have gq: "g = f \<longleftrightarrow> r = q" using ok Some f vr unfolding tables_ok_def by fastforce
      show ?thesis
      proof (cases "r = q \<and> k = i")
        case True
        moreover have "t' f i = e" using fa by (simp add: t')
        ultimately show ?thesis using ih e f by (auto simp: node_snoc)
      next
        case False
        then have "t' g k = t g k" using ga gq by (auto simp: t')
        then show ?thesis using Some ih False by (auto simp: node_snoc)
      qed
    qed
  qed
qed simp

lemma tables_ok_ensure:
  assumes "tables_ok p t root" "vpath (q @ [i])" "node t root q = Some f"
    "\<not> pml_present (t f i)" "\<not> ph_used p a" "pml_present e" "pml_frame e = a" "\<not> pml_size e" "a < 2 ^ 19"
    "t' = (t(f := (t f)(i := e)))(a := \<lambda>_. 0)" "\<forall>k. ph_used p' k \<longleftrightarrow> ph_used p k \<or> k = a"
  shows "tables_ok p' t' root"
proof -
  note n = node_ensure [OF assms(1-8,10)]
  show ?thesis unfolding tables_ok_def
  proof (intro conjI allI impI, goal_cases)
    case (1 r g)
    then show ?case using n assms(1,9,11) by (auto simp: tables_ok_def split: if_splits)
  next
    case (2 r g)
    then show ?case using n assms(1,11) by (auto simp: tables_ok_def split: if_splits)
  next
    case (3 r r' g)
    have u: "node t root x \<noteq> Some a" if "vpath x" for x using that assms(1,5) by (auto simp: tables_ok_def)
    show ?case using 3 n u assms(1) by (fastforce simp: tables_ok_def split: if_splits)
  qed
qed

lemma translate_ensure:
  assumes "tables_ok p t root" "vpath (q @ [i])" "node t root q = Some f"
    "\<not> pml_present (t f i)" "\<not> ph_used p a" "pml_present e" "pml_frame e = a" "\<not> pml_size e"
    "t' = (t(f := (t f)(i := e)))(a := \<lambda>_. 0)" "vpath r" "length r = 3" "k < 512"
  shows "translate t' root r k = translate t root r k"
proof (cases "r = q @ [i]")
  case True
  then show ?thesis using node_ensure [OF assms(1-9,10)] assms(3,4,9)
    by (simp add: translate_def node_snoc pml_present_def)
next
  case False
  note n = node_ensure [OF assms(1-9,10)]
  show ?thesis
  proof (cases "node t root r")
    case (Some g)
    have "g \<noteq> a" using assms(1,5,10) Some by (auto simp: tables_ok_def)
    moreover have "vpath q" "length q < 3" using assms(2) by (auto simp: vpath_def)
    then have "g \<noteq> f" using assms(1,3,10,11) Some unfolding tables_ok_def by (metis less_irrefl)
    ultimately show ?thesis using Some n False by (simp add: translate_def assms(9))
  qed (use n False in \<open>simp add: translate_def\<close>)
qed

lemma huge_ensure:
  assumes "tables_ok p t root" "vpath (q @ [i])" "node t root q = Some f"
    "\<not> pml_present (t f i)" "\<not> ph_used p a" "pml_present e" "pml_frame e = a" "\<not> pml_size e"
    "t' = (t(f := (t f)(i := e)))(a := \<lambda>_. 0)" "vpath r" "huge t' root r k"
  shows "huge t root r k"
proof -
  note n = node_ensure [OF assms(1-9,10)]
  have z: "\<not> pml_present (0 :: u64)" by (simp add: pml_present_def)
  obtain g where g: "node t' root r = Some g" "pml_present (t' g k)" "pml_size (t' g k)"
    using assms(11) by (auto simp: huge_def split: option.splits)
  have "r \<noteq> q @ [i]" using g n z by (auto simp: assms(9))
  then have old: "node t root r = Some g" using g(1) n by simp
  then have "g \<noteq> a" using assms(1,5,10) by (auto simp: tables_ok_def)
  then have "t' g k = t g k" using g(3) assms(8,9) by (auto split: if_splits)
  then show ?thesis using g(2,3) old by (simp add: huge_def)
qed

section \<open>One level of the walk\<close>

text \<open>The number of free frames bounds how often the allocator can be called without panic.\<close>

definition free_frames :: "phys \<Rightarrow> nat" where
  "free_frames p = card {i. i < pages (ph_bitmap p) \<and> \<not> ph_used p i}"

lemma alloc_total:
  assumes "ph_limited n p" "Suc k \<le> free_frames p"
  shows "\<exists>a p'. ph_getFreePages p 1 4096 = Inr (a, p') \<and> k \<le> free_frames p'"
proof -
  have inv: "ph_inv p" using assms(1) by (simp add: ph_limited_def)
  have pos: "0 < (1 :: nat)" "0 < (4096 :: nat)" by simp_all
  have "{i. i < pages (ph_bitmap p) \<and> \<not> ph_used p i} \<noteq> {}"
    using assms(2) unfolding free_frames_def by (metis card.empty not_less_eq_eq zero_le)
  then have "\<exists>s. fits (ph_bitmap p) 1 4096 s" by (auto simp: fits_def Suc_le_eq)
  from ph_getFreePages_ok [OF inv pos this] obtain s p' where
    p': "ph_getFreePages p 1 4096 = Inr (of_nat (s * 4096), p')" "length (ph_bitmap p') = length (ph_bitmap p)"
    "\<forall>i. ph_used p' i \<longleftrightarrow> ph_used p i \<or> s \<le> i \<and> i < s + 1" by blast
  have "{i. i < pages (ph_bitmap p') \<and> \<not> ph_used p' i} = {i. i < pages (ph_bitmap p) \<and> \<not> ph_used p i} - {s}"
    using p'(2,3) by auto
  then have "free_frames p - 1 \<le> free_frames p'"
    unfolding free_frames_def by (simp add: card_Diff_singleton_if)
  then show ?thesis using p'(1) assms(2) by fastforce
qed

lemma vm_invD: "vm_inv m space \<Longrightarrow> node (vm_tab m) (pml4 space) q = Some f \<Longrightarrow> vpath q \<Longrightarrow> f < 2 ^ 19"
  by (auto simp: vm_inv_def tables_ok_def)

lemma pml_ensure_Inr:
  assumes inv: "vm_inv m space" and q: "vpath (q @ [i])" and f: "node (vm_tab m) (pml4 space) q = Some f"
    and nh: "\<not> huge (vm_tab m) (pml4 space) q i" and fl: "fl = 7 \<or> fl = 3"
    and run: "pml_ensure m f i fl = Inr (g, m')"
  shows "vm_inv m' space \<and> node (vm_tab m') (pml4 space) (q @ [i]) = Some g \<and>
    (\<forall>r j. vpath r \<and> length r = 3 \<and> j < 512 \<longrightarrow>
       translate (vm_tab m') (pml4 space) r j = translate (vm_tab m) (pml4 space) r j) \<and>
    (\<forall>r j. vpath r \<and> huge (vm_tab m') (pml4 space) r j \<longrightarrow> huge (vm_tab m) (pml4 space) r j) \<and>
    (\<forall>r h. vpath r \<and> node (vm_tab m) (pml4 space) r = Some h \<longrightarrow> node (vm_tab m') (pml4 space) r = Some h) \<and>
    (m' = m \<or> vm_tab m' g = (\<lambda>_. 0))"
proof (cases "pml_present (vm_tab m f i)")
  case True
  then have s: "node (vm_tab m) (pml4 space) (q @ [i]) = Some (pml_frame (vm_tab m f i))"
    using f nh by (simp add: node_snoc huge_def)
  then have "pml_table (vm_tab m f i) = Inr (pml_frame (vm_tab m f i))"
    using vm_invD [OF inv s q] by (rule_tac pml_table_eq(1))
  then show ?thesis using True s inv run by (auto simp: pml_ensure_def)
next
  case False
  have lim: "ph_limited (2 ^ 19) (vm_phys m)" and ok: "tables_ok (vm_phys m) (vm_tab m) (pml4 space)"
    using inv by (simp_all add: vm_inv_def)
  obtain a p where a: "ph_getFreePages (vm_phys m) 1 4096 = Inr (a, p)"
    using run False by (auto simp: pml_ensure_def bind_res_eq_Inr)
  note fr = fr.alloc_ok [OF lim a(1)]
  let ?e = "a OR fl" and ?a = "frame a"
  have e: "pml_present ?e" "pml_frame ?e = ?a" "\<not> pml_size ?e" using pml_entry_fields [OF _ _ fl] fr by auto
  have vq: "vpath q" using q by (auto simp: vpath_def)
  have fa: "f \<noteq> ?a" using ok f vq fr by (auto simp: tables_ok_def)
  define m1 where "m1 = tab_clear (tab_write (m\<lparr>vm_phys := p\<rparr>) f i ?e) ?a"
  have t': "vm_tab m1 = ((vm_tab m)(f := (vm_tab m f)(i := ?e)))(?a := \<lambda>_. 0)" and p': "vm_phys m1 = p"
    by (simp_all add: m1_def tab_clear_def tab_write_def)
  have free: "\<not> ph_used (vm_phys m) ?a" using fr by blast
  have "pml_table (vm_tab m1 f i) = Inr ?a" using pml_table_eq(1) [of ?e] e fr fa by (simp add: t')
  then have gm: "g = ?a" "m' = m1"
    using False a(1) run by (auto simp: pml_ensure_def Let_def m1_def)
  have "tables_ok p (vm_tab m1) (pml4 space)"
    by (rule tables_ok_ensure [OF ok q f False free e _ t']) (use fr in auto)
  then have "vm_inv m1 space" using fr p' by (simp add: vm_inv_def)
  moreover note node_ensure [OF ok q f False free e t']
  moreover have "node (vm_tab m) (pml4 space) (q @ [i]) = None" using f False by (simp add: node_snoc)
  moreover have "vm_tab m1 ?a = (\<lambda>_. 0)" by (simp add: t')
  ultimately show ?thesis unfolding gm
    using translate_ensure [OF ok q f False free e t'] huge_ensure [OF ok q f False free e t'] q by auto
qed

lemma pml_ensure_total:
  assumes inv: "vm_inv m space" and q: "vpath (q @ [i])" and f: "node (vm_tab m) (pml4 space) q = Some f"
    and nh: "\<not> huge (vm_tab m) (pml4 space) q i" and fl: "fl = 7 \<or> fl = 3" and n: "Suc k \<le> free_frames (vm_phys m)"
  shows "\<exists>g m'. pml_ensure m f i fl = Inr (g, m') \<and> k \<le> free_frames (vm_phys m')"
proof (cases "pml_present (vm_tab m f i)")
  case True
  then have s: "node (vm_tab m) (pml4 space) (q @ [i]) = Some (pml_frame (vm_tab m f i))"
    using f nh by (simp add: node_snoc huge_def)
  then have "pml_table (vm_tab m f i) = Inr (pml_frame (vm_tab m f i))"
    using vm_invD [OF inv s q] by (rule_tac pml_table_eq(1))
  then show ?thesis using True n by (simp add: pml_ensure_def)
next
  case False
  have lim: "ph_limited (2 ^ 19) (vm_phys m)" using inv by (simp add: vm_inv_def)
  obtain a p where a: "ph_getFreePages (vm_phys m) 1 4096 = Inr (a, p)" "k \<le> free_frames p"
    using alloc_total [OF lim n] by blast
  note fr = fr.alloc_ok [OF lim a(1)]
  have e: "pml_frame (a OR fl) = frame a" using pml_entry_fields [OF _ _ fl] fr by auto
  have vq: "vpath q" using q by (auto simp: vpath_def)
  have "f \<noteq> frame a" using inv f vq fr by (auto simp: vm_inv_def tables_ok_def)
  then show ?thesis using False a pml_table_eq(1) [of "a OR fl"] e fr
    by (simp add: pml_ensure_def Let_def tab_clear_def tab_write_def)
qed

lemma pml_ensure_ok:
  assumes inv: "vm_inv m space" and q: "vpath (q @ [i])" and f: "node (vm_tab m) (pml4 space) q = Some f"
    and nh: "\<not> huge (vm_tab m) (pml4 space) q i" and fl: "fl = 7 \<or> fl = 3" and n: "Suc k \<le> free_frames (vm_phys m)"
  shows "\<exists>g m'. pml_ensure m f i fl = Inr (g, m') \<and> vm_inv m' space \<and>
    node (vm_tab m') (pml4 space) (q @ [i]) = Some g \<and> k \<le> free_frames (vm_phys m') \<and>
    (\<forall>r j. vpath r \<and> length r = 3 \<and> j < 512 \<longrightarrow>
       translate (vm_tab m') (pml4 space) r j = translate (vm_tab m) (pml4 space) r j) \<and>
    (\<forall>r j. vpath r \<and> huge (vm_tab m') (pml4 space) r j \<longrightarrow> huge (vm_tab m) (pml4 space) r j)"
proof -
  obtain g m' where r: "pml_ensure m f i fl = Inr (g, m')" "k \<le> free_frames (vm_phys m')"
    using pml_ensure_total [OF inv q f nh fl n] by blast
  then show ?thesis using pml_ensure_Inr [OF inv q f nh fl r(1)] by blast
qed

text \<open>Writing a last-level entry changes one translation and no table.\<close>

lemma node_leaf_write:
  assumes ok: "tables_ok p t root" and q: "vpath q" "length q = 3" and f: "node t root q = Some f"
    and t': "t' = t(f := (t f)(i := e))"
  shows "vpath r \<Longrightarrow> node t' root r = node t root r"
proof (induction r rule: rev_induct)
  case (snoc k r)
  have vr: "vpath r" "length r < 3" using snoc.prems by (auto simp: vpath_def)
  have "g \<noteq> f" if "node t root r = Some g" for g
    using ok that f q vr unfolding tables_ok_def by (metis less_irrefl)
  then show ?case using snoc.IH [OF vr(1)] by (auto simp: node_snoc t' split: option.splits)
qed simp

lemma translate_leaf_write:
  assumes ok: "tables_ok p t root" and q: "vpath q" "length q = 3" and f: "node t root q = Some f"
    and t': "t' = t(f := (t f)(i := e))" and r: "vpath r" "length r = 3"
  shows "translate t' root r k = (if r = q \<and> k = i then if pml_present e then Some e else None
    else translate t root r k)"
proof (cases "node t root r")
  case None
  then show ?thesis using node_leaf_write [OF ok q f t' r(1)] f by (auto simp: translate_def)
next
  case (Some g)
  have "g = f \<longleftrightarrow> r = q" using ok Some f q r unfolding tables_ok_def by fastforce
  then show ?thesis using Some node_leaf_write [OF ok q f t' r(1)] by (auto simp: translate_def t')
qed

lemma tables_ok_leaf_write:
  assumes "tables_ok p t root" "vpath q" "length q = 3" "node t root q = Some f" "t' = t(f := (t f)(i := e))"
  shows "tables_ok p t' root"
  using assms(1) node_leaf_write [OF assms] unfolding tables_ok_def by metis

section \<open>Pages\<close>

text \<open>Two addresses lie in the same page of the 48-bit address space.\<close>

definition same_page :: "u64 \<Rightarrow> u64 \<Rightarrow> bool" where
  "same_page a b \<longleftrightarrow> take_bit 36 (drop_bit 12 a) = take_bit 36 (drop_bit 12 b)"

lemma field_eq_bits:
  "take_bit m (drop_bit n a) = take_bit m (drop_bit n b) \<longleftrightarrow> (\<forall>k. n \<le> k \<and> k < n + m \<longrightarrow> bit (a :: u64) k = bit b k)"
  (is "?l = ?r \<longleftrightarrow> ?P")
proof
  assume l: "?l = ?r"
  show ?P
  proof (intro allI impI)
    fix k assume k: "n \<le> k \<and> k < n + m"
    have "bit ?l (k - n) = bit ?r (k - n)" using l by simp
    moreover have "k - n < m" using k by auto
    ultimately show "bit a k = bit b k" using k by (simp add: bit_take_bit_iff bit_drop_bit_eq)
  qed
next
  assume ?P
  then show "?l = ?r" by (intro bit_eqI) (auto simp: bit_take_bit_iff bit_drop_bit_eq)
qed

lemma index_eq_bits:
  "unat (drop_bit n (a :: u64) AND 0x1FF) = unat (drop_bit n (b :: u64) AND 0x1FF) \<longleftrightarrow>
    (\<forall>k. n \<le> k \<and> k < n + 9 \<longrightarrow> bit a k = bit b k)"
proof -
  have m: "x AND 0x1FF = take_bit 9 x" for x :: u64 by (simp add: take_bit_eq_mask mask_eq_exp_minus_1)
  show ?thesis unfolding m word_unat_eq_iff [symmetric] field_eq_bits ..
qed

lemma same_page_iff: "same_page a b \<longleftrightarrow> upper a = upper b \<and> table_index a = table_index b"
proof -
  have d: "(12 \<le> k \<and> k < 12 + 36) \<longleftrightarrow> (39 \<le> k \<and> k < 39 + 9) \<or> (30 \<le> k \<and> k < 30 + 9) \<or>
      (21 \<le> k \<and> k < 21 + 9) \<or> (12 \<le> k \<and> k < 12 + 9)" for k :: nat by auto
  have "(\<forall>k. 12 \<le> k \<and> k < 12 + 36 \<longrightarrow> P k) \<longleftrightarrow> (\<forall>k. 39 \<le> k \<and> k < 39 + 9 \<longrightarrow> P k) \<and>
      (\<forall>k. 30 \<le> k \<and> k < 30 + 9 \<longrightarrow> P k) \<and> (\<forall>k. 21 \<le> k \<and> k < 21 + 9 \<longrightarrow> P k) \<and>
      (\<forall>k. 12 \<le> k \<and> k < 12 + 9 \<longrightarrow> P k)" for P :: "nat \<Rightarrow> bool"
    unfolding d by blast
  then show ?thesis
    unfolding same_page_def field_eq_bits upper_def pml4_index_def pml3_index_def pml2_index_def table_index_def
      list.inject index_eq_bits by (simp only: conj_assoc simp_thms)
qed

lemma vpath_upper [simp]: "vpath (upper va)" "length (upper va) = 3"
  by (simp_all add: upper_def vpath_def)

section \<open>Mapping a page\<close>

text \<open>The three levels of tables above a page.\<close>

lemma pml_walk_ok:
  assumes inv: "vm_inv m space" and nh: "no_huge m space va" and fl: "fl = 7 \<or> fl = 3"
    and n: "3 + k \<le> free_frames (vm_phys m)"
  shows "\<exists>f3 m1 f2 m2 f1 m3. pml_ensure m (pml4 space) (pml4_index va) fl = Inr (f3, m1) \<and>
    pml_ensure m1 f3 (pml3_index va) fl = Inr (f2, m2) \<and> pml_ensure m2 f2 (pml2_index va) fl = Inr (f1, m3) \<and>
    vm_inv m3 space \<and> node (vm_tab m3) (pml4 space) (upper va) = Some f1 \<and> k \<le> free_frames (vm_phys m3) \<and>
    (\<forall>x. mmu m3 space x = mmu m space x) \<and> (\<forall>x. no_huge m space x \<longrightarrow> no_huge m3 space x)"
proof -
  let ?r = "pml4 space"
  have v: "vpath ([] @ [pml4_index x])" "vpath ([pml4_index x] @ [pml3_index x])"
    "vpath ([pml4_index x, pml3_index x] @ [pml2_index x])"
    "vpath [pml4_index x]" "vpath [pml4_index x, pml3_index x]" for x by (simp_all add: vpath_def)
  have nh1: "\<not> huge (vm_tab m) ?r [] (pml4_index va)" using nh by (simp add: no_huge_def)
  have n3: "Suc (2 + k) \<le> free_frames (vm_phys m)" using n by simp
  obtain f3 m1 where m1: "pml_ensure m ?r (pml4_index va) fl = Inr (f3, m1)" "vm_inv m1 space"
    "node (vm_tab m1) ?r ([] @ [pml4_index va]) = Some f3" "2 + k \<le> free_frames (vm_phys m1)"
    "\<forall>r j. vpath r \<and> length r = 3 \<and> j < 512 \<longrightarrow> translate (vm_tab m1) ?r r j = translate (vm_tab m) ?r r j"
    "\<forall>r j. vpath r \<and> huge (vm_tab m1) ?r r j \<longrightarrow> huge (vm_tab m) ?r r j"
    using pml_ensure_ok [OF inv v(1) node.simps(1) nh1 fl n3] by blast
  have nh2: "\<not> huge (vm_tab m1) ?r [pml4_index va] (pml3_index va)"
    using nh m1(6) v(4) by (auto simp: no_huge_def)
  have n2: "Suc (1 + k) \<le> free_frames (vm_phys m1)" using m1(4) by simp
  obtain f2 m2 where m2: "pml_ensure m1 f3 (pml3_index va) fl = Inr (f2, m2)" "vm_inv m2 space"
    "node (vm_tab m2) ?r ([pml4_index va] @ [pml3_index va]) = Some f2" "1 + k \<le> free_frames (vm_phys m2)"
    "\<forall>r j. vpath r \<and> length r = 3 \<and> j < 512 \<longrightarrow> translate (vm_tab m2) ?r r j = translate (vm_tab m1) ?r r j"
    "\<forall>r j. vpath r \<and> huge (vm_tab m2) ?r r j \<longrightarrow> huge (vm_tab m1) ?r r j"
    using pml_ensure_ok [OF m1(2) v(2) m1(3) [unfolded append_Nil] nh2 fl n2] by blast
  have nh3: "\<not> huge (vm_tab m2) ?r [pml4_index va, pml3_index va] (pml2_index va)"
    using nh m1(6) m2(6) v(5) by (auto simp: no_huge_def)
  have n1: "Suc k \<le> free_frames (vm_phys m2)" using m2(4) by simp
  obtain f1 m3 where m3: "pml_ensure m2 f2 (pml2_index va) fl = Inr (f1, m3)" "vm_inv m3 space"
    "node (vm_tab m3) ?r ([pml4_index va, pml3_index va] @ [pml2_index va]) = Some f1" "k \<le> free_frames (vm_phys m3)"
    "\<forall>r j. vpath r \<and> length r = 3 \<and> j < 512 \<longrightarrow> translate (vm_tab m3) ?r r j = translate (vm_tab m2) ?r r j"
    "\<forall>r j. vpath r \<and> huge (vm_tab m3) ?r r j \<longrightarrow> huge (vm_tab m2) ?r r j"
    using pml_ensure_ok [OF m2(2) v(3) m2(3) [unfolded append_Cons append_Nil] nh3 fl n1] by blast
  have "\<forall>x. mmu m3 space x = mmu m space x" using m1(5) m2(5) m3(5) by (simp add: mmu_def)
  moreover have "\<forall>x. no_huge m space x \<longrightarrow> no_huge m3 space x"
    unfolding no_huge_def using m1(6) m2(6) m3(6) v vpath_simps(1) by blast
  moreover have "node (vm_tab m3) ?r (upper va) = Some f1" using m3(3) by (simp add: upper_def)
  ultimately show ?thesis using m1(1) m2(1) m3(1,2,4) by blast
qed

lemma take_lock_free:
  assumes "\<not> as_lock space"
  shows "take_lock b space = Inr (if b then space\<lparr>as_lock := True\<rparr> else space)"
    "drop_lock b (if b then space\<lparr>as_lock := True\<rparr> else space) = space"
    "pml4 (if b then space\<lparr>as_lock := True\<rparr> else space) = pml4 space"
  using assms by (simp_all add: take_lock_def drop_lock_def pml4_def)

lemma huge_leaf_write:
  assumes "tables_ok p t root" "vpath q" "length q = 3" "node t root q = Some f" "t' = t(f := (t f)(i := e))"
    "vpath r" "length r < 3"
  shows "huge t' root r k = huge t root r k"
proof -
  have "g \<noteq> f" if "node t root r = Some g" for g
    using assms that unfolding tables_ok_def by (metis less_irrefl)
  then show ?thesis using node_leaf_write [OF assms(1-6)] by (auto simp: huge_def assms(5) split: option.splits)
qed

text \<open>The entry that \<open>mapPage\<close> writes, and what writing it does.\<close>

lemma leaf_write_ok:
  assumes inv: "vm_inv m space" and f: "node (vm_tab m) (pml4 space) (upper va) = Some f"
  shows "vm_inv (tab_write m f (table_index va) e) space"
    "mmu (tab_write m f (table_index va) e) space x =
      (if same_page va x then if pml_present e then Some e else None else mmu m space x)"
    "no_huge (tab_write m f (table_index va) e) space x = no_huge m space x"
    "vm_phys (tab_write m f (table_index va) e) = vm_phys m"
proof -
  let ?m = "tab_write m f (table_index va) e"
  have t': "vm_tab ?m = (vm_tab m)(f := (vm_tab m f)(table_index va := e))" by (simp add: tab_write_def)
  show p': "vm_phys ?m = vm_phys m" by (simp add: tab_write_def)
  have ok: "tables_ok (vm_phys m) (vm_tab m) (pml4 space)" using inv by (simp add: vm_inv_def)
  show "vm_inv ?m space" using tables_ok_leaf_write [OF ok vpath_upper f t'] inv p' by (simp add: vm_inv_def)
  show "mmu ?m space x = (if same_page va x then if pml_present e then Some e else None else mmu m space x)"
    using translate_leaf_write [OF ok vpath_upper f t' vpath_upper [of x], of "table_index x"]
    by (auto simp: mmu_def same_page_iff)
  show "no_huge ?m space x = no_huge m space x"
    unfolding no_huge_def using huge_leaf_write [OF ok vpath_upper f t'] by (simp add: vpath_def)
qed

lemma mapPage_ok:
  assumes inv: "vm_inv m space" and nh: "no_huge m space va" and l: "\<not> as_lock space \<or> \<not> do_lock"
    and n: "3 + k \<le> free_frames (vm_phys m)"
  shows "\<exists>m'. mapPage m space pa va flags do_lock = Inr (m', space) \<and> vm_inv m' space \<and>
    k \<le> free_frames (vm_phys m') \<and> (\<forall>x. no_huge m space x \<longrightarrow> no_huge m' space x) \<and>
    (\<forall>x. mmu m' space x = (if same_page va x then Some ((pa AND NOT 0xFFF) OR flags OR 1) else mmu m space x))"
proof -
  define fl :: u64 where "fl = (if pml4_index va < 128 then 7 else 3)"
  have fl: "fl = 7 \<or> fl = 3" by (simp add: fl_def)
  let ?e = "(pa AND NOT 0xFFF) OR flags OR 1"
  obtain f3 m1 f2 m2 f1 m3 where w: "pml_ensure m (pml4 space) (pml4_index va) fl = Inr (f3, m1)"
    "pml_ensure m1 f3 (pml3_index va) fl = Inr (f2, m2)" "pml_ensure m2 f2 (pml2_index va) fl = Inr (f1, m3)"
    and m3: "vm_inv m3 space" "node (vm_tab m3) (pml4 space) (upper va) = Some f1" "k \<le> free_frames (vm_phys m3)"
    "\<forall>x. mmu m3 space x = mmu m space x" "\<forall>x. no_huge m space x \<longrightarrow> no_huge m3 space x"
    using pml_walk_ok [OF inv nh fl n] by blast
  have p: "pml_present ?e" by (simp add: pml_present_def bit_or_iff)
  let ?s = "if do_lock then space\<lparr>as_lock := True\<rparr> else space"
  have lk: "take_lock do_lock space = Inr ?s" "drop_lock do_lock ?s = space" "pml4 ?s = pml4 space"
    using l by (auto simp: take_lock_def drop_lock_def pml4_def)
  have "mapPage m space pa va flags do_lock = Inr (tab_write m3 f1 (table_index va) ?e, space)"
    unfolding mapPage_def Let_def fl_def [symmetric] by (simp add: lk w)
  then show ?thesis using leaf_write_ok [OF m3(1,2), of ?e] p m3(3-5) by simp
qed

text \<open>
  \<open>C1\<close> When at least three frames are free and no large page covers the address, \<open>mapPage\<close> ends
  normally, keeps the page tables a tree of used frames, makes the processor translate the page to
  exactly the entry built from the physical address and the flags, and changes the translation of
  no other page.
\<close>

theorem mapPage_correct:
  assumes "vm_inv m space" "no_huge m space va" "\<not> as_lock space" "3 \<le> free_frames (vm_phys m)"
  shows "\<exists>m'. mapPage m space pa va flags do_lock = Inr (m', space) \<and> vm_inv m' space \<and>
    mmu m' space va = Some ((pa AND NOT 0xFFF) OR flags OR 1) \<and>
    (\<forall>va'. \<not> same_page va va' \<longrightarrow> mmu m' space va' = mmu m space va')"
proof -
  have l: "\<not> as_lock space \<or> \<not> do_lock" and n: "3 + 0 \<le> free_frames (vm_phys m)"
    using assms(3,4) by simp_all
  obtain m' where m': "mapPage m space pa va flags do_lock = Inr (m', space)" "vm_inv m' space"
    "\<forall>x. mmu m' space x = (if same_page va x then Some ((pa AND NOT 0xFFF) OR flags OR 1) else mmu m space x)"
    using mapPage_ok [OF assms(1,2) l n] by blast
  have "same_page va va" by (simp add: same_page_def)
  then show ?thesis using m' by auto
qed

text \<open>An address space without any mapping, in a memory of eight pages of which three are used.\<close>

definition sample_vm :: vmem where
  "sample_vm = \<lparr>vm_phys = sample_phys, vm_tab = \<lambda>_ _. 0\<rparr>"

definition sample_space :: aspace where
  "sample_space = \<lparr>as_cr3 = 0x1000, as_lock = False\<rparr>"

lemma sample_vm_facts:
  "vm_inv sample_vm sample_space" "no_huge sample_vm sample_space va" "\<not> as_lock sample_space"
  "free_frames (vm_phys sample_vm) = 5" "mmu sample_vm sample_space va = None"
proof -
  have z: "\<not> pml_present (0 :: u64)" by (simp add: pml_present_def)
  have n: "node (\<lambda>_ _. 0) f q = (if q = [] then Some f else None)" for f q
    by (cases q) (simp_all add: z)
  show "vm_inv sample_vm sample_space"
    by (auto simp: vm_inv_def tables_ok_def n sample_vm_def sample_space_def pml4_def frame_def sample_phys_used
        ph_limited_def ph_inv_def split: if_splits) (auto simp: sample_phys_def)
  show "no_huge sample_vm sample_space va" by (simp add: no_huge_def huge_def n sample_vm_def z)
  show "\<not> as_lock sample_space" by (simp add: sample_space_def)
  have "{i. i < pages (ph_bitmap sample_phys) \<and> \<not> ph_used sample_phys i} = {3, 4, 5, 6, 7}"
    unfolding sample_phys_used by (auto simp: sample_phys_def)
  then show "free_frames (vm_phys sample_vm) = 5" by (simp add: free_frames_def sample_vm_def)
  show "mmu sample_vm sample_space va = None" by (simp add: mmu_def translate_def n upper_def sample_vm_def)
qed

theorem mapPage_correct_witness:
  "\<exists>m'. mapPage sample_vm sample_space 0x7ABC 0x400000 6 True = Inr (m', sample_space) \<and>
    mmu m' sample_space 0x400000 = Some 0x7007 \<and> mmu m' sample_space 0x401000 = None"
proof -
  have "3 \<le> free_frames (vm_phys sample_vm)" "\<not> same_page 0x400000 0x401000"
    by (simp_all add: sample_vm_facts same_page_def)
  then show ?thesis
    using mapPage_correct [OF sample_vm_facts(1) sample_vm_facts(2) [where va = "0x400000"] sample_vm_facts(3),
        where pa = "0x7ABC" and flags = 6 and do_lock = True] by (auto simp: sample_vm_facts(5))
qed

section \<open>Unmapping a page\<close>

lemma pml_follow_node:
  assumes inv: "vm_inv m space" and f: "node (vm_tab m) (pml4 space) q = Some f" and q: "vpath (q @ [i])"
    and nh: "\<not> huge (vm_tab m) (pml4 space) q i"
  shows "pml_follow m f i = (case node (vm_tab m) (pml4 space) (q @ [i]) of None \<Rightarrow> Inl Panic | Some g \<Rightarrow> Inr g)"
proof (cases "pml_present (vm_tab m f i)")
  case True
  then have s: "node (vm_tab m) (pml4 space) (q @ [i]) = Some (pml_frame (vm_tab m f i))"
    using f nh by (simp add: node_snoc huge_def)
  then show ?thesis using pml_table_eq(1) [OF vm_invD [OF inv s q]] True by (simp add: pml_follow_def)
qed (use f in \<open>simp add: pml_follow_def node_snoc\<close>)

lemma pml_walk_down:
  assumes inv: "vm_inv m space" and nh: "no_huge m space va"
  shows "bind_res (pml_follow m (pml4 space) (pml4_index va)) (\<lambda>f3.
     bind_res (pml_follow m f3 (pml3_index va)) (\<lambda>f2.
     bind_res (pml_follow m f2 (pml2_index va)) k)) =
     (case node (vm_tab m) (pml4 space) (upper va) of None \<Rightarrow> Inl Panic | Some f1 \<Rightarrow> k f1)"
proof -
  let ?n = "node (vm_tab m) (pml4 space)" and ?a = "pml4_index va" and ?b = "pml3_index va" and ?c = "pml2_index va"
  have nh': "\<not> huge (vm_tab m) (pml4 space) [] ?a" "\<not> huge (vm_tab m) (pml4 space) [?a] ?b"
    "\<not> huge (vm_tab m) (pml4 space) [?a, ?b] ?c" using nh by (simp_all add: no_huge_def)
  have s1: "pml_follow m (pml4 space) ?a = (case ?n [?a] of None \<Rightarrow> Inl Panic | Some g \<Rightarrow> Inr g)"
    using pml_follow_node [OF inv node.simps(1) _ nh'(1)] by (simp add: vpath_def)
  have s2: "?n [?a] = Some f \<Longrightarrow> pml_follow m f ?b = (case ?n [?a, ?b] of None \<Rightarrow> Inl Panic | Some g \<Rightarrow> Inr g)" for f
    using pml_follow_node [OF inv _ _ nh'(2), of f] by (simp add: vpath_def del: node.simps)
  have s3: "?n [?a, ?b] = Some f \<Longrightarrow> pml_follow m f ?c = (case ?n [?a, ?b, ?c] of None \<Rightarrow> Inl Panic | Some g \<Rightarrow> Inr g)" for f
    using pml_follow_node [OF inv _ _ nh'(3), of f] by (simp add: vpath_def del: node.simps)
  have e: "?n [?a, ?b] = (case ?n [?a] of None \<Rightarrow> None | Some g \<Rightarrow> node (vm_tab m) g [?b])"
    "?n [?a, ?b, ?c] = (case ?n [?a, ?b] of None \<Rightarrow> None | Some g \<Rightarrow> node (vm_tab m) g [?c])"
    using node_append [of "vm_tab m" "pml4 space" "[?a]" "[?b]"]
      node_append [of "vm_tab m" "pml4 space" "[?a, ?b]" "[?c]"] by (simp_all del: node.simps)
  show ?thesis unfolding upper_def s1
    by (cases "?n [?a]"; cases "?n [?a, ?b]"; cases "?n [?a, ?b, ?c]") (simp_all add: s2 s3 e del: node.simps)
qed

lemma clear_present:
  "\<not> pml_present (e AND NOT 1)" "pml_frame (e AND NOT 1) = pml_frame e"
proof -
  show "\<not> pml_present (e AND NOT 1)" by (simp add: pml_present_def bit_and_iff bit_not_iff)
  have "drop_bit 12 (e AND NOT 1) = drop_bit 12 e"
    by (rule bit_eqI, simp only: bit_drop_bit_eq bit_and_iff bit_not_iff bit_1_iff comp_def)
      (auto dest: bit_imp_le_length)
  then show "pml_frame (e AND NOT 1) = pml_frame e" by (simp only: pml_frame_def)
qed

lemma unmapPage_ok:
  assumes inv: "vm_inv m space" and nh: "no_huge m space va" and l: "\<not> as_lock space"
  shows "case mmu m space va of None \<Rightarrow> unmapPage m space va = Inl Panic
    | Some e \<Rightarrow> \<exists>m'. unmapPage m space va = Inr (pml_unshift e, m', space) \<and> vm_inv m' space \<and>
        vm_phys m' = vm_phys m \<and> (\<forall>x. no_huge m' space x = no_huge m space x) \<and>
        (\<forall>x. mmu m' space x = (if same_page va x then None else mmu m space x))"
proof -
  have tl: "take_lock True space = Inr (space\<lparr>as_lock := True\<rparr>)" "drop_lock True (space\<lparr>as_lock := True\<rparr>) = space"
    "pml4 (space\<lparr>as_lock := True\<rparr>) = pml4 space" using take_lock_free [OF l, of True] by simp_all
  have us: "pml_unshift (e AND NOT 1) = pml_unshift e" for e
  proof -
    have "take_bit 28 (drop_bit 12 (e AND NOT 1)) = take_bit 28 (drop_bit 12 e)"
      using clear_present(2) [of e] by (simp only: pml_frame_def word_unat_eq_iff)
    then show ?thesis by (simp only: pml_unshift_def pml_address_def)
  qed
  note walk = pml_walk_down [OF inv nh]
  show ?thesis
  proof (cases "node (vm_tab m) (pml4 space) (upper va)")
    case None
    then show ?thesis by (simp add: mmu_def translate_def unmapPage_def tl walk)
  next
    case (Some f)
    let ?e = "vm_tab m f (table_index va)"
    show ?thesis
    proof (cases "pml_present ?e")
      case True
      have "unmapPage m space va = Inr (pml_unshift ?e, tab_write m f (table_index va) (?e AND NOT 1), space)"
        using True Some by (simp add: unmapPage_def tl walk Let_def us [simplified])
      then show ?thesis using leaf_write_ok [OF inv Some, of "?e AND NOT 1"] clear_present(1) [of ?e] True Some
        by (simp add: mmu_def translate_def)
    qed (use Some in \<open>simp add: mmu_def translate_def unmapPage_def tl walk\<close>)
  qed
qed

text \<open>
  \<open>C19\<close> \<open>unmapPage\<close> of a page that is not mapped panics. Of a mapped page below 2 GiB of physical
  memory it returns the physical address, removes this translation, keeps every other one, and
  leaves the page tables and the allocator as they were.
\<close>

theorem unmapPage_correct:
  assumes "vm_inv m space" "no_huge m space va" "\<not> as_lock space"
    "\<forall>e. mmu m space va = Some e \<longrightarrow> pml_frame e < 2 ^ 19"
  shows "case mmu m space va of None \<Rightarrow> unmapPage m space va = Inl Panic
    | Some e \<Rightarrow> \<exists>m' a. unmapPage m space va = Inr (a, m', space) \<and> unat a = pml_frame e * 4096 \<and> vm_inv m' space \<and>
        vm_phys m' = vm_phys m \<and> mmu m' space va = None \<and>
        (\<forall>va'. \<not> same_page va va' \<longrightarrow> mmu m' space va' = mmu m space va')"
proof (cases "mmu m space va")
  case (Some e)
  have "same_page va va" by (simp add: same_page_def)
  then show ?thesis using unmapPage_ok [OF assms(1-3)] Some pml_table_eq(2) [of e] assms(4) by fastforce
qed (use unmapPage_ok [OF assms(1-3)] in simp)

theorem unmapPage_correct_witness:
  "\<exists>m1 m2. mapPage sample_vm sample_space 0x7000 0x400000 6 True = Inr (m1, sample_space) \<and>
    unmapPage m1 sample_space 0x400000 = Inr (0x7000, m2, sample_space) \<and> mmu m2 sample_space 0x400000 = None"
proof -
  have "\<not> as_lock sample_space \<or> \<not> True" "3 + 2 \<le> free_frames (vm_phys sample_vm)" by (simp_all add: sample_vm_facts)
  from mapPage_ok [OF sample_vm_facts(1) sample_vm_facts(2) [where va = "0x400000"] this, where pa = "0x7000" and flags = 6]
  obtain m1 where m1: "mapPage sample_vm sample_space 0x7000 0x400000 6 True = Inr (m1, sample_space)"
    "vm_inv m1 sample_space" "no_huge m1 sample_space 0x400000" "mmu m1 sample_space 0x400000 = Some 0x7007"
    using sample_vm_facts(2) by (auto simp: same_page_def)
  have f: "pml_frame 0x7007 = 7" by (simp add: pml_frame_def)
  obtain m2 a where "unmapPage m1 sample_space 0x400000 = Inr (a, m2, sample_space)" "unat a = 7 * 4096"
    "mmu m2 sample_space 0x400000 = None"
    using unmapPage_correct [OF m1(2,3) sample_vm_facts(3)] m1(4) f by auto
  moreover from this(2) have "a = 0x7000" by (simp add: word_unat_eq_iff)
  ultimately show ?thesis using m1(1) by blast
qed

text \<open>
  The physical address that \<open>UNSHIFT\<close> rebuilds from an entry is right exactly for frames below
  2 GiB: the bit-field is promoted to a 32-bit \<open>int\<close> before it is shifted. \<open>unmapPage\<close> returns this
  address, and \<open>mapPage\<close>, \<open>getPage\<close> and \<open>destroyAddressSpace\<close> follow it to the next table.
\<close>

theorem pml_unshift_exact_iff: "unat (pml_unshift e) = pml_frame e * 4096 \<longleftrightarrow> pml_frame e < 2 ^ 19"
proof
  assume eq: "unat (pml_unshift e) = pml_frame e * 4096"
  define x :: u64 where "x = take_bit 28 (drop_bit 12 e)"
  have f: "pml_frame e = unat x" by (simp add: pml_frame_def x_def)
  have xb: "bit x k \<Longrightarrow> k < 28" for k by (simp add: x_def bit_take_bit_iff)
  have w: "bit (pml_unshift e) n \<longleftrightarrow> n < 64 \<and> (12 \<le> n \<and> n < 32 \<and> bit x (n - 12) \<or> 32 \<le> n \<and> bit x 19)" for n
    by (auto simp: pml_unshift_def pml_address_def x_def [symmetric] bit_word_scast_iff bit_push_bit_iff bit_ucast_iff
        dest: bit_imp_le_length)
  have "unat x < 2 ^ 28" unfolding x_def by (simp only: unsigned_take_bit_eq take_bit_nat_less_exp)
  then have "take_bit 64 (push_bit 12 (unat x)) = unat x * 4096"
    by (simp add: push_bit_eq_mult take_bit_nat_eq_self)
  then have "unat (push_bit 12 x) = unat x * 4096" by (simp only: unsigned_push_bit_eq) simp
  then have "pml_unshift e = push_bit 12 x" using eq f by (simp add: word_unat_eq_iff)
  then have b: "bit (pml_unshift e) n \<longleftrightarrow> 12 \<le> n \<and> n < 64 \<and> bit x (n - 12)" for n
    by (auto simp: bit_push_bit_iff dest: bit_imp_le_length)
  have n19: "\<not> bit x 19" using w [of 63] b [of 63] xb [of 51] by auto
  have "\<not> bit x k" if "19 \<le> k" for k
    using w [of "k + 12"] b [of "k + 12"] xb [of k] that n19 by (cases "k = 19") auto
  then have "take_bit 19 x = x" by (intro bit_eqI) (auto simp: bit_take_bit_iff not_le [symmetric])
  then have "unat x = take_bit 19 (unat x)" by (metis unsigned_take_bit_eq)
  then show "pml_frame e < 2 ^ 19" unfolding f by (metis take_bit_nat_less_exp)
qed (rule pml_table_eq(2))

end
