(* ===== verification/AddrSpace.thy ===== *)
theory AddrSpace
  imports Paging
begin

text \<open>
  \<open>kernel/memory/virtual.cpp\<close>, second part: searching for free virtual pages, creating and destroying
  address spaces, the allocation functions of namespace \<open>Memory\<close>, and the checks that system calls
  make on user pointers. Where the code passes a null address space it means the one of the current
  process; the model always passes it explicitly.
\<close>

section \<open>Searching for free virtual pages\<close>

text \<open>
  The four nested loops of \<open>findFreePages\<close>. The lists are the values their loop variables still have
  to take: \<open>pml3Index\<close> and \<open>pml2Index\<close> are declared outside the loops and never reset, so their lists
  are empty once a loop has run to its end. \<open>Next\<close> carries \<open>found\<close> and \<open>returnAddress\<close>.
\<close>

datatype scan = Found u64 | Next nat u64

definition ff_address :: "nat \<Rightarrow> nat \<Rightarrow> nat \<Rightarrow> nat \<Rightarrow> u64" where
  "ff_address p4 p3 p2 td = push_bit 12 (of_nat td OR push_bit 9 (of_nat p2 OR push_bit 9 (of_nat p3 OR push_bit 9 (of_nat p4))))"

fun ff_td :: "(nat \<Rightarrow> u64) \<Rightarrow> (nat \<Rightarrow> u64) \<Rightarrow> nat \<Rightarrow> nat list \<Rightarrow> nat \<Rightarrow> u64 \<Rightarrow> scan" where
  "ff_td t addr sz [] found ret = Next found ret"
| "ff_td t addr sz (i # is) found ret =
     (if pml_present (t i) then ff_td t addr sz is 0 ret
      else let ret = (if found = 0 then addr i else ret) in
           if Suc found = sz then Found (makeCanonical ret)
           else ff_td t addr sz is (Suc found) ret)"

fun ff_pml2 :: "nat \<Rightarrow> nat \<Rightarrow> nat \<Rightarrow> nat \<Rightarrow> vmem \<Rightarrow> nat list \<Rightarrow> nat \<Rightarrow> u64 \<Rightarrow> (vmem \<times> scan) res" where
  "ff_pml2 sz p4 p3 f m [] found ret = Inr (m, Next found ret)"
| "ff_pml2 sz p4 p3 f m (i # is) found ret =
     (if pml_size (vm_tab m f i) then ff_pml2 sz p4 p3 f m is 0 ret
      else bind_res (pml_ensure m f i 3) (\<lambda>(g, m1).
           case ff_td (vm_tab m1 g) (ff_address p4 p3 i) sz [0..<512] found ret of
             Found a \<Rightarrow> Inr (m1, Found a)
           | Next fd r \<Rightarrow> ff_pml2 sz p4 p3 f m1 is fd r))"

fun ff_pml3 :: "nat \<Rightarrow> nat \<Rightarrow> nat \<Rightarrow> vmem \<Rightarrow> nat list \<Rightarrow> nat list \<Rightarrow> nat \<Rightarrow> u64 \<Rightarrow> (vmem \<times> scan \<times> nat list) res" where
  "ff_pml3 sz p4 f m [] p2s found ret = Inr (m, Next found ret, p2s)"
| "ff_pml3 sz p4 f m (i # is) p2s found ret =
     (if pml_size (vm_tab m f i) then ff_pml3 sz p4 f m is p2s 0 ret
      else bind_res (pml_ensure m f i 3) (\<lambda>(g, m1).
           bind_res (ff_pml2 sz p4 i g m1 p2s found ret) (\<lambda>(m2, s).
           case s of Found a \<Rightarrow> Inr (m2, Found a, [])
           | Next fd r \<Rightarrow> ff_pml3 sz p4 f m2 is [] fd r)))"

fun ff_pml4 :: "nat \<Rightarrow> nat \<Rightarrow> vmem \<Rightarrow> nat list \<Rightarrow> nat list \<Rightarrow> nat list \<Rightarrow> nat \<Rightarrow> u64 \<Rightarrow> (u64 \<times> vmem) res" where
  "ff_pml4 sz f m [] p3s p2s found ret = Inl Panic"
| "ff_pml4 sz f m (i # is) p3s p2s found ret =
     (if pml_size (vm_tab m f i) then ff_pml4 sz f m is p3s p2s 0 ret
      else bind_res (pml_ensure m f i 3) (\<lambda>(g, m1).
           bind_res (ff_pml3 sz i g m1 p3s p2s found ret) (\<lambda>(m2, s, p2s').
           case s of Found a \<Rightarrow> Inr (a, m2)
           | Next fd r \<Rightarrow> ff_pml4 sz f m2 is [] p2s' fd r)))"

definition USER_MIN_ADDRESS :: u64 where "USER_MIN_ADDRESS = 0x400000"
definition USER_MAX_ADDRESS :: u64 where "USER_MAX_ADDRESS = 0x800000000000"
definition KERNEL_MIN_ADDRESS :: u64 where "KERNEL_MIN_ADDRESS = 0xFFFF808000000000"

definition vfindFreePages :: "vmem \<Rightarrow> aspace \<Rightarrow> nat \<Rightarrow> bool \<Rightarrow> bool \<Rightarrow> (u64 \<times> vmem \<times> aspace) res" where
  "vfindFreePages m space sz user do_lock =
     bind_res (take_lock do_lock space) (\<lambda>space.
     let lo = (if user then USER_MIN_ADDRESS else KERNEL_MIN_ADDRESS);
         maxPML4 = (if user then pml4_index USER_MAX_ADDRESS else 512) in
     bind_res (ff_pml4 sz (pml4 space) m [pml4_index lo..<maxPML4] [pml3_index lo..<512] [pml2_index lo..<512] 0 0)
       (\<lambda>(a, m'). Inr (a, m', drop_lock do_lock space)))"

section \<open>Allocation\<close>

definition mem_getFreePages :: "vmem \<Rightarrow> aspace \<Rightarrow> nat \<Rightarrow> u64 \<Rightarrow> (u64 \<times> vmem \<times> aspace) res" where
  "mem_getFreePages m space sz flags =
     bind_res (take_lock True space) (\<lambda>space.
     bind_res (vfindFreePages m space sz (flags AND 4 \<noteq> 0) False) (\<lambda>(va, m, space).
     bind_res (for_each (\<lambda>(m, space) i.
         bind_res (ph_getFreePages (vm_phys m) 1 4096) (\<lambda>(pa, p).
         mapPage (m\<lparr>vm_phys := p\<rparr>) space pa (va + of_nat (i * 4096)) flags False)) [0..<sz] (m, space)) (\<lambda>(m, space).
     Inr (va, m, drop_lock True space))))"

definition allocSpace :: "vmem \<Rightarrow> aspace \<Rightarrow> u64 \<Rightarrow> nat \<Rightarrow> u64 \<Rightarrow> (u64 \<times> vmem \<times> aspace) res" where
  "allocSpace m space va sz flags =
     bind_res (ph_getFreePages (vm_phys m) sz 4096) (\<lambda>(pa, p).
     bind_res (take_lock True space) (\<lambda>space.
     bind_res (for_each (\<lambda>(m, space) i.
         mapPage m space (pa + of_nat (i * 4096)) (va + of_nat (i * 4096)) flags False) [0..<sz]
         (m\<lparr>vm_phys := p\<rparr>, space)) (\<lambda>(m, space).
     Inr (pa, m, drop_lock True space))))"

definition releasePages :: "vmem \<Rightarrow> aspace \<Rightarrow> u64 \<Rightarrow> nat \<Rightarrow> (vmem \<times> aspace) res" where
  "releasePages m space address sz =
     for_each (\<lambda>(m, space) i.
       bind_res (unmapPage m space (address + of_nat (i * 4096))) (\<lambda>(pa, m, space).
       bind_res (ph_freePages (vm_phys m) pa 1) (\<lambda>p. Inr (m\<lparr>vm_phys := p\<rparr>, space)))) [0..<sz] (m, space)"

definition moduleSpaceBaseAddress :: u64 where "moduleSpaceBaseAddress = 0xFFFFFFFE80000000"
definition moduleSpaceSize :: u64 where "moduleSpaceSize = 0x80000000"

text \<open>\<open>allocModuleSpace\<close>: \<open>cur\<close> is the static \<open>moduleBaseAddressCurrent\<close>; the result \<open>None\<close> is null.\<close>

definition allocModuleSpace :: "vmem \<Rightarrow> aspace \<Rightarrow> u64 \<Rightarrow> u64 \<Rightarrow> (u64 option \<times> vmem \<times> aspace \<times> u64) res" where
  "allocModuleSpace m space cur sz0 =
     (let sz = page_round sz0 in
      if cur + sz > moduleSpaceBaseAddress + moduleSpaceSize then Inr (None, m, space, cur)
      else bind_res (for_each (\<lambda>(m, space, c) i.
             bind_res (ph_getFreePages (vm_phys m) 1 4096) (\<lambda>(pa, p).
             bind_res (mapPage (m\<lparr>vm_phys := p\<rparr>) space pa c 2 True) (\<lambda>(m, space).
             Inr (m, space, c + 4096)))) [0..<unat (sz div 4096)] (m, space, cur))
           (\<lambda>(m, space, c). Inr (Some cur, m, space, c)))"

section \<open>Address spaces\<close>

text \<open>A new address space: 4096 bytes of the kernel's top level, then the lower half zeroed.\<close>

definition createAddressSpace :: "vmem \<Rightarrow> aspace \<Rightarrow> (aspace \<times> vmem) res" where
  "createAddressSpace m kspace =
     bind_res (ph_getFreePages (vm_phys m) 1 4096) (\<lambda>(cr3, p).
     let space = \<lparr>as_cr3 = cr3, as_lock = False\<rparr>;
         copied = (\<lambda>i. if i < 512 then vm_tab m (pml4 kspace) i else vm_tab m (pml4 space) i);
         cleared = (\<lambda>i. if i < 256 then 0 else copied i) in
     Inr (space, m\<lparr>vm_phys := p, vm_tab := (vm_tab m)(pml4 space := cleared)\<rparr>))"

text \<open>The loops of \<open>destroyAddressSpace\<close>, innermost first; each frees what is below an entry, then the table.\<close>

definition free_entry :: "phys \<Rightarrow> u64 \<Rightarrow> phys res" where
  "free_entry p e = ph_freePages p (pml_unshift e) 1"

definition destroy_td :: "vmem \<Rightarrow> nat \<Rightarrow> phys \<Rightarrow> phys res" where
  "destroy_td m f = for_each (\<lambda>p i. let e = vm_tab m f i in
     if \<not> pml_present e then Inr p else free_entry p e) [0..<512]"

definition destroy_pml2 :: "vmem \<Rightarrow> nat \<Rightarrow> phys \<Rightarrow> phys res" where
  "destroy_pml2 m f = for_each (\<lambda>p i. let e = vm_tab m f i in
     if \<not> pml_present e then Inr p
     else bind_res (pml_table e) (\<lambda>g. bind_res (destroy_td m g p) (\<lambda>p. free_entry p e))) [0..<512]"

definition destroy_pml3 :: "vmem \<Rightarrow> nat \<Rightarrow> phys \<Rightarrow> phys res" where
  "destroy_pml3 m f = for_each (\<lambda>p i. let e = vm_tab m f i in
     if \<not> pml_present e then Inr p
     else bind_res (pml_table e) (\<lambda>g. bind_res (destroy_pml2 m g p) (\<lambda>p. free_entry p e))) [0..<512]"

definition destroyAddressSpace :: "vmem \<Rightarrow> aspace \<Rightarrow> vmem res" where
  "destroyAddressSpace m space =
     bind_res (for_each (\<lambda>p i. let e = vm_tab m (pml4 space) i in
       if \<not> pml_present e then Inr p
       else bind_res (pml_table e) (\<lambda>g. bind_res (destroy_pml3 m g p) (\<lambda>p. free_entry p e))) [0..<256] (vm_phys m)) (\<lambda>p.
     bind_res (ph_freePages p (as_cr3 space) 1) (\<lambda>p. Inr (m\<lparr>vm_phys := p\<rparr>)))"

section \<open>Checks on user pointers\<close>

text \<open>Page numbers are held in 32-bit variables, and \<open>UNSHIFT\<close> of one is a 32-bit shift.\<close>

partial_function (option) check_pages :: "vmem \<Rightarrow> aspace \<Rightarrow> bool \<Rightarrow> u32 \<Rightarrow> u32 \<Rightarrow> bool res option" where
  "check_pages m space write i pageEnd =
     (if i \<le> pageEnd
      then case getPage m space (ucast (push_bit 12 i)) of
             Inl e \<Rightarrow> Some (Inl e)
           | Inr None \<Rightarrow> Some (Inr False)
           | Inr (Some (f, k)) \<Rightarrow>
               if \<not> pml_present (vm_tab m f k) then Some (Inr False)
               else if write \<and> \<not> pml_writable (vm_tab m f k) then Some (Inr False)
               else check_pages m space write (i + 1) pageEnd
      else Some (Inr True))"

definition checkAccess :: "vmem \<Rightarrow> aspace \<Rightarrow> u64 \<Rightarrow> u64 \<Rightarrow> bool \<Rightarrow> bool res option" where
  "checkAccess m space address sz write =
     (if address = 0 then Some (Inr False)
      else if address \<ge> USER_MAX_ADDRESS \<or> address + sz \<ge> USER_MAX_ADDRESS then Some (Inr False)
      else let end = (if sz \<noteq> 0 then address + sz - 1 else address) in
           check_pages m space write (ucast (drop_bit 12 address)) (ucast (drop_bit 12 end)))"

section \<open>What getPage returns\<close>

lemma pml_step_node:
  assumes inv: "vm_inv m space" and f: "node (vm_tab m) (pml4 space) q = Some f" and q: "vpath (q @ [i])"
  shows "pml_step m f i = Inr (node (vm_tab m) (pml4 space) (q @ [i]))"
proof (cases "pml_present (vm_tab m f i) \<and> \<not> pml_size (vm_tab m f i)")
  case True
  then have s: "node (vm_tab m) (pml4 space) (q @ [i]) = Some (pml_frame (vm_tab m f i))"
    using f by (simp add: node_snoc)
  then show ?thesis using pml_table_eq(1) [OF vm_invD [OF inv s q]] True by (simp add: pml_step_def Let_def)
qed (use f in \<open>auto simp: pml_step_def node_snoc Let_def\<close>)

lemma getPage_ok:
  assumes inv: "vm_inv m space" and l: "\<not> as_lock space"
  shows "getPage m space va = Inr (map_option (\<lambda>f. (f, table_index va)) (node (vm_tab m) (pml4 space) (upper va)))"
proof -
  let ?n = "node (vm_tab m) (pml4 space)" and ?a = "pml4_index va" and ?b = "pml3_index va" and ?c = "pml2_index va"
  have s1: "pml_step m (pml4 space) ?a = Inr (?n [?a])"
    using pml_step_node [OF inv node.simps(1)] by (simp add: vpath_def)
  have s2: "?n [?a] = Some f \<Longrightarrow> pml_step m f ?b = Inr (?n [?a, ?b])" for f
    using pml_step_node [OF inv, of "[?a]" f ?b] by (simp add: vpath_def del: node.simps)
  have s3: "?n [?a, ?b] = Some f \<Longrightarrow> pml_step m f ?c = Inr (?n [?a, ?b, ?c])" for f
    using pml_step_node [OF inv, of "[?a, ?b]" f ?c] by (simp add: vpath_def del: node.simps)
  have e: "?n [?a, ?b] = (case ?n [?a] of None \<Rightarrow> None | Some g \<Rightarrow> node (vm_tab m) g [?b])"
    "?n [?a, ?b, ?c] = (case ?n [?a, ?b] of None \<Rightarrow> None | Some g \<Rightarrow> node (vm_tab m) g [?c])"
    using node_append [of "vm_tab m" "pml4 space" "[?a]" "[?b]"]
      node_append [of "vm_tab m" "pml4 space" "[?a, ?b]" "[?c]"] by (simp_all del: node.simps)
  have "as_lock space = False" using l by simp
  then show ?thesis unfolding getPage_def upper_def s1
    by (cases "?n [?a]"; cases "?n [?a, ?b]"; cases "?n [?a, ?b, ?c]")
      (simp_all add: opt_res_def s2 s3 e del: node.simps)
qed

definition accessible :: "vmem \<Rightarrow> aspace \<Rightarrow> bool \<Rightarrow> u64 \<Rightarrow> bool" where
  "accessible m space write va \<longleftrightarrow> (\<exists>e. mmu m space va = Some e \<and> (write \<longrightarrow> pml_writable e))"

lemma check_pages_step:
  assumes "vm_inv m space" "\<not> as_lock space"
  shows "check_pages m space write i e = (if i \<le> e
    then if accessible m space write (ucast (push_bit 12 i)) then check_pages m space write (i + 1) e else Some (Inr False)
    else Some (Inr True))"
  by (subst check_pages.simps)
    (auto simp: getPage_ok [OF assms] accessible_def mmu_def translate_def split: option.splits if_splits)

lemma check_pages_spec:
  assumes "vm_inv m space" "\<not> as_lock space" "e \<noteq> - 1"
  shows "check_pages m space write i e =
    Some (Inr (\<forall>j. i \<le> j \<and> j \<le> e \<longrightarrow> accessible m space write (ucast (push_bit 12 j))))"
proof (induction "unat e + 1 - unat i" arbitrary: i)
  case 0
  then have gt: "\<not> i \<le> e" by (simp add: word_le_nat_alt)
  then have "\<not> (i \<le> j \<and> j \<le> e)" for j by (meson order_trans)
  then show ?case using gt by (simp add: check_pages_step [OF assms(1,2), of "write" i]) blast
next
  case (Suc n)
  then have le: "i \<le> e" by (simp add: word_le_nat_alt)
  have "i \<noteq> - 1" using le assms(3) by (metis word_order.extremum_unique)
  then have u: "unat (i + 1) = unat i + 1" by (metis Suc_eq_plus1 add.commute add_eq_0_iff minus_minus unatSuc)
  have ih: "check_pages m space write (i + 1) e =
      Some (Inr (\<forall>j. i + 1 \<le> j \<and> j \<le> e \<longrightarrow> accessible m space write (ucast (push_bit 12 j))))"
    by (rule Suc.hyps(1)) (use Suc.hyps(2) u in simp)
  have "i \<le> j \<longleftrightarrow> j = i \<or> i + 1 \<le> j" for j
    using u by (auto simp: word_le_nat_alt word_unat_eq_iff)
  then show ?case using le ih by (auto simp: check_pages_step [OF assms(1,2), of "write" i])
qed

lemma mmu_same_page: "same_page a b \<Longrightarrow> mmu m space a = mmu m space b"
  by (simp add: same_page_iff mmu_def)

lemma accessible_page:
  "accessible m space w (ucast (push_bit 12 (ucast (drop_bit 12 va) :: u32))) = accessible m space w (take_bit 32 va)"
proof -
  have "drop_bit 12 (ucast (push_bit 12 (ucast (drop_bit 12 va) :: u32))) = drop_bit 12 (take_bit 32 va)"
    by (rule bit_eqI, simp only: bit_drop_bit_eq bit_ucast_iff bit_push_bit_iff bit_take_bit_iff comp_def)
      (auto dest: bit_imp_le_length)
  then have "same_page (ucast (push_bit 12 (ucast (drop_bit 12 va) :: u32))) (take_bit 32 va)"
    by (simp only: same_page_def)
  from mmu_same_page [OF this] show ?thesis by (simp only: accessible_def)
qed

lemma page_number:
  assumes "unat (va :: u64) < 2 ^ 44"
  shows "unat (ucast (drop_bit 12 va) :: u32) = unat va div 4096"
proof -
  have "unat va div 4096 < 2 ^ 32" using assms by (simp add: less_mult_imp_div_less)
  then show ?thesis by (simp only: unsigned_ucast_eq unat_drop_12 frame_def) (simp add: take_bit_nat_eq_self)
qed

text \<open>The page numbers between the pages of two addresses are the pages of the addresses between them.\<close>

lemma all_pages_between:
  fixes a b :: u64
  assumes "unat a \<le> unat b" "unat b < 2 ^ 44"
  shows "(\<forall>j :: u32. ucast (drop_bit 12 a) \<le> j \<and> j \<le> ucast (drop_bit 12 b) \<longrightarrow> P j) \<longleftrightarrow>
    (\<forall>va. a \<le> va \<and> va \<le> b \<longrightarrow> P (ucast (drop_bit 12 va)))" (is "?L \<longleftrightarrow> ?R")
proof
  have pn: "unat (ucast (drop_bit 12 x) :: u32) = unat x div 4096" if "unat x \<le> unat b" for x :: u64
    using page_number [of x] that assms(2) by simp
  show ?R if ?L
  proof (intro allI impI)
    fix va assume va: "a \<le> va \<and> va \<le> b"
    have "ucast (drop_bit 12 a) \<le> (ucast (drop_bit 12 va) :: u32)" "(ucast (drop_bit 12 va) :: u32) \<le> ucast (drop_bit 12 b)"
      using va pn [of a] pn [of va] pn [of b] assms(1) by (simp_all add: word_le_nat_alt div_le_mono)
    then show "P (ucast (drop_bit 12 va))" using that by blast
  qed
  show ?L if ?R
  proof (intro allI impI)
    fix j :: u32 assume j: "ucast (drop_bit 12 a) \<le> j \<and> j \<le> ucast (drop_bit 12 b)"
    have ab: "unat a div 4096 \<le> unat j" "unat j \<le> unat b div 4096"
      using j pn [of a] pn [of b] assms(1) by (simp_all add: word_le_nat_alt)
    define v where "v = max (unat a) (unat j * 4096)"
    have v: "unat a \<le> v" "v \<le> unat b" "v div 4096 = unat j"
    proof -
      have le: "unat j * 4096 \<le> unat b" using ab(2) by (simp add: less_eq_div_iff_mult_less_eq)
      show "unat a \<le> v" "v \<le> unat b" using le assms(1) by (simp_all add: v_def)
      show "v div 4096 = unat j"
      proof (cases "unat a \<le> unat j * 4096")
        case False
        then have "unat j \<le> unat a div 4096" by (simp add: less_eq_div_iff_mult_less_eq)
        then show ?thesis using ab(1) False by (simp add: v_def)
      qed (simp add: v_def)
    qed
    have u: "unat (of_nat v :: u64) = v"
      using v(2) unat_lt_2p64 [of b] by (intro unat_of_nat_u64) simp
    have "ucast (drop_bit 12 (of_nat v :: u64)) = j"
      using pn [of "of_nat v"] u v by (simp add: word_unat_eq_iff)
    moreover have "a \<le> of_nat v \<and> (of_nat v :: u64) \<le> b" using u v by (simp add: word_le_nat_alt)
    ultimately show "P j" using that by metis
  qed
qed

definition last_byte :: "u64 \<Rightarrow> u64 \<Rightarrow> u64" where
  "last_byte address sz = (if sz \<noteq> 0 then address + sz - 1 else address)"

lemma checkAccess_ok:
  assumes "vm_inv m space" "\<not> as_lock space" "address \<noteq> 0" "unat address + unat sz < 2 ^ 44 - 4096"
  shows "checkAccess m space address sz w =
      Some (Inr (\<forall>va. address \<le> va \<and> va \<le> last_byte address sz \<longrightarrow> accessible m space w (take_bit 32 va))) \<and>
    (unat address + unat sz < 2 ^ 32 \<longrightarrow> checkAccess m space address sz w =
      Some (Inr (\<forall>va. address \<le> va \<and> va \<le> last_byte address sz \<longrightarrow> accessible m space w va)))"
proof -
  let ?l = "last_byte address sz"
  have s: "unat (address + sz) = unat address + unat sz"
    using assms(4) by (simp add: unat_word_ariths(1))
  have l: "unat ?l = (if sz = 0 then unat address else unat address + unat sz - 1)"
  proof (cases "sz = 0")
    case False
    then have "0 < unat sz" by (simp add: unat_gt_0)
    then have "1 \<le> address + sz" using s by (simp add: word_le_nat_alt)
    then show ?thesis using False s by (simp add: last_byte_def unat_sub)
  qed (simp add: last_byte_def)
  have le: "unat address \<le> unat ?l" "unat ?l < 2 ^ 44 - 4096"
    using assms(4) l unat_gt_0 [of sz] by (auto simp del: unat_gt_0)
  have e: "(ucast (drop_bit 12 ?l) :: u32) \<noteq> - 1"
  proof -
    have "unat (ucast (drop_bit 12 ?l) :: u32) < 2 ^ 32 - 1"
      using page_number [of ?l] le(2) by (simp add: less_mult_imp_div_less)
    then show ?thesis by (auto simp: unsigned_minus_1_eq_mask mask_eq_exp_minus_1)
  qed
  have ok: "\<not> (address \<ge> USER_MAX_ADDRESS \<or> address + sz \<ge> USER_MAX_ADDRESS)"
    using assms(4) s by (simp add: word_le_nat_alt USER_MAX_ADDRESS_def)
  have run: "checkAccess m space address sz w =
      check_pages m space w (ucast (drop_bit 12 address)) (ucast (drop_bit 12 ?l))"
    using ok assms(3) by (simp add: checkAccess_def last_byte_def)
  have r: "checkAccess m space address sz w =
      Some (Inr (\<forall>va. address \<le> va \<and> va \<le> ?l \<longrightarrow> accessible m space w (take_bit 32 va)))"
    unfolding run check_pages_spec [OF assms(1,2) e]
    using all_pages_between [of address ?l "\<lambda>j. accessible m space w (ucast (push_bit 12 j))"] le accessible_page
    by simp
  have "take_bit 32 va = va" if "va \<le> ?l" "unat address + unat sz < 2 ^ 32" for va
  proof -
    have "unat va < 2 ^ 32" using that l le by (auto simp: word_le_nat_alt split: if_splits) 
    then have "unat (take_bit 32 va) = unat va" by (simp only: unsigned_take_bit_eq take_bit_nat_eq_self)
    then show ?thesis by (simp add: word_unat_eq_iff)
  qed
  then show ?thesis using r by auto
qed

text \<open>
  \<open>C20\<close> \<open>checkAccess\<close> always ends for ranges below 16 TiB, and tests every address of the range after
  cutting it to 32 bits. So it is right for ranges below 4 GiB, where it accepts exactly the ranges
  of which every byte is mapped (and writable when asked), and above 4 GiB it tests the wrong pages.
\<close>

theorem checkAccess_exact:
  assumes "vm_inv m space" "\<not> as_lock space" "address \<noteq> 0" "unat address + unat sz < 2 ^ 44 - 4096"
  shows "checkAccess m space address sz w =
      Some (Inr (\<forall>va. address \<le> va \<and> va \<le> last_byte address sz \<longrightarrow> accessible m space w (take_bit 32 va))) \<and>
    (unat address + unat sz < 2 ^ 32 \<longrightarrow> checkAccess m space address sz w =
      Some (Inr (\<forall>va. address \<le> va \<and> va \<le> last_byte address sz \<longrightarrow> accessible m space w va)))"
  using assms by (rule checkAccess_ok)

text \<open>The sample address space with one writable user page mapped at \<open>0x400000\<close>.\<close>

lemma sample_mapped:
  "\<exists>m. mapPage sample_vm sample_space 0x7000 0x400000 6 True = Inr (m, sample_space) \<and> vm_inv m sample_space \<and>
    (\<forall>x. mmu m sample_space x = (if same_page 0x400000 x then Some 0x7007 else None))"
proof -
  have "\<not> as_lock sample_space \<or> \<not> True" "3 + 2 \<le> free_frames (vm_phys sample_vm)" by (simp_all add: sample_vm_facts)
  from mapPage_ok [OF sample_vm_facts(1) sample_vm_facts(2) [where va = "0x400000"] this, where pa = "0x7000" and flags = 6]
  show ?thesis by (auto simp: sample_vm_facts(5))
qed

lemma sample_page_low: "0x400000 \<le> va \<and> va \<le> (0x40000F :: u64) \<Longrightarrow> same_page 0x400000 va"
proof -
  assume "0x400000 \<le> va \<and> va \<le> (0x40000F :: u64)"
  then have "unat va div 4096 = 1024" by (intro div_nat_eqI) (simp_all add: word_le_nat_alt)
  then have "frame va = frame 0x400000" by (simp add: frame_def)
  then have "drop_bit 12 va = drop_bit 12 0x400000" by (simp only: word_unat_eq_iff unat_drop_12)
  then show ?thesis by (simp only: same_page_def)
qed

theorem checkAccess_exact_witness:
  "\<exists>m. vm_inv m sample_space \<and> checkAccess m sample_space 0x400000 16 True = Some (Inr True) \<and>
    checkAccess m sample_space 0x100400000 1 True = Some (Inr True) \<and> mmu m sample_space 0x100400000 = None"
proof -
  obtain m where m: "vm_inv m sample_space"
    "\<forall>x. mmu m sample_space x = (if same_page 0x400000 x then Some 0x7007 else None)"
    using sample_mapped by blast
  have w: "pml_writable 0x7007" by (simp add: pml_writable_def)
  have acc: "accessible m sample_space True x" if "same_page 0x400000 x" for x
    using m(2) that w by (simp add: accessible_def)
  have "checkAccess m sample_space 0x400000 16 True =
      Some (Inr (\<forall>va. 0x400000 \<le> va \<and> va \<le> 0x40000F \<longrightarrow> accessible m sample_space True va))"
    using checkAccess_exact [OF m(1) sample_vm_facts(3), of "0x400000" 16 True, THEN conjunct2]
    by (simp add: last_byte_def)
  also have "(\<forall>va. 0x400000 \<le> va \<and> va \<le> 0x40000F \<longrightarrow> accessible m sample_space True va) = True"
    using acc sample_page_low by blast
  finally have "checkAccess m sample_space 0x400000 16 True = Some (Inr True)" .
  moreover have "(\<forall>va. 0x100400000 \<le> va \<and> va \<le> 0x100400000 \<longrightarrow> accessible m sample_space True (take_bit 32 va)) = True"
  proof -
    have "take_bit 32 (0x100400000 :: u64) = 0x400000" by simp
    then have "accessible m sample_space True (take_bit 32 0x100400000)" using acc [of "0x400000"] by (simp add: same_page_def)
    then show ?thesis by (metis order_antisym)
  qed
  then have "checkAccess m sample_space 0x100400000 1 True = Some (Inr True)"
    using checkAccess_exact [OF m(1) sample_vm_facts(3), of "0x100400000" 1 True, THEN conjunct1]
    by (simp add: last_byte_def)
  moreover have "mmu m sample_space 0x100400000 = None" using m(2) by (simp add: same_page_def)
  ultimately show ?thesis using m(1) by blast
qed

text \<open>
  \<open>checkAccess\<close> accepts a range whose end wraps around the 64-bit address space, in every address
  space, without looking at a page.
\<close>

theorem checkAccess_wrap_around: "checkAccess m space 0x2000 (- 0x1000) w = Some (Inr True)"
  by (simp add: checkAccess_def USER_MAX_ADDRESS_def check_pages.simps)

section \<open>Creating an address space\<close>

lemma node_fresh:
  assumes "tables_ok p t root" "\<not> ph_used p a"
  shows "vpath r \<Longrightarrow> node (t(a := x)) root r = node t root r"
proof (induction r rule: rev_induct)
  case (snoc k r)
  have vr: "vpath r" using snoc.prems by (auto simp: vpath_def)
  have "g \<noteq> a" if "node t root r = Some g" for g using assms that vr by (auto simp: tables_ok_def)
  then show ?case using snoc.IH [OF vr] by (auto simp: node_snoc split: option.splits)
qed simp

lemma translate_fresh:
  assumes "tables_ok p t root" "\<not> ph_used p a" "vpath r"
  shows "translate (t(a := x)) root r k = translate t root r k"
proof -
  have "g \<noteq> a" if "node t root r = Some g" for g using assms that by (auto simp: tables_ok_def)
  then show ?thesis using node_fresh [OF assms, of x] by (auto simp: translate_def split: option.splits)
qed

text \<open>A root that copies the upper half of another root and has an empty lower half.\<close>

lemma node_half:
  assumes "tables_ok p t root" "\<not> ph_used p a" "vpath (i # is)"
    and x: "x = (\<lambda>i. if i < 256 then 0 else if i < 512 then t root i else y i)"
  shows "node (t(a := x)) a (i # is) = (if i < 256 then None else node t root (i # is))"
proof -
  have "root \<noteq> a" using assms(1,2) vpath_simps(1) node.simps(1) unfolding tables_ok_def by metis
  moreover have "i < 512" using assms(3) by (simp add: vpath_def)
  ultimately have "node (t(a := x)) a (i # is) = (if i < 256 then None else node (t(a := x)) root (i # is))"
    by (simp add: x pml_present_def)
  then show ?thesis using node_fresh [OF assms(1-3)] by simp
qed

lemma tables_ok_half:
  assumes ok: "tables_ok p t root" and fresh: "\<not> ph_used p a" and lim: "a < 2 ^ 19"
    and us: "\<forall>k. ph_used p' k \<longleftrightarrow> ph_used p k \<or> k = a"
    and x: "x = (\<lambda>i. if i < 256 then 0 else if i < 512 then t root i else y i)"
  shows "tables_ok p' (t(a := x)) a"
proof -
  have old: "node (t(a := x)) a q = Some f \<Longrightarrow> vpath q \<Longrightarrow> q = [] \<and> f = a \<or> q \<noteq> [] \<and> node t root q = Some f" for q f
    using node_half [OF ok fresh _ x] by (cases q) (auto split: if_splits)
  have ne: "vpath q \<Longrightarrow> node t root q \<noteq> Some a" for q using ok fresh by (auto simp: tables_ok_def)
  show ?thesis unfolding tables_ok_def
  proof (intro conjI allI impI, goal_cases)
    case (1 q f)
    then show ?case using old ok lim by (fastforce simp: tables_ok_def)
  next
    case (2 q f)
    then show ?case using old ok us by (fastforce simp: tables_ok_def)
  next
    case (3 q q' f)
    then show ?case using old [of q f] old [of q' f] ne ok unfolding tables_ok_def by metis
  qed
qed

text \<open>
  \<open>C17\<close> \<open>createAddressSpace\<close> gives a well-formed address space with no user mapping that sees the kernel
  half exactly as the kernel's own address space does, and leaves the kernel's address space as it
  was.
\<close>

theorem createAddressSpace_correct:
  assumes inv: "vm_inv m kspace" and n: "1 \<le> free_frames (vm_phys m)"
  shows "\<exists>space m'. createAddressSpace m kspace = Inr (space, m') \<and> \<not> as_lock space \<and>
    vm_inv m' space \<and> vm_inv m' kspace \<and> (\<forall>va. mmu m' kspace va = mmu m kspace va) \<and>
    (\<forall>va. mmu m' space va = (if pml4_index va < 256 then None else mmu m kspace va))"
proof -
  have lim: "ph_limited (2 ^ 19) (vm_phys m)" and ok: "tables_ok (vm_phys m) (vm_tab m) (pml4 kspace)"
    using inv by (simp_all add: vm_inv_def)
  have "Suc 0 \<le> free_frames (vm_phys m)" using n by simp
  from alloc_total [OF lim this] obtain a p where a: "ph_getFreePages (vm_phys m) 1 4096 = Inr (a, p)" by blast
  note fr = fr.alloc_ok [OF lim a]
  have fresh: "\<not> ph_used (vm_phys m) (frame a)" and us: "\<forall>k. ph_used p k \<longleftrightarrow> ph_used (vm_phys m) k \<or> k = frame a"
    and lt: "frame a < 2 ^ 19" using fr by auto
  define x where x: "x = (\<lambda>i. if i < 256 then 0 else if i < 512 then vm_tab m (pml4 kspace) i else vm_tab m (frame a) i)"
  let ?s = "\<lparr>as_cr3 = a, as_lock = False\<rparr>" and ?m = "m\<lparr>vm_phys := p, vm_tab := (vm_tab m)(frame a := x)\<rparr>"
  have s: "pml4 ?s = frame a" by (simp add: pml4_def)
  have run: "createAddressSpace m kspace = Inr (?s, ?m)"
    by (simp add: createAddressSpace_def a [unfolded One_nat_def] Let_def s x cong: if_cong)
  have "tables_ok p ((vm_tab m)(frame a := x)) (pml4 kspace)"
    using ok us node_fresh [OF ok fresh, of _ x] unfolding tables_ok_def by metis
  then have k: "vm_inv ?m kspace" using fr by (simp add: vm_inv_def)
  have new: "vm_inv ?m ?s" using tables_ok_half [OF ok fresh lt us x] fr by (simp add: vm_inv_def s)
  have mk: "mmu ?m kspace va = mmu m kspace va" for va
    using translate_fresh [OF ok fresh vpath_upper(1)] by (simp add: mmu_def)
  have ms: "mmu ?m ?s va = (if pml4_index va < 256 then None else mmu m kspace va)" for va
  proof -
    have h: "node ((vm_tab m)(frame a := x)) (frame a) (upper va) =
        (if pml4_index va < 256 then None else node (vm_tab m) (pml4 kspace) (upper va))"
      using node_half [OF ok fresh _ x] vpath_upper(1) [of va] unfolding upper_def by blast
    have "g \<noteq> frame a" if "node (vm_tab m) (pml4 kspace) (upper va) = Some g" for g
      using ok fresh that vpath_upper(1) unfolding tables_ok_def by metis
    then show ?thesis using h by (auto simp: mmu_def translate_def s split: option.splits)
  qed
  show ?thesis using run k new mk ms by (intro exI [of _ ?s] exI [of _ ?m]) simp
qed

theorem createAddressSpace_correct_witness:
  "\<exists>space m'. createAddressSpace sample_vm sample_space = Inr (space, m') \<and> mmu m' space 0x400000 = None"
proof -
  have "1 \<le> free_frames (vm_phys sample_vm)" by (simp add: sample_vm_facts)
  from createAddressSpace_correct [OF sample_vm_facts(1) this] show ?thesis
    by (metis sample_vm_facts(5))
qed

section \<open>Destroying an address space\<close>

text \<open>The frames that the entries below \<open>n\<close> of a table lead to, \<open>d\<close> levels deep.\<close>

primrec below :: "nat \<Rightarrow> (nat \<Rightarrow> nat \<Rightarrow> u64) \<Rightarrow> nat \<Rightarrow> nat \<Rightarrow> nat set" where
  "below 0 t f n = {}"
| "below (Suc d) t f n = (\<Union>i \<in> {i. i < n \<and> pml_present (t f i)}.
     insert (pml_frame (t f i)) (below d t (pml_frame (t f i)) 512))"

definition clears :: "nat set \<Rightarrow> phys \<Rightarrow> phys \<Rightarrow> bool" where
  "clears C p p' \<longleftrightarrow> ph_lock p' = ph_lock p \<and> length (ph_bitmap p') = length (ph_bitmap p) \<and>
     (\<forall>i. ph_used p' i \<longleftrightarrow> ph_used p i \<and> i \<notin> C)"

lemma clears_trans: "clears C p q \<Longrightarrow> clears D q r \<Longrightarrow> clears (C \<union> D) p r"
  by (auto simp: clears_def)

lemma for_each_clears_total:
  assumes "\<And>p x. x \<in> set xs \<Longrightarrow> pages (ph_bitmap p) = n \<Longrightarrow> \<exists>p'. f p x = Inr p' \<and> clears (C x) p p'"
    and "pages (ph_bitmap p) = n"
  shows "\<exists>p'. for_each f xs p = Inr p' \<and> clears (\<Union>x \<in> set xs. C x) p p'"
  using assms
proof (induction xs arbitrary: p)
  case (Cons x xs)
  obtain p1 where p1: "f p x = Inr p1" "clears (C x) p p1"
    using Cons.prems(1) [OF list.set_intros(1) Cons.prems(2)] by blast
  have n1: "pages (ph_bitmap p1) = n" using p1(2) Cons.prems(2) by (simp add: clears_def)
  have "\<exists>p'. for_each f xs p1 = Inr p' \<and> clears (\<Union>x \<in> set xs. C x) p1 p'"
    by (rule Cons.IH [OF _ n1]) (rule Cons.prems(1), auto)
  then show ?case using p1 clears_trans [OF p1(2)] by auto
qed (simp add: clears_def)

lemma ph_freePages_clears:
  assumes "unat a = f * 4096" "f < pages (ph_bitmap p)" "pages (ph_bitmap p) \<le> 2 ^ 19"
  shows "\<exists>p'. ph_freePages p a 1 = Inr p' \<and> clears {f} p p'"
proof -
  have "f + 1 \<le> pages (ph_bitmap p)" "f < 2 ^ 28" using assms(2,3) by auto
  from ph_freePages_ok [OF assms(1) this] show ?thesis by (auto simp: clears_def)
qed

lemma free_entry_clears:
  assumes "pml_frame e < pages (ph_bitmap p)" "pages (ph_bitmap p) \<le> 2 ^ 19"
  shows "\<exists>p'. free_entry p e = Inr p' \<and> clears {pml_frame e} p p'"
  unfolding free_entry_def using assms by (intro ph_freePages_clears pml_table_eq(2)) auto

text \<open>One level of the destruction, given what the level below clears.\<close>

lemma destroy_level:
  assumes sub: "\<And>p g. pages (ph_bitmap p) = n \<Longrightarrow> below d t g 512 \<subseteq> {..<n} \<Longrightarrow>
      \<exists>p'. h g p = Inr p' \<and> clears (below d t g 512) p p'"
    and b: "below (Suc d) t f k \<subseteq> {..<n}" and n: "n \<le> 2 ^ 19" "pages (ph_bitmap p) = n"
  shows "\<exists>p'. for_each (\<lambda>p i. let e = t f i in if \<not> pml_present e then Inr p
      else bind_res (pml_table e) (\<lambda>g. bind_res (h g p) (\<lambda>p. free_entry p e))) [0..<k] p = Inr p' \<and>
    clears (below (Suc d) t f k) p p'"
proof -
  let ?C = "\<lambda>i. if pml_present (t f i) then insert (pml_frame (t f i)) (below d t (pml_frame (t f i)) 512) else {}"
  have "\<exists>p'. for_each (\<lambda>p i. let e = t f i in if \<not> pml_present e then Inr p
      else bind_res (pml_table e) (\<lambda>g. bind_res (h g p) (\<lambda>p. free_entry p e))) [0..<k] p = Inr p' \<and>
    clears (\<Union>i \<in> set [0..<k]. ?C i) p p'"
  proof (rule for_each_clears_total [OF _ n(2)])
    fix q :: phys and i assume i: "i \<in> set [0..<k]" and q: "pages (ph_bitmap q) = n"
    let ?e = "t f i"
    show "\<exists>p'. (let e = ?e in if \<not> pml_present e then Inr q
      else bind_res (pml_table e) (\<lambda>g. bind_res (h g q) (\<lambda>p. free_entry p e))) = Inr p' \<and> clears (?C i) q p'"
    proof (cases "pml_present ?e")
      case True
      have c: "pml_frame ?e < n" "below d t (pml_frame ?e) 512 \<subseteq> {..<n}" using b i True by auto
      obtain q1 where q1: "h (pml_frame ?e) q = Inr q1" "clears (below d t (pml_frame ?e) 512) q q1"
        using sub [OF q c(2)] by blast
      have n1: "pages (ph_bitmap q1) = n" using q1(2) q by (simp add: clears_def)
      obtain q2 where q2: "free_entry q1 ?e = Inr q2" "clears {pml_frame ?e} q1 q2"
        using free_entry_clears [of ?e q1] c(1) n1 n(1) by auto
      have "pml_table ?e = Inr (pml_frame ?e)" using c(1) n(1) by (intro pml_table_eq(1)) simp
      then show ?thesis using True q1 q2 clears_trans [OF q1(2) q2(2)] by (simp add: Let_def)
    qed (simp add: clears_def)
  qed
  moreover have "(\<Union>i \<in> set [0..<k]. ?C i) = below (Suc d) t f k" by auto
  ultimately show ?thesis by simp
qed

lemma destroy_td_clears:
  assumes "below 1 t f 512 \<subseteq> {..<n}" "n \<le> 2 ^ 19" "pages (ph_bitmap p) = n" "t = vm_tab m"
  shows "\<exists>p'. destroy_td m f p = Inr p' \<and> clears (below 1 t f 512) p p'"
proof -
  have "\<exists>p'. destroy_td m f p = Inr p' \<and>
      clears (\<Union>i \<in> set [0..<512]. if pml_present (t f i) then {pml_frame (t f i)} else {}) p p'"
    unfolding destroy_td_def
  proof (rule for_each_clears_total [OF _ assms(3)])
    fix q :: phys and i assume "i \<in> set [0..<512]" and q: "pages (ph_bitmap q) = n"
    then have "pml_present (t f i) \<Longrightarrow> pml_frame (t f i) < pages (ph_bitmap q)" using assms(1) by auto
    then show "\<exists>p'. (let e = vm_tab m f i in if \<not> pml_present e then Inr q else free_entry q e) = Inr p' \<and>
        clears (if pml_present (t f i) then {pml_frame (t f i)} else {}) q p'"
      using free_entry_clears [of "t f i" q] q assms(2,4) by (auto simp: Let_def clears_def)
  qed
  moreover have "(\<Union>i \<in> set [0..<512]. if pml_present (t f i) then {pml_frame (t f i)} else {}) = below 1 t f 512"
    by auto
  ultimately show ?thesis by simp
qed

lemma destroy_pml2_clears:
  assumes "below 2 (vm_tab m) f 512 \<subseteq> {..<n}" "n \<le> 2 ^ 19" "pages (ph_bitmap p) = n"
  shows "\<exists>p'. destroy_pml2 m f p = Inr p' \<and> clears (below 2 (vm_tab m) f 512) p p'"
  unfolding destroy_pml2_def numeral_2_eq_2
  by (rule destroy_level) (use assms destroy_td_clears in \<open>auto simp: numeral_2_eq_2\<close>)

lemma destroy_pml3_clears:
  assumes "below 3 (vm_tab m) f 512 \<subseteq> {..<n}" "n \<le> 2 ^ 19" "pages (ph_bitmap p) = n"
  shows "\<exists>p'. destroy_pml3 m f p = Inr p' \<and> clears (below 3 (vm_tab m) f 512) p p'"
  unfolding destroy_pml3_def numeral_3_eq_3
  by (rule destroy_level)
    (use assms destroy_pml2_clears in \<open>auto simp: numeral_3_eq_3 numeral_2_eq_2\<close>)

lemma destroyAddressSpace_ok:
  assumes "below 4 (vm_tab m) (pml4 space) 256 \<subseteq> {..<pages (ph_bitmap (vm_phys m))}"
    "pages (ph_bitmap (vm_phys m)) \<le> 2 ^ 19" "unat (as_cr3 space) = pml4 space * 4096"
    "pml4 space < pages (ph_bitmap (vm_phys m))"
  shows "\<exists>m'. destroyAddressSpace m space = Inr m' \<and> vm_tab m' = vm_tab m \<and>
    (\<forall>i. ph_used (vm_phys m') i \<longleftrightarrow> ph_used (vm_phys m) i \<and> i \<noteq> pml4 space \<and>
      i \<notin> below 4 (vm_tab m) (pml4 space) 256)"
proof -
  let ?n = "pages (ph_bitmap (vm_phys m))" and ?B = "below 4 (vm_tab m) (pml4 space) 256"
  have four: "(4 :: nat) = Suc 3" by simp
  obtain p where p: "for_each (\<lambda>p i. let e = vm_tab m (pml4 space) i in if \<not> pml_present e then Inr p
      else bind_res (pml_table e) (\<lambda>g. bind_res (destroy_pml3 m g p) (\<lambda>p. free_entry p e))) [0..<256] (vm_phys m) = Inr p"
    "clears ?B (vm_phys m) p"
    using destroy_level [of ?n 3 "vm_tab m" "destroy_pml3 m", OF destroy_pml3_clears [OF _ assms(2)]
        assms(1) [unfolded four] assms(2) refl] unfolding four by blast
  have n: "pages (ph_bitmap p) = ?n" using p(2) by (simp add: clears_def)
  obtain q where q: "ph_freePages p (as_cr3 space) 1 = Inr q" "clears {pml4 space} p q"
    using ph_freePages_clears [OF assms(3), of p] assms(2,4) n by auto
  have "destroyAddressSpace m space = Inr (m\<lparr>vm_phys := q\<rparr>)"
    unfolding destroyAddressSpace_def p(1) by (simp add: q(1) [unfolded One_nat_def])
  then show ?thesis using clears_trans [OF p(2) q(2)] by (auto simp: clears_def)
qed

text \<open>
  \<open>C18\<close> \<open>destroyAddressSpace\<close> gives back exactly the root and every table and page that the user half
  leads to, and nothing else, provided that all of them are frames the allocator manages.
\<close>

theorem destroyAddressSpace_frees:
  assumes "below 4 (vm_tab m) (pml4 space) 256 \<subseteq> {..<pages (ph_bitmap (vm_phys m))}"
    "pages (ph_bitmap (vm_phys m)) \<le> 2 ^ 19" "unat (as_cr3 space) = pml4 space * 4096"
    "pml4 space < pages (ph_bitmap (vm_phys m))"
  shows "\<exists>m'. destroyAddressSpace m space = Inr m' \<and> vm_tab m' = vm_tab m \<and>
    (\<forall>i. ph_used (vm_phys m') i \<longleftrightarrow> ph_used (vm_phys m) i \<and> i \<noteq> pml4 space \<and>
      i \<notin> below 4 (vm_tab m) (pml4 space) 256)"
  using assms by (rule destroyAddressSpace_ok)

theorem destroyAddressSpace_frees_witness:
  "\<exists>m'. destroyAddressSpace sample_vm sample_space = Inr m' \<and> (\<forall>i. ph_used (vm_phys m') i \<longleftrightarrow> i < 3 \<and> i \<noteq> 1)"
proof -
  have r: "pml4 sample_space = 1" by (simp add: pml4_def frame_def sample_space_def)
  have b: "below 4 (vm_tab sample_vm) f k = {}" for f k
    by (simp add: eval_nat_numeral sample_vm_def pml_present_def)
  have "below 4 (vm_tab sample_vm) (pml4 sample_space) 256 \<subseteq> {..<pages (ph_bitmap (vm_phys sample_vm))}"
    "pages (ph_bitmap (vm_phys sample_vm)) \<le> 2 ^ 19" "unat (as_cr3 sample_space) = pml4 sample_space * 4096"
    "pml4 sample_space < pages (ph_bitmap (vm_phys sample_vm))"
    by (simp_all only: b r) (simp_all add: sample_vm_def sample_phys_def sample_space_def)
  from destroyAddressSpace_frees [OF this] show ?thesis
    unfolding b r by (auto simp: sample_vm_def sample_phys_used)
qed

section \<open>The search for free pages\<close>

text \<open>
  Within the gigabyte of one \<open>pml3\<close> entry the pages are numbered from 0; \<open>page_free\<close> says that a page
  has no translation. \<open>run_inv\<close> is the invariant of the search: the \<open>found\<close> pages before position
  \<open>pos\<close> are free and \<open>ret\<close> is the address of the first of them.
\<close>

definition page_free :: "vmem \<Rightarrow> aspace \<Rightarrow> nat \<Rightarrow> nat \<Rightarrow> nat \<Rightarrow> bool" where
  "page_free m space p4 p3 pos \<longleftrightarrow>
     translate (vm_tab m) (pml4 space) [p4, p3, pos div 512] (pos mod 512) = None"

definition run_inv :: "(nat \<Rightarrow> bool) \<Rightarrow> (nat \<Rightarrow> u64) \<Rightarrow> nat \<Rightarrow> nat \<Rightarrow> nat \<Rightarrow> nat \<Rightarrow> u64 \<Rightarrow> bool" where
  "run_inv F A lo sz pos found ret \<longleftrightarrow> lo + found \<le> pos \<and> found < sz \<and>
     (found > 0 \<longrightarrow> ret = A (pos - found)) \<and> (\<forall>j < found. F (pos - found + j))"

definition found_ok :: "(nat \<Rightarrow> bool) \<Rightarrow> (nat \<Rightarrow> u64) \<Rightarrow> nat \<Rightarrow> nat \<Rightarrow> nat \<Rightarrow> u64 \<Rightarrow> bool" where
  "found_ok F A lo sz hi a \<longleftrightarrow> (\<exists>s. a = makeCanonical (A s) \<and> lo \<le> s \<and> s + sz \<le> hi \<and> (\<forall>j < sz. F (s + j)))"

lemma run_inv_reset: "lo \<le> pos \<Longrightarrow> 0 < sz \<Longrightarrow> run_inv F A lo sz pos 0 ret"
  by (simp add: run_inv_def)

lemma run_inv_extend:
  assumes "run_inv F A lo sz pos found ret" "F pos"
  defines "r \<equiv> if found = 0 then A pos else ret"
  shows "if Suc found = sz then found_ok F A lo sz (Suc pos) (makeCanonical r)
    else run_inv F A lo sz (Suc pos) (Suc found) r"
proof -
  have r: "r = A (pos - found)" using assms(1) by (auto simp: r_def run_inv_def)
  have F: "\<forall>j < Suc found. F (pos - found + j)"
    using assms(1,2) by (auto simp: run_inv_def less_Suc_eq)
  show ?thesis
  proof (cases "Suc found = sz")
    case True
    then show ?thesis using assms(1) r F
      by (auto simp: found_ok_def run_inv_def intro!: exI [of _ "pos - found"])
  next
    case False
    then show ?thesis using assms(1) r F by (auto simp: run_inv_def)
  qed
qed

lemma found_ok_mono: "found_ok F A lo sz hi a \<Longrightarrow> hi \<le> hi' \<Longrightarrow> found_ok F A lo sz hi' a"
  unfolding found_ok_def by (elim exE conjE, rule exI, intro conjI) (assumption | simp)+

lemma ff_td_spec:
  assumes "k \<le> 512" "run_inv F A lo sz (base + k) found ret"
    "\<forall>i < 512. F (base + i) \<longleftrightarrow> \<not> pml_present (t i)" "\<forall>i < 512. addr i = A (base + i)" "lo \<le> base"
  shows "case ff_td t addr sz [k..<512] found ret of
      Found a \<Rightarrow> found_ok F A lo sz (base + 512) a | Next fd r \<Rightarrow> run_inv F A lo sz (base + 512) fd r"
  using assms(1,2)
proof (induction "512 - k" arbitrary: k found ret)
  case 0
  then show ?case by simp
next
  case (Suc n)
  then have k: "k < 512" by simp
  have sz: "0 < sz" using Suc.prems(2) by (simp add: run_inv_def)
  have up: "[k..<512] = k # [Suc k..<512]" using k by (simp add: upt_conv_Cons)
  have ih: "run_inv F A lo sz (base + Suc k) fd r \<Longrightarrow> case ff_td t addr sz [Suc k..<512] fd r of
      Found a \<Rightarrow> found_ok F A lo sz (base + 512) a | Next fd r \<Rightarrow> run_inv F A lo sz (base + 512) fd r" for fd r
    using Suc.hyps k by simp
  show ?case
  proof (cases "pml_present (t k)")
    case True
    then show ?thesis using ih [OF run_inv_reset] sz assms(5) by (simp add: up)
  next
    case False
    let ?r = "if found = 0 then addr k else ret"
    have e: "if Suc found = sz then found_ok F A lo sz (Suc (base + k)) (makeCanonical ?r)
      else run_inv F A lo sz (Suc (base + k)) (Suc found) ?r"
    proof -
      have a: "addr k = A (base + k)" and F: "F (base + k)" using assms(3,4) k False by simp_all
      show ?thesis unfolding a by (rule run_inv_extend [OF Suc.prems(2) F])
    qed
    show ?thesis
    proof (cases "Suc found = sz")
      case True
      then show ?thesis using e False found_ok_mono [of F A lo sz "Suc (base + k)" _ "base + 512"] k
        by (simp add: up)
    next
      case more: False
      then have "run_inv F A lo sz (base + Suc k) (Suc found) ?r" using e by simp
      then show ?thesis using ih [of "Suc found" ?r] more False by (simp add: up)
    qed
  qed
qed

lemma ff_pml2_spec:
  assumes "k \<le> 512" "lo \<le> k * 512" "p4 < 512" "p3 < 512"
    "run_inv F (\<lambda>pos. ff_address p4 p3 (pos div 512) (pos mod 512)) lo sz (k * 512) found ret"
    "vm_inv m space" "node (vm_tab m) (pml4 space) [p4, p3] = Some f"
    "\<forall>pos < 512 * 512. F pos \<longleftrightarrow> page_free m space p4 p3 pos"
    "ff_pml2 sz p4 p3 f m [k..<512] found ret = Inr (m', s)"
  shows "vm_inv m' space \<and> (\<forall>va. mmu m' space va = mmu m space va) \<and>
    (\<forall>a. s = Found a \<longrightarrow> found_ok F (\<lambda>pos. ff_address p4 p3 (pos div 512) (pos mod 512)) lo sz (512 * 512) a)"
  using assms
proof (induction "512 - k" arbitrary: k m found ret)
  case 0
  then show ?case by auto
next
  case (Suc n)
  let ?A = "\<lambda>pos. ff_address p4 p3 (pos div 512) (pos mod 512)"
  have k: "k < 512" using Suc.hyps(2) by simp
  have n: "n = 512 - Suc k" using Suc.hyps(2) by simp
  have sz: "0 < sz" using Suc.prems(5) by (simp add: run_inv_def)
  have lo: "lo \<le> Suc k * 512" "Suc k \<le> 512" using Suc.prems(2) k by simp_all
  have up: "[k..<512] = k # [Suc k..<512]" using k by (simp add: upt_conv_Cons)
  show ?case
  proof (cases "pml_size (vm_tab m f k)")
    case True
    have "run_inv F ?A lo sz (Suc k * 512) 0 ret" using lo(1) sz by (rule run_inv_reset)
    moreover have "ff_pml2 sz p4 p3 f m [Suc k..<512] 0 ret = Inr (m', s)" using Suc.prems(9) True by (simp add: up)
    ultimately show ?thesis using Suc.hyps(1) [OF n lo(2,1) assms(3,4) _ Suc.prems(6-8)] by blast
  next
    case False
    obtain g m1 where e: "pml_ensure m f k 3 = Inr (g, m1)"
      and rest: "(case ff_td (vm_tab m1 g) (ff_address p4 p3 k) sz [0..<512] found ret of
             Found a \<Rightarrow> Inr (m1, Found a) | Next fd r \<Rightarrow> ff_pml2 sz p4 p3 f m1 [Suc k..<512] fd r) = Inr (m', s)"
      using Suc.prems(9) False by (auto simp: up bind_res_eq_Inr)
    have nh: "\<not> huge (vm_tab m) (pml4 space) [p4, p3] k" using Suc.prems(7) False unfolding huge_def by (metis option.simps(5))
    have v: "vpath ([p4, p3] @ [k])" "vpath [p4, p3]" using k assms(3,4) by (simp_all add: vpath_def)
    note en = pml_ensure_Inr [OF Suc.prems(6) v(1) Suc.prems(7) nh disjI2 [OF refl] e]
    have tr: "\<And>r j. vpath r \<Longrightarrow> length r = 3 \<Longrightarrow> j < 512 \<Longrightarrow>
        translate (vm_tab m1) (pml4 space) r j = translate (vm_tab m) (pml4 space) r j"
      and g: "node (vm_tab m1) (pml4 space) ([p4, p3] @ [k]) = Some g" and inv1: "vm_inv m1 space"
      and f1: "node (vm_tab m1) (pml4 space) [p4, p3] = Some f" using en v(2) Suc.prems(7) by blast+
    have pf: "\<forall>pos < 512 * 512. F pos \<longleftrightarrow> page_free m1 space p4 p3 pos"
      using tr assms(3,4) Suc.prems(8) by (simp add: page_free_def vpath_def less_mult_imp_div_less)
    have mm: "mmu m1 space va = mmu m space va" for va using tr by (simp add: mmu_def)
    have F: "\<forall>i < 512. F (k * 512 + i) \<longleftrightarrow> \<not> pml_present (vm_tab m1 g i)"
      using pf k g by (simp add: page_free_def translate_def del: node.simps)
    have td: "case ff_td (vm_tab m1 g) (ff_address p4 p3 k) sz [0..<512] found ret of
        Found a \<Rightarrow> found_ok F ?A lo sz (k * 512 + 512) a | Next fd r \<Rightarrow> run_inv F ?A lo sz (k * 512 + 512) fd r"
      using ff_td_spec [of 0 F ?A lo sz "k * 512" found ret "vm_tab m1 g" "ff_address p4 p3 k"] Suc.prems(2,5) F by simp
    show ?thesis
    proof (cases "ff_td (vm_tab m1 g) (ff_address p4 p3 k) sz [0..<512] found ret")
      case (Found a)
      have "k * 512 + 512 \<le> 512 * 512" using k by simp
      then show ?thesis using Found td rest mm inv1 found_ok_mono [of F ?A lo sz "k * 512 + 512" a "512 * 512"] by auto
    next
      case (Next fd r)
      have "run_inv F ?A lo sz (Suc k * 512) fd r" using td Next by (simp add: add.commute)
      moreover have "ff_pml2 sz p4 p3 f m1 [Suc k..<512] fd r = Inr (m', s)" using rest Next by simp
      ultimately show ?thesis using Suc.hyps(1) [OF n lo(2,1) assms(3,4) _ inv1 f1 pf] mm by simp
    qed
  qed
qed

text \<open>Once \<open>pml2Index\<close> or \<open>pml3Index\<close> has run to its end, nothing can be found any more.\<close>

lemma ff_pml3_exhausted:
  "ff_pml3 sz p4 f m is [] found ret = Inr (m', s, p2s) \<Longrightarrow> (\<forall>a. s \<noteq> Found a) \<and> p2s = []"
proof (induction "is" arbitrary: m found ret)
  case (Cons i "is")
  then show ?case by (auto simp: bind_res_eq_Inr split: if_splits)
qed auto

lemma ff_pml4_exhausted: "ff_pml4 sz f m is [] p2s found ret \<noteq> Inr x"
proof (induction "is" arbitrary: m found ret)
  case (Cons i "is")
  then show ?case by (auto simp: bind_res_eq_Inr split: if_splits)
qed simp

lemma ff_pml3_Found:
  assumes "ff_pml3 sz p4 f m (i # is) p2s fd r = Inr (m', Found a, x)" "\<not> pml_size (vm_tab m f i)"
  shows "\<exists>g m1. pml_ensure m f i 3 = Inr (g, m1) \<and> ff_pml2 sz p4 i g m1 p2s fd r = Inr (m', Found a)"
proof -
  obtain g m1 m2 s where e: "pml_ensure m f i 3 = Inr (g, m1)" "ff_pml2 sz p4 i g m1 p2s fd r = Inr (m2, s)"
    "(case s of Found a \<Rightarrow> Inr (m2, Found a, []) | Next fd r \<Rightarrow> ff_pml3 sz p4 f m2 is [] fd r) = Inr (m', Found a, x)"
    using assms by (auto simp: bind_res_eq_Inr)
  then show ?thesis using ff_pml3_exhausted by (cases s) fastforce+
qed

lemma ff_pml4_Found:
  assumes "ff_pml4 sz f m (i # is) p3s p2s fd r = Inr (a, m')" "\<not> pml_size (vm_tab m f i)"
  shows "\<exists>g m1 x. pml_ensure m f i 3 = Inr (g, m1) \<and> ff_pml3 sz i g m1 p3s p2s fd r = Inr (m', Found a, x)"
proof -
  obtain g m1 m2 s x where e: "pml_ensure m f i 3 = Inr (g, m1)" "ff_pml3 sz i g m1 p3s p2s fd r = Inr (m2, s, x)"
    "(case s of Found a \<Rightarrow> Inr (a, m2) | Next fd r \<Rightarrow> ff_pml4 sz f m2 is [] x fd r) = Inr (a, m')"
    using assms by (auto simp: bind_res_eq_Inr)
  then show ?thesis using ff_pml4_exhausted by (cases s) auto
qed

lemma index_unat: "unat (drop_bit n (va :: u64) AND 0x1FF) = unat va div 2 ^ n mod 512"
proof -
  have "drop_bit n va AND 0x1FF = take_bit 9 (drop_bit n va)" by (simp add: take_bit_eq_mask mask_eq_exp_minus_1)
  then have "unat (drop_bit n va AND 0x1FF) = take_bit 9 (drop_bit n (take_bit 64 (unat va)))"
    by (simp only: unsigned_take_bit_eq unsigned_drop_bit_eq) simp
  then show ?thesis unfolding take_bit_nat_eq_self [OF unat_lt_2p64] by (simp add: take_bit_eq_mod drop_bit_eq_div)
qed

lemma low_page_indices:
  assumes "pos < 512 * 512"
  shows "upper (of_nat (pos * 4096)) = [0, 0, pos div 512]" "table_index (of_nat (pos * 4096)) = pos mod 512"
proof -
  have u: "unat (of_nat (pos * 4096) :: u64) = pos * 4096" using assms by (intro unat_of_nat_u64) simp
  have "pos * 4096 div 2 ^ 39 = 0" "pos * 4096 div 2 ^ 30 = 0" using assms by simp_all
  moreover have "pos * 4096 div 2 ^ 21 = pos div 512" "pos * 4096 div 2 ^ 12 = pos" by simp_all
  moreover have "pos div 512 < 512" using assms by (simp add: less_mult_imp_div_less)
  ultimately show "upper (of_nat (pos * 4096)) = [0, 0, pos div 512]" "table_index (of_nat (pos * 4096)) = pos mod 512"
    by (simp_all add: upper_def pml4_index_def pml3_index_def pml2_index_def table_index_def index_unat u
        del: of_nat_mult)
qed

lemma ff_address_low:
  assumes "pos < 512 * 512"
  shows "makeCanonical (ff_address 0 0 (pos div 512) (pos mod 512)) = of_nat (pos * 4096)"
proof -
  let ?x = "of_nat (pos mod 512) :: u64" and ?y = "push_bit 9 (of_nat (pos div 512)) :: u64"
  have "\<not> bit ?x n \<or> \<not> bit ?y n" for n
  proof (cases "n < 9")
    case False
    have "take_bit 9 (pos mod 512) = pos mod 512" by (simp add: take_bit_nat_eq_self)
    then have "\<not> bit (pos mod 512) n" using False by (metis bit_take_bit_iff)
    then show ?thesis by (simp add: bit_of_nat_iff)
  qed (simp add: bit_push_bit_iff)
  then have "?x OR ?y = ?x + ?y" by (rule disjunctive_add [symmetric])
  also have "\<dots> = of_nat (pos mod 512 + pos div 512 * 512)"
    by (simp only: of_nat_add of_nat_mult push_bit_eq_mult) simp
  also have "\<dots> = of_nat pos" by (simp only: mod_div_mult_eq)
  finally have a: "ff_address 0 0 (pos div 512) (pos mod 512) = of_nat (pos * 4096)"
    by (simp only: ff_address_def of_nat_0 push_bit_of_0 or.right_neutral) (simp add: push_bit_eq_mult)
  have u: "unat (of_nat (pos * 4096) :: u64) = pos * 4096" using assms by (intro unat_of_nat_u64) simp
  define w where "w = (of_nat (pos * 4096) :: u64)"
  have w: "unat w < 2 ^ 47" using u assms by (simp add: w_def del: of_nat_mult)
  then have tb: "take_bit 47 w = w" by (simp add: word_unat_eq_iff unsigned_take_bit_eq take_bit_nat_eq_self)
  then have "\<not> bit w 47" by (metis bit_take_bit_iff less_irrefl)
  then have "w AND push_bit 47 1 = 0"
    by (intro bit_eqI, simp only: bit_and_iff bit_push_bit_iff bit_1_iff bit_0_eq bot_apply) auto
  moreover have "w AND 0xFFFFFFFFFFFF = take_bit 48 w" by (simp add: take_bit_eq_mask mask_eq_exp_minus_1)
  moreover have "take_bit 48 w = w" using w by (simp add: word_unat_eq_iff unsigned_take_bit_eq take_bit_nat_eq_self)
  ultimately have "makeCanonical w = w" by (simp only: makeCanonical_def if_False simp_thms)
  then show ?thesis unfolding a w_def .
qed

text \<open>
  A search of the user half for free pages that returns gives a run of \<open>size\<close> pages without
  translation, and changes no translation. The run always ends below 1 GiB: \<open>pml3Index\<close> and
  \<open>pml2Index\<close> are not reset, so nothing is searched behind the first \<open>pml3\<close> entry, and the search
  panics when the first gigabyte has no such run.
\<close>

theorem vfindFreePages_user:
  assumes inv: "vm_inv m space" and sz: "0 < sz" and ns: "\<not> pml_size (vm_tab m (pml4 space) 0)"
    "\<forall>f. node (vm_tab m) (pml4 space) [0] = Some f \<longrightarrow> \<not> pml_size (vm_tab m f 0)"
    and run: "vfindFreePages m space sz True do_lock = Inr (a, m', space')"
  shows "vm_inv m' space \<and> (\<forall>va. mmu m' space va = mmu m space va) \<and>
    (\<exists>s. a = of_nat (s * 4096) \<and> 1024 \<le> s \<and> s + sz \<le> 2 ^ 18 \<and> (\<forall>j < sz. mmu m space (of_nat ((s + j) * 4096)) = None))"
proof -
  let ?r = "pml4 space" and ?A = "\<lambda>pos. ff_address 0 0 (pos div 512) (pos mod 512)"
  have idx: "pml4_index USER_MIN_ADDRESS = 0" "pml3_index USER_MIN_ADDRESS = 0" "pml2_index USER_MIN_ADDRESS = 2"
    "pml4_index USER_MAX_ADDRESS = 256"
    by (simp_all add: USER_MIN_ADDRESS_def USER_MAX_ADDRESS_def pml4_index_def pml3_index_def pml2_index_def index_unat)
  have r4: "pml4 (if do_lock then space\<lparr>as_lock := True\<rparr> else space) = ?r" by (simp add: pml4_def)
  have run4: "ff_pml4 sz ?r m [0..<256] [0..<512] [2..<512] 0 0 = Inr (a, m')"
    using run by (auto simp: vfindFreePages_def idx take_lock_def bind_res_eq_Inr pml4_def split: if_splits)
  have up: "[0..<256] = 0 # [1..<256 :: nat]" "[0..<512] = 0 # [1..<512 :: nat]"
    by (rule upt_conv_Cons [of 0, folded One_nat_def], simp)+
  obtain g m1 x where e1: "pml_ensure m ?r 0 3 = Inr (g, m1)"
    and run3: "ff_pml3 sz 0 g m1 [0..<512] [2..<512] 0 0 = Inr (m', Found a, x)"
    using ff_pml4_Found [OF run4 [unfolded up(1)] ns(1)] by blast
  have v: "vpath ([] @ [0])" "vpath ([0] @ [0])" "vpath [0]" "vpath [0, 0]" by (simp_all add: vpath_def)
  have nh0: "\<not> huge (vm_tab m) ?r [] 0" using ns(1) by (simp add: huge_def)
  note en1 = pml_ensure_Inr [OF inv v(1) node.simps(1) nh0 disjI2 [OF refl] e1]
  have g: "node (vm_tab m1) ?r [0] = Some g" and inv1: "vm_inv m1 space" using en1 by auto
  have ns1: "\<not> pml_size (vm_tab m1 g 0)"
  proof -
    have "m1 = m \<or> vm_tab m1 g = (\<lambda>_. 0)" using en1 by blast
    then show ?thesis using g ns(2) by (elim disjE) (blast, simp add: pml_size_def)
  qed
  obtain h m2 where e2: "pml_ensure m1 g 0 3 = Inr (h, m2)"
    and run2: "ff_pml2 sz 0 0 h m2 [2..<512] 0 0 = Inr (m', Found a)"
    using ff_pml3_Found [OF run3 [unfolded up(2)] ns1] by blast
  have nh1: "\<not> huge (vm_tab m1) ?r [0] 0" using g ns1 unfolding huge_def by (metis option.simps(5))
  note en2 = pml_ensure_Inr [OF inv1 v(2) g nh1 disjI2 [OF refl] e2]
  have h: "node (vm_tab m2) ?r [0, 0] = Some h" and inv2: "vm_inv m2 space" using en2 by auto
  have mm: "mmu m2 space va = mmu m space va" for va using en1 en2 by (simp add: mmu_def del: node.simps)
  have "vm_inv m' space \<and> (\<forall>va. mmu m' space va = mmu m2 space va) \<and>
    (\<forall>b. Found a = Found b \<longrightarrow> found_ok (page_free m2 space 0 0) ?A 1024 sz (512 * 512) b)"
    by (rule ff_pml2_spec [OF _ _ _ _ _ inv2 h _ run2]) (simp_all add: run_inv_def sz)
  moreover have "page_free m2 space 0 0 pos \<longleftrightarrow> mmu m space (of_nat (pos * 4096)) = None" if "pos < 512 * 512" for pos
    using mm [of "of_nat (pos * 4096)"] low_page_indices [OF that] by (simp add: page_free_def mmu_def del: of_nat_mult)
  ultimately have "vm_inv m' space" "\<forall>va. mmu m' space va = mmu m space va"
    and fo: "found_ok (page_free m2 space 0 0) ?A 1024 sz (512 * 512) a"
    and pf: "\<And>pos. pos < 512 * 512 \<Longrightarrow> page_free m2 space 0 0 pos \<longleftrightarrow> mmu m space (of_nat (pos * 4096)) = None"
    using mm by auto
  moreover obtain s where s: "a = makeCanonical (?A s)" "1024 \<le> s" "s + sz \<le> 512 * 512"
    "\<forall>j < sz. page_free m2 space 0 0 (s + j)" using fo unfolding found_ok_def by blast
  moreover have "a = of_nat (s * 4096)" using ff_address_low [of s] s sz by (simp del: of_nat_mult)
  moreover have "\<forall>j < sz. mmu m space (of_nat ((s + j) * 4096)) = None"
    using pf s(3,4) by (simp del: of_nat_mult)
  ultimately show ?thesis by (intro conjI exI [of _ s]) simp_all
qed

text \<open>Below an entry of a zero table \<open>pml_ensure\<close> installs another zero table.\<close>

lemma pml_ensure_zero:
  assumes "vm_inv m space" "vpath (q @ [i])" "node (vm_tab m) (pml4 space) q = Some f" "vm_tab m f = (\<lambda>_. 0)"
    "Suc k \<le> free_frames (vm_phys m)"
  shows "\<exists>g m'. pml_ensure m f i 3 = Inr (g, m') \<and> vm_inv m' space \<and> k \<le> free_frames (vm_phys m') \<and>
    node (vm_tab m') (pml4 space) (q @ [i]) = Some g \<and> vm_tab m' g = (\<lambda>_. 0)"
proof -
  have nh: "\<not> huge (vm_tab m) (pml4 space) q i" using assms(3,4) by (simp add: huge_def pml_present_def)
  obtain g m' where e: "pml_ensure m f i 3 = Inr (g, m')" "k \<le> free_frames (vm_phys m')"
    using pml_ensure_total [OF assms(1-3) nh disjI2 [OF refl] assms(5)] by blast
  note en = pml_ensure_Inr [OF assms(1-3) nh disjI2 [OF refl] e(1)]
  have "m' \<noteq> m"
  proof
    assume "m' = m"
    then have "node (vm_tab m) (pml4 space) (q @ [i]) = Some g" using en by blast
    then show False using assms(3,4) by (simp add: node_snoc pml_present_def)
  qed
  then show ?thesis using en e by blast
qed

lemma sample_search:
  "\<exists>m'. vfindFreePages sample_vm sample_space 1 True True = Inr (0x400000, m', sample_space)"
proof -
  let ?r = "pml4 sample_space"
  have v: "vpath ([] @ [0])" "vpath ([0] @ [0])" "vpath ([0, 0] @ [2])" by (simp_all add: vpath_def)
  have n: "Suc 2 \<le> free_frames (vm_phys sample_vm)" by (simp add: sample_vm_facts)
  have z: "vm_tab sample_vm ?r = (\<lambda>_. 0)" by (simp add: sample_vm_def)
  obtain g m1 where m1: "pml_ensure sample_vm ?r 0 3 = Inr (g, m1)" "vm_inv m1 sample_space" "2 \<le> free_frames (vm_phys m1)"
    "node (vm_tab m1) ?r ([] @ [0]) = Some g" "vm_tab m1 g = (\<lambda>_. 0)"
    using pml_ensure_zero [OF sample_vm_facts(1) v(1) node.simps(1) z n] by blast
  have n1: "Suc 1 \<le> free_frames (vm_phys m1)" using m1(3) by simp
  obtain h m2 where m2: "pml_ensure m1 g 0 3 = Inr (h, m2)" "vm_inv m2 sample_space" "1 \<le> free_frames (vm_phys m2)"
    "node (vm_tab m2) ?r ([0] @ [0]) = Some h" "vm_tab m2 h = (\<lambda>_. 0)"
    using pml_ensure_zero [OF m1(2) v(2) m1(4) [unfolded append_Nil] m1(5) n1] by blast
  have n2: "Suc 0 \<le> free_frames (vm_phys m2)" using m2(3) by simp
  obtain k m3 where m3: "pml_ensure m2 h 2 3 = Inr (k, m3)" "vm_tab m3 k = (\<lambda>_. 0)"
    using pml_ensure_zero [OF m2(2) v(3) m2(4) [unfolded append_Cons append_Nil] m2(5) n2] by blast
  have up: "[0..<256] = 0 # [1..<256 :: nat]" "[0..<512] = 0 # [1..<512 :: nat]" "[2..<512] = 2 # [Suc 2..<512]"
    by (rule upt_conv_Cons [of 0, folded One_nat_def] upt_conv_Cons, simp)+
  have zp: "\<not> pml_present 0" "\<not> pml_size 0" by (simp_all add: pml_present_def pml_size_def)
  have a: "makeCanonical (ff_address 0 0 2 0) = 0x400000" using ff_address_low [of 1024] by simp
  have td: "ff_td (vm_tab m3 k) (ff_address 0 0 2) 1 [0..<512] 0 0 = Found 0x400000"
    unfolding up(2) by (simp add: m3(2) zp a del: upt.simps upt_rec_numeral)
  have "ff_pml2 1 0 0 h m2 [2..<512] 0 0 = Inr (m3, Found 0x400000)"
    unfolding up(3) by (simp only: ff_pml2.simps m2(5) zp if_False m3(1) bind_res_Inr prod.case td scan.case)
  then have "ff_pml3 1 0 g m1 [0..<512] [2..<512] 0 0 = Inr (m3, Found 0x400000, [])"
    unfolding up(2) by (simp only: ff_pml3.simps m1(5) zp if_False m2(1) bind_res_Inr prod.case scan.case)
  then have "ff_pml4 1 ?r sample_vm [0..<256] [0..<512] [2..<512] 0 0 = Inr (0x400000, m3)"
    unfolding up(1) by (simp only: ff_pml4.simps z zp if_False m1(1) bind_res_Inr prod.case scan.case)
  moreover have idx: "pml4_index USER_MIN_ADDRESS = 0" "pml3_index USER_MIN_ADDRESS = 0" "pml2_index USER_MIN_ADDRESS = 2"
    "pml4_index USER_MAX_ADDRESS = 256"
    by (simp_all add: USER_MIN_ADDRESS_def USER_MAX_ADDRESS_def pml4_index_def pml3_index_def pml2_index_def index_unat)
  moreover note take_lock_free [OF sample_vm_facts(3), of True]
  ultimately show ?thesis unfolding vfindFreePages_def Let_def
    by (simp only: if_True idx take_lock_free(1) bind_res_Inr prod.case) simp
qed

theorem vfindFreePages_user_witness:
  "\<exists>m'. vfindFreePages sample_vm sample_space 1 True True = Inr (0x400000, m', sample_space) \<and>
    vm_inv m' sample_space \<and> mmu m' sample_space 0x400000 = None"
proof -
  obtain m' where m': "vfindFreePages sample_vm sample_space 1 True True = Inr (0x400000, m', sample_space)"
    using sample_search by blast
  have z: "\<not> pml_size (vm_tab sample_vm f i)" for f i by (simp add: sample_vm_def pml_size_def)
  have "0 < (1 :: nat)" by simp
  from vfindFreePages_user [OF sample_vm_facts(1) this z _ m'] z m' sample_vm_facts(5) show ?thesis by auto
qed

end
