(* ===== verification/Sched.thy ===== *)
theory Sched
  imports KQueue Spinlock "HOL-Library.Multiset"
begin

text \<open>
  \<open>include/scheduler.h\<close>, \<open>kernel/scheduler/scheduler.cpp\<close> and the run-queue part of
  \<open>kernel/scheduler/thread.cpp\<close>: threads, processors, the tick and yield handlers, \<open>switchNext\<close>,
  \<open>switchTo\<close>, \<open>exit\<close> and \<open>balance\<close>. Threads live in a store indexed by address, 0 is the null pointer;
  a processor is an index into the vector \<open>processors\<close>, and every operation names the processor it
  runs on. Results are wrapped in \<open>option\<close> where a loop may run forever (\<open>None\<close>).
\<close>

section \<open>State\<close>

datatype tstate = Stopped | Running | Killed

record thread =
  th_process :: nat
  th_id :: nat
  th_kernelStack :: u64
  th_kernelStackBase :: u64
  th_userStackBase :: u64
  th_state :: tstate

record cpu =
  cpu_lockLevel :: nat
  cpu_RSP0 :: u64
  cpu_ID :: nat
  cpu_threads :: "nat kqueue"
  cpu_tlock :: bool
  cpu_destroy :: "nat kqueue"
  cpu_dlock :: bool
  cpu_idle :: nat
  cpu_current :: nat
  cpu_process :: nat

record sched =
  sc_thread :: "nat \<Rightarrow> thread option"
  sc_cpus :: "cpu list"
  sc_tick :: u32
  sc_balancing :: bool

definition on_cpu :: "sched \<Rightarrow> nat \<Rightarrow> (cpu \<Rightarrow> cpu) \<Rightarrow> sched" where
  "on_cpu s c f = s\<lparr>sc_cpus := (sc_cpus s)[c := f (sc_cpus s ! c)]\<rparr>"

definition thread_at :: "sched \<Rightarrow> nat \<Rightarrow> thread res" where
  "thread_at s t = (case sc_thread s t of None \<Rightarrow> Inl BadAccess | Some th \<Rightarrow> Inr th)"

definition set_state :: "sched \<Rightarrow> nat \<Rightarrow> tstate \<Rightarrow> sched res" where
  "set_state s t st = bind_res (thread_at s t) (\<lambda>th. Inr (s\<lparr>sc_thread := (sc_thread s)(t \<mapsto> th\<lparr>th_state := st\<rparr>)\<rparr>))"

section \<open>Operations\<close>

text \<open>
  \<open>switchTo\<close>: besides the new state the result has the two arguments of \<open>doSwitch\<close>, the stack pointer
  and the process whose \<open>cr3\<close> is loaded, if it changes. An \<open>InterruptState\<close> has 21 words.
\<close>

definition sizeof_InterruptState :: u64 where "sizeof_InterruptState = 168"

definition switchTo :: "sched \<Rightarrow> nat \<Rightarrow> nat \<Rightarrow> (sched \<times> u64 \<times> nat option) res" where
  "switchTo s c t =
     assert_res (t \<noteq> 0) (bind_res (thread_at s t) (\<lambda>th.
     let old = sc_cpus s ! c;
         s1 = on_cpu s c (\<lambda>cpu. cpu\<lparr>cpu_RSP0 := th_kernelStack th + sizeof_InterruptState, cpu_current := t,
                                    cpu_process := th_process th\<rparr>);
         cr3 = (if th_process th = cpu_process old then None else Some (th_process th)) in
     assert_res (th_state th = Stopped) (
     bind_res (set_state s1 t Running) (\<lambda>s2.
     Inr (on_cpu s2 c (\<lambda>cpu. cpu\<lparr>cpu_lockLevel := 0\<rparr>), th_kernelStack th, cr3)))))"

text \<open>
  The loop that looks for a stopped thread in a run queue: a killed thread is dropped, a thread in
  any other state goes to the back.
\<close>

partial_function (option) pick :: "(nat \<Rightarrow> thread option) \<Rightarrow> nat kqueue \<Rightarrow> (nat \<times> nat kqueue) res option" where
  "pick T q =
     (if q_empty q then Some (Inr (0, q))
      else case q_pop q of
        Inl e \<Rightarrow> Some (Inl e)
      | Inr (t, q1) \<Rightarrow>
          if t = 0 then Some (Inl Panic)
          else case T t of
            None \<Rightarrow> Some (Inl BadAccess)
          | Some th \<Rightarrow>
              if th_state th \<noteq> Stopped
              then if th_state th \<noteq> Killed
                   then case q_push q1 t of Inl e \<Rightarrow> Some (Inl e) | Inr q2 \<Rightarrow> pick T q2
                   else pick T q1
              else Some (Inr (t, q1)))"

declare pick.simps [code]

text \<open>The other processors in order; a queue whose lock is held is passed over.\<close>

fun steal :: "sched \<Rightarrow> nat \<Rightarrow> nat list \<Rightarrow> (nat \<times> sched) res option" where
  "steal s c [] = Some (Inr (0, s))"
| "steal s c (d # ds) =
     (let other = sc_cpus s ! d in
      if cpu_ID other = cpu_ID (sc_cpus s ! c) then steal s c ds
      else if q_empty (cpu_threads other) then steal s c ds
      else case spin_tryLock (cpu_tlock other) of (ok, l) \<Rightarrow>
           if ok
           then bind_opt (pick (sc_thread s) (cpu_threads other)) (\<lambda>(t, q).
                  let s1 = on_cpu s d (\<lambda>cpu. cpu\<lparr>cpu_threads := q, cpu_tlock := spin_unlock l\<rparr>) in
                  if t \<noteq> 0 then Some (Inr (t, s1)) else steal s1 c ds)
           else steal s c ds)"

text \<open>\<open>balance\<close>: sorting the processors by the length of their queues into a fixed array.\<close>

definition bal_shift :: "nat option list \<Rightarrow> nat \<Rightarrow> nat option list" where
  "bal_shift arr i = take (Suc i) arr @ take (length arr - i - 1) (drop i arr)"

function bal_place :: "(nat \<Rightarrow> nat) \<Rightarrow> nat \<Rightarrow> nat option list \<Rightarrow> nat \<Rightarrow> nat option list" where
  "bal_place sz c arr i =
     (if i < length arr
      then case arr ! i of
             None \<Rightarrow> arr[i := Some c]
           | Some d \<Rightarrow> if sz d > sz c then (bal_shift arr i)[i := Some c] else bal_place sz c arr (Suc i)
      else arr)"
  by pat_completeness auto
termination
  by (relation "measure (\<lambda>(sz, c, arr, i). length arr - i)") auto

declare bal_place.simps [simp del]

definition bal_sort :: "(nat \<Rightarrow> nat) \<Rightarrow> nat \<Rightarrow> nat option list" where
  "bal_sort sz n = fold (\<lambda>c arr. bal_place sz c arr 0) [0..<n] (replicate n None)"

text \<open>
  Moving threads from the longer to the shorter queue. \<open>size() - 1\<close> is computed in 64 bits and wraps
  for an empty queue, which the test inside the loop catches.
\<close>

partial_function (option) bal_move :: "nat kqueue \<Rightarrow> nat kqueue \<Rightarrow> (nat kqueue \<times> nat kqueue) res option" where
  "bal_move q1 q2 =
     (if (of_nat (qsize q2) - 1 :: u64) > of_nat (qsize q1)
      then if q_empty q2 then Some (Inr (q1, q2))
           else case q_pop q2 of
             Inl e \<Rightarrow> Some (Inl e)
           | Inr (t, q2') \<Rightarrow> (case q_push q1 t of Inl e \<Rightarrow> Some (Inl e) | Inr q1' \<Rightarrow> bal_move q1' q2')
      else Some (Inr (q1, q2)))"

declare bal_move.simps [code]

definition bal_pair :: "sched \<Rightarrow> nat \<Rightarrow> nat \<Rightarrow> sched res option" where
  "bal_pair s c1 c2 =
     (case spin_lock (cpu_tlock (sc_cpus s ! c1)) of Inl e \<Rightarrow> Some (Inl e) | Inr l1 \<Rightarrow>
      let s1 = on_cpu s c1 (\<lambda>cpu. cpu\<lparr>cpu_tlock := l1\<rparr>) in
      case spin_lock (cpu_tlock (sc_cpus s1 ! c2)) of Inl e \<Rightarrow> Some (Inl e) | Inr l2 \<Rightarrow>
      let s2 = on_cpu s1 c2 (\<lambda>cpu. cpu\<lparr>cpu_tlock := l2\<rparr>) in
      bind_opt (bal_move (cpu_threads (sc_cpus s2 ! c1)) (cpu_threads (sc_cpus s2 ! c2))) (\<lambda>(q1, q2).
      let s3 = on_cpu (on_cpu s2 c1 (\<lambda>cpu. cpu\<lparr>cpu_threads := q1\<rparr>)) c2 (\<lambda>cpu. cpu\<lparr>cpu_threads := q2\<rparr>) in
      Some (Inr (on_cpu (on_cpu s3 c1 (\<lambda>cpu. cpu\<lparr>cpu_tlock := spin_unlock (cpu_tlock cpu)\<rparr>)) c2
        (\<lambda>cpu. cpu\<lparr>cpu_tlock := spin_unlock (cpu_tlock cpu)\<rparr>)))))"

fun bal_pairs :: "sched \<Rightarrow> nat option list \<Rightarrow> nat list \<Rightarrow> sched res option" where
  "bal_pairs s arr [] = Some (Inr s)"
| "bal_pairs s arr (i # is) =
     (case (arr ! i, arr ! (length arr - i - 1)) of
        (Some c1, Some c2) \<Rightarrow> bind_opt (bal_pair s c1 c2) (\<lambda>s. bal_pairs s arr is)
      | _ \<Rightarrow> Some (Inl BadAccess))"

definition balance :: "sched \<Rightarrow> sched res option" where
  "balance s =
     (let n = length (sc_cpus s);
          arr = bal_sort (\<lambda>c. qsize (cpu_threads (sc_cpus s ! c))) n in
      bal_pairs s arr [0..<n div 2])"

definition switchNext :: "sched \<Rightarrow> nat \<Rightarrow> (sched \<times> u64 \<times> nat option) res option" where
  "switchNext s c =
     (let s = on_cpu s c (\<lambda>cpu. cpu\<lparr>cpu_lockLevel := 1\<rparr>);
          cur = cpu_current (sc_cpus s ! c) in
      bind_opt (Some (assert_res (cur \<noteq> 0) (bind_res (thread_at s cur) (\<lambda>th.
        if th_state th = Running then set_state s cur Stopped else Inr s)))) (\<lambda>s.
      bind_opt (Some (spin_lock (cpu_tlock (sc_cpus s ! c)))) (\<lambda>l.
      let s = on_cpu s c (\<lambda>cpu. cpu\<lparr>cpu_tlock := l\<rparr>) in
      bind_opt (if q_empty (cpu_threads (sc_cpus s ! c))
                then steal s c [0..<length (sc_cpus s)]
                else bind_opt (pick (sc_thread s) (cpu_threads (sc_cpus s ! c))) (\<lambda>(t, q).
                       Some (Inr (t, on_cpu s c (\<lambda>cpu. cpu\<lparr>cpu_threads := q\<rparr>))))) (\<lambda>(t, s).
      let s = on_cpu s c (\<lambda>cpu. cpu\<lparr>cpu_tlock := spin_unlock (cpu_tlock cpu)\<rparr>) in
      if t = 0
      then Some (assert_res (cpu_idle (sc_cpus s ! c) \<noteq> 0) (switchTo s c (cpu_idle (sc_cpus s ! c))))
      else let s = s\<lparr>sc_tick := sc_tick s + 1\<rparr> in
           bind_opt (if sc_tick s \<ge> 100
                     then case spin_tryLock (sc_balancing s) of (ok, l) \<Rightarrow>
                            if ok then bind_opt (balance (s\<lparr>sc_tick := 0, sc_balancing := l\<rparr>)) (\<lambda>s.
                                       Some (Inr (s\<lparr>sc_balancing := spin_unlock (sc_balancing s)\<rparr>)))
                            else Some (Inr s)
                     else Some (Inr s)) (\<lambda>s.
           Some (switchTo s c t))))))"

text \<open>\<open>schedulerTickHandler\<close> and \<open>schedulerYieldHandler\<close> differ only in the end-of-interrupt signal.\<close>

definition tickHandler :: "sched \<Rightarrow> nat \<Rightarrow> u64 \<Rightarrow> (sched \<times> u64 \<times> nat option) res option" where
  "tickHandler s c rsp =
     (let s = on_cpu s c (\<lambda>cpu. cpu\<lparr>cpu_lockLevel := 1\<rparr>);
          cur = cpu_current (sc_cpus s ! c) in
      bind_opt (Some (assert_res (cur \<noteq> 0) (bind_res (thread_at s cur) (\<lambda>th.
        assert_res (th_state th = Running) (
        Inr (s\<lparr>sc_thread := (sc_thread s)(cur \<mapsto> th\<lparr>th_state := Stopped, th_kernelStack := rsp\<rparr>)\<rparr>)))))) (\<lambda>s.
      bind_opt (Some (spin_lock (cpu_tlock (sc_cpus s ! c)))) (\<lambda>l.
      bind_opt (Some (q_push (cpu_threads (sc_cpus s ! c)) cur)) (\<lambda>q.
      switchNext (on_cpu s c (\<lambda>cpu. cpu\<lparr>cpu_threads := q, cpu_tlock := spin_unlock l\<rparr>)) c))))"

definition addThread :: "sched \<Rightarrow> nat \<Rightarrow> nat \<Rightarrow> sched res" where
  "addThread s c t =
     bind_res (spin_lock (cpu_tlock (sc_cpus s ! c))) (\<lambda>l.
     bind_res (q_push (cpu_threads (sc_cpus s ! c)) t) (\<lambda>q.
     Inr (on_cpu s c (\<lambda>cpu. cpu\<lparr>cpu_threads := q, cpu_tlock := spin_unlock l\<rparr>))))"

definition sched_exit :: "sched \<Rightarrow> nat \<Rightarrow> (sched \<times> u64 \<times> nat option) res option" where
  "sched_exit s c =
     (let s = on_cpu s c (\<lambda>cpu. cpu\<lparr>cpu_lockLevel := cpu_lockLevel cpu + 1\<rparr>);
          cur = cpu_current (sc_cpus s ! c) in
      bind_opt (Some (set_state s cur Killed)) (\<lambda>s.
      bind_opt (Some (spin_lock (cpu_dlock (sc_cpus s ! c)))) (\<lambda>l.
      bind_opt (Some (q_push (cpu_destroy (sc_cpus s ! c)) cur)) (\<lambda>q.
      switchNext (on_cpu s c (\<lambda>cpu. cpu\<lparr>cpu_destroy := q, cpu_dlock := spin_unlock l\<rparr>)) c))))"

section \<open>Choosing the next thread\<close>

definition killed :: "(nat \<Rightarrow> thread option) \<Rightarrow> nat \<Rightarrow> bool" where
  "killed T t \<longleftrightarrow> (case T t of Some th \<Rightarrow> th_state th = Killed | None \<Rightarrow> False)"

text \<open>What the scheduler relies on for a queued thread: it exists and does not run.\<close>

definition queued_ok :: "(nat \<Rightarrow> thread option) \<Rightarrow> nat \<Rightarrow> bool" where
  "queued_ok T t \<longleftrightarrow> t \<noteq> 0 \<and> (case T t of Some th \<Rightarrow> th_state th \<noteq> Running | None \<Rightarrow> False)"

definition runnable :: "(nat \<Rightarrow> thread option) \<Rightarrow> nat list \<Rightarrow> nat list" where
  "runnable T ts = dropWhile (killed T) ts"

lemma queued_okE:
  assumes "queued_ok T t"
  obtains th where "t \<noteq> 0" "T t = Some th" "th_state th = (if killed T t then Killed else Stopped)"
proof -
  obtain th where "T t = Some th" "th_state th \<noteq> Running" "t \<noteq> 0"
    using assms by (auto simp: queued_ok_def split: option.splits)
  then show ?thesis using that by (cases "th_state th") (auto simp: killed_def)
qed

lemma pick_ok:
  "q_inv q \<Longrightarrow> \<forall>t \<in> set (q_view q). queued_ok T t \<Longrightarrow>
    \<exists>q'. pick T q = Some (Inr (case runnable T (q_view q) of [] \<Rightarrow> 0 | t # ts \<Rightarrow> t, q')) \<and> q_inv q' \<and>
      q_view q' = tl (runnable T (q_view q)) \<and> (q_view q \<noteq> [] \<longrightarrow> q_room q')"
proof (induction "length (q_view q)" arbitrary: q)
  case 0
  then have "q_view q = []" "q_empty q" by (simp_all add: q_empty_def del: q_view_length) (simp_all flip: q_view_length)
  then show ?case using 0(2) by (subst pick.simps) (simp add: runnable_def)
next
  case (Suc n)
  then obtain t ts where v: "q_view q = t # ts" by (cases "q_view q") auto
  have ne: "\<not> q_empty q" using v q_view_length [of q] by (auto simp: q_empty_def)
  obtain q1 where q1: "q_pop q = Inr (t, q1)" "q_inv q1" "q_view q1 = ts" "q_room q1"
    using q.pop_Cons [OF Suc.prems(1) v] by blast
  obtain th where th: "t \<noteq> 0" "T t = Some th" "th_state th = (if killed T t then Killed else Stopped)"
    using Suc.prems(2) v queued_okE [of T t] by auto
  show ?case
  proof (cases "killed T t")
    case True
    have "n = length (q_view q1)" using Suc.hyps(2) v q1(3) by simp
    from Suc.hyps(1) [OF this q1(2)] Suc.prems(2) v q1(3)
    obtain q' where q': "pick T q1 = Some (Inr (case runnable T ts of [] \<Rightarrow> 0 | t # ts \<Rightarrow> t, q'))" "q_inv q'"
      "q_view q' = tl (runnable T ts)" "ts \<noteq> [] \<longrightarrow> q_room q'" by auto
    have "q_room q'"
    proof (cases "ts = []")
      case True
      then have "q_empty q1" using q1(3) q_view_length [of q1] by (simp add: q_empty_def)
      then have "q' = q1" using q'(1) by (subst (asm) pick.simps) simp
      then show ?thesis using q1(4) by simp
    qed (use q'(4) in simp)
    moreover have "pick T q = pick T q1" using ne q1(1) th True by (subst pick.simps) simp
    ultimately show ?thesis using q' v True by (simp add: runnable_def)
  next
    case False
    then have "pick T q = Some (Inr (t, q1))" using ne q1(1) th by (subst pick.simps) simp
    then show ?thesis using q1 v False by (simp add: runnable_def)
  qed
qed

text \<open>When every queued thread is marked running, the search never ends.\<close>

lemma pick_diverges_aux:
  assumes "pick T q = Some r"
  shows "q_inv q \<and> q_view q \<noteq> [] \<and> (\<forall>t \<in> set (q_view q). t \<noteq> 0 \<and> (\<exists>th. T t = Some th \<and> th_state th = Running)) \<longrightarrow> False"
proof (induction rule: pick.raw_induct [OF _ assms])
  case (1 pk T q r)
  show ?case
  proof
    assume a: "q_inv q \<and> q_view q \<noteq> [] \<and> (\<forall>t \<in> set (q_view q). t \<noteq> 0 \<and> (\<exists>th. T t = Some th \<and> th_state th = Running))"
    then obtain t ts where v: "q_view q = t # ts" by (cases "q_view q") auto
    have ne: "\<not> q_empty q" using v q_view_length [of q] by (auto simp: q_empty_def)
    obtain q1 where q1: "q_pop q = Inr (t, q1)" "q_inv q1" "q_view q1 = ts" "q_room q1"
      using q.pop_Cons [of q t ts] a v by blast
    obtain q2 where q2: "q_push q1 t = Inr q2" "q_inv q2" "q_view q2 = ts @ [t]"
      using q.push_ok [OF q1(2,4), of t] q1(3) by auto
    have pk: "pk T q2 = Some r" using 1(2) ne q1(1) q2(1) a v by auto
    have "q_view q2 \<noteq> []" "\<forall>u \<in> set (q_view q2). u \<noteq> 0 \<and> (\<exists>th. T u = Some th \<and> th_state th = Running)"
      using q2(3) a v by auto
    then show False using 1(1) [OF pk, THEN mp] q2(2) by blast
  qed
qed

lemma pick_diverges:
  assumes "q_inv q" "q_view q \<noteq> []" "\<forall>t \<in> set (q_view q). t \<noteq> 0 \<and> (\<exists>th. T t = Some th \<and> th_state th = Running)"
  shows "pick T q = None"
  using assms pick_diverges_aux [of T q] by (cases "pick T q") auto

section \<open>The tick\<close>

definition cpu_of :: "sched \<Rightarrow> nat \<Rightarrow> cpu" where
  "cpu_of s c = sc_cpus s ! c"

lemma on_cpu_simps [simp]:
  "c < length (sc_cpus s) \<Longrightarrow> sc_cpus (on_cpu s c f) ! c = f (sc_cpus s ! c)"
  "d \<noteq> c \<Longrightarrow> sc_cpus (on_cpu s c f) ! d = sc_cpus s ! d"
  "length (sc_cpus (on_cpu s c f)) = length (sc_cpus s)"
  "sc_thread (on_cpu s c f) = sc_thread s" "sc_tick (on_cpu s c f) = sc_tick s"
  "sc_balancing (on_cpu s c f) = sc_balancing s"
  by (simp_all add: on_cpu_def)

text \<open>The conditions under which a processor can switch: its lock is free, its queue is in order.\<close>

definition cpu_ready :: "sched \<Rightarrow> nat \<Rightarrow> bool" where
  "cpu_ready s c \<longleftrightarrow> c < length (sc_cpus s) \<and> \<not> cpu_tlock (cpu_of s c) \<and> q_inv (cpu_threads (cpu_of s c)) \<and>
     (\<forall>t \<in> set (q_view (cpu_threads (cpu_of s c))). queued_ok (sc_thread s) t)"

lemma switchTo_ok:
  assumes "c < length (sc_cpus s)" "t \<noteq> 0" "sc_thread s t = Some th" "th_state th = Stopped"
  shows "\<exists>s'. switchTo s c t = Inr (s', th_kernelStack th,
      if th_process th = cpu_process (cpu_of s c) then None else Some (th_process th)) \<and>
    sc_thread s' = (sc_thread s)(t \<mapsto> th\<lparr>th_state := Running\<rparr>) \<and>
    cpu_of s' c = (cpu_of s c)\<lparr>cpu_RSP0 := th_kernelStack th + 168, cpu_current := t, cpu_process := th_process th,
      cpu_lockLevel := 0\<rparr> \<and>
    length (sc_cpus s') = length (sc_cpus s) \<and> (\<forall>d. d \<noteq> c \<longrightarrow> cpu_of s' d = cpu_of s d)"
  using assms by (simp add: switchTo_def thread_at_def set_state_def cpu_of_def sizeof_InterruptState_def on_cpu_def Let_def)

lemma switchNext_own:
  assumes ready: "cpu_ready s c" and cur: "cpu_current (cpu_of s c) \<noteq> 0"
    "sc_thread s (cpu_current (cpu_of s c)) = Some th" "th_state th \<noteq> Running"
    and tick: "sc_tick s + 1 < 100" and v: "runnable (sc_thread s) (q_view (cpu_threads (cpu_of s c))) = t # ts"
  shows "\<exists>s' rsp cr3. switchNext s c = Some (Inr (s', rsp, cr3)) \<and> cpu_current (cpu_of s' c) = t \<and>
    q_inv (cpu_threads (cpu_of s' c)) \<and> q_view (cpu_threads (cpu_of s' c)) = ts \<and>
    q_room (cpu_threads (cpu_of s' c)) \<and> \<not> cpu_tlock (cpu_of s' c) \<and> cpu_lockLevel (cpu_of s' c) = 0 \<and>
    sc_thread s' = (sc_thread s)(t \<mapsto> (the (sc_thread s t))\<lparr>th_state := Running\<rparr>) \<and>
    rsp = th_kernelStack (the (sc_thread s t)) \<and>
    length (sc_cpus s') = length (sc_cpus s) \<and> (\<forall>d. d \<noteq> c \<longrightarrow> cpu_of s' d = cpu_of s d)"
proof -
  let ?q = "cpu_threads (cpu_of s c)"
  have c: "c < length (sc_cpus s)" and lock: "\<not> cpu_tlock (cpu_of s c)" and inv: "q_inv ?q"
    and ok: "\<forall>t \<in> set (q_view ?q). queued_ok (sc_thread s) t" using ready by (simp_all add: cpu_ready_def)
  have ne: "q_view ?q \<noteq> []" using v by (auto simp: runnable_def)
  then have nempty: "\<not> q_empty ?q" using length_greater_0_conv [of "q_view ?q"] by (simp add: q_empty_def)
  obtain q' where q': "pick (sc_thread s) ?q = Some (Inr (t, q'))" "q_inv q'" "q_view q' = ts" "q_room q'"
    using pick_ok [OF inv ok] v ne by auto
  have tin: "t \<in> set (q_view ?q)" "\<not> killed (sc_thread s) t"
    using v unfolding runnable_def by (metis list.set_intros(1) set_dropWhileD, metis dropWhile_eq_Cons_conv)
  obtain tt where tt: "t \<noteq> 0" "sc_thread s t = Some tt" "th_state tt = Stopped"
    using ok tin queued_okE [of "sc_thread s" t] by auto
  define s1 where "s1 = (on_cpu (on_cpu (on_cpu (on_cpu s c (\<lambda>cpu. cpu\<lparr>cpu_lockLevel := 1\<rparr>)) c
    (\<lambda>cpu. cpu\<lparr>cpu_tlock := True\<rparr>)) c (\<lambda>cpu. cpu\<lparr>cpu_threads := q'\<rparr>)) c
    (\<lambda>cpu. cpu\<lparr>cpu_tlock := spin_unlock (cpu_tlock cpu)\<rparr>))\<lparr>sc_tick := sc_tick s + 1\<rparr>"
  have run: "switchNext s c = Some (switchTo s1 c t)"
    using c lock cur nempty q'(1) tt(1) tick [unfolded not_le [symmetric]]
    by (simp add: switchNext_def s1_def cpu_of_def thread_at_def Let_def)
  have s1: "c < length (sc_cpus s1)" "sc_thread s1 = sc_thread s"
    "cpu_of s1 c = (cpu_of s c)\<lparr>cpu_lockLevel := 1, cpu_tlock := False, cpu_threads := q'\<rparr>"
    "length (sc_cpus s1) = length (sc_cpus s)" "\<forall>d. d \<noteq> c \<longrightarrow> cpu_of s1 d = cpu_of s d"
    using c by (simp_all add: s1_def cpu_of_def)
  have "sc_thread s1 t = Some tt" using s1(2) tt(2) by simp
  from switchTo_ok [OF s1(1) tt(1) this tt(3)] show ?thesis
    using run s1 q' tt(2) by auto
qed


section \<open>A sample system\<close>

text \<open>
  Two processors. Thread 11 is the idle thread of the first and runs there, thread 12 waits in its
  queue; thread 13 is the idle thread of the second, on which thread 14 runs.
\<close>

definition sample_thread :: "nat \<Rightarrow> tstate \<Rightarrow> thread" where
  "sample_thread i st = \<lparr>th_process = 100, th_id = i, th_kernelStack = 0x2000, th_kernelStackBase = 0,
     th_userStackBase = 0, th_state = st\<rparr>"

definition sample_cpu :: "nat \<Rightarrow> nat kqueue \<Rightarrow> nat \<Rightarrow> nat \<Rightarrow> cpu" where
  "sample_cpu i q idle cur = \<lparr>cpu_lockLevel = 0, cpu_RSP0 = 0, cpu_ID = i, cpu_threads = q, cpu_tlock = False,
     cpu_destroy = q_new_sized 2, cpu_dlock = False, cpu_idle = idle, cpu_current = cur, cpu_process = 100\<rparr>"

definition ring3 :: "nat option list \<Rightarrow> nat \<Rightarrow> nat \<Rightarrow> nat \<Rightarrow> nat kqueue" where
  "ring3 d n lr lw = \<lparr>qdata = d, qsize = n, qdataSize = 3, qlastRead = lr, qlastWritten = lw\<rparr>"

definition sample_threads :: "tstate \<Rightarrow> u64 \<Rightarrow> tstate \<Rightarrow> tstate \<Rightarrow> nat \<Rightarrow> thread option" where
  "sample_threads a rsp b d = [11 \<mapsto> (sample_thread 11 a)\<lparr>th_kernelStack := rsp\<rparr>, 12 \<mapsto> sample_thread 12 b,
     13 \<mapsto> sample_thread 13 Stopped, 14 \<mapsto> sample_thread 14 d]"

definition sample_sched :: sched where
  "sample_sched = \<lparr>sc_thread = sample_threads Running 0 Stopped Running,
     sc_cpus = [sample_cpu 0 (ring3 [Some 12, None, None] 1 0 1) 11 11, sample_cpu 1 (q_new_sized 3) 13 14],
     sc_tick = 0, sc_balancing = False\<rparr>"

lemma sample_queue_facts:
  "q_inv (ring3 [Some 12, None, None] 1 0 1)" "q_view (ring3 [Some 12, None, None] 1 0 1) = [12]"
  "q_room (ring3 [Some 12, None, None] 1 0 1)"
  by (simp_all add: ring3_def q_inv_def q_view_def q_idx_def q_room_def)


text \<open>The run that makes the idle thread of the first processor run on the second.\<close>

definition sample_after_tick :: sched where
  "sample_after_tick = \<lparr>sc_thread = sample_threads Stopped 0x5000 Running Running,
     sc_cpus = [(sample_cpu 0 (ring3 [Some 12, Some 11, None] 1 1 2) 11 12)\<lparr>cpu_RSP0 := 0x20A8\<rparr>,
       sample_cpu 1 (q_new_sized 3) 13 14], sc_tick = 1, sc_balancing = False\<rparr>"

definition sample_after_exit :: sched where
  "sample_after_exit = \<lparr>sc_thread = sample_threads Running 0x5000 Running Killed,
     sc_cpus = [(sample_cpu 0 (ring3 [Some 12, Some 11, None] 0 2 2) 11 12)\<lparr>cpu_RSP0 := 0x20A8\<rparr>,
       (sample_cpu 1 (q_new_sized 3) 13 11)\<lparr>cpu_RSP0 := 0x50A8, cpu_destroy :=
         \<lparr>qdata = [Some 14, None], qsize = 1, qdataSize = 2, qlastRead = 0, qlastWritten = 1\<rparr>\<rparr>],
     sc_tick = 2, sc_balancing = False\<rparr>"

lemmas sched_defs = on_cpu_def thread_at_def set_state_def Let_def sample_cpu_def sample_thread_def sample_threads_def

lemma sample_push:
  "q_push (ring3 [Some 12, None, None] (Suc 0) 0 (Suc 0)) 11 = Inr (ring3 [Some 12, Some 11, None] 2 0 2)"
  "q_push (q_new_sized 2) t = Inr \<lparr>qdata = [Some t, None], qsize = Suc 0, qdataSize = 2, qlastRead = 0, qlastWritten = Suc 0\<rparr>"
  "qsize (ring3 d n lr lw) = n" "qsize (q_new_sized m) = 0"
  by (simp add: ring3_def q_push_def, simp add: q_push_def q_new_sized_def numeral_2_eq_2,
      simp_all add: ring3_def q_new_sized_def)

lemma sample_pick_12:
  "T 12 = Some th \<Longrightarrow> th_state th = Stopped \<Longrightarrow> pick T (ring3 [Some 12, Some 11, None] 2 0 2) =
     Some (Inr (12, ring3 [Some 12, Some 11, None] (Suc 0) (Suc 0) 2))"
  by (subst pick.simps) (simp add: ring3_def q_empty_def q_pop_def q_front_def)

lemma sample_pick_11:
  "T 11 = Some th \<Longrightarrow> th_state th = Stopped \<Longrightarrow> pick T (ring3 [Some 12, Some 11, None] (Suc 0) (Suc 0) 2) =
     Some (Inr (11, ring3 [Some 12, Some 11, None] 0 2 2))"
  by (subst pick.simps) (simp add: ring3_def q_empty_def q_pop_def q_front_def numeral_2_eq_2)

lemma no_balance: "\<not> (100 :: u32) \<le> 1" "\<not> (100 :: u32) \<le> 2"
  by (simp_all add: word_le_nat_alt)

lemma sample_tick_run: "tickHandler sample_sched 0 0x5000 = Some (Inr (sample_after_tick, 0x2000, None))"
  unfolding tickHandler_def sample_sched_def
  apply (simp add: sched_defs sample_push)
  apply (simp add: switchNext_def sched_defs sample_push sample_pick_12 q_empty_def no_balance)
  apply (simp add: switchTo_def sched_defs sizeof_InterruptState_def sample_after_tick_def)
  apply (simp add: fun_eq_iff)
  done

lemma sample_exit_run: "sched_exit sample_after_tick 1 = Some (Inr (sample_after_exit, 0x5000, None))"
  unfolding sched_exit_def sample_after_tick_def
  apply (simp add: sched_defs sample_push)
  apply (simp add: switchNext_def sched_defs sample_push sample_pick_11 q_empty_def no_balance upt_rec)
  apply (simp add: switchTo_def sched_defs sizeof_InterruptState_def sample_after_exit_def)
  apply (simp add: fun_eq_iff)
  done

lemma sample_panic_run: "sched_exit sample_after_exit 0 = Some (Inl Panic)"
  unfolding sched_exit_def sample_after_exit_def
  apply (simp add: sched_defs sample_push)
  apply (simp add: switchNext_def sched_defs sample_push q_empty_def upt_rec)
  apply (simp add: switchTo_def sched_defs)
  done


section \<open>Balancing\<close>

text \<open>Insertion behind the elements that are not greater.\<close>

fun place :: "('a \<Rightarrow> nat) \<Rightarrow> 'a \<Rightarrow> 'a list \<Rightarrow> 'a list" where
  "place f x [] = [x]"
| "place f x (y # ys) = (if f y > f x then x # y # ys else y # place f x ys)"

lemma place_mset [simp]: "mset (place f x ys) = add_mset x (mset ys)"
  by (induction ys) auto

lemma place_sorted: "sorted (map f ys) \<Longrightarrow> sorted (map f (place f x ys))"
proof (induction ys)
  case (Cons y ys)
  have "set (place f x ys) = insert x (set ys)" by (metis place_mset set_mset_add_mset_insert set_mset_mset)
  then show ?case using Cons by auto
qed simp

lemma bal_place_prefix:
  assumes "length xs < n"
  shows "bal_place sz c (map Some (ys @ xs) @ replicate (n - length xs) None) (length ys) =
    map Some (ys @ place sz c xs) @ replicate (n - Suc (length xs)) None"
  using assms
proof (induction xs arbitrary: ys n)
  case Nil
  then obtain k where "n = Suc k" by (cases n) auto
  then show ?case by (subst bal_place.simps) (simp add: nth_append list_update_append)
next
  case (Cons x xs)
  let ?arr = "map Some (ys @ x # xs) @ replicate (n - length (x # xs)) None"
  have at: "length ys < length ?arr" "?arr ! length ys = Some x" by (simp_all add: nth_append)
  show ?case
  proof (cases "sz x > sz c")
    case True
    obtain k where k: "n - length (x # xs) = Suc k" using Cons.prems by (cases "n - length (x # xs)") auto
    have "(bal_shift ?arr (length ys))[length ys := Some c] =
        map Some (ys @ c # x # xs) @ replicate k None"
      unfolding k by (simp add: bal_shift_def list_update_append replicate_append_same [symmetric])
    moreover have "n - Suc (length (x # xs)) = k" using k by simp
    ultimately show ?thesis using True at by (subst bal_place.simps) simp
  next
    case False
    have "bal_place sz c ?arr (length ys) = bal_place sz c ?arr (length (ys @ [x]))"
      using False at by (subst bal_place.simps) simp
    also have "\<dots> = map Some ((ys @ [x]) @ place sz c xs) @ replicate (n - 1 - Suc (length xs)) None"
      using Cons.IH [of "n - 1" "ys @ [x]"] Cons.prems by simp
    finally show ?thesis using False by simp
  qed
qed

lemma bal_sort_fold:
  assumes "length xs + length cs \<le> n"
  shows "fold (\<lambda>c arr. bal_place sz c arr 0) cs (map Some xs @ replicate (n - length xs) None) =
    map Some (fold (place sz) cs xs) @ replicate (n - length xs - length cs) None"
  using assms
proof (induction cs arbitrary: xs)
  case (Cons c cs)
  have l: "length (place sz c xs) = Suc (length xs)" by (metis place_mset size_add_mset size_mset)
  have "bal_place sz c (map Some xs @ replicate (n - length xs) None) 0 =
      map Some (place sz c xs) @ replicate (n - length (place sz c xs)) None"
    using bal_place_prefix [of xs n sz c "[]"] Cons.prems l by simp
  then show ?case using Cons.IH [of "place sz c xs"] Cons.prems l by simp
qed simp

lemma fold_place:
  "sorted (map f xs) \<Longrightarrow> sorted (map f (fold (place f) cs xs)) \<and> mset (fold (place f) cs xs) = mset cs + mset xs"
proof (induction cs arbitrary: xs)
  case (Cons c cs)
  from Cons.IH [OF place_sorted [OF Cons.prems, of c]] show ?case by simp
qed simp

text \<open>
  The first half of \<open>balance\<close> sorts: the fixed array ends up holding every processor exactly once,
  ordered by the length of its run queue, and the shifts by \<open>memmove\<close> lose none of them.
\<close>

theorem bal_sort_sorts:
  "\<exists>cs. bal_sort sz n = map Some cs \<and> sorted (map sz cs) \<and> mset cs = mset [0..<n]"
proof -
  have e: "bal_sort sz n = map Some (fold (place sz) [0..<n] [])"
    using bal_sort_fold [of "[]" "[0..<n]" n sz] by (simp add: bal_sort_def)
  show ?thesis using fold_place [of sz "[]" "[0..<n]"] e by (metis add.right_neutral list.map_disc_iff mset.simps(1) sorted_simps(1))
qed

lemma q_push_keeps_buffer:
  "qsize q < qdataSize q \<Longrightarrow> q_push q x = Inr q' \<Longrightarrow> qdataSize q' = qdataSize q \<and> qsize q' = qsize q + 1"
  by (auto simp: q_push_def Let_def split: if_splits)

lemma size_test:
  assumes "a < 2 ^ 63" "b < 2 ^ 63" "0 < b"
  shows "(of_nat b - 1 :: u64) > of_nat a \<longleftrightarrow> a + 1 < b"
proof -
  have u: "unat (of_nat a :: u64) = a" "unat (of_nat b :: u64) = b" using assms by (simp_all add: unat_of_nat_u64)
  have "(1 :: u64) \<le> of_nat b" using u(2) assms(3) by (simp add: word_le_nat_alt)
  then have "unat (of_nat b - 1 :: u64) = b - 1" using u(2) by (simp add: unat_sub)
  then show ?thesis using u(1) by (auto simp: word_less_nat_alt)
qed

text \<open>
  Moving threads between two queues always ends, moves the front of the longer queue behind the
  shorter one in order, loses and duplicates nothing, and stops when the longer queue has at most
  one thread more; it never makes the first queue longer than the second one.
\<close>

theorem bal_move_balances:
  assumes "q_inv q1" "q_inv q2" "qsize q1 + qsize q2 \<le> qdataSize q1" "qdataSize q1 < 2 ^ 63"
  shows "\<exists>q1' q2' k. bal_move q1 q2 = Some (Inr (q1', q2')) \<and> q_inv q1' \<and> q_inv q2' \<and>
    q_view q1' = q_view q1 @ take k (q_view q2) \<and> q_view q2' = drop k (q_view q2) \<and>
    length (q_view q2') \<le> length (q_view q1') + 1 \<and> (k > 0 \<longrightarrow> length (q_view q1') \<le> length (q_view q2'))"
  using assms
proof (induction "qsize q2" arbitrary: q1 q2)
  case 0
  then have "bal_move q1 q2 = Some (Inr (q1, q2))" by (subst bal_move.simps) (simp add: q_empty_def)
  then show ?case using 0 by (intro exI [of _ q1] exI [of _ q2] exI [of _ 0]) simp
next
  case (Suc n)
  have pos: "0 < qsize q2" using Suc.hyps(2) by simp
  have test: "(of_nat (qsize q2) - 1 :: u64) > of_nat (qsize q1) \<longleftrightarrow> qsize q1 + 1 < qsize q2"
    using size_test [OF _ _ pos, of "qsize q1"] Suc.prems(3,4) by simp
  show ?case
  proof (cases "qsize q1 + 1 < qsize q2")
    case False
    then have "bal_move q1 q2 = Some (Inr (q1, q2))" using test by (subst bal_move.simps) simp
    then show ?thesis using Suc.prems False by (intro exI [of _ q1] exI [of _ q2] exI [of _ 0]) simp
  next
    case True
    obtain t ts where v: "q_view q2 = t # ts" using pos q_view_length [of q2] by (cases "q_view q2") auto
    obtain p2 where p2: "q_pop q2 = Inr (t, p2)" "q_inv p2" "q_view p2 = ts"
      using q.pop_Cons [OF Suc.prems(2) v] by blast
    have free: "qsize q1 < qdataSize q1" using Suc.prems(3) pos by simp
    obtain p1 where p1: "q_push q1 t = Inr p1" "q_inv p1" "q_view p1 = q_view q1 @ [t]"
      using q.push_ok [OF Suc.prems(1), of t] free by (auto simp: q_room_def)
    have sz: "qdataSize p1 = qdataSize q1" "qsize p1 = qsize q1 + 1" using q_push_keeps_buffer [OF free p1(1)] by simp_all
    have n: "n = qsize p2" using Suc.hyps(2) p2(3) v q_view_length [of p2] q_view_length [of q2] by simp
    have cap: "qsize p1 + qsize p2 \<le> qdataSize p1" "qdataSize p1 < 2 ^ 63"
      using Suc.prems(3,4) sz n Suc.hyps(2) by auto
    have run: "bal_move q1 q2 = bal_move p1 p2"
      using True test pos p1(1) p2(1) by (subst bal_move.simps) (simp add: q_empty_def)
    obtain q1' q2' k where ih: "bal_move p1 p2 = Some (Inr (q1', q2'))" "q_inv q1'" "q_inv q2'"
      "q_view q1' = q_view p1 @ take k (q_view p2)" "q_view q2' = drop k (q_view p2)"
      "length (q_view q2') \<le> length (q_view q1') + 1" "k > 0 \<longrightarrow> length (q_view q1') \<le> length (q_view q2')"
      using Suc.hyps(1) [OF n p1(2) p2(2) cap] by blast
    have "length (q_view q1') \<le> length (q_view q2')"
    proof (cases "k = 0")
      case True
      then have "length (q_view q1') = qsize q1 + 1" "length (q_view q2') = qsize q2 - 1"
        using ih(4,5) sz n Suc.hyps(2) by (simp_all del: q_view_length add: q_view_length [of p1] q_view_length [of p2])
      then show ?thesis using \<open>qsize q1 + 1 < qsize q2\<close> by simp
    qed (use ih(7) in simp)
    then show ?thesis using run ih p1(3) p2(3) v
      by (intro exI [of _ q1'] exI [of _ q2'] exI [of _ "Suc k"]) (simp del: q_view_length)
  qed
qed

theorem bal_move_balances_witness:
  "\<exists>q1' q2'. bal_move (q_new_sized 3) (ring3 [Some 12, Some 11, None] 2 0 2) = Some (Inr (q1', q2')) \<and>
    q_view q1' = [12] \<and> q_view q2' = [11]"
proof -
  let ?q = "ring3 [Some 12, Some 11, None] 2 0 2"
  have q: "q_inv ?q" by (auto simp: ring3_def q_inv_def q_idx_def less_Suc_eq numeral_2_eq_2)
  have v: "q_view ?q = [12, 11]" by (simp add: ring3_def q_view_def q_idx_def upt_rec numeral_2_eq_2)
  have "qsize (q_new_sized 3 :: nat kqueue) + qsize ?q \<le> qdataSize (q_new_sized 3 :: nat kqueue)"
    "qdataSize (q_new_sized 3 :: nat kqueue) < 2 ^ 63" by (simp_all add: q_new_sized_def ring3_def)
  from bal_move_balances [OF q_new_sized_inv(1) q this] obtain q1' q2' k where
    r: "bal_move (q_new_sized 3) ?q = Some (Inr (q1', q2'))" "q_view q1' = take k [12, 11]" "q_view q2' = drop k [12, 11]"
    "length (q_view q2') \<le> length (q_view q1') + 1" "k > 0 \<longrightarrow> length (q_view q1') \<le> length (q_view q2')"
    unfolding v q_new_sized_inv(2) append_Nil by blast
  have "k = 1" using r(4,5) unfolding r(2,3) by (cases k rule: nat.exhaust) (auto simp: take_Cons' drop_Cons' split: if_splits)
  then show ?thesis using r by auto
qed

end
