(* ===== verification/Vfs.thy ===== *)
theory Vfs
  imports KString "HOL-Library.Sublist"
begin

text \<open>
  \<open>kernel/fs/fs.cpp\<close> and \<open>include/fs/fs.h\<close>: mount points and path resolution. A \<open>String\<close> is represented
  by its characters and \<open>split('/')\<close> by \<open>components\<close>, the function that the theory of strings proves
  it to compute. The virtual methods of \<open>Node\<close> are the fields of \<open>node_ops\<close>; a file system instantiates
  them, and its mutable state is the type \<open>'s\<close>. A result \<open>Inl e\<close> of type \<open>int + 'a\<close> is a negative
  \<open>int64\<close> returned by the code. \<open>read\<close> gives its return value and the bytes it stores from the start of
  the caller's buffer on.
\<close>

section \<open>Nodes\<close>

record ('n, 's) node_ops =
  no_type :: "'s \<Rightarrow> 'n \<Rightarrow> u32 res"
  no_open :: "'s \<Rightarrow> 'n \<Rightarrow> u32 \<Rightarrow> (int \<times> 's) res"
  no_close :: "'s \<Rightarrow> 'n \<Rightarrow> (int \<times> 's) res option"
  no_read :: "'s \<Rightarrow> 'n \<Rightarrow> u64 \<Rightarrow> u32 \<Rightarrow> (int \<times> u8 list) res option"
  no_write :: "'s \<Rightarrow> 'n \<Rightarrow> u64 \<Rightarrow> u8 list \<Rightarrow> (int \<times> 's) res"
  no_findEntry :: "'s \<Rightarrow> 'n \<Rightarrow> string \<Rightarrow> ((int + 'n) \<times> 's) res option"
  no_size :: "'s \<Rightarrow> 'n \<Rightarrow> u64 res"

definition FILE_TYPE :: u32 where "FILE_TYPE = 1"
definition DIRECTORY_TYPE :: u32 where "DIRECTORY_TYPE = 2"
definition MODE_READ :: u32 where "MODE_READ = 1"
definition MODE_WRITE :: u32 where "MODE_WRITE = 2"

lemmas mode_defs = FILE_TYPE_def DIRECTORY_TYPE_def MODE_READ_def MODE_WRITE_def

text \<open>The methods of the base class, which a subclass that does not override them inherits.\<close>

definition base_open :: "'s \<Rightarrow> 'n \<Rightarrow> u32 \<Rightarrow> (int \<times> 's) res" where
  "base_open s n mode = Inr (- EINVAL, s)"
definition base_close :: "'s \<Rightarrow> 'n \<Rightarrow> (int \<times> 's) res option" where
  "base_close s n = Some (Inr (- EINVAL, s))"
definition base_read :: "'s \<Rightarrow> 'n \<Rightarrow> u64 \<Rightarrow> u32 \<Rightarrow> (int \<times> u8 list) res option" where
  "base_read s n offset sz = Some (Inr (- EINVAL, []))"
definition base_write :: "'s \<Rightarrow> 'n \<Rightarrow> u64 \<Rightarrow> u8 list \<Rightarrow> (int \<times> 's) res" where
  "base_write s n offset bs = Inr (- EINVAL, s)"
definition base_findEntry :: "'s \<Rightarrow> 'n \<Rightarrow> string \<Rightarrow> ((int + 'n) \<times> 's) res option" where
  "base_findEntry s n name = Some (Inr (Inl (- EINVAL), s))"
definition base_size :: "'s \<Rightarrow> 'n \<Rightarrow> u64 res" where
  "base_size s n = Inr 0"

section \<open>Mount points\<close>

record 'n mount_point =
  mp_node :: 'n
  mp_path :: string

record 'n mounts =
  mt_points :: "'n mount_point list"
  mt_root :: "'n mount_point"

text \<open>\<open>rootMoutPoint\<close> is a zeroed global until a node is mounted on \<open>"/"\<close>; \<open>null\<close> stands for its null node.\<close>

definition fs_init :: "'n \<Rightarrow> 'n mounts" where
  "fs_init null = \<lparr>mt_points = [], mt_root = \<lparr>mp_node = null, mp_path = []\<rparr>\<rparr>"

fun isPathSubset_from :: "string list \<Rightarrow> string list \<Rightarrow> nat \<Rightarrow> nat \<Rightarrow> bool" where
  "isPathSubset_from sub tot i 0 = True"
| "isPathSubset_from sub tot i (Suc n) = (if sub ! i \<noteq> tot ! i then False else isPathSubset_from sub tot (Suc i) n)"

definition isPathSubset :: "string list \<Rightarrow> string list \<Rightarrow> bool" where
  "isPathSubset sub tot = (if length sub > length tot then False else isPathSubset_from sub tot 0 (length sub))"

text \<open>The loop over the mount points; a later one replaces the best only when its path is longer.\<close>

fun best_mount :: "string list \<Rightarrow> 'n mount_point list \<Rightarrow> 'n mount_point option \<Rightarrow> nat \<Rightarrow> 'n mount_point option" where
  "best_mount comps [] best betterMatch = best"
| "best_mount comps (mp # mps) best betterMatch =
     (if isPathSubset (components (mp_path mp)) comps \<and> length (mp_path mp) > betterMatch
      then best_mount comps mps (Some mp) (length (mp_path mp))
      else best_mount comps mps best betterMatch)"

definition findMountPoint :: "'n mounts \<Rightarrow> string list \<Rightarrow> 'n mount_point option" where
  "findMountPoint mt comps =
     (if length comps = 1 \<and> comps ! 0 = ''/'' then Some (mt_root mt)
      else best_mount comps (mt_points mt) None 0)"

definition mountNode :: "'n mounts \<Rightarrow> string \<Rightarrow> 'n \<Rightarrow> 'n mounts" where
  "mountNode mt path node =
     (let mp = \<lparr>mp_node = node, mp_path = path\<rparr>;
          mt = mt\<lparr>mt_points := mt_points mt @ [mp]\<rparr> in
      if path = ''/'' then mt\<lparr>mt_root := mp\<rparr> else mt)"

section \<open>Path resolution\<close>

text \<open>\<open>String::slice\<close> of the characters, with its two assertions.\<close>

definition slice :: "string \<Rightarrow> nat \<Rightarrow> nat \<Rightarrow> string res" where
  "slice s start end' =
     (if end' = start then Inr [] else assert_res (start < length s) (assert_res (end' > start) (Inr (take (end' - start) (drop start s)))))"

fun walk :: "('n, 's) node_ops \<Rightarrow> 's \<Rightarrow> 'n \<Rightarrow> string list \<Rightarrow> ((int + 'n) \<times> 's) res option" where
  "walk ops s n [] = Some (Inr (Inr n, s))"
| "walk ops s n (c # cs) =
     bind_opt (Some (no_type ops s n)) (\<lambda>t.
     if t AND DIRECTORY_TYPE = 0 then Some (Inr (Inl (- ENOTDIR), s))
     else bind_opt (Some (no_open ops s n MODE_READ)) (\<lambda>(_, s1).
          bind_opt (no_findEntry ops s1 n c) (\<lambda>(r, s2).
          case r of Inl e \<Rightarrow> Some (Inr (Inl e, s2))
          | Inr n' \<Rightarrow> bind_opt (no_close ops s2 n) (\<lambda>(_, s3). walk ops s3 n' cs))))"

definition resolvePath :: "('n, 's) node_ops \<Rightarrow> 's \<Rightarrow> 'n mounts \<Rightarrow> string \<Rightarrow> ((int + 'n) \<times> 's) res option" where
  "resolvePath ops s mt path =
     (if path = [] then Some (Inr (Inl (- ENOENT), s))
      else if hd path \<noteq> CHR ''/'' then Some (Inr (Inl (- ENOENT), s))
      else case findMountPoint mt (components path) of
             None \<Rightarrow> Some (Inr (Inl (- ENOENT), s))
           | Some mp \<Rightarrow> bind_opt (Some (slice path (length (mp_path mp)) (length path))) (\<lambda>rest.
               walk ops s (mp_node mp) (components rest)))"

section \<open>Finding the mount point\<close>

lemma isPathSubset_from_iff:
  "isPathSubset_from sub tot i n \<longleftrightarrow> (\<forall>k. i \<le> k \<and> k < i + n \<longrightarrow> sub ! k = tot ! k)"
proof (induction sub tot i n rule: isPathSubset_from.induct)
  case (2 sub tot i n)
  have "(\<forall>k. i \<le> k \<and> k < i + Suc n \<longrightarrow> sub ! k = tot ! k) \<longleftrightarrow>
      sub ! i = tot ! i \<and> (\<forall>k. Suc i \<le> k \<and> k < Suc i + n \<longrightarrow> sub ! k = tot ! k)"
    (is "?l \<longleftrightarrow> ?r")
  proof
    assume r: ?r
    show ?l
    proof (intro allI impI)
      fix k assume "i \<le> k \<and> k < i + Suc n"
      then show "sub ! k = tot ! k" using r by (cases "k = i") auto
    qed
  qed auto
  then show ?case using 2 by auto
qed auto

lemma isPathSubset_prefix: "isPathSubset sub tot \<longleftrightarrow> prefix sub tot"
proof (cases "length sub \<le> length tot")
  case True
  have "isPathSubset sub tot \<longleftrightarrow> (\<forall>k < length sub. sub ! k = tot ! k)"
    using True by (simp add: isPathSubset_def isPathSubset_from_iff)
  also have "\<dots> \<longleftrightarrow> take (length sub) tot = sub"
    using True by (auto simp: list_eq_iff_nth_eq)
  finally show ?thesis by (auto simp: prefix_def) (metis append_take_drop_id)
qed (auto simp: isPathSubset_def dest: prefix_length_le)

definition candidate :: "string list \<Rightarrow> 'n mount_point \<Rightarrow> bool" where
  "candidate comps mp \<longleftrightarrow> prefix (components (mp_path mp)) comps \<and> mp_path mp \<noteq> []"

lemma best_mount_spec:
  assumes "case best of None \<Rightarrow> bm = 0 | Some mp \<Rightarrow> candidate comps mp \<and> length (mp_path mp) = bm"
  shows "case best_mount comps mps best bm of
      None \<Rightarrow> best = None \<and> (\<forall>mp \<in> set mps. \<not> candidate comps mp)
    | Some mp \<Rightarrow> candidate comps mp \<and> (best = Some mp \<or> mp \<in> set mps) \<and> bm \<le> length (mp_path mp) \<and>
        (\<forall>mp' \<in> set mps. candidate comps mp' \<longrightarrow> length (mp_path mp') \<le> length (mp_path mp))"
  using assms
proof (induction mps arbitrary: best bm)
  case Nil
  then show ?case by (cases best) auto
next
  case (Cons mp mps)
  show ?case
  proof (cases "isPathSubset (components (mp_path mp)) comps \<and> length (mp_path mp) > bm")
    case True
    then have "candidate comps mp" by (auto simp: candidate_def isPathSubset_prefix)
    then show ?thesis using Cons.IH [of "length (mp_path mp)" "Some mp"] True
      by (auto split: option.splits)
  next
    case False
    then have mp: "candidate comps mp \<Longrightarrow> length (mp_path mp) \<le> bm" by (auto simp: candidate_def isPathSubset_prefix)
    have step: "best_mount comps (mp # mps) best bm = best_mount comps mps best bm" using False by auto
    show ?thesis
    proof (cases "best_mount comps mps best bm")
      case None
      moreover have "candidate comps mp \<Longrightarrow> mp_path mp = []" if "bm = 0" using mp that by simp
      ultimately show ?thesis using Cons.IH [OF Cons.prems] Cons.prems step by (auto simp: candidate_def)
    next
      case (Some mp')
      then show ?thesis using Cons.IH [OF Cons.prems] mp step by fastforce
    qed
  qed
qed

lemma components_no_slash: "c \<in> set (components p) \<Longrightarrow> c \<noteq> [] \<and> CHR ''/'' \<notin> set c"
  using pieces_nonempty [of c "CHR ''/''" "[]" p] pieces_nodelim [of "CHR ''/''" "[]" c p]
  by (simp add: components_def)

lemma findMountPoint_search: "findMountPoint mt (components path) = best_mount (components path) (mt_points mt) None 0"
proof -
  have "\<not> (length (components path) = Suc 0 \<and> components path ! 0 = ''/'')"
    using components_no_slash [of "''/''" path] by (metis One_nat_def list.set_intros(1) nth_mem zero_less_one)
  then show ?thesis by (auto simp: findMountPoint_def)
qed

text \<open>
  The mount point chosen for a path is one whose components begin the components of the path,
  and no such mount point has a longer path; none is chosen exactly when there is none. The test for
  the path \<open>"/"\<close> in front of the search is never true, because a component cannot contain a slash.
\<close>

theorem findMountPoint_longest:
  "case findMountPoint mt (components path) of
      None \<Rightarrow> \<forall>mp \<in> set (mt_points mt). \<not> candidate (components path) mp
    | Some mp \<Rightarrow> mp \<in> set (mt_points mt) \<and> candidate (components path) mp \<and>
        (\<forall>mp' \<in> set (mt_points mt). candidate (components path) mp' \<longrightarrow> length (mp_path mp') \<le> length (mp_path mp))"
  unfolding findMountPoint_search
  using best_mount_spec [where best = None and bm = 0 and comps = "components path" and mps = "mt_points mt"] by (auto split: option.splits)

definition example_mounts :: "nat mounts" where
  "example_mounts = mountNode (mountNode (mountNode (fs_init 0) ''/'' 1) ''/initrd'' 2) ''/dev'' 3"

lemmas path_eval = components_def candidate_def example_mounts_def mountNode_def fs_init_def Let_def

theorem findMountPoint_longest_witness:
  "findMountPoint example_mounts (components ''/initrd/app'') = Some \<lparr>mp_node = 2, mp_path = ''/initrd''\<rparr> \<and>
   candidate (components ''/initrd/app'') \<lparr>mp_node = (2::nat), mp_path = ''/initrd''\<rparr>"
proof -
  have f: "findMountPoint example_mounts (components ''/initrd/app'') = Some \<lparr>mp_node = 2, mp_path = ''/initrd''\<rparr>"
    by (simp add: findMountPoint_def isPathSubset_prefix path_eval)
  then show ?thesis using findMountPoint_longest [of example_mounts "''/initrd/app''"] by simp
qed

section \<open>Resolving a path\<close>

text \<open>The text of an absolute path in canonical form.\<close>

definition abs_path :: "string list \<Rightarrow> string" where
  "abs_path cs = (if cs = [] then ''/'' else join_path cs)"

definition path_names :: "string list \<Rightarrow> bool" where
  "path_names cs \<longleftrightarrow> (\<forall>c \<in> set cs. c \<noteq> [] \<and> CHR ''/'' \<notin> set c)"

lemma components_abs_path: "path_names cs \<Longrightarrow> components (abs_path cs) = cs"
  using components_join_path [of cs] by (auto simp: abs_path_def path_names_def components_def)

lemma abs_path_slash: "\<exists>rest. abs_path cs = CHR ''/'' # rest"
  by (cases cs) (auto simp: abs_path_def join_path_def)

lemma drop_abs_path:
  assumes "path_names (ms @ cs)"
  shows "components (drop (length (abs_path ms)) (abs_path (ms @ cs))) = cs"
proof (cases "ms = []")
  case True
  obtain rest where rest: "abs_path cs = CHR ''/'' # rest" using abs_path_slash by blast
  have "components rest = components (CHR ''/'' # rest)" by (simp add: components_def)
  then show ?thesis using True assms rest components_abs_path [of cs] by (simp add: abs_path_def)
next
  case False
  then show ?thesis using assms components_join_path [of cs]
    by (simp add: abs_path_def join_path_def path_names_def)
qed

lemma length_abs_path: "length (abs_path ms) \<le> length (abs_path (ms @ cs))"
  by (cases ms; cases cs) (auto simp: abs_path_def join_path_def)

lemma slice_suffix: "n \<le> length s \<Longrightarrow> slice s n (length s) = Inr (drop n s)"
  by (auto simp: slice_def assert_res_def)

lemma resolve_canonical:
  assumes "findMountPoint mt (ms @ cs) = Some mp" and "mp_path mp = abs_path ms" and "path_names (ms @ cs)"
  shows "resolvePath ops s mt (abs_path (ms @ cs)) = walk ops s (mp_node mp) cs"
proof -
  obtain rest where rest: "abs_path (ms @ cs) = CHR ''/'' # rest" using abs_path_slash by blast
  have "findMountPoint mt (components (abs_path (ms @ cs))) = Some mp"
    using assms components_abs_path by simp
  then show ?thesis using assms drop_abs_path [OF assms(3)] slice_suffix [OF length_abs_path [of ms cs]] rest
    by (simp add: resolvePath_def)
qed


definition example_ops :: "(nat, unit) node_ops" where
  "example_ops = \<lparr>no_type = (\<lambda>s n. Inr (if n < 8 then DIRECTORY_TYPE else FILE_TYPE)),
     no_open = (\<lambda>s n mode. Inr (0, s)), no_close = (\<lambda>s n. Some (Inr (0, s))), no_read = base_read, no_write = base_write,
     no_findEntry = (\<lambda>s n name.
       Some (Inr (if name = ''bin'' then Inr 5 else if name = ''app'' \<and> n = 5 then Inr 8 else Inl (- ENOENT), s))),
     no_size = base_size\<rparr>"


text \<open>
  The rest of the path is cut off by the length of the text of the mount point, not by the number
  of its components. On a path with a doubled slash the two differ: \<open>"//initrd/app"\<close> is looked up
  in the initial ram disk as \<open>"d"\<close> and then \<open>"app"\<close>.
\<close>

theorem resolvePath_doubled_slash:
  "resolvePath ops s (mountNode (fs_init null) ''/initrd'' root) ''//initrd/app'' =
     walk ops s root [''d'', ''app'']"
  by (simp add: resolvePath_def findMountPoint_def isPathSubset_prefix slice_def assert_res_def path_eval)

section \<open>Block devices\<close>

text \<open>
  What a file system on top of a device relies on: a \<open>read\<close> inside the device returns its length and
  stores the bytes of the device.
\<close>

locale block_device =
  fixes read :: "u64 \<Rightarrow> u32 \<Rightarrow> int \<times> u8 list"
    and content :: "u8 list"
  assumes read_inside: "unat off + unat n \<le> length content \<Longrightarrow>
    read off n = (int (unat n), take (unat n) (drop (unat off) content))"
begin

lemma read_length: "unat off + unat n \<le> length content \<Longrightarrow> length (snd (read off n)) = unat n"
  by (simp add: read_inside)

end

end
