(* ===== verification/KBytes.thy ===== *)
theory KBytes
  imports KMem
begin

text \<open>
  Reading and writing typed data in byte memory: the little-endian integers and the C strings that
  the parsers of boot information, archives and file systems cast pointers to.
\<close>

section \<open>Definitions\<close>

definition bytes_at :: "kmem \<Rightarrow> u64 \<Rightarrow> nat \<Rightarrow> u8 list" where
  "bytes_at m a n = map (\<lambda>k. m (a + of_nat k)) [0..<n]"

fun le_nat :: "u8 list \<Rightarrow> nat" where
  "le_nat [] = 0"
| "le_nat (b # bs) = unat b + 256 * le_nat bs"

fun le_bytes :: "nat \<Rightarrow> nat \<Rightarrow> u8 list" where
  "le_bytes 0 v = []"
| "le_bytes (Suc n) v = of_nat (v mod 256) # le_bytes n (v div 256)"

definition load16 :: "kmem \<Rightarrow> u64 \<Rightarrow> u16" where
  "load16 m a = of_nat (le_nat (bytes_at m a 2))"

definition load32 :: "kmem \<Rightarrow> u64 \<Rightarrow> u32" where
  "load32 m a = of_nat (le_nat (bytes_at m a 4))"

definition load64 :: "kmem \<Rightarrow> u64 \<Rightarrow> u64" where
  "load64 m a = of_nat (le_nat (bytes_at m a 8))"

definition store_bytes :: "kmem \<Rightarrow> u64 \<Rightarrow> u8 list \<Rightarrow> kmem" where
  "store_bytes m a bs = (\<lambda>x. if unat (x - a) < length bs then bs ! unat (x - a) else m x)"

definition store64 :: "kmem \<Rightarrow> u64 \<Rightarrow> u64 \<Rightarrow> kmem" where
  "store64 m a v = store_bytes m a (le_bytes 8 (unat v))"

definition byte_char :: "u8 \<Rightarrow> char" where
  "byte_char b = char_of (unat b)"

definition cstr_at :: "kmem \<Rightarrow> u64 \<Rightarrow> string option" where
  "cstr_at m a = map_option (\<lambda>n. map byte_char (bytes_at m a (unat n))) (strlen m a)"

section \<open>Reading a device\<close>

text \<open>
  The \<open>read\<close> method of a node, for a node that serves as a file or a device: the value it returns and the
  bytes it stores from the start of the buffer on. Memory that was never written holds the bytes \<open>junk\<close>.
\<close>

type_synonym device = "u64 \<Rightarrow> u32 \<Rightarrow> int \<times> u8 list"
type_synonym junk = "nat \<Rightarrow> u8"

definition put_buf :: "u8 list \<Rightarrow> nat \<Rightarrow> u8 list \<Rightarrow> u8 list res" where
  "put_buf buf at bs =
     (if at + length bs \<le> length buf then Inr (take at buf @ bs @ drop (at + length bs) buf) else Inl BadAccess)"

definition fresh_buf :: "junk \<Rightarrow> nat \<Rightarrow> u8 list" where
  "fresh_buf junk n = map junk [0..<n]"

text \<open>A read of the device into a buffer.\<close>

definition dev_into :: "device \<Rightarrow> nat \<Rightarrow> nat \<Rightarrow> u8 list \<Rightarrow> (int \<times> u8 list) res" where
  "dev_into dev off n buf = (case dev (of_nat off) (of_nat n) of (r, bs) \<Rightarrow> bind_res (put_buf buf 0 bs) (\<lambda>buf'. Inr (r, buf')))"

text \<open>The fields of a packed structure in a buffer.\<close>

definition u8_at :: "u8 list \<Rightarrow> nat \<Rightarrow> nat" where
  "u8_at bs i = unat (bs ! i)"
definition u16_at :: "u8 list \<Rightarrow> nat \<Rightarrow> nat" where
  "u16_at bs i = le_nat (take 2 (drop i bs))"
definition u32_at :: "u8 list \<Rightarrow> nat \<Rightarrow> nat" where
  "u32_at bs i = le_nat (take 4 (drop i bs))"
definition u64_at :: "u8 list \<Rightarrow> nat \<Rightarrow> nat" where
  "u64_at bs i = le_nat (take 8 (drop i bs))"

section \<open>Lemmas\<close>

lemma bytes_at_0 [simp]: "bytes_at m a 0 = []"
  by (simp add: bytes_at_def)

lemma bytes_at_Suc: "bytes_at m a (Suc n) = m a # bytes_at m (a + 1) n"
  by (simp add: bytes_at_def upt_conv_Cons map_Suc_upt [symmetric] add.assoc comp_def del: upt_Suc)

lemma bytes_at_eval:
  "bytes_at m a (numeral k) = m a # bytes_at m (a + 1) (pred_numeral k)"
  "bytes_at m a (Suc 0) = [m a]"
  by (simp_all only: numeral_eq_Suc bytes_at_Suc bytes_at_0)

lemma length_bytes_at [simp]: "length (bytes_at m a n) = n"
  by (simp add: bytes_at_def)

lemma length_le_bytes [simp]: "length (le_bytes n v) = n"
  by (induction n v rule: le_bytes.induct) auto

lemma le_bytes_zero: "le_bytes n 0 = replicate n 0"
  by (induction n) simp_all

lemma le_nat_le_bytes: "le_nat (le_bytes n v) = v mod 256 ^ n"
proof (induction n v rule: le_bytes.induct)
  case (2 n v)
  have "unat (of_nat (v mod 256) :: u8) = v mod 256" by (simp add: unsigned_of_nat take_bit_eq_mod)
  then have "le_nat (le_bytes (Suc n) v) = v mod 256 + 256 * (v div 256 mod 256 ^ n)" using 2 by simp
  also have "\<dots> = v mod (256 * 256 ^ n)" by (simp add: mod_mult2_eq)
  finally show ?case by simp
qed simp

lemma bytes_at_store_bytes:
  assumes "length bs \<le> 2 ^ 64"
  shows "bytes_at (store_bytes m a bs) a (length bs) = bs"
proof (rule nth_equalityI)
  fix i assume "i < length (bytes_at (store_bytes m a bs) a (length bs))"
  then have i: "i < length bs" by (simp add: bytes_at_def)
  then have "unat (a + of_nat i - a) = i" using assms by (simp add: unat_of_nat_u64)
  then show "bytes_at (store_bytes m a bs) a (length bs) ! i = bs ! i" using i
    by (simp add: bytes_at_def store_bytes_def)
qed (simp add: bytes_at_def)

text \<open>A part of a range of bytes.\<close>

lemma bytes_at_slice:
  assumes "bytes_at m a (length bs) = bs" "i + n \<le> length bs"
  shows "bytes_at m (a + of_nat i) n = take n (drop i bs)"
proof (rule nth_equalityI)
  fix k assume "k < length (bytes_at m (a + of_nat i) n)"
  then have k: "k < n" by simp
  have "bs ! (i + k) = bytes_at m a (length bs) ! (i + k)" by (simp only: assms(1))
  then show "bytes_at m (a + of_nat i) n ! k = take n (drop i bs) ! k" using k assms(2) by (simp add: bytes_at_def add.assoc)
qed (use assms in simp)

lemma bytes_at_append:
  assumes "bytes_at m a (length (xs @ ys)) = xs @ ys"
  shows "bytes_at m a (length xs) = xs" "bytes_at m (a + of_nat (length xs)) (length ys) = ys"
  using bytes_at_slice [OF assms, of 0 "length xs"] bytes_at_slice [OF assms, of "length xs" "length ys"] by simp_all

lemma bytes_at_store_slice:
  assumes "length bs < 2 ^ 64" "i + n \<le> length bs"
  shows "bytes_at (store_bytes m a bs) (a + of_nat i) n = take n (drop i bs)"
  using bytes_at_store_bytes [of bs m a] assms by (intro bytes_at_slice) simp_all

lemma load_le_bytes:
  assumes "bytes_at m a (length bs) = bs"
  shows "bs = le_bytes 4 (unat v) \<Longrightarrow> load32 m a = v" "bs = le_bytes 8 (unat w) \<Longrightarrow> load64 m a = w"
proof -
  show "load32 m a = v" if "bs = le_bytes 4 (unat v)"
    using assms that unat_lt_2p32 [of v] by (simp add: load32_def le_nat_le_bytes del: le_bytes.simps)
  show "load64 m a = w" if "bs = le_bytes 8 (unat w)"
    using assms that unat_lt_2p64 [of w] by (simp add: load64_def le_nat_le_bytes del: le_bytes.simps)
qed

lemma store_bytes_other: "length bs \<le> unat (x - a) \<Longrightarrow> store_bytes m a bs x = m x"
  by (simp add: store_bytes_def)

text \<open>A 64-bit store is read back, and changes only its eight bytes.\<close>

lemma load64_store64: "load64 (store64 m a v) a = v"
proof -
  have "bytes_at (store64 m a v) a 8 = le_bytes 8 (unat v)"
    using bytes_at_store_bytes [of "le_bytes 8 (unat v)" m a] by (simp add: store64_def)
  then show ?thesis using unat_lt_2p64 [of v] by (simp add: load64_def le_nat_le_bytes del: le_bytes.simps)
qed

lemma store64_other: "8 \<le> unat (x - a) \<Longrightarrow> store64 m a v x = m x"
  by (simp add: store64_def store_bytes_other)

text \<open>A C string in memory: its characters, none of them zero, and a zero byte behind them.\<close>

definition has_cstr :: "kmem \<Rightarrow> u64 \<Rightarrow> string \<Rightarrow> bool" where
  "has_cstr m a cs \<longleftrightarrow> bytes_at m a (length cs) = map of_char cs \<and> m (a + of_nat (length cs)) = 0 \<and>
     CHR 0x00 \<notin> set cs \<and> length cs < 2 ^ 32"

lemma byte_char_of_char [simp]: "byte_char (of_char c) = c"
proof -
  have "(of_char c :: u8) = of_nat (of_char c)" by (simp only: of_nat_of_char)
  moreover have "unat (of_nat (of_char c) :: u8) = of_char c"
    using nat_of_char_less_256 [of c] by (simp add: unsigned_of_nat take_bit_nat_eq_self del: nat_of_char_less_256)
  ultimately show ?thesis by (simp add: byte_char_def)
qed

lemma of_char_eq_0: "(of_char c :: u8) = 0 \<longleftrightarrow> c = CHR 0x00"
proof
  assume "(of_char c :: u8) = 0"
  then have "byte_char (of_char c) = byte_char 0" by simp
  then show "c = CHR 0x00" by (simp only: byte_char_of_char) (simp add: byte_char_def char_of_def)
qed simp

lemma cstr_at_has_cstr:
  assumes "has_cstr m a cs"
  shows "strlen m a = Some (of_nat (length cs))" "cstr_at m a = Some cs"
proof -
  have bs: "bytes_at m a (length cs) = map of_char cs" and n: "length cs < 2 ^ 32"
    using assms by (simp_all add: has_cstr_def)
  have "m (a + of_nat k) = of_char (cs ! k)" if "k < length cs" for k
    using arg_cong [OF bs, of "\<lambda>l. l ! k"] that by (simp add: bytes_at_def)
  then have "\<forall>k < length cs. m (a + of_nat k) \<noteq> 0"
    using assms by (auto simp: has_cstr_def of_char_eq_0 dest: nth_mem)
  then show sl: "strlen m a = Some (of_nat (length cs))"
    using strlen_first_zero [of "length cs" m a] assms by (simp add: has_cstr_def)
  have "unat (of_nat (length cs) :: u32) = length cs" using n by (simp add: unsigned_of_nat take_bit_nat_eq_self)
  then show "cstr_at m a = Some cs" using sl bs by (simp add: cstr_at_def comp_def)
qed

lemma has_cstr_store_bytes:
  assumes "CHR 0x00 \<notin> set cs" "length cs < 2 ^ 32" "m (a + of_nat (length cs)) = 0"
  shows "has_cstr (store_bytes m a (map of_char cs)) a cs"
proof -
  have "unat (of_nat (length cs) :: u64) = length cs" using assms(2) by (simp add: unat_of_nat_u64)
  then have "store_bytes m a (map of_char cs) (a + of_nat (length cs)) = 0"
    using assms(3) by (simp add: store_bytes_def)
  then show ?thesis using bytes_at_store_bytes [of "map of_char cs" m a] assms(1,2) by (simp add: has_cstr_def)
qed

end
