(* ===== verification/Initrd.thy ===== *)
theory Initrd
  imports Vfs KBytes
begin

text \<open>
  \<open>kernel/fs/initrd.cpp\<close>: the initial ram disk, a tar archive in memory. \<open>TarFileHeader\<close> is a packed
  structure, so its fields are at fixed offsets of the header's address: the name at 0, the size in
  octal at 124 and the kernel's own \<open>node\<close> pointer at 157. \<open>RootNode\<close> keeps the addresses of the headers
  (its vector is represented by the list of its elements). \<open>File\<close> objects live in a store indexed by
  address; \<open>new\<close> takes the next address of a counter, which the callers keep different from null.
\<close>

section \<open>The archive\<close>

definition hd_size :: "u64 \<Rightarrow> u64" where "hd_size file = file + 124"
definition hd_node :: "u64 \<Rightarrow> u64" where "hd_node file = file + 157"

text \<open>The size field: eleven octal digits, the last one first; a character is sign extended.\<close>

fun getsize_from :: "kmem \<Rightarrow> u64 \<Rightarrow> nat \<Rightarrow> u64 \<Rightarrow> u64 \<Rightarrow> u64" where
  "getsize_from m inp 0 sz count = sz"
| "getsize_from m inp (Suc j) sz count =
     getsize_from m inp j (sz + (scast (m (inp + of_nat j)) - 48) * count) (count * 8)"

definition getsize :: "kmem \<Rightarrow> u64 \<Rightarrow> u64" where
  "getsize m inp = getsize_from m inp 11 0 1"

text \<open>The loop of the constructor of \<open>RootNode\<close>, over the headers of the archive.\<close>

partial_function (option) root_files :: "kmem \<Rightarrow> u64 \<Rightarrow> u64 \<Rightarrow> u64 \<Rightarrow> u64 list \<Rightarrow> u64 list option" where
  "root_files m buffer sz i files =
     (if i < sz
      then let file = buffer + i in
           if m file = 0 then Some files
           else let s = getsize m (hd_size file);
                    i1 = i + (s div 512 + 1) * 512;
                    i2 = (if s mod 512 \<noteq> 0 then i1 + 512 else i1) in
                root_files m buffer sz i2 (files @ [file])
      else Some files)"

declare root_files.simps [code]

section \<open>Nodes\<close>

record ifile =
  if_header :: u64
  if_start :: u64
  if_size :: u64

record initrd =
  rd_mem :: kmem
  rd_files :: "u64 list"
  rd_node :: "u64 \<Rightarrow> ifile option"
  rd_next :: u64

datatype rdnode = RdRoot | RdFile u64

definition rd_mount :: "kmem \<Rightarrow> u64 \<Rightarrow> u64 \<Rightarrow> u64 \<Rightarrow> initrd option" where
  "rd_mount m buffer sz nxt =
     map_option (\<lambda>fs. \<lparr>rd_mem = m, rd_files = fs, rd_node = (\<lambda>_. None), rd_next = nxt\<rparr>) (root_files m buffer sz 0 [])"

definition new_file :: "kmem \<Rightarrow> u64 \<Rightarrow> ifile" where
  "new_file m header = \<lparr>if_header = header, if_start = (header OR 0x1FF) + 1, if_size = getsize m (hd_size header)\<rparr>"

text \<open>\<open>findEntry\<close> compares the name with each header's; the node of the header found is made on first use.\<close>

definition file_node :: "initrd \<Rightarrow> u64 \<Rightarrow> rdnode \<times> initrd" where
  "file_node s file =
     (let s' = (if load64 (rd_mem s) (hd_node file) = 0
                then s\<lparr>rd_node := (rd_node s)(rd_next s \<mapsto> new_file (rd_mem s) file),
                       rd_mem := store64 (rd_mem s) (hd_node file) (rd_next s), rd_next := rd_next s + 1\<rparr>
                else s) in
      (RdFile (load64 (rd_mem s') (hd_node file)), s'))"

fun rd_find :: "initrd \<Rightarrow> u64 list \<Rightarrow> string \<Rightarrow> ((int + rdnode) \<times> initrd) res option" where
  "rd_find s [] name = Some (Inr (Inl (- ENOENT), s))"
| "rd_find s (file # files) name =
     (case cstr_at (rd_mem s) file of
        None \<Rightarrow> None
      | Some fname \<Rightarrow>
          if name = fname then (case file_node s file of (n, s') \<Rightarrow> Some (Inr (Inr n, s')))
          else rd_find s files name)"

definition rd_findEntry :: "initrd \<Rightarrow> rdnode \<Rightarrow> string \<Rightarrow> ((int + rdnode) \<times> initrd) res option" where
  "rd_findEntry s n name = (case n of RdRoot \<Rightarrow> rd_find s (rd_files s) name | RdFile a \<Rightarrow> base_findEntry s n name)"

definition rd_file :: "initrd \<Rightarrow> u64 \<Rightarrow> ifile res" where
  "rd_file s a = (case rd_node s a of None \<Rightarrow> Inl BadAccess | Some f \<Rightarrow> Inr f)"

text \<open>\<open>File::read\<close>: the number of bytes is bounded by the size of the file, whatever the offset.\<close>

definition file_read :: "kmem \<Rightarrow> ifile \<Rightarrow> u64 \<Rightarrow> u32 \<Rightarrow> int \<times> u8 list" where
  "file_read m f offset sz =
     (let sizeToRead = (if ucast sz < if_size f then ucast sz else if_size f) in
      (sint sizeToRead, bytes_at m (if_start f + offset) (unat sizeToRead)))"

definition rd_read :: "initrd \<Rightarrow> rdnode \<Rightarrow> u64 \<Rightarrow> u32 \<Rightarrow> (int \<times> u8 list) res option" where
  "rd_read s n offset sz = (case n of RdRoot \<Rightarrow> base_read s n offset sz
     | RdFile a \<Rightarrow> Some (bind_res (rd_file s a) (\<lambda>f. Inr (file_read (rd_mem s) f offset sz))))"

definition rd_open :: "initrd \<Rightarrow> rdnode \<Rightarrow> u32 \<Rightarrow> (int \<times> initrd) res" where
  "rd_open s n mode = Inr (if mode AND MODE_WRITE \<noteq> 0 then - EROFS else 0, s)"

definition rd_close :: "initrd \<Rightarrow> rdnode \<Rightarrow> (int \<times> initrd) res option" where
  "rd_close s n = Some (Inr (0, s))"

definition rd_size :: "initrd \<Rightarrow> rdnode \<Rightarrow> u64 res" where
  "rd_size s n = (case n of RdRoot \<Rightarrow> base_size s n | RdFile a \<Rightarrow> bind_res (rd_file s a) (\<lambda>f. Inr (if_size f)))"

definition rd_type :: "initrd \<Rightarrow> rdnode \<Rightarrow> u32 res" where
  "rd_type s n = Inr (case n of RdRoot \<Rightarrow> DIRECTORY_TYPE | RdFile a \<Rightarrow> FILE_TYPE)"

definition initrd_ops :: "(rdnode, initrd) node_ops" where
  "initrd_ops = \<lparr>no_type = rd_type, no_open = rd_open, no_close = rd_close, no_read = rd_read, no_write = base_write,
     no_findEntry = rd_findEntry, no_size = rd_size\<rparr>"

section \<open>The size field\<close>

text \<open>The eleven octal digits of a size, as \<open>tar\<close> writes them.\<close>

definition has_octal :: "kmem \<Rightarrow> u64 \<Rightarrow> nat \<Rightarrow> bool" where
  "has_octal m a n \<longleftrightarrow> (\<forall>j < 11. m (a + of_nat j) = of_nat (48 + n div 8 ^ (10 - j) mod 8))"

lemma octal_digit: "d < 8 \<Longrightarrow> (scast (of_nat (48 + d) :: u8) :: u64) - 48 = of_nat d"
proof -
  assume "d < 8"
  then have "d = 0 \<or> d = 1 \<or> d = 2 \<or> d = 3 \<or> d = 4 \<or> d = 5 \<or> d = 6 \<or> d = 7" by arith
  then show ?thesis by (elim disjE) simp_all
qed

lemma getsize_from_octal:
  assumes "\<forall>i < j. m (inp + of_nat i) = of_nat (48 + n div 8 ^ (j - 1 - i) mod 8)"
  shows "getsize_from m inp j sz count = sz + of_nat (n mod 8 ^ j) * count"
  using assms
proof (induction j arbitrary: n sz count)
  case (Suc j)
  have d: "(scast (m (inp + of_nat j)) :: u64) - 48 = of_nat (n mod 8)"
    using Suc.prems [rule_format, of j] octal_digit [of "n mod 8"] by simp
  have "m (inp + of_nat i) = of_nat (48 + (n div 8) div 8 ^ (j - 1 - i) mod 8)" if "i < j" for i
  proof -
    have "Suc j - 1 - i = Suc (j - 1 - i)" using that by simp
    then show ?thesis using Suc.prems [rule_format, of i] that by (simp add: div_mult2_eq)
  qed
  then have "getsize_from m inp (Suc j) sz count
      = sz + of_nat (n mod 8) * count + of_nat (n div 8 mod 8 ^ j) * (count * 8)"
    using Suc.IH [of "n div 8"] d by simp
  also have "\<dots> = sz + of_nat (n mod 8 + 8 * (n div 8 mod 8 ^ j)) * count"
    by (simp add: algebra_simps)
  finally show ?case by (simp add: mod_mult2_eq add.commute)
qed simp

lemma getsize_octal: "has_octal m a n \<Longrightarrow> n < 8 ^ 11 \<Longrightarrow> getsize m a = of_nat n"
  using getsize_from_octal [of 11 m a n 0 1] by (simp add: has_octal_def getsize_def)

section \<open>A well-formed archive\<close>

text \<open>
  \<open>archived m b o es\<close>: from offset \<open>o\<close> of the address \<open>b\<close> on, memory holds the files \<open>es\<close> (names and
  contents), each a header of 512 bytes followed by the contents filled up to a multiple of 512.
\<close>

definition span :: "nat \<Rightarrow> nat" where
  "span len = (len div 512 + 1) * 512 + (if len mod 512 \<noteq> 0 then 512 else 0)"

fun total_span :: "(string \<times> u8 list) list \<Rightarrow> nat" where
  "total_span [] = 0"
| "total_span ((name, data) # es) = span (length data) + total_span es"

fun archived :: "kmem \<Rightarrow> u64 \<Rightarrow> nat \<Rightarrow> (string \<times> u8 list) list \<Rightarrow> bool" where
  "archived m b off [] = True"
| "archived m b off ((name, data) # es) =
     (name \<noteq> [] \<and> length name < 100 \<and> has_cstr m (b + of_nat off) name \<and> length data < 8 ^ 11 \<and>
      has_octal m (hd_size (b + of_nat off)) (length data) \<and>
      bytes_at m (b + of_nat off + 512) (length data) = data \<and> archived m b (off + span (length data)) es)"

fun headers :: "u64 \<Rightarrow> nat \<Rightarrow> (string \<times> u8 list) list \<Rightarrow> u64 list" where
  "headers b off [] = []"
| "headers b off ((name, data) # es) = (b + of_nat off) # headers b (off + span (length data)) es"

lemma span_ge: "512 + len \<le> span len"
proof -
  have "len = len div 512 * 512 + len mod 512" by simp
  moreover have "len mod 512 < 512" by simp
  ultimately have "512 + len \<le> len div 512 * 512 + 512 + (if len mod 512 = 0 then 0 else 512)" by auto
  then show ?thesis by (simp add: span_def split: if_splits)
qed

lemma has_cstr_first: "has_cstr m a (c # cs) \<Longrightarrow> m a \<noteq> 0"
  using of_char_eq_0 [of c] by (auto simp: has_cstr_def bytes_at_def upt_conv_Cons simp del: upt_Suc)

lemma u64_div_of_nat: "n < 2 ^ 64 \<Longrightarrow> (of_nat n :: u64) div 512 = of_nat (n div 512)"
  by (simp add: word_unat_eq_iff unat_div_distrib unat_of_nat_u64 less_imp_diff_less div_less_dividend)

lemma u64_mod_of_nat: "n < 2 ^ 64 \<Longrightarrow> (of_nat n :: u64) mod 512 = 0 \<longleftrightarrow> n mod 512 = 0"
  by (simp add: word_unat_eq_iff unat_mod_distrib unat_of_nat_u64)

text \<open>The constructor steps from header to header and stops at the end of the archive.\<close>

lemma root_files_archived:
  assumes "archived m b off es" "off + total_span es \<le> unat sz"
    "off + total_span es < unat sz \<longrightarrow> m (b + of_nat (off + total_span es)) = 0"
  shows "root_files m b sz (of_nat off) fs = Some (fs @ headers b off es)"
  using assms
proof (induction es arbitrary: off fs)
  case Nil
  have "of_nat off < sz \<longleftrightarrow> off < unat sz"
    using Nil unat_lt_2p64 [of sz] by (simp add: word_less_nat_alt unat_of_nat_u64)
  then show ?case using Nil by (subst root_files.simps) (auto simp: Let_def)
next
  case (Cons e es)
  obtain name data where e: "e = (name, data)" by fastforce
  let ?len = "length data"
  have a: "has_cstr m (b + of_nat off) name" "name \<noteq> []" "?len < 8 ^ 11"
    "has_octal m (hd_size (b + of_nat off)) ?len" "archived m b (off + span ?len) es"
    using Cons.prems(1) e by auto
  have lt: "off < unat sz" using Cons.prems(2) e span_ge [of ?len] by simp
  then have i: "of_nat off < sz" using unat_lt_2p64 [of sz] by (simp add: word_less_nat_alt unat_of_nat_u64)
  have nz: "m (b + of_nat off) \<noteq> 0" using a(1,2) has_cstr_first by (cases name) auto
  have gs: "getsize m (hd_size (b + of_nat off)) = of_nat ?len" by (rule getsize_octal [OF a(4,3)])
  have l64: "?len < 2 ^ 64" using a(3) by simp
  have i2: "(let i1 = of_nat off + ((of_nat ?len :: u64) div 512 + 1) * 512 in
      if (of_nat ?len :: u64) mod 512 \<noteq> 0 then i1 + 512 else i1) = of_nat (off + span ?len)"
    using u64_div_of_nat [OF l64] u64_mod_of_nat [OF l64] by (simp add: span_def Let_def algebra_simps)
  have "root_files m b sz (of_nat off) fs = root_files m b sz (of_nat (off + span ?len)) (fs @ [b + of_nat off])"
    using i nz i2 by (subst root_files.simps) (simp add: gs Let_def)
  also have "\<dots> = Some ((fs @ [b + of_nat off]) @ headers b (off + span ?len) es)"
    using Cons.IH [OF a(5)] Cons.prems(2,3) e by (simp add: add.assoc)
  finally show ?case using e by simp
qed

section \<open>Lookup\<close>

text \<open>Making a node writes to the node field of a header; nothing the archive consists of is stored there.\<close>

fun used_offs :: "nat \<Rightarrow> (string \<times> u8 list) list \<Rightarrow> nat set" where
  "used_offs off [] = {}"
| "used_offs off ((name, data) # es) = {off..<off + 100} \<union> {off + 124..<off + 136} \<union>
     {off + 512..<off + 512 + length data} \<union> used_offs (off + span (length data)) es"

fun node_offs :: "nat \<Rightarrow> (string \<times> u8 list) list \<Rightarrow> nat set" where
  "node_offs off [] = {}"
| "node_offs off ((name, data) # es) = {off + 157..<off + 165} \<union> node_offs (off + span (length data)) es"

lemma used_offs_bounds: "used_offs off es \<subseteq> {off..<off + total_span es}"
proof (induction off es rule: used_offs.induct)
  case (2 off name data es)
  then show ?case using span_ge [of "length data"] by fastforce
qed simp

lemma node_offs_bounds: "node_offs off es \<subseteq> {off..<off + total_span es}"
proof (induction off es rule: node_offs.induct)
  case (2 off name data es)
  then show ?case using span_ge [of "length data"] by fastforce
qed simp

lemma offs_disjoint: "used_offs off es \<inter> node_offs off es = {}"
proof (induction off es rule: used_offs.induct)
  case (2 off name data es)
  then show ?case
    using used_offs_bounds [of "off + span (length data)" es] node_offs_bounds [of "off + span (length data)" es]
      span_ge [of "length data"] by fastforce
qed simp

lemma archived_cong:
  assumes "archived m b off es" "\<forall>x \<in> used_offs off es. m' (b + of_nat x) = m (b + of_nat x)"
  shows "archived m' b off es"
  using assms
proof (induction off es rule: used_offs.induct)
  case (2 off name data es)
  have eq: "m' (b + of_nat off + of_nat k) = m (b + of_nat off + of_nat k)"
    if "k < 100 \<or> 124 \<le> k \<and> k < 136 \<or> 512 \<le> k \<and> k < 512 + length data" for k
    using 2(3) that by (auto simp: add.assoc simp flip: of_nat_add)
  have "bytes_at m' (b + of_nat off) (length name) = bytes_at m (b + of_nat off) (length name)"
    using eq 2(2) by (simp add: bytes_at_def)
  moreover have "m' (b + of_nat off + of_nat (length name)) = m (b + of_nat off + of_nat (length name))"
    using eq 2(2) by simp
  moreover have "has_octal m' (hd_size (b + of_nat off)) n = has_octal m (hd_size (b + of_nat off)) n" for n
    using eq [of "124 + k" for k] by (simp add: has_octal_def hd_size_def add.assoc)
  moreover have "bytes_at m' (b + of_nat off + 512) (length data) = bytes_at m (b + of_nat off + 512) (length data)"
    using eq [of "512 + k" for k] by (simp add: bytes_at_def add.assoc)
  ultimately show ?case using 2 by (simp add: has_cstr_def)
qed simp

fun find_hdr :: "nat \<Rightarrow> (string \<times> u8 list) list \<Rightarrow> string \<Rightarrow> nat option" where
  "find_hdr off [] name = None"
| "find_hdr off ((fname, data) # es) name =
     (if name = fname then Some off else find_hdr (off + span (length data)) es name)"

lemma rd_find_archived:
  assumes "archived (rd_mem s) b off es"
  shows "rd_find s (headers b off es) name = (case find_hdr off es name of
      None \<Rightarrow> Some (Inr (Inl (- ENOENT), s))
    | Some h \<Rightarrow> Some (Inr (Inr (fst (file_node s (b + of_nat h))), snd (file_node s (b + of_nat h)))))"
  using assms
  by (induction off es name rule: find_hdr.induct) (auto simp: cstr_at_has_cstr split: prod.splits)

lemma span_dvd: "512 dvd span len"
  by (simp add: span_def)

lemma find_hdr_None: "find_hdr off es name = None \<longleftrightarrow> map_of es name = None"
  by (induction off es name rule: find_hdr.induct) auto

lemma find_hdr_Some:
  assumes "archived m b off es" "find_hdr off es name = Some h" "512 dvd off"
  shows "\<exists>data. map_of es name = Some data \<and> length data < 8 ^ 11 \<and> has_octal m (hd_size (b + of_nat h)) (length data) \<and>
    bytes_at m (b + of_nat h + 512) (length data) = data \<and> 512 dvd h \<and> off \<le> h \<and> h < off + total_span es \<and>
    {h + 157..<h + 165} \<subseteq> node_offs off es \<and> b + of_nat h \<in> set (headers b off es)"
  using assms
proof (induction off es name rule: find_hdr.induct)
  case (2 off fname data es name)
  then show ?case
  proof (cases "name = fname")
    case False
    then show ?thesis using 2 span_dvd [of "length data"] by fastforce
  qed (use span_ge [of "length data"] in auto)
qed simp

text \<open>
  The state of the mounted archive: a node field is null or points to the \<open>File\<close> made for its header.
\<close>

definition rd_inv :: "u64 \<Rightarrow> (string \<times> u8 list) list \<Rightarrow> initrd \<Rightarrow> bool" where
  "rd_inv b es s \<longleftrightarrow> b AND 0x1FF = 0 \<and> total_span es < 2 ^ 63 \<and> archived (rd_mem s) b 0 es \<and>
     rd_files s = headers b 0 es \<and> rd_next s \<noteq> 0 \<and>
     (\<forall>h \<in> set (headers b 0 es). load64 (rd_mem s) (hd_node h) = 0 \<or>
        load64 (rd_mem s) (hd_node h) < rd_next s \<and>
        rd_node s (load64 (rd_mem s) (hd_node h)) = Some (new_file (rd_mem s) h))"

lemma header_offsets: "h \<in> set (headers b off es) \<Longrightarrow> \<exists>k. h = b + of_nat k \<and> off \<le> k \<and> k + 512 \<le> off + total_span es \<and>
    512 dvd (k - off) \<and> {k + 124..<k + 136} \<subseteq> used_offs off es \<and> {k + 157..<k + 165} \<subseteq> node_offs off es"
proof (induction off es rule: used_offs.induct)
  case (2 off name data es)
  then consider "h = b + of_nat off" | "h \<in> set (headers b (off + span (length data)) es)" by auto
  then show ?case
  proof cases
    case 1
    then show ?thesis using span_ge [of "length data"] by (intro exI [of _ off]) auto
  next
    case 2
    from "2.IH" [OF this] obtain k where k: "h = b + of_nat k" "off + span (length data) \<le> k"
      "k + 512 \<le> off + span (length data) + total_span es" "512 dvd (k - (off + span (length data)))"
      "{k + 124..<k + 136} \<subseteq> used_offs (off + span (length data)) es"
      "{k + 157..<k + 165} \<subseteq> node_offs (off + span (length data)) es" by blast
    have "k - off = (k - (off + span (length data))) + span (length data)" using k(2) by simp
    then have "512 dvd (k - off)" using k(4) span_dvd by (metis dvd_add)
    then show ?thesis using k by (intro exI [of _ k]) auto
  qed
qed simp

text \<open>Two offsets in the same half of the address space are as far apart as their addresses.\<close>

lemma offset_distance:
  fixes b :: u64
  assumes "x < 2 ^ 63" "y < 2 ^ 63"
  shows "unat (b + of_nat x - (b + of_nat y)) = (if y \<le> x then x - y else 2 ^ 64 - (y - x))"
proof (cases "y \<le> x")
  case True
  then have "b + of_nat x - (b + of_nat y) = of_nat (x - y)" by (simp add: of_nat_diff)
  moreover have "unat (of_nat (x - y) :: u64) = x - y" using assms by (intro unat_of_nat_u64) simp
  ultimately show ?thesis using True by (simp only: if_True)
next
  case False
  have "(of_nat (2 ^ 64 - (y - x)) :: u64) = of_nat (2 ^ 64) - (of_nat y - of_nat x)"
    using False assms by (simp add: of_nat_diff del: of_nat_power)
  moreover have "(of_nat (2 ^ 64) :: u64) = 0" by simp
  ultimately have "b + of_nat x - (b + of_nat y) = of_nat (2 ^ 64 - (y - x))" by simp
  moreover have "unat (of_nat (2 ^ 64 - (y - x)) :: u64) = 2 ^ 64 - (y - x)"
    using False by (intro unat_of_nat_u64) simp
  ultimately show ?thesis using False by (simp only: if_False)
qed

lemma store_node_other:
  assumes "x < 2 ^ 63" "k + 165 \<le> 2 ^ 63" "x \<notin> {k + 157..<k + 165}"
  shows "store64 m (hd_node (b + of_nat k)) v (b + of_nat x) = m (b + of_nat x)"
proof -
  have "unat (b + of_nat x - (b + of_nat (k + 157))) \<ge> 8"
    using assms by (subst offset_distance) auto
  then show ?thesis by (simp add: store64_other hd_node_def add.assoc add.commute)
qed

lemma aligned_start:
  fixes b :: u64
  assumes "b AND 0x1FF = 0" "512 dvd k"
  shows "((b + of_nat k) OR 0x1FF) + 1 = b + of_nat k + 512"
proof -
  have low: "w AND 0x1FF = 0 \<longleftrightarrow> unat w mod 512 = 0" for w :: u64
  proof -
    have "w AND 0x1FF = take_bit 9 w" by (simp add: take_bit_eq_mask mask_eq_exp_minus_1)
    then show ?thesis by (simp add: word_unat_eq_iff unsigned_take_bit_eq take_bit_eq_mod unat_mod_distrib)
  qed
  have "unat (of_nat k :: u64) mod 512 = 0"
    using assms(2) by (simp add: unsigned_of_nat take_bit_eq_mod mod_mod_cancel)
  then have "unat (b + of_nat k) mod 512 = 0"
    using assms(1) by (simp add: low unat_word_ariths mod_mod_cancel mod_add_eq [symmetric, where c = 512])
  then have "(b + of_nat k) AND 0x1FF = 0" by (simp add: low)
  then have "(b + of_nat k) OR 0x1FF = b + of_nat k + 0x1FF"
    by (metis add.left_neutral word_plus_and_or)
  then show ?thesis by simp
qed

lemma getsize_from_cong:
  "\<forall>i < j. m' (inp + of_nat i) = m (inp + of_nat i) \<Longrightarrow> getsize_from m' inp j sz count = getsize_from m inp j sz count"
  by (induction j arbitrary: sz count) auto

lemma new_file_cong:
  assumes "h \<in> set (headers b 0 es)" "\<forall>x \<in> used_offs 0 es. m' (b + of_nat x) = m (b + of_nat x)"
  shows "new_file m' h = new_file m h"
proof -
  obtain k where k: "h = b + of_nat k" "{k + 124..<k + 136} \<subseteq> used_offs 0 es" using header_offsets [OF assms(1)] by blast
  have "\<forall>i < 11. m' (hd_size h + of_nat i) = m (hd_size h + of_nat i)"
  proof (intro allI impI)
    fix i :: nat assume "i < 11"
    then have "k + 124 + i \<in> used_offs 0 es" using k(2) by auto
    then show "m' (hd_size h + of_nat i) = m (hd_size h + of_nat i)"
      using assms(2) k(1) by (force simp: hd_size_def add.assoc)
  qed
  then show ?thesis by (simp add: new_file_def getsize_def getsize_from_cong)
qed

lemma load_node_other:
  assumes "h \<in> set (headers b 0 es)" "512 dvd k" "k + 512 \<le> total_span es" "total_span es < 2 ^ 63" "h \<noteq> b + of_nat k"
  shows "load64 (store64 m (hd_node (b + of_nat k)) v) (hd_node h) = load64 m (hd_node h)"
proof -
  obtain k' where k': "h = b + of_nat k'" "k' + 512 \<le> total_span es" "512 dvd k'" using header_offsets [OF assms(1)] by auto
  then have ne: "k' \<noteq> k" using assms(5) by auto
  have "store64 m (hd_node (b + of_nat k)) v (b + of_nat (k' + 157 + i)) = m (b + of_nat (k' + 157 + i))" if "i < 8" for i
  proof (rule store_node_other)
    show "k' + 157 + i \<notin> {k + 157..<k + 165}"
      using ne that assms(2) k'(3) by (auto elim!: dvdE)
  qed (use that k' assms in auto)
  then have "bytes_at (store64 m (hd_node (b + of_nat k)) v) (hd_node h) 8 = bytes_at m (hd_node h) 8"
    using k'(1) by (auto simp: bytes_at_def hd_node_def add.assoc simp del: upt_rec_numeral)
  then show ?thesis by (simp add: load64_def)
qed

lemma find_hdr_end: "find_hdr off es name = Some h \<Longrightarrow> h + 512 \<le> off + total_span es"
proof (induction off es name rule: find_hdr.induct)
  case (2 off fname data es name)
  then show ?case using span_ge [of "length data"] by (fastforce split: if_splits)
qed simp

lemma less_x_plus_1:
  fixes x :: u64
  shows "x + 1 \<noteq> 0 \<Longrightarrow> x < x + 1"
  using unatSuc [of x] by (simp add: word_less_nat_alt add.commute)

text \<open>Making a node keeps the archive and every other header's node field.\<close>

lemma file_node_inv:
  assumes inv: "rd_inv b es s" and h: "find_hdr 0 es name = Some k" and nw: "rd_next s + 1 \<noteq> 0"
  shows "\<exists>a. fst (file_node s (b + of_nat k)) = RdFile a \<and> rd_inv b es (snd (file_node s (b + of_nat k))) \<and>
    rd_node (snd (file_node s (b + of_nat k))) a = Some (new_file (rd_mem s) (b + of_nat k))"
proof -
  let ?h = "b + of_nat k" and ?m = "rd_mem s"
  have al: "b AND 0x1FF = 0" and tot: "total_span es < 2 ^ 63" and arc: "archived ?m b 0 es"
    using inv by (simp_all add: rd_inv_def)
  have k: "512 dvd k" "k + 512 \<le> total_span es" "{k + 157..<k + 165} \<subseteq> node_offs 0 es" "?h \<in> set (headers b 0 es)"
    using find_hdr_Some [OF arc h] find_hdr_end [OF h] by auto
  show ?thesis
  proof (cases "load64 ?m (hd_node ?h) = 0")
    case False
    then have "rd_node s (load64 ?m (hd_node ?h)) = Some (new_file ?m ?h)" using inv k(4) by (auto simp: rd_inv_def)
    then show ?thesis using False inv by (simp add: file_node_def)
  next
    case True
    define m' where "m' = store64 ?m (hd_node ?h) (rd_next s)"
    have other: "m' (b + of_nat x) = ?m (b + of_nat x)" if "x < 2 ^ 63" "x \<notin> {k + 157..<k + 165}" for x
      using store_node_other [OF that(1) _ that(2)] k(2) tot by (simp add: m'_def)
    have keep: "\<forall>x \<in> used_offs 0 es. m' (b + of_nat x) = ?m (b + of_nat x)"
    proof
      fix x assume x: "x \<in> used_offs 0 es"
      then have "x < 2 ^ 63" using used_offs_bounds [of 0 es] tot by auto
      moreover have "x \<notin> {k + 157..<k + 165}" using x offs_disjoint [of 0 es] k(3) by blast
      ultimately show "m' (b + of_nat x) = ?m (b + of_nat x)" by (rule other)
    qed
    have arc': "archived m' b 0 es" by (rule archived_cong [OF arc keep])
    have nf: "new_file m' h' = new_file ?m h'" if "h' \<in> set (headers b 0 es)" for h'
      by (rule new_file_cong [OF that keep])
    have ld: "load64 m' (hd_node h') = (if h' = ?h then rd_next s else load64 ?m (hd_node h'))"
      if "h' \<in> set (headers b 0 es)" for h'
      using load_node_other [OF that k(1,2) tot] load64_store64 by (auto simp: m'_def)
    have s': "snd (file_node s ?h) = s\<lparr>rd_node := (rd_node s)(rd_next s \<mapsto> new_file ?m ?h), rd_mem := m', rd_next := rd_next s + 1\<rparr>"
      "fst (file_node s ?h) = RdFile (rd_next s)"
      using True by (simp_all add: file_node_def m'_def load64_store64)
    have lt: "rd_next s < rd_next s + 1" using nw by (simp add: less_x_plus_1)
    have "rd_inv b es (snd (file_node s ?h))"
      using inv arc' nw lt unfolding rd_inv_def s' by (auto simp: ld nf intro: less_trans)
    then show ?thesis using s' by simp
  qed
qed

text \<open>What a read of a file of the archive gives.\<close>

lemma take_upt_min: "take n [0..<k] = [0..<min n k]"
  by (cases "n \<le> k") (simp_all add: min_def)

lemma file_read_start:
  assumes "length data < 8 ^ 11" "bytes_at m (if_start f) (length data) = data" "if_size f = of_nat (length data)"
  shows "file_read m f 0 n = (int (min (unat n) (length data)), take (unat n) data)"
proof -
  have l: "length data < 2 ^ 63" using assms(1) by simp
  have u: "unat (if_size f) = length data" using l assms(3) by (simp add: unat_of_nat_u64)
  define r where "r = (if ucast n < if_size f then ucast n else if_size f)"
  have "unat (ucast n :: u64) = unat n" by (rule unat_ucast_u32)
  then have r: "unat r = min (unat n) (length data)"
    using u by (simp add: r_def word_less_nat_alt min_def)
  moreover have "sint r = int (unat r)" using r l by (intro sint_small_u64) simp
  moreover have "bytes_at m (if_start f) (min (unat n) (length data)) = take (unat n) data"
    using arg_cong [OF assms(2), of "take (unat n)"] by (simp add: bytes_at_def take_map take_upt_min)
  ultimately show ?thesis by (simp add: file_read_def r_def)
qed

lemma initrd_lookup:
  assumes inv: "rd_inv b es s" and nw: "rd_next s + 1 \<noteq> 0"
  shows "case map_of es name of
      None \<Rightarrow> rd_findEntry s RdRoot name = Some (Inr (Inl (- ENOENT), s))
    | Some data \<Rightarrow> \<exists>a s'. rd_findEntry s RdRoot name = Some (Inr (Inr (RdFile a), s')) \<and> rd_inv b es s' \<and>
        rd_size s' (RdFile a) = Inr (of_nat (length data)) \<and>
        (\<forall>n. rd_read s' (RdFile a) 0 n = Some (Inr (int (min (unat n) (length data)), take (unat n) data)))"
proof (cases "find_hdr 0 es name")
  case None
  then show ?thesis using rd_find_archived [of s b 0 es name] inv find_hdr_None [of 0 es name]
    by (simp add: rd_findEntry_def rd_inv_def)
next
  case (Some k)
  have arc: "archived (rd_mem s) b 0 es" and al: "b AND 0x1FF = 0" using inv by (simp_all add: rd_inv_def)
  let ?s' = "snd (file_node s (b + of_nat k))"
  from find_hdr_Some [OF arc Some] obtain data where d: "map_of es name = Some data" "length data < 8 ^ 11"
    "has_octal (rd_mem s) (hd_size (b + of_nat k)) (length data)" "512 dvd k" by auto
  from file_node_inv [OF inv Some nw] obtain a where a: "fst (file_node s (b + of_nat k)) = RdFile a" "rd_inv b es ?s'"
    "rd_node ?s' a = Some (new_file (rd_mem s) (b + of_nat k))" by blast
  have sz: "if_size (new_file (rd_mem s) (b + of_nat k)) = of_nat (length data)"
    using getsize_octal [OF d(3,2)] by (simp add: new_file_def)
  have arc': "archived (rd_mem ?s') b 0 es" using a(2) by (simp add: rd_inv_def)
  have "bytes_at (rd_mem ?s') (b + of_nat k + 512) (length data) = data"
    using find_hdr_Some [OF arc' Some] d(1) by auto
  then have st: "bytes_at (rd_mem ?s') (if_start (new_file (rd_mem s) (b + of_nat k))) (length data) = data"
    using aligned_start [OF al d(4)] by (simp only: new_file_def ifile.simps)
  have "rd_findEntry s RdRoot name = Some (Inr (Inr (RdFile a), ?s'))"
    using rd_find_archived [OF arc, of name] Some inv a(1) by (simp add: rd_findEntry_def rd_inv_def)
  then show ?thesis using d(1) a(2,3) sz file_read_start [OF d(2) st sz]
    by (auto simp: rd_size_def rd_read_def rd_file_def)
qed

text \<open>
  Mounting a tar archive that lies in memory ends, whatever its number of files, and finds exactly
  the headers of its files in order.
\<close>

theorem rd_mount_archive:
  assumes "archived m b 0 es" "b AND 0x1FF = 0" "total_span es < 2 ^ 63" "total_span es \<le> unat sz"
    "total_span es < unat sz \<longrightarrow> m (b + of_nat (total_span es)) = 0" "nxt \<noteq> 0"
    "\<forall>h \<in> set (headers b 0 es). load64 m (hd_node h) = 0"
  shows "\<exists>s. rd_mount m b sz nxt = Some s \<and> rd_files s = headers b 0 es \<and> rd_inv b es s"
  using root_files_archived [of m b 0 es sz "[]"] assms by (auto simp: rd_mount_def rd_inv_def)

text \<open>An archive of one file at address \<open>0x1000\<close>.\<close>

definition one_file :: "string \<Rightarrow> u8 list \<Rightarrow> kmem" where
  "one_file name data a = (let k = unat (a - 0x1000) in
     if k < length name then of_char (name ! k)
     else if 124 \<le> k \<and> k < 135 then of_nat (48 + length data div 8 ^ (134 - k) mod 8)
     else if 512 \<le> k \<and> k < 512 + length data then data ! (k - 512) else 0)"

definition one_rd :: "string \<Rightarrow> u8 list \<Rightarrow> initrd" where
  "one_rd name data = \<lparr>rd_mem = one_file name data, rd_files = [0x1000], rd_node = (\<lambda>_. None), rd_next = 0x9000\<rparr>"

lemma one_file_at:
  assumes "k < 2 ^ 64" "a = 0x1000 + of_nat k"
  shows "one_file name data a = (if k < length name then of_char (name ! k)
     else if 124 \<le> k \<and> k < 135 then of_nat (48 + length data div 8 ^ (134 - k) mod 8)
     else if 512 \<le> k \<and> k < 512 + length data then data ! (k - 512) else 0)"
proof -
  have "unat (a - 0x1000) = k" using unat_of_nat_u64 [OF assms(1)] by (simp add: assms(2))
  then show ?thesis unfolding one_file_def Let_def by (simp only:)
qed

lemma one_file_archived:
  assumes "name \<noteq> []" "length name < 100" "CHR 0x00 \<notin> set name" "length data < 8 ^ 11"
  shows "archived (one_file name data) 0x1000 0 [(name, data)]" "load64 (one_file name data) (hd_node 0x1000) = 0"
    "one_file name data (0x1000 + of_nat (span (length data))) = 0"
proof -
  have d: "length data < 2 ^ 34" using assms(4) by simp
  have "bytes_at (one_file name data) 0x1000 (length name) = map of_char name"
    using assms(2) by (intro nth_equalityI) (auto simp: bytes_at_def one_file_at [OF _ refl])
  moreover have "one_file name data (0x1000 + of_nat (length name)) = 0" using assms(2) by (simp add: one_file_at [OF _ refl])
  moreover have "bytes_at (one_file name data) (0x1000 + 512) (length data) = data"
  proof (rule nth_equalityI)
    fix i assume "i < length (bytes_at (one_file name data) (0x1000 + 512) (length data))"
    then have i: "i < length data" by simp
    have "one_file name data (0x1000 + 512 + of_nat i) = data ! i"
      using i d assms(2) by (subst one_file_at [of "512 + i"]) auto
    then show "bytes_at (one_file name data) (0x1000 + 512) (length data) ! i = data ! i" using i by (simp add: bytes_at_def)
  qed simp
  moreover have "has_octal (one_file name data) (hd_size 0x1000) (length data)" unfolding has_octal_def
  proof (intro allI impI)
    fix j :: nat assume "j < 11"
    then show "one_file name data (hd_size 0x1000 + of_nat j) = of_nat (48 + length data div 8 ^ (10 - j) mod 8)"
      using assms(2) by (subst one_file_at [of "124 + j"]) (auto simp: hd_size_def)
  qed
  ultimately show "archived (one_file name data) 0x1000 0 [(name, data)]" using assms by (simp add: has_cstr_def)
  have "bytes_at (one_file name data) (hd_node 0x1000) 8 = replicate 8 0"
  proof (rule nth_equalityI)
    fix i assume "i < length (bytes_at (one_file name data) (hd_node 0x1000) 8)"
    then have i: "i < 8" by simp
    have "one_file name data (hd_node 0x1000 + of_nat i) = 0"
      using i assms(2) by (subst one_file_at [of "157 + i"]) (auto simp: hd_node_def)
    then show "bytes_at (one_file name data) (hd_node 0x1000) 8 ! i = replicate 8 0 ! i"
      using i by (simp add: bytes_at_def del: upt_rec_numeral)
  qed simp
  moreover have "le_nat (replicate k 0) = 0" for k by (induction k) simp_all
  ultimately show "load64 (one_file name data) (hd_node 0x1000) = 0" by (simp add: load64_def)
  have "length data div 512 < 2 ^ 34" using d div_le_dividend [of "length data" 512] by linarith
  then have "512 + length data \<le> span (length data)" "span (length data) < 2 ^ 64"
    using span_ge [of "length data"] by (simp_all add: span_def)
  then show "one_file name data (0x1000 + of_nat (span (length data))) = 0"
    using assms(2) by (subst one_file_at [of "span (length data)"]) auto
qed

lemma one_rd_inv:
  assumes "name \<noteq> []" "length name < 100" "CHR 0x00 \<notin> set name" "length data < 8 ^ 11"
  shows "rd_inv 0x1000 [(name, data)] (one_rd name data)"
proof -
  have "length data div 512 < 2 ^ 34" using assms(4) div_le_dividend [of "length data" 512] by simp
  then have "span (length data) < 2 ^ 63" by (simp add: span_def)
  then show ?thesis using one_file_archived(1,2) [OF assms] by (simp add: rd_inv_def one_rd_def)
qed

lemma initrd_mount:
  assumes "name \<noteq> []" "CHR ''/'' \<notin> set name"
  shows "findMountPoint (mountNode (fs_init RdRoot) ''/initrd'' RdRoot) [''initrd'', name] = Some \<lparr>mp_node = RdRoot, mp_path = ''/initrd''\<rparr>"
  by (simp add: findMountPoint_def isPathSubset_prefix path_eval)

definition sample_files :: "(string \<times> u8 list) list" where
  "sample_files = [(''app'', [7, 8, 9])]"

theorem rd_mount_archive_witness:
  "\<exists>s. rd_mount (one_file ''app'' [7, 8, 9]) 0x1000 0x800 0x9000 = Some s \<and> rd_files s = [0x1000]"
proof -
  have t: "total_span sample_files = 1024" "headers 0x1000 0 sample_files = [0x1000]" by (simp_all add: sample_files_def span_def)
  have "archived (one_file ''app'' [7, 8, 9]) 0x1000 0 sample_files" "load64 (one_file ''app'' [7, 8, 9]) (hd_node 0x1000) = 0"
    "one_file ''app'' [7, 8, 9] (0x1000 + of_nat (span (length [7, 8, 9 :: u8]))) = 0"
    unfolding sample_files_def by (rule one_file_archived; simp)+
  moreover have "span (length [7, 8, 9 :: u8]) = 1024" by (simp add: span_def)
  ultimately show ?thesis
    using rd_mount_archive [where m = "one_file ''app'' [7, 8, 9]" and b = "0x1000" and es = sample_files and sz = "0x800" and nxt = "0x9000"] t
    by auto
qed

lemma initrd_resolve_ok:
  assumes "rd_inv b es s" "rd_next s + 1 \<noteq> 0" "findMountPoint mt [''initrd'', name] = Some \<lparr>mp_node = RdRoot, mp_path = ''/initrd''\<rparr>"
    "name \<noteq> []" "CHR ''/'' \<notin> set name"
  shows "case map_of es name of
      None \<Rightarrow> resolvePath initrd_ops s mt (''/initrd/'' @ name) = Some (Inr (Inl (- ENOENT), s))
    | Some data \<Rightarrow> \<exists>a s'. resolvePath initrd_ops s mt (''/initrd/'' @ name) = Some (Inr (Inr (RdFile a), s')) \<and>
        rd_inv b es s' \<and> rd_size s' (RdFile a) = Inr (of_nat (length data)) \<and>
        (\<forall>n. rd_read s' (RdFile a) 0 n = Some (Inr (int (min (unat n) (length data)), take (unat n) data)))"
proof -
  have p: "abs_path ([''initrd''] @ [name]) = ''/initrd/'' @ name" "abs_path [''initrd''] = ''/initrd''"
    by (simp_all add: abs_path_def join_path_def)
  have "resolvePath initrd_ops s mt (''/initrd/'' @ name) = walk initrd_ops s RdRoot [name]"
    using resolve_canonical [of mt "[''initrd'']" "[name]" "\<lparr>mp_node = RdRoot, mp_path = ''/initrd''\<rparr>" initrd_ops s] assms(3,4,5) p
    by (simp add: path_names_def del: walk.simps)
  then show ?thesis using initrd_lookup [OF assms(1,2), of name]
    by (auto simp: initrd_ops_def rd_type_def rd_open_def rd_close_def mode_defs split: option.splits)
qed

text \<open>
  \<open>C28\<close> A file of the mounted archive is found under \<open>/initrd\<close> by its name, and reading it from the start
  returns its contents; a name that is not in the archive gives \<open>-ENOENT\<close> and changes nothing. Any
  number of lookups can follow one another, because each keeps the invariant of the mounted archive.
\<close>

theorem initrd_resolve:
  assumes "rd_inv b es s" "rd_next s + 1 \<noteq> 0" "findMountPoint mt [''initrd'', name] = Some \<lparr>mp_node = RdRoot, mp_path = ''/initrd''\<rparr>"
    "name \<noteq> []" "CHR ''/'' \<notin> set name"
  shows "case map_of es name of
      None \<Rightarrow> resolvePath initrd_ops s mt (''/initrd/'' @ name) = Some (Inr (Inl (- ENOENT), s))
    | Some data \<Rightarrow> \<exists>a s'. resolvePath initrd_ops s mt (''/initrd/'' @ name) = Some (Inr (Inr (RdFile a), s')) \<and>
        rd_inv b es s' \<and> rd_size s' (RdFile a) = Inr (of_nat (length data)) \<and>
        (\<forall>n. rd_read s' (RdFile a) 0 n = Some (Inr (int (min (unat n) (length data)), take (unat n) data)))"
  using assms by (rule initrd_resolve_ok)

definition sample_rd :: initrd where
  "sample_rd = one_rd ''app'' [7, 8, 9]"

lemma sample_rd_inv: "rd_inv 0x1000 sample_files sample_rd"
  unfolding sample_files_def sample_rd_def by (rule one_rd_inv) simp_all

lemmas sample_mount = initrd_mount [of "''app''", simplified]

theorem initrd_resolve_witness:
  "\<exists>a s'. resolvePath initrd_ops sample_rd (mountNode (fs_init RdRoot) ''/initrd'' RdRoot) ''/initrd/app''
      = Some (Inr (Inr (RdFile a), s')) \<and> rd_read s' (RdFile a) 0 2 = Some (Inr (2, [7, 8]))"
proof -
  have "map_of sample_files ''app'' = Some [7, 8, 9]" by (simp add: sample_files_def)
  then obtain a s' where "resolvePath initrd_ops sample_rd (mountNode (fs_init RdRoot) ''/initrd'' RdRoot) (''/initrd/'' @ ''app'')
      = Some (Inr (Inr (RdFile a), s'))" "\<forall>n. rd_read s' (RdFile a) 0 n = Some (Inr (int (min (unat n) 3), take (unat n) [7, 8, 9]))"
    using initrd_resolve [OF sample_rd_inv _ sample_mount] by (auto simp: sample_rd_def one_rd_def numeral_3_eq_3)
  then show ?thesis by auto
qed

section \<open>A file as a device\<close>

text \<open>A file of the ram disk serves as the device of another file system, as \<open>ext2.bin\<close> does at start-up.\<close>

definition file_bytes :: "kmem \<Rightarrow> ifile \<Rightarrow> u8 list" where
  "file_bytes m f = bytes_at m (if_start f) (unat (if_size f))"

lemma drop_bytes_at: "drop k (bytes_at m a n) = bytes_at m (a + of_nat k) (n - k)"
  by (rule nth_equalityI) (auto simp: bytes_at_def add.assoc)

lemma take_bytes_at: "take k (bytes_at m a n) = bytes_at m a (min k n)"
  by (rule nth_equalityI) (auto simp: bytes_at_def)

interpretation rdf: block_device "file_read m f" "file_bytes m f" for m f
proof unfold_locales
  fix off :: u64 and n :: u32
  assume "unat off + unat n \<le> length (file_bytes m f)"
  then have le: "unat off + unat n \<le> unat (if_size f)" by (simp add: file_bytes_def)
  define r where "r = (if ucast n < if_size f then ucast n else if_size f)"
  have r: "unat r = unat n"
    using le unat_ucast_u32 [of n] by (auto simp: r_def word_less_nat_alt)
  then have "sint r = int (unat n)" using unat_lt_2p32 [of n] sint_small_u64 [of r] by simp
  moreover have "take (unat n) (drop (unat off) (file_bytes m f)) = bytes_at m (if_start f + off) (unat n)"
    using le by (simp add: file_bytes_def drop_bytes_at take_bytes_at)
  ultimately show "file_read m f off n = (int (unat n), take (unat n) (drop (unat off) (file_bytes m f)))"
    using r by (simp add: file_read_def r_def)
qed

end
