(* ===== verification/Terminal.thy ===== *)
theory Terminal
  imports Prelude KString
begin

text \<open>
  \<open>kernel/terminal.cpp\<close>: the text console and the formatted printing that the log shares. The video
  memory is the list of its 16-bit cells, row after row; \<open>memmove\<close> and \<open>memset\<close> of whole rows are
  operations on this list. The coordinates are \<open>uint32\<close>, with the wrap-around of \<open>y++\<close> written out (\<open>x\<close>
  stays below the width). A \<open>String\<close> is represented by its characters, \<open>push\<close> by appending one.
\<close>

section \<open>The screen\<close>

record console =
  tx :: nat
  ty :: nat
  twidth :: nat
  theight :: nat
  tstyle :: u8
  tvideo :: u64
  tcells :: "u16 list"

record framebuffer =
  fb_address :: u64
  fb_width :: nat
  fb_height :: nat
  fb_type :: nat

text \<open>\<open>init\<close>; \<open>cells\<close> is the memory behind the new address. The static initial values are \<open>term_boot\<close>.\<close>

definition term_boot :: "u64 \<Rightarrow> u16 list \<Rightarrow> console" where
  "term_boot video cells = \<lparr>tx = 0, ty = 0, twidth = 80, theight = 25, tstyle = 0x07, tvideo = video, tcells = cells\<rparr>"

definition term_init :: "console \<Rightarrow> framebuffer option \<Rightarrow> (u64 \<Rightarrow> u64) \<Rightarrow> u16 list \<Rightarrow> console" where
  "term_init t fb toVirtual cells =
     (case fb of None \<Rightarrow> t
      | Some f \<Rightarrow> if fb_type f \<noteq> 2 then t
                  else t\<lparr>tvideo := toVirtual (fb_address f), twidth := fb_width f, theight := fb_height f,
                         tstyle := 0x07, tcells := cells\<rparr>)"

text \<open>A character is signed: a byte of 128 or more also sets the style bits.\<close>

definition glyph :: "u8 \<Rightarrow> char \<Rightarrow> u16" where
  "glyph style c = scast (of_char c :: u8) OR push_bit 8 (ucast style)"

definition drawChar :: "console \<Rightarrow> char \<Rightarrow> nat \<Rightarrow> nat \<Rightarrow> console res" where
  "drawChar t c x y =
     assert_res (x < twidth t) (assert_res (y < theight t) (
       let i = (y * twidth t + x) mod 2 ^ 32 in
       if i < length (tcells t) then Inr (t\<lparr>tcells := (tcells t)[i := glyph (tstyle t) c]\<rparr>) else Inl BadAccess))"

definition getChar :: "console \<Rightarrow> nat \<Rightarrow> nat \<Rightarrow> u8 res" where
  "getChar t x y =
     assert_res (x < twidth t) (assert_res (y < theight t) (
       let i = (y * twidth t + x) mod 2 ^ 32 in
       if i < length (tcells t) then Inr (ucast (tcells t ! i)) else Inl BadAccess))"

text \<open>The \<open>memmove\<close> of all rows but the first, and the \<open>memset\<close> of the last one.\<close>

definition scroll :: "console \<Rightarrow> console res" where
  "scroll t =
     (let w = twidth t; n = (theight t - 1) * w; c = tcells t in
      if n + w \<le> length c
      then let c1 = take n (drop w c) @ drop n c in
           Inr (t\<lparr>ty := theight t - 1, tcells := take n c1 @ replicate w 0 @ drop (n + w) c1\<rparr>)
      else Inl BadAccess)"

text \<open>The loop of backspace, from the right end of the line above to its last visible character.\<close>

fun back_scan :: "console \<Rightarrow> nat \<Rightarrow> u8 \<Rightarrow> nat \<Rightarrow> nat res" where
  "back_scan t y c 0 = Inr 0"
| "back_scan t y c (Suc x) =
     (if c = 0 \<or> c = of_char CHR '' '' then bind_res (getChar t x y) (\<lambda>c'. back_scan t y c' x) else Inr (Suc x))"

definition backspace :: "console \<Rightarrow> console res" where
  "backspace t =
     bind_res (if tx t > 0 then Inr (t\<lparr>tx := tx t - 1\<rparr>)
               else if ty t > 0
               then let y = ty t - 1; x = twidth t - 1 in
                    bind_res (getChar t x y) (\<lambda>c. bind_res (back_scan t y c x) (\<lambda>x'. Inr (t\<lparr>tx := x', ty := y\<rparr>)))
               else Inr t)
       (\<lambda>t'. drawChar t' (CHR 0x00) (tx t') (ty t'))"

definition printChar :: "console \<Rightarrow> char \<Rightarrow> console res" where
  "printChar t c =
     (if c = CHR 0x0A then Inr (t\<lparr>tx := 0, ty := (ty t + 1) mod 2 ^ 32\<rparr>)
      else if c = CHR 0x08 then backspace t
      else bind_res (if ty t \<ge> theight t then scroll t else Inr t) (\<lambda>t1.
           bind_res (drawChar t1 c (tx t1) (ty t1)) (\<lambda>t2.
           if tx t2 + 1 \<ge> twidth t2
           then let t3 = t2\<lparr>tx := 0, ty := (ty t2 + 1) mod 2 ^ 32\<rparr> in
                if ty t3 \<ge> theight t3 then scroll t3 else Inr t3
           else Inr (t2\<lparr>tx := tx t2 + 1\<rparr>))))"

text \<open>\<open>printStr\<close> of a buffer or a string, and \<open>safe::print\<close> and \<open>safe::println\<close> of a C string.\<close>

fun printStr :: "console \<Rightarrow> string \<Rightarrow> console res" where
  "printStr t [] = Inr t"
| "printStr t (c # cs) = bind_res (printChar t c) (\<lambda>t'. printStr t' cs)"

definition term_println :: "console \<Rightarrow> string \<Rightarrow> console res" where
  "term_println t cs = bind_res (printStr t cs) (\<lambda>t'. printChar t' (CHR 0x0A))"

section \<open>Formatting\<close>

function printInt :: "string \<Rightarrow> nat \<Rightarrow> string" where
  "printInt str v = (if v < 10 then str @ [char_of (48 + v)] else printInt str (v div 10) @ [char_of (48 + v mod 10)])"
  by pat_completeness auto
termination by (relation "measure snd") auto

definition hex_digit :: "nat \<Rightarrow> char" where
  "hex_digit v = (if v < 10 then char_of (48 + v) else char_of (55 + v))"

function printHex :: "string \<Rightarrow> nat \<Rightarrow> string" where
  "printHex str v = (if v < 16 then str @ [hex_digit v] else printHex str (v div 16) @ [hex_digit (v mod 16)])"
  by pat_completeness auto
termination by (relation "measure snd") auto

declare printInt.simps [simp del] printHex.simps [simp del]

text \<open>
  The variable arguments, with the type \<open>va_arg\<close> reads them at; taking an argument that is missing or
  of another type is undefined. The format is the characters in front of its terminating zero: a
  percent sign as the last of them makes \<open>format++\<close> step over the zero.
\<close>

datatype arg = AInt u32 | ALong u64 | AStr string

fun sprintf_from :: "string \<Rightarrow> string \<Rightarrow> arg list \<Rightarrow> (string \<times> arg list) res" where
  "sprintf_from str [] va = Inr (str, va)"
| "sprintf_from str (c # fmt) va =
     (if c \<noteq> CHR ''%'' then sprintf_from (str @ [c]) fmt va
      else case fmt of
        [] \<Rightarrow> Inl BadAccess
      | k # fmt' \<Rightarrow>
          if k = CHR ''i'' then (case va of AInt v # va' \<Rightarrow> sprintf_from (printInt str (unat v)) fmt' va' | _ \<Rightarrow> Inl BadAccess)
          else if k = CHR ''l'' then (case va of ALong v # va' \<Rightarrow> sprintf_from (printInt str (unat v)) fmt' va' | _ \<Rightarrow> Inl BadAccess)
          else if k = CHR ''x'' then
            (case va of ALong v # va' \<Rightarrow> sprintf_from (printHex (str @ ''0x'') (unat v)) fmt' va' | _ \<Rightarrow> Inl BadAccess)
          else if k = CHR ''s'' \<or> k = CHR ''S'' then
            (case va of AStr v # va' \<Rightarrow> sprintf_from (str @ v) fmt' va' | _ \<Rightarrow> Inl BadAccess)
          else sprintf_from str fmt' va)"

definition sprintf :: "string \<Rightarrow> string \<Rightarrow> arg list \<Rightarrow> string res" where
  "sprintf str fmt va = bind_res (sprintf_from str fmt va) (\<lambda>(str', va'). Inr str')"

definition kprintf :: "console \<Rightarrow> string \<Rightarrow> arg list \<Rightarrow> console res" where
  "kprintf t fmt va = bind_res (sprintf [] fmt va) (\<lambda>str. printStr t str)"

text \<open>\<open>safe::_printHex\<close> and \<open>safe::printInt\<close>, which print digit by digit without a buffer.\<close>

function safe_printHex_digits :: "console \<Rightarrow> nat \<Rightarrow> console res" where
  "safe_printHex_digits t v =
     (if v < 16 then printChar t (hex_digit v)
      else bind_res (safe_printHex_digits t (v div 16)) (\<lambda>t'. printChar t' (hex_digit (v mod 16))))"
  by pat_completeness auto
termination by (relation "measure snd") auto

definition safe_printHex :: "console \<Rightarrow> nat \<Rightarrow> console res" where
  "safe_printHex t v = bind_res (printStr t ''0x'') (\<lambda>t'. safe_printHex_digits t' v)"

function safe_printInt :: "console \<Rightarrow> nat \<Rightarrow> console res" where
  "safe_printInt t v =
     (if v < 10 then printChar t (char_of (48 + v))
      else bind_res (safe_printInt t (v div 10)) (\<lambda>t'. printChar t' (char_of (48 + v mod 10))))"
  by pat_completeness auto
termination by (relation "measure snd") auto

declare safe_printHex_digits.simps [simp del] safe_printInt.simps [simp del]

section \<open>Numbers are printed faithfully\<close>

fun dec_value :: "nat \<Rightarrow> string \<Rightarrow> nat" where
  "dec_value acc [] = acc"
| "dec_value acc (c # cs) = dec_value (10 * acc + (of_char c - 48)) cs"

definition hex_value1 :: "char \<Rightarrow> nat" where
  "hex_value1 c = (if of_char c < (65 :: nat) then of_char c - 48 else of_char c - 55)"

fun hex_value :: "nat \<Rightarrow> string \<Rightarrow> nat" where
  "hex_value acc [] = acc"
| "hex_value acc (c # cs) = hex_value (16 * acc + hex_value1 c) cs"

lemma dec_value_append: "dec_value acc (xs @ ys) = dec_value (dec_value acc xs) ys"
  by (induction acc xs rule: dec_value.induct) auto

lemma hex_value_append: "hex_value acc (xs @ ys) = hex_value (hex_value acc xs) ys"
  by (induction acc xs rule: hex_value.induct) auto

lemma printInt_prefix: "printInt str v = str @ printInt [] v"
proof (induction str v rule: printInt.induct)
  case (1 str v)
  then show ?case by (subst printInt.simps, subst (2) printInt.simps) auto
qed

lemma printHex_prefix: "printHex str v = str @ printHex [] v"
proof (induction str v rule: printHex.induct)
  case (1 str v)
  then show ?case by (subst printHex.simps, subst (2) printHex.simps) auto
qed

lemma dec_value_printInt: "dec_value 0 (printInt [] v) = v"
proof (induction "[] :: string" v rule: printInt.induct)
  case (1 v)
  then show ?case by (subst printInt.simps) (simp add: dec_value_append)
qed

lemma hex_value1_digit: "v < 16 \<Longrightarrow> hex_value1 (hex_digit v) = v"
  by (simp add: hex_value1_def hex_digit_def)

lemma hex_value_printHex: "hex_value 0 (printHex [] v) = v"
proof (induction "[] :: string" v rule: printHex.induct)
  case (1 v)
  then show ?case by (subst printHex.simps) (simp add: hex_value_append hex_value1_digit)
qed

lemma printStr_append: "printStr t (xs @ ys) = bind_res (printStr t xs) (\<lambda>t'. printStr t' ys)"
  by (induction t xs rule: printStr.induct) (auto simp: bind_res_def split: sum.splits)

lemma safe_printHex_eq: "safe_printHex_digits t v = printStr t (printHex [] v)"
proof (induction t v rule: safe_printHex_digits.induct)
  case (1 t v)
  then show ?case by (subst safe_printHex_digits.simps, subst printHex.simps) (simp add: printStr_append)
qed

lemma safe_printInt_eq: "safe_printInt t v = printStr t (printInt [] v)"
proof (induction t v rule: safe_printInt.induct)
  case (1 t v)
  then show ?case by (subst safe_printInt.simps, subst printInt.simps) (simp add: printStr_append)
qed

section \<open>Formatted printing\<close>

text \<open>
  A format as the list of its pieces, the arguments that belong to them, and the texts a piece may be
  printed as: a number as its digits without leading zeros.
\<close>

datatype piece = PLit char | PInt u32 | PLong u64 | PHex u64 | PStr string

fun fmt_of :: "piece \<Rightarrow> string" where
  "fmt_of (PLit c) = [c]"
| "fmt_of (PInt v) = ''%i''"
| "fmt_of (PLong v) = ''%l''"
| "fmt_of (PHex v) = ''%x''"
| "fmt_of (PStr v) = ''%s''"

fun args_of :: "piece \<Rightarrow> arg list" where
  "args_of (PLit c) = []"
| "args_of (PInt v) = [AInt v]"
| "args_of (PLong v) = [ALong v]"
| "args_of (PHex v) = [ALong v]"
| "args_of (PStr v) = [AStr v]"

definition decimal :: "string \<Rightarrow> bool" where
  "decimal cs \<longleftrightarrow> cs \<noteq> [] \<and> set cs \<subseteq> set ''0123456789'' \<and> (1 < length cs \<longrightarrow> hd cs \<noteq> CHR ''0'')"

definition hexadecimal :: "string \<Rightarrow> bool" where
  "hexadecimal cs \<longleftrightarrow> cs \<noteq> [] \<and> set cs \<subseteq> set ''0123456789ABCDEF'' \<and> (1 < length cs \<longrightarrow> hd cs \<noteq> CHR ''0'')"

fun denotes :: "piece \<Rightarrow> string \<Rightarrow> bool" where
  "denotes (PLit c) cs = (cs = [c])"
| "denotes (PInt v) cs = (decimal cs \<and> dec_value 0 cs = unat v)"
| "denotes (PLong v) cs = (decimal cs \<and> dec_value 0 cs = unat v)"
| "denotes (PHex v) cs = (\<exists>ds. cs = ''0x'' @ ds \<and> hexadecimal ds \<and> hex_value 0 ds = unat v)"
| "denotes (PStr v) cs = (cs = v)"

lemma dec_digit: "v < (10 :: nat) \<Longrightarrow> char_of (48 + v) \<in> set ''0123456789'' \<and> (0 < v \<longrightarrow> char_of (48 + v) \<noteq> CHR ''0'')"
proof -
  assume "v < (10 :: nat)"
  then have "v = 0 \<or> v = 1 \<or> v = 2 \<or> v = 3 \<or> v = 4 \<or> v = 5 \<or> v = 6 \<or> v = 7 \<or> v = 8 \<or> v = 9" by arith
  then show ?thesis by (elim disjE) (simp_all add: char_of_def bit_0)
qed

lemma hex_digit_set: "v < 16 \<Longrightarrow> hex_digit v \<in> set ''0123456789ABCDEF'' \<and> (0 < v \<longrightarrow> hex_digit v \<noteq> CHR ''0'')"
proof -
  assume "v < 16"
  then have "v = 0 \<or> v = 1 \<or> v = 2 \<or> v = 3 \<or> v = 4 \<or> v = 5 \<or> v = 6 \<or> v = 7 \<or> v = 8 \<or> v = 9 \<or>
    v = 10 \<or> v = 11 \<or> v = 12 \<or> v = 13 \<or> v = 14 \<or> v = 15" by arith
  then show ?thesis by (elim disjE) (simp_all add: hex_digit_def char_of_def bit_0)
qed

lemma printInt_decimal: "decimal (printInt [] v) \<and> (0 < v \<longrightarrow> hd (printInt [] v) \<noteq> CHR ''0'')"
proof (induction "[] :: string" v rule: printInt.induct)
  case (1 v)
  show ?case
  proof (cases "v < 10")
    case True
    then show ?thesis using dec_digit [of v] by (subst (1 2) printInt.simps) (simp add: decimal_def)
  next
    case False
    then have "0 < v div 10" by (simp add: div_greater_zero_iff)
    then show ?thesis using 1 False dec_digit [of "v mod 10"]
      by (subst (1 2) printInt.simps) (auto simp: decimal_def hd_append)
  qed
qed

lemma printHex_hexadecimal: "hexadecimal (printHex [] v) \<and> (0 < v \<longrightarrow> hd (printHex [] v) \<noteq> CHR ''0'')"
proof (induction "[] :: string" v rule: printHex.induct)
  case (1 v)
  show ?case
  proof (cases "v < 16")
    case True
    then show ?thesis using hex_digit_set [of v] by (subst (1 2) printHex.simps) (simp add: hexadecimal_def)
  next
    case False
    then have "0 < v div 16" by (simp add: div_greater_zero_iff)
    then show ?thesis using 1 False hex_digit_set [of "v mod 16"]
      by (subst (1 2) printHex.simps) (auto simp: hexadecimal_def hd_append)
  qed
qed

lemma sprintf_from_pieces:
  assumes "PLit (CHR ''%'') \<notin> set ps"
  shows "\<exists>texts. (\<forall>fmt va. sprintf_from str (concat (map fmt_of ps) @ fmt) (concat (map args_of ps) @ va)
      = sprintf_from (str @ concat texts) fmt va) \<and> list_all2 denotes ps texts"
  using assms
proof (induction ps arbitrary: str)
  case (Cons p ps)
  have "\<exists>cs. (\<forall>fmt va. sprintf_from str (fmt_of p @ fmt) (args_of p @ va) = sprintf_from (str @ cs) fmt va) \<and> denotes p cs"
  proof (cases p)
    case (PInt v)
    then show ?thesis using printInt_decimal dec_value_printInt printInt_prefix [of str] by (intro exI [of _ "printInt [] (unat v)"]) auto
  next
    case (PLong v)
    then show ?thesis using printInt_decimal dec_value_printInt printInt_prefix [of str] by (intro exI [of _ "printInt [] (unat v)"]) auto
  next
    case (PHex v)
    then show ?thesis using printHex_hexadecimal hex_value_printHex printHex_prefix [of "str @ ''0x''"]
      by (intro exI [of _ "''0x'' @ printHex [] (unat v)"]) auto
  qed (use Cons.prems in auto)
  then obtain cs where t: "\<And>fmt va. sprintf_from str (fmt_of p @ fmt) (args_of p @ va) = sprintf_from (str @ cs) fmt va"
    "denotes p cs" by blast
  obtain texts where ts: "\<And>fmt va. sprintf_from (str @ cs) (concat (map fmt_of ps) @ fmt) (concat (map args_of ps) @ va)
      = sprintf_from ((str @ cs) @ concat texts) fmt va" "list_all2 denotes ps texts"
    using Cons.IH [of "str @ cs"] Cons.prems by auto
  show ?case using t ts by (intro exI [of _ "cs # texts"]) simp
qed (simp add: exI [of _ "[]"])

text \<open>
  \<open>C35\<close> Formatted printing appends, for every piece of the format in order, the literal character, the
  string, or the digits of the number it is given, from which the number can be read back. A format that
  ends in a percent sign makes the loop step over the end of the format.
\<close>

theorem sprintf_correct:
  assumes "PLit (CHR ''%'') \<notin> set ps"
  shows "(\<exists>texts. sprintf str (concat (map fmt_of ps)) (concat (map args_of ps)) = Inr (str @ concat texts) \<and>
      list_all2 denotes ps texts) \<and>
    sprintf str (concat (map fmt_of ps) @ ''%'') (concat (map args_of ps)) = Inl BadAccess"
proof -
  obtain texts where t: "\<And>fmt va. sprintf_from str (concat (map fmt_of ps) @ fmt) (concat (map args_of ps) @ va)
      = sprintf_from (str @ concat texts) fmt va" "list_all2 denotes ps texts"
    using sprintf_from_pieces [OF assms] by blast
  show ?thesis using t(1) [of "[]" "[]"] t(1) [of "''%''" "[]"] t(2) by (auto simp: sprintf_def)
qed

theorem sprintf_correct_witness:
  "(\<exists>texts. sprintf [] ''n=%i'' [AInt 42] = Inr (concat texts) \<and> list_all2 denotes [PLit CHR ''n'', PLit CHR ''='', PInt 42] texts) \<and>
   sprintf [] ''n=%i%'' [AInt 42] = Inl BadAccess"
  using sprintf_correct [of "[PLit CHR ''n'', PLit CHR ''='', PInt 42]" "[]"] by simp

section \<open>The console as rows of cells\<close>

record screen =
  srows :: "u16 list list"
  scx :: nat
  scy :: nat

definition crows :: "nat \<Rightarrow> nat \<Rightarrow> u16 list \<Rightarrow> u16 list list" where
  "crows w h c = map (\<lambda>r. take w (drop (r * w) c)) [0..<h]"

definition screen_of :: "console \<Rightarrow> screen" where
  "screen_of t = \<lparr>srows = crows (twidth t) (theight t) (tcells t), scx = tx t, scy = ty t\<rparr>"

definition spec_scroll :: "nat \<Rightarrow> nat \<Rightarrow> screen \<Rightarrow> screen" where
  "spec_scroll w h S = S\<lparr>srows := tl (srows S) @ [replicate w 0], scy := h - 1\<rparr>"

definition spec_put :: "nat \<Rightarrow> nat \<Rightarrow> u16 \<Rightarrow> screen \<Rightarrow> screen" where
  "spec_put w h g S =
     (let S1 = (if h \<le> scy S then spec_scroll w h S else S);
          S2 = S1\<lparr>srows := (srows S1)[scy S1 := (srows S1 ! scy S1)[scx S1 := g]]\<rparr> in
      if scx S2 + 1 < w then S2\<lparr>scx := scx S2 + 1\<rparr>
      else if scy S2 + 1 < h then S2\<lparr>scx := 0, scy := scy S2 + 1\<rparr>
      else spec_scroll w h (S2\<lparr>scx := 0\<rparr>))"

text \<open>
  The invariant of the console; the cursor may be below the screen after line feeds, but only at the
  start of a line.
\<close>

definition con_inv :: "console \<Rightarrow> bool" where
  "con_inv t \<longleftrightarrow> 0 < theight t \<and> length (tcells t) = twidth t * theight t \<and> twidth t * theight t < 2 ^ 32 \<and>
     tx t < twidth t \<and> (0 < tx t \<longrightarrow> ty t < theight t)"

lemma length_crows [simp]: "length (crows w h c) = h"
  by (simp add: crows_def)

lemma nth_crows: "r < h \<Longrightarrow> crows w h c ! r = take w (drop (r * w) c)"
  by (simp add: crows_def)

lemma crows_scroll:
  assumes "length c = w * h" "0 < h"
  shows "crows w h (drop w c @ replicate w 0) = tl (crows w h c) @ [replicate w 0]"
proof (rule nth_equalityI)
  fix r assume "r < length (crows w h (drop w c @ replicate w 0))"
  then have r: "r < h" by simp
  show "crows w h (drop w c @ replicate w 0) ! r = (tl (crows w h c) @ [replicate w 0]) ! r"
  proof (cases "r = h - 1")
    case True
    have "r * w = length (drop w c)" using True assms by (cases h) (auto simp: mult.commute)
    then show ?thesis using True r by (simp add: nth_crows nth_append)
  next
    case False
    then have "Suc (Suc r) \<le> h" using r by simp
    then have "Suc (Suc r) * w \<le> w * h" by (metis mult.commute mult_le_mono1)
    then have fits: "r * w + w \<le> length (drop w c)" using assms by simp
    then have "take w (drop (r * w) (drop w c @ replicate w 0)) = take w (drop (Suc r * w) c)" by (simp add: add.commute)
    moreover have "r < h - Suc 0" using \<open>Suc (Suc r) \<le> h\<close> by linarith
    then have "(tl (crows w h c) @ [replicate w 0]) ! r = crows w h c ! Suc r"
      by (simp add: nth_append nth_tl)
    ultimately show ?thesis using r False by (simp add: nth_crows del: mult_Suc)
  qed
qed (use assms in simp)

lemma crows_update:
  assumes "length c = w * h" "x < w" "y < h"
  shows "crows w h (c[y * w + x := g]) = (crows w h c)[y := (crows w h c ! y)[x := g]]"
proof (rule nth_equalityI)
  fix r assume "r < length (crows w h (c[y * w + x := g]))"
  then have r: "r < h" by simp
  consider "r < y" | "r = y" | "y < r" by linarith
  then show "crows w h (c[y * w + x := g]) ! r = (crows w h c)[y := (crows w h c ! y)[x := g]] ! r"
  proof cases
    case 1
    then have "Suc r * w \<le> y * w" by (simp only: mult_le_mono1 Suc_leI)
    then have "w \<le> y * w + x - r * w" "r * w \<le> y * w + x" by simp_all
    then show ?thesis using 1 r by (simp add: nth_crows drop_update_swap take_update_cancel)
  next
    case 2
    then show ?thesis using r assms by (simp add: nth_crows drop_update_swap take_update_swap)
  next
    case 3
    then have "Suc y * w \<le> r * w" by (simp only: mult_le_mono1 Suc_leI)
    then have "y * w + x < r * w" using assms by simp
    then show ?thesis using 3 r by (simp add: nth_crows drop_update_cancel)
  qed
qed simp

lemma scroll_ok:
  assumes "length (tcells t) = twidth t * theight t" "0 < theight t"
  shows "scroll t = Inr (t\<lparr>ty := theight t - 1, tcells := drop (twidth t) (tcells t) @ replicate (twidth t) 0\<rparr>)"
proof -
  obtain k where k: "theight t = Suc k" using assms(2) gr0_conv_Suc by auto
  then have "length (tcells t) = k * twidth t + twidth t" using assms(1) by simp
  then show ?thesis using k by (simp add: scroll_def Let_def)
qed

lemma cell_index:
  fixes x y w h :: nat
  assumes "x < w" "y < h"
  shows "y * w + x < w * h"
proof -
  have "Suc y * w \<le> h * w" using assms(2) by (simp only: mult_le_mono1 Suc_leI)
  then show ?thesis using assms(1) by (simp add: mult.commute)
qed

lemma drawChar_ok:
  assumes "con_inv t" "y < theight t" "x < twidth t"
  shows "drawChar t c x y = Inr (t\<lparr>tcells := (tcells t)[y * twidth t + x := glyph (tstyle t) c]\<rparr>)"
  using assms cell_index [OF assms(3,2)] by (simp add: con_inv_def drawChar_def)

lemma getChar_ok: "con_inv t \<Longrightarrow> y < theight t \<Longrightarrow> x < twidth t \<Longrightarrow> \<exists>c. getChar t x y = Inr c"
  using cell_index [of x "twidth t" y "theight t"] by (simp add: con_inv_def getChar_def)

lemma con_inv_scroll:
  assumes "length (tcells t) = twidth t * theight t" "0 < theight t" "twidth t * theight t < 2 ^ 32" "tx t < twidth t"
  shows "\<exists>t'. scroll t = Inr t' \<and> con_inv t' \<and> screen_of t' = spec_scroll (twidth t) (theight t) (screen_of t) \<and>
    ty t' < theight t' \<and> tx t' = tx t \<and> twidth t' = twidth t \<and> theight t' = theight t \<and> tstyle t' = tstyle t"
proof -
  have "twidth t \<le> twidth t * theight t" using assms(2) by simp
  then show ?thesis using assms scroll_ok [OF assms(1,2)] crows_scroll [OF assms(1,2)]
    by (simp add: con_inv_def screen_of_def spec_scroll_def)
qed

lemma put_char:
  assumes inv: "con_inv t" and y: "ty t < theight t"
  shows "\<exists>t'. bind_res (drawChar t c (tx t) (ty t)) (\<lambda>t2.
      if tx t2 + 1 \<ge> twidth t2
      then let t3 = t2\<lparr>tx := 0, ty := (ty t2 + 1) mod 2 ^ 32\<rparr> in if ty t3 \<ge> theight t3 then scroll t3 else Inr t3
      else Inr (t2\<lparr>tx := tx t2 + 1\<rparr>)) = Inr t' \<and> con_inv t' \<and> twidth t' = twidth t \<and> theight t' = theight t \<and>
    screen_of t' = spec_put (twidth t) (theight t) (glyph (tstyle t) c) (screen_of t)"
proof -
  have x: "tx t < twidth t" and len: "length (tcells t) = twidth t * theight t" and lim: "twidth t * theight t < 2 ^ 32"
    using inv by (simp_all add: con_inv_def)
  define t2 where "t2 = t\<lparr>tcells := (tcells t)[ty t * twidth t + tx t := glyph (tstyle t) c]\<rparr>"
  have d: "drawChar t c (tx t) (ty t) = Inr t2" using drawChar_ok [OF inv y x] by (simp add: t2_def)
  have s2: "crows (twidth t) (theight t) (tcells t2)
      = (crows (twidth t) (theight t) (tcells t))[ty t := (crows (twidth t) (theight t) (tcells t) ! ty t)[tx t := glyph (tstyle t) c]]"
    using crows_update [OF len x y] by (simp add: t2_def)
  have "ty t < twidth t * theight t" using cell_index [OF x y] x by (cases "twidth t") auto
  then have "ty t + 1 < 2 ^ 32" using lim by linarith
  then have ymod: "(ty t + 1) mod 2 ^ 32 = ty t + 1" by (rule mod_less)
  show ?thesis
  proof (cases "tx t + 1 < twidth t")
    case True
    then show ?thesis using d s2 y inv by (auto simp: t2_def con_inv_def screen_of_def spec_put_def Let_def)
  next
    case False
    show ?thesis
    proof (cases "ty t + 1 < theight t")
      case True
      then show ?thesis using d s2 y x inv False ymod
        by (auto simp: t2_def con_inv_def screen_of_def spec_put_def Let_def)
    next
      case b: False
      let ?t3 = "t2\<lparr>tx := 0, ty := ty t + 1\<rparr>"
      obtain t' where t': "scroll ?t3 = Inr t'" "con_inv t'" "twidth t' = twidth t" "theight t' = theight t"
        "screen_of t' = spec_scroll (twidth t) (theight t) (screen_of ?t3)"
        using con_inv_scroll [of ?t3] len lim x y by (auto simp: t2_def)
      have "screen_of t' = spec_put (twidth t) (theight t) (glyph (tstyle t) c) (screen_of t)"
        using t'(5) s2 y b False by (simp add: t2_def screen_of_def spec_put_def spec_scroll_def Let_def)
      then show ?thesis using d t' False b ymod by (simp add: t2_def Let_def)
    qed
  qed
qed

lemma printChar_visible:
  assumes "con_inv t" "c \<noteq> CHR 0x0A" "c \<noteq> CHR 0x08"
  shows "\<exists>t'. printChar t c = Inr t' \<and> con_inv t' \<and> twidth t' = twidth t \<and> theight t' = theight t \<and>
    screen_of t' = spec_put (twidth t) (theight t) (glyph (tstyle t) c) (screen_of t)"
proof (cases "theight t \<le> ty t")
  case False
  then show ?thesis using put_char [OF assms(1), of c] assms by (simp add: printChar_def)
next
  case True
  obtain t1 where t1: "scroll t = Inr t1" "con_inv t1" "ty t1 < theight t1" "twidth t1 = twidth t" "theight t1 = theight t"
    "tstyle t1 = tstyle t" "screen_of t1 = spec_scroll (twidth t) (theight t) (screen_of t)"
    using con_inv_scroll [of t] assms(1) by (auto simp: con_inv_def)
  have "spec_put (twidth t) (theight t) g (screen_of t1) = spec_put (twidth t) (theight t) g (screen_of t)" for g
    using t1(3,5,7) True assms(1) by (simp add: spec_put_def spec_scroll_def screen_of_def con_inv_def)
  then show ?thesis using put_char [OF t1(2,3), of c] t1 True assms by (simp add: printChar_def)
qed

text \<open>
  \<open>C34\<close> Printing a visible character refines the abstract screen of rows: it never faults, writes the
  character at the cursor and advances it; when the cursor is below the last row, or leaves it, every
  row moves up by one and the last row becomes blank.
\<close>

theorem printChar_refines:
  assumes "con_inv t" "c \<noteq> CHR 0x0A" "c \<noteq> CHR 0x08"
  shows "\<exists>t'. printChar t c = Inr t' \<and> con_inv t' \<and> twidth t' = twidth t \<and> theight t' = theight t \<and>
    screen_of t' = spec_put (twidth t) (theight t) (glyph (tstyle t) c) (screen_of t)"
  using assms by (rule printChar_visible)

definition sample_console :: console where
  "sample_console = \<lparr>tx = 1, ty = 1, twidth = 2, theight = 2, tstyle = 7, tvideo = 0, tcells = [0x741, 0x742, 0x743, 0]\<rparr>"

theorem printChar_refines_witness:
  "\<exists>t'. printChar sample_console CHR ''D'' = Inr t' \<and>
     screen_of t' = \<lparr>srows = [[0x743, 0x744], [0, 0]], scx = 0, scy = 1\<rparr>"
proof -
  have g: "glyph 7 CHR ''D'' = 0x744" by (simp add: glyph_def)
  have "con_inv sample_console" by (simp add: con_inv_def sample_console_def)
  from printChar_refines [OF this, of "CHR ''D''"] show ?thesis
    by (auto simp: g sample_console_def screen_of_def spec_put_def spec_scroll_def crows_def numeral_2_eq_2 Let_def)
qed

lemma back_scan_ok:
  assumes "con_inv t" "y < theight t" "x < twidth t"
  shows "\<exists>x'. back_scan t y c x = Inr x' \<and> x' \<le> x"
  using assms(3)
proof (induction x arbitrary: c)
  case (Suc x)
  obtain c' where "getChar t x y = Inr c'" using getChar_ok [OF assms(1,2)] Suc.prems by fastforce
  then show ?case using Suc.IH [of c'] Suc.prems by (auto intro: le_SucI)
qed simp

text \<open>
  Line feeds and backspaces keep the console well formed, except that a backspace stops the kernel
  when the cursor is two or more lines below the screen: line feeds are not bounded by the height, and
  backspace reads the line above the cursor before anything is scrolled.
\<close>

theorem console_control:
  assumes inv: "con_inv t"
  shows "(\<exists>t'. printChar t (CHR 0x0A) = Inr t' \<and> con_inv t' \<and> tcells t' = tcells t) \<and>
    (if ty t \<le> theight t then \<exists>t'. printChar t (CHR 0x08) = Inr t' \<and> con_inv t' \<and> ty t' \<le> ty t
     else printChar t (CHR 0x08) = Inl Panic)"
proof
  show "\<exists>t'. printChar t (CHR 0x0A) = Inr t' \<and> con_inv t' \<and> tcells t' = tcells t"
    using inv by (simp add: printChar_def con_inv_def)
next
  have x: "tx t < twidth t" and h: "0 < theight t" using inv by (simp_all add: con_inv_def)
  consider "0 < tx t" | "tx t = 0" "ty t = 0" | "tx t = 0" "0 < ty t" "ty t \<le> theight t" | "tx t = 0" "theight t < ty t"
    by linarith
  then show "if ty t \<le> theight t then \<exists>t'. printChar t (CHR 0x08) = Inr t' \<and> con_inv t' \<and> ty t' \<le> ty t
     else printChar t (CHR 0x08) = Inl Panic"
  proof cases
    case 1
    let ?t = "t\<lparr>tx := tx t - 1\<rparr>"
    have y: "ty t < theight t" "con_inv ?t" using inv 1 by (auto simp: con_inv_def)
    then show ?thesis using drawChar_ok [OF y(2), of "ty t" "tx t - 1"] x 1
      by (auto simp: printChar_def backspace_def con_inv_def)
  next
    case 2
    then show ?thesis using drawChar_ok [OF inv, of 0 0] x h inv by (auto simp: printChar_def backspace_def con_inv_def)
  next
    case 3
    have y: "ty t - 1 < theight t" using 3 by simp
    obtain c where c: "getChar t (twidth t - 1) (ty t - 1) = Inr c" using getChar_ok [OF inv y] x by fastforce
    obtain x' where x': "back_scan t (ty t - 1) c (twidth t - 1) = Inr x'" "x' \<le> twidth t - 1"
      using back_scan_ok [OF inv y, of "twidth t - 1" c] x by auto
    let ?t = "t\<lparr>tx := x', ty := ty t - 1\<rparr>"
    have i: "con_inv ?t" using inv y x x'(2) by (auto simp: con_inv_def)
    then show ?thesis using drawChar_ok [OF i, of "ty t - 1" x'] c x' y x 3
      by (auto simp: printChar_def backspace_def con_inv_def Let_def)
  next
    case 4
    then have "\<not> ty t - 1 < theight t" by simp
    then show ?thesis using 4 x by (simp add: printChar_def backspace_def getChar_def Let_def assert_res_def)
  qed
qed

theorem console_control_witness:
  "printChar (sample_console\<lparr>tx := 0, ty := 3\<rparr>) (CHR 0x08) = Inl Panic"
proof -
  have "con_inv (sample_console\<lparr>tx := 0, ty := 3\<rparr>)" by (simp add: con_inv_def sample_console_def)
  from console_control [OF this] show ?thesis by (simp add: sample_console_def)
qed

text \<open>Without backspaces printing never faults.\<close>

lemma printChar_ok: "con_inv t \<Longrightarrow> c \<noteq> CHR 0x08 \<Longrightarrow> \<exists>t'. printChar t c = Inr t' \<and> con_inv t'"
proof (cases "c = CHR 0x0A")
  case True
  assume "con_inv t"
  then show ?thesis using True by (simp add: printChar_def con_inv_def)
qed (use printChar_visible in blast)

lemma printStr_ok: "con_inv t \<Longrightarrow> CHR 0x08 \<notin> set cs \<Longrightarrow> \<exists>t'. printStr t cs = Inr t' \<and> con_inv t'"
proof (induction cs arbitrary: t)
  case (Cons c cs)
  obtain t1 where "printChar t c = Inr t1" "con_inv t1" using printChar_ok [OF Cons.prems(1), of c] Cons.prems(2) by auto
  then show ?case using Cons.IH [of t1] Cons.prems(2) by simp
qed simp

end
