(* ===== verification/Ext2.thy ===== *)
theory Ext2
  imports Initrd KHashMap
begin

text \<open>
  \<open>modules/ext2/ext2.cpp\<close> and \<open>modules/ext2/ext2.h\<close>: the read-only ext2 driver. The device is a node of
  another file system, given by its \<open>read\<close>: a function that returns the number of bytes and the bytes
  it stores at the start of the buffer. A packed structure that is read from the device is parsed from
  its bytes; memory that was never written holds the bytes \<open>junk\<close>. The \<open>uint32\<close> and \<open>uint64\<close> quantities
  are \<open>nat\<close>, with the wrap-around written out where a product or a sum can exceed the width.
  \<open>Ext2Node\<close> objects live in a store, \<open>delete\<close> removes them, and the use of a deleted node is a fault.
\<close>

section \<open>Structures on the device\<close>

definition MAGIC :: nat where "MAGIC = 0xEF53"
definition CACHE_SIZE :: nat where "CACHE_SIZE = 100"
definition sizeof_Superblock :: nat where "sizeof_Superblock = 208"
definition sizeof_BlockGroupDescriptor :: nat where "sizeof_BlockGroupDescriptor = 32"
definition sizeof_Inode :: nat where "sizeof_Inode = 128"

datatype volume_error = NoError | InvalidDeviceError | DeviceError | FsError | NotSupportedFeature

record superblock =
  sb_inodeCount :: nat
  sb_blockCount :: nat
  sb_resvBlockCount :: nat
  sb_freeBlockCount :: nat
  sb_freeInodeCount :: nat
  sb_firstDataBlock :: nat
  sb_logBlockSize :: nat
  sb_logFragSize :: nat
  sb_blocksPerGroup :: nat
  sb_fragsPerGroup :: nat
  sb_inodesPerGroup :: nat
  sb_mountTime :: nat
  sb_writeTime :: nat
  sb_mntCount :: nat
  sb_maxMntCount :: nat
  sb_magic :: nat
  sb_state :: nat
  sb_errors :: nat
  sb_minorRevLevel :: nat
  sb_lastCheck :: nat
  sb_checkInterval :: nat
  sb_creatorOS :: nat
  sb_revLevel :: nat
  sb_resUID :: nat
  sb_resGID :: nat
  sb_firstInode :: nat
  sb_inodeSize :: nat
  sb_blockGroupNum :: nat
  sb_featuresCompat :: nat
  sb_featuresIncompat :: nat
  sb_featuresRoCompat :: nat
  sb_uuid :: "u8 list"
  sb_volumeName :: string
  sb_lastMounted :: string
  sb_algorithmBitmap :: nat
  sb_preallocatedBlocks :: nat
  sb_preallocdDirBlocks :: nat
  sb_align :: nat

definition parse_super :: "u8 list \<Rightarrow> superblock" where
  "parse_super bs = \<lparr>sb_inodeCount = u32_at bs 0, sb_blockCount = u32_at bs 4,
     sb_resvBlockCount = u32_at bs 8, sb_freeBlockCount = u32_at bs 12, sb_freeInodeCount = u32_at bs 16,
     sb_firstDataBlock = u32_at bs 20, sb_logBlockSize = u32_at bs 24, sb_logFragSize = u32_at bs 28,
     sb_blocksPerGroup = u32_at bs 32, sb_fragsPerGroup = u32_at bs 36, sb_inodesPerGroup = u32_at bs 40,
     sb_mountTime = u32_at bs 44, sb_writeTime = u32_at bs 48, sb_mntCount = u16_at bs 52,
     sb_maxMntCount = u16_at bs 54, sb_magic = u16_at bs 56, sb_state = u16_at bs 58, sb_errors = u16_at bs 60,
     sb_minorRevLevel = u16_at bs 62, sb_lastCheck = u32_at bs 64, sb_checkInterval = u32_at bs 68,
     sb_creatorOS = u32_at bs 72, sb_revLevel = u32_at bs 76, sb_resUID = u16_at bs 80, sb_resGID = u16_at bs 82,
     sb_firstInode = u32_at bs 84, sb_inodeSize = u16_at bs 88, sb_blockGroupNum = u16_at bs 90,
     sb_featuresCompat = u32_at bs 92, sb_featuresIncompat = u32_at bs 96, sb_featuresRoCompat = u32_at bs 100,
     sb_uuid = take 16 (drop 104 bs), sb_volumeName = map byte_char (take 16 (drop 120 bs)),
     sb_lastMounted = map byte_char (take 64 (drop 136 bs)), sb_algorithmBitmap = u32_at bs 200,
     sb_preallocatedBlocks = u8_at bs 204, sb_preallocdDirBlocks = u8_at bs 205, sb_align = u16_at bs 206\<rparr>"

record inode =
  in_permissions :: nat
  in_type :: nat
  in_uid :: nat
  in_lowerSize :: nat
  in_accessTime :: nat
  in_creationTime :: nat
  in_modificationTime :: nat
  in_deletionTime :: nat
  in_gid :: nat
  in_linkCount :: nat
  in_blocksCount :: nat
  in_flags :: nat
  in_os1 :: nat
  in_blocks :: "nat list"
  in_generation :: nat
  in_fileACL :: nat
  in_upperSize :: nat
  in_fragmentAddress :: nat
  in_os2 :: "u8 list"

definition parse_inode :: "u8 list \<Rightarrow> inode" where
  "parse_inode bs = \<lparr>in_permissions = u16_at bs 0 mod 2 ^ 12, in_type = u16_at bs 0 div 2 ^ 12,
     in_uid = u16_at bs 2, in_lowerSize = u32_at bs 4, in_accessTime = u32_at bs 8, in_creationTime = u32_at bs 12,
     in_modificationTime = u32_at bs 16, in_deletionTime = u32_at bs 20, in_gid = u16_at bs 24,
     in_linkCount = u16_at bs 26, in_blocksCount = u32_at bs 28, in_flags = u32_at bs 32, in_os1 = u32_at bs 36,
     in_blocks = map (\<lambda>k. u32_at bs (40 + 4 * k)) [0..<15], in_generation = u32_at bs 100,
     in_fileACL = u32_at bs 104, in_upperSize = u32_at bs 108, in_fragmentAddress = u32_at bs 112,
     in_os2 = take 12 (drop 116 bs)\<rparr>"

record direntry =
  de_inode :: nat
  de_size :: nat
  de_name :: string
  de_type :: nat

text \<open>An entry at an offset of a block; its name may not run past the end of the buffer it is read from.\<close>

definition parse_entry :: "u8 list \<Rightarrow> nat \<Rightarrow> direntry res" where
  "parse_entry buf off =
     (if off + 8 \<le> length buf \<and> off + 8 + u8_at buf (off + 6) \<le> length buf
      then Inr \<lparr>de_inode = u32_at buf off, de_size = u16_at buf (off + 4),
                de_name = map byte_char (take (u8_at buf (off + 6)) (drop (off + 8) buf)), de_type = u8_at buf (off + 7)\<rparr>
      else Inl BadAccess)"

definition fsTypeFromExtType :: "nat \<Rightarrow> u32" where
  "fsTypeFromExtType t = (if t = 4 then DIRECTORY_TYPE else FILE_TYPE)"

section \<open>The volume\<close>

record volume =
  v_super :: superblock
  v_blockGroups :: "u8 list"
  v_blockSize :: nat
  v_inodeSize :: nat
  v_blockGroupsCount :: nat
  v_readonly :: bool
  v_err :: volume_error

text \<open>
  The constructor of \<open>Volume\<close> up to the creation of the root node, with its early returns; the fields
  that are not set then keep what \<open>v0\<close> holds. \<open>volume_check\<close> gives the error and the new read-only flag.
\<close>

definition volume_check :: "superblock \<Rightarrow> bool \<Rightarrow> volume_error \<times> bool" where
  "volume_check sb readonly =
     (if sb_magic sb \<noteq> MAGIC then (InvalidDeviceError, readonly)
      else if sb_state sb \<noteq> 1 \<and> sb_errors sb \<noteq> 1 \<and> sb_errors sb \<noteq> 2 then (FsError, readonly)
      else let ro1 = (if sb_state sb \<noteq> 1 \<and> sb_errors sb = 2 then True else readonly) in
           if sb_revLevel sb > 0
           then if sb_featuresIncompat sb \<noteq> 0 then (NotSupportedFeature, ro1)
                else (NoError, if sb_featuresRoCompat sb \<noteq> 0 then True else ro1)
           else (NoError, ro1))"

definition volume_new :: "junk \<Rightarrow> (device \<times> u64) option \<Rightarrow> bool \<Rightarrow> volume \<Rightarrow> volume res" where
  "volume_new junk device readonly v0 =
     (case device of None \<Rightarrow> Inr (v0\<lparr>v_readonly := readonly, v_err := InvalidDeviceError\<rparr>)
      | Some (dev, devsize) \<Rightarrow>
      if devsize < 2048 then Inr (v0\<lparr>v_readonly := readonly, v_err := InvalidDeviceError\<rparr>)
      else bind_res (dev_into dev 1024 sizeof_Superblock (fresh_buf junk sizeof_Superblock)) (\<lambda>(r, bs).
      let sb = parse_super bs; (err, ro) = volume_check sb readonly in
      if r < int sizeof_Superblock then Inr (v0\<lparr>v_super := sb, v_readonly := readonly, v_err := DeviceError\<rparr>)
      else if err \<noteq> NoError then Inr (v0\<lparr>v_super := sb, v_readonly := ro, v_err := err\<rparr>)
      else let blockSize = unat (push_bit (sb_logBlockSize sb) (1024 :: u32));
               inodeSize = (if sb_revLevel sb > 0 then sb_inodeSize sb else 128) in
           if sb_blocksPerGroup sb = 0 then Inl DivZero
           else let count = sb_blockCount sb div sb_blocksPerGroup sb + (if sb_blockCount sb mod sb_blocksPerGroup sb \<noteq> 0 then 1 else 0);
                    table = (if blockSize = 1024 then 2 else 1) in
                bind_res (dev_into dev (table * blockSize mod 2 ^ 32) (count * sizeof_BlockGroupDescriptor)
                            (fresh_buf junk (count * sizeof_BlockGroupDescriptor))) (\<lambda>(_, groups).
                Inr (v0\<lparr>v_super := sb, v_blockGroups := groups, v_blockSize := blockSize, v_inodeSize := inodeSize,
                        v_blockGroupsCount := count, v_readonly := ro, v_err := NoError\<rparr>))))"

definition readInode :: "junk \<Rightarrow> device \<Rightarrow> volume \<Rightarrow> nat \<Rightarrow> (int \<times> inode) res" where
  "readInode junk dev v index =
     (let per = sb_inodesPerGroup (v_super v); k = (index + 2 ^ 32 - 1) mod 2 ^ 32 in
      if per = 0 then Inl DivZero
      else let group = k div per in
           if group * 32 + 12 \<le> length (v_blockGroups v)
           then let off = (u32_at (v_blockGroups v) (group * 32 + 8) * v_blockSize v + k mod per * v_inodeSize v) mod 2 ^ 32 in
                bind_res (dev_into dev off sizeof_Inode (fresh_buf junk sizeof_Inode)) (\<lambda>(r, bs).
                Inr (if r < int sizeof_Inode then - EIO else 0, parse_inode bs))
           else Inl BadAccess)"

text \<open>\<open>readBlock\<close> into the start of a buffer.\<close>

definition readBlock :: "device \<Rightarrow> volume \<Rightarrow> nat \<Rightarrow> u8 list \<Rightarrow> (int \<times> u8 list) res" where
  "readBlock dev v index buf =
     bind_res (dev_into dev (index * v_blockSize v mod 2 ^ 32) (v_blockSize v) buf) (\<lambda>(r, buf').
     Inr (if r < int (v_blockSize v) then - EIO else r, buf'))"

text \<open>
  \<open>readInodeData\<close>. The lambda that reads one block captures \<open>offset\<close>, \<open>end\<close> and \<open>bufferOffset\<close> by value
  when it is created: every call works with the original offset and stores at the start of the buffer.
\<close>

definition read_part :: "junk \<Rightarrow> device \<Rightarrow> volume \<Rightarrow> nat \<Rightarrow> nat \<Rightarrow> nat \<Rightarrow> u8 list \<Rightarrow> (int \<times> u8 list) res" where
  "read_part junk dev v offset endp index buf =
     (let bs = v_blockSize v;
          readOffset = offset mod bs;
          size0 = min ((endp + 2 ^ 64 - offset) mod 2 ^ 64) bs;
          readSize = (if readOffset + size0 > bs then bs - readOffset else size0) in
      assert_res (readOffset + readSize \<le> bs) (
        if readSize = 0 then Inr (0, buf)
        else if readOffset = 0 \<and> readSize = bs then readBlock dev v index buf
        else bind_res (readBlock dev v index (fresh_buf junk bs)) (\<lambda>(r, block).
             if r < 0 then Inr (r, buf)
             else bind_res (put_buf buf 0 (take readSize (drop readOffset block))) (\<lambda>buf'. Inr (int readSize, buf')))))"

text \<open>The two loops over block numbers: a value \<open>Some r\<close> is an early return of \<open>r\<close>.\<close>

fun read_blocks :: "(nat \<Rightarrow> u8 list \<Rightarrow> (int \<times> u8 list) res) \<Rightarrow> nat \<Rightarrow> nat list \<Rightarrow> nat \<Rightarrow> nat \<Rightarrow> u8 list
    \<Rightarrow> (int option \<times> nat \<times> nat \<times> u8 list) res" where
  "read_blocks part iend [] i boff buf = Inr (None, i, boff, buf)"
| "read_blocks part iend (p # ps) i boff buf =
     (if i \<ge> iend then Inr (Some (int boff), i, boff, buf)
      else bind_res (part p buf) (\<lambda>(r, buf').
           if r < 0 then Inr (Some r, i, boff, buf')
           else read_blocks part iend ps (Suc i) ((boff + nat r) mod 2 ^ 32) buf'))"

definition readInodeData :: "junk \<Rightarrow> device \<Rightarrow> volume \<Rightarrow> inode \<Rightarrow> nat \<Rightarrow> nat \<Rightarrow> u8 list \<Rightarrow> (int \<times> u8 list) res" where
  "readInodeData junk dev v inode offset sz buf =
     (let bs = v_blockSize v in
      if bs = 0 then Inl DivZero
      else let istart = offset div bs mod 2 ^ 32;
               endp = (offset + sz) mod 2 ^ 64;
               iend = (endp div bs + (if sz mod bs \<noteq> 0 then 1 else 0)) mod 2 ^ 32;
               part = read_part junk dev v offset endp in
      assert_res (iend \<ge> istart) (
      bind_res (read_blocks part iend (drop istart (take 12 (in_blocks inode))) istart 0 buf) (\<lambda>(ret, i, boff, buf1).
      case ret of Some r \<Rightarrow> Inr (r, buf1)
      | None \<Rightarrow>
          if i \<ge> iend then Inr (int boff, buf1)
          else bind_res (readBlock dev v (in_blocks inode ! 12) (fresh_buf junk bs)) (\<lambda>(_, pbuf).
               let pointers = map (\<lambda>k. u32_at pbuf (4 * k)) [0..<bs div 4] in
               bind_res (read_blocks part iend (drop (i - 12) pointers) i boff buf1) (\<lambda>(ret, i, boff, buf2).
               case ret of Some r \<Rightarrow> Inr (r, buf2)
               | None \<Rightarrow> if i \<ge> iend then Inr (int boff, buf2) else Inl Panic)))))"

section \<open>Nodes\<close>

record ext2node =
  en_inode :: inode
  en_index :: nat
  en_name :: string
  en_type :: u32
  en_ref :: nat

record ext2 =
  e_vol :: volume
  e_cache :: "(u32, nat) hashMap"
  e_node :: "nat \<Rightarrow> ext2node option"
  e_next :: nat

definition ext2_node :: "ext2 \<Rightarrow> nat \<Rightarrow> ext2node res" where
  "ext2_node s n = (case e_node s n of None \<Rightarrow> Inl BadAccess | Some en \<Rightarrow> Inr en)"

definition ext2_new_node :: "junk \<Rightarrow> device \<Rightarrow> ext2 \<Rightarrow> nat \<Rightarrow> string \<Rightarrow> ext2node res" where
  "ext2_new_node junk dev s index name =
     bind_res (readInode junk dev (e_vol s) index) (\<lambda>(_, inode).
     Inr \<lparr>en_inode = inode, en_index = index, en_name = name, en_type = fsTypeFromExtType (in_type inode), en_ref = 0\<rparr>)"

definition cacheOrCreateNode :: "junk \<Rightarrow> device \<Rightarrow> ext2 \<Rightarrow> nat \<Rightarrow> string \<Rightarrow> (nat \<times> ext2) res option" where
  "cacheOrCreateNode junk dev s index name =
     bind_opt (hm_get hash_u32 (e_cache s) (of_nat index)) (\<lambda>r.
     case r of Some n \<Rightarrow> Some (Inr (n, s))
     | None \<Rightarrow> Some (bind_res (ext2_new_node junk dev s index name) (\<lambda>en.
               bind_res (hm_set hash_u32 (e_cache s) (of_nat index) (e_next s)) (\<lambda>c.
               Inr (e_next s, s\<lparr>e_cache := c, e_node := (e_node s)(e_next s \<mapsto> en), e_next := Suc (e_next s)\<rparr>)))))"

definition ext2_type :: "ext2 \<Rightarrow> nat \<Rightarrow> u32 res" where
  "ext2_type s n = bind_res (ext2_node s n) (\<lambda>en. Inr (en_type en))"

definition ext2_open :: "ext2 \<Rightarrow> nat \<Rightarrow> u32 \<Rightarrow> (int \<times> ext2) res" where
  "ext2_open s n mode =
     bind_res (ext2_node s n) (\<lambda>en.
     if mode AND MODE_WRITE \<noteq> 0 \<and> v_readonly (e_vol s) then Inr (- EROFS, s)
     else Inr (0, s\<lparr>e_node := (e_node s)(n \<mapsto> en\<lparr>en_ref := Suc (en_ref en)\<rparr>)\<rparr>))"

definition ext2_close :: "ext2 \<Rightarrow> nat \<Rightarrow> (int \<times> ext2) res option" where
  "ext2_close s n =
     bind_opt (Some (ext2_node s n)) (\<lambda>en.
     if en_ref en = 0 then Some (Inl Panic)
     else if en_ref en = 1
     then bind_opt (hm_remove hash_u32 (e_cache s) (of_nat (en_index en))) (\<lambda>c.
          Some (Inr (0, s\<lparr>e_cache := c, e_node := (e_node s)(n := None)\<rparr>)))
     else Some (Inr (0, s\<lparr>e_node := (e_node s)(n \<mapsto> en\<lparr>en_ref := en_ref en - 1\<rparr>)\<rparr>)))"

definition ext2_read :: "junk \<Rightarrow> device \<Rightarrow> ext2 \<Rightarrow> nat \<Rightarrow> u64 \<Rightarrow> u32 \<Rightarrow> (int \<times> u8 list) res option" where
  "ext2_read junk dev s n offset sz =
     Some (bind_res (ext2_node s n) (\<lambda>en.
       readInodeData junk dev (e_vol s) (en_inode en) (unat offset) (unat sz) (fresh_buf junk (unat sz))))"

text \<open>
  The search of a directory. An entry of size zero makes the loop run for ever. When the offset leaves
  the block the next one is read, at the file offset before it is advanced.
\<close>

partial_function (option) dir_scan :: "(nat \<Rightarrow> u8 list \<Rightarrow> (int \<times> u8 list) res) \<Rightarrow> nat \<Rightarrow> string \<Rightarrow> nat \<Rightarrow> nat \<Rightarrow> nat \<Rightarrow> nat
    \<Rightarrow> u8 list \<Rightarrow> (int + direntry) res option" where
  "dir_scan rd bs name lower offset totalOffset fileOffset buffer =
     (if totalOffset < lower
      then case parse_entry buffer offset of
             Inl e \<Rightarrow> Some (Inl e)
           | Inr entry \<Rightarrow>
               if name = de_name entry then Some (Inr (Inr entry))
               else if offset + de_size entry \<ge> bs
               then case rd fileOffset buffer of
                      Inl e \<Rightarrow> Some (Inl e)
                    | Inr (r, buffer') \<Rightarrow>
                        if r < 0 then Some (Inr (Inl r))
                        else dir_scan rd bs name lower (offset + de_size entry - bs) (totalOffset + de_size entry)
                               (fileOffset + bs) buffer'
               else dir_scan rd bs name lower (offset + de_size entry) (totalOffset + de_size entry) fileOffset buffer
      else Some (Inr (Inl (- ENOENT))))"

declare dir_scan.simps [code]

definition ext2_findEntry :: "junk \<Rightarrow> device \<Rightarrow> ext2 \<Rightarrow> nat \<Rightarrow> string \<Rightarrow> ((int + nat) \<times> ext2) res option" where
  "ext2_findEntry junk dev s n name =
     bind_opt (Some (ext2_node s n)) (\<lambda>en.
     if en_type en AND DIRECTORY_TYPE = 0 then Some (Inr (Inl (- ENOTDIR), s))
     else let bs = v_blockSize (e_vol s); rd = (\<lambda>off. readInodeData junk dev (e_vol s) (en_inode en) off bs) in
          bind_opt (Some (rd 0 (fresh_buf junk bs))) (\<lambda>(r, buffer).
          if r < 0 then Some (Inr (Inl r, s))
          else bind_opt (dir_scan rd bs name (in_lowerSize (en_inode en)) 0 0 0 buffer) (\<lambda>found.
               case found of Inl e \<Rightarrow> Some (Inr (Inl e, s))
               | Inr entry \<Rightarrow> bind_opt (cacheOrCreateNode junk dev s (de_inode entry) (de_name entry)) (\<lambda>(n', s').
                   Some (Inr (Inr n', s'))))))"

text \<open>\<open>readDir\<close>: the entries from number \<open>offset\<close> on, written one behind the other into the caller's buffer.\<close>

definition entry_size :: "u8 list \<Rightarrow> nat \<Rightarrow> nat res" where
  "entry_size buf off = (if off + 6 \<le> length buf then Inr (u16_at buf (off + 4)) else Inl BadAccess)"

definition dirent_bytes :: "direntry \<Rightarrow> u8 list" where
  "dirent_bytes entry = le_bytes 4 (8 + length (de_name entry) + 1) @ le_bytes 4 (unat (fsTypeFromExtType (de_type entry)))
     @ map of_char (de_name entry) @ [0]"

function readDir_loop :: "(nat \<Rightarrow> u8 list \<Rightarrow> (int \<times> u8 list) res) \<Rightarrow> nat \<Rightarrow> nat \<Rightarrow> nat \<Rightarrow> nat \<Rightarrow> nat
    \<Rightarrow> nat \<Rightarrow> nat \<Rightarrow> nat \<Rightarrow> nat \<Rightarrow> nat \<Rightarrow> u8 list \<Rightarrow> u8 list \<Rightarrow> (int \<times> u8 list) res" where
  "readDir_loop rd bs lower offset lim sz i c fileOff off bufferOff data buffer =
     (if i < lim
      then bind_res (if i \<ge> offset
                     then bind_res (parse_entry data off) (\<lambda>entry.
                          if bufferOff + (8 + length (de_name entry) + 1) \<ge> sz then Inr None
                          else bind_res (put_buf buffer bufferOff (dirent_bytes entry)) (\<lambda>b.
                               Inr (Some (c + 1, bufferOff + (8 + length (de_name entry) + 1), b))))
                     else Inr (Some (c, bufferOff, buffer))) (\<lambda>step.
           case step of None \<Rightarrow> Inr (int c, buffer)
           | Some (c', bufferOff', buffer') \<Rightarrow>
               bind_res (entry_size data off) (\<lambda>d.
               if off + d \<ge> bs
               then if fileOff + bs + bs > lower then Inr (int c', buffer')
                    else bind_res (rd (fileOff + bs) data) (\<lambda>(_, data').
                         readDir_loop rd bs lower offset lim sz (Suc i) c' (fileOff + bs) (off + d - bs) bufferOff' data' buffer')
               else readDir_loop rd bs lower offset lim sz (Suc i) c' fileOff (off + d) bufferOff' data buffer'))
      else Inr (int c, buffer))"
  by pat_completeness auto
termination
  by (relation "measure (\<lambda>(rd, bs, lower, offset, lim, sz, i, c, fileOff, off, bufferOff, data, buffer). lim - i)") auto

definition ext2_readDir :: "junk \<Rightarrow> device \<Rightarrow> ext2 \<Rightarrow> nat \<Rightarrow> nat \<Rightarrow> nat \<Rightarrow> nat \<Rightarrow> u8 list \<Rightarrow> (int \<times> u8 list) res" where
  "ext2_readDir junk dev s n offset count sz buffer =
     bind_res (ext2_node s n) (\<lambda>en.
     if en_type en AND DIRECTORY_TYPE = 0 then Inr (- ENOTDIR, buffer)
     else let bs = v_blockSize (e_vol s); rd = (\<lambda>off. readInodeData junk dev (e_vol s) (en_inode en) off bs) in
          bind_res (rd 0 (fresh_buf junk bs)) (\<lambda>(_, data).
          readDir_loop rd bs (in_lowerSize (en_inode en)) offset ((offset + count) mod 2 ^ 32) sz 0 0 0 0 0 data buffer))"

definition ext2_ops :: "junk \<Rightarrow> device \<Rightarrow> (nat, ext2) node_ops" where
  "ext2_ops junk dev = \<lparr>no_type = ext2_type, no_open = ext2_open, no_close = ext2_close, no_read = ext2_read junk dev,
     no_write = base_write, no_findEntry = ext2_findEntry junk dev, no_size = base_size\<rparr>"

section \<open>The driver\<close>

definition ext2_identify :: "junk \<Rightarrow> (device \<times> u64) option \<Rightarrow> bool res" where
  "ext2_identify junk device =
     (case device of None \<Rightarrow> Inr False
      | Some (dev, devsize) \<Rightarrow>
          if devsize < 2048 then Inr False
          else bind_res (dev_into dev 1024 sizeof_Superblock (fresh_buf junk sizeof_Superblock)) (\<lambda>(r, bs).
               let sb = parse_super bs in
               Inr (if r < int sizeof_Superblock then False
                    else if sb_magic sb \<noteq> MAGIC then False
                    else if sb_revLevel sb < 1 then True
                    else sb_featuresIncompat sb = 0)))"

definition ext2_mount :: "junk \<Rightarrow> (device \<times> u64) option \<Rightarrow> string \<Rightarrow> volume \<Rightarrow> nat \<Rightarrow> (nat option \<times> ext2) res option" where
  "ext2_mount junk device name v0 addr =
     (let s0 = (\<lambda>v. \<lparr>e_vol = v, e_cache = hm_new_sized CACHE_SIZE, e_node = (\<lambda>_. None), e_next = addr\<rparr>) in
      case device of None \<Rightarrow> Some (Inr (None, s0 v0))
      | Some (dev, devsize) \<Rightarrow>
          bind_opt (Some (volume_new junk device False v0)) (\<lambda>v.
          if v_err v \<noteq> NoError then Some (Inr (None, s0 v))
          else bind_opt (cacheOrCreateNode junk dev (s0 v) 2 name) (\<lambda>(root, s). Some (Inr (Some root, s)))))"

section \<open>Reading files\<close>

lemma put_buf_start: "length bs \<le> length buf \<Longrightarrow> put_buf buf 0 bs = Inr (bs @ drop (length bs) buf)"
  by (simp add: put_buf_def)

lemma length_fresh_buf [simp]: "length (fresh_buf junk n) = n"
  by (simp add: fresh_buf_def)

lemma unat_of_nat_u32: "n < 2 ^ 32 \<Longrightarrow> unat (of_nat n :: u32) = n"
  by (simp add: unsigned_of_nat take_bit_nat_eq_self)

lemma part_size:
  fixes d x n bs :: nat
  assumes "x + n = min (x + d) bs" "x < bs"
  shows "(if x + min d bs > bs then bs - x else min d bs) = n" "x + n \<le> bs"
  using assms by (auto simp: min_def split: if_splits)

text \<open>When nothing is left to read, the loops return, whether or not block numbers remain.\<close>

lemma read_blocks_done:
  "i \<ge> iend \<Longrightarrow> read_blocks part iend ps i boff buf = Inr (if ps = [] then None else Some (int boff), i, boff, buf)"
  by (cases ps) auto

definition dev_block :: "u8 list \<Rightarrow> nat \<Rightarrow> nat \<Rightarrow> u8 list" where
  "dev_block content bs i = take bs (drop (i * bs) content)"

context block_device
begin

lemma dev_into_ok:
  assumes "off + n \<le> length content" "length content < 2 ^ 32" "n \<le> length buf"
  shows "dev_into read off n buf = Inr (int n, take n (drop off content) @ drop n buf)"
proof -
  have "unat (of_nat off :: u64) = off" "unat (of_nat n :: u32) = n"
    using assms(1,2) by (simp_all add: unat_of_nat_u64 unat_of_nat_u32)
  then show ?thesis using assms read_inside [of "of_nat off" "of_nat n"] by (simp add: dev_into_def put_buf_start)
qed

lemma readBlock_ok:
  assumes "v_blockSize v = bs" "Suc i * bs \<le> length content" "length content < 2 ^ 32" "bs \<le> length buf"
  shows "readBlock read v i buf = Inr (int bs, dev_block content bs i @ drop bs buf)"
proof -
  have "i * bs + bs \<le> length content" using assms(2) by simp
  moreover from this have "i * bs mod 2 ^ 32 = i * bs" using assms(3) by simp
  ultimately show ?thesis using assms dev_into_ok [of "i * bs" bs buf] by (simp add: readBlock_def dev_block_def)
qed

lemma read_part_ok:
  assumes "v_blockSize v = bs" "0 < bs" "Suc i * bs \<le> length content" "length content < 2 ^ 32"
    "offset mod bs + n = min (offset mod bs + (endp - offset)) bs" "offset \<le> endp" "endp < 2 ^ 64" "0 < n" "n \<le> length buf"
  shows "read_part junk read v offset endp i buf = Inr (int n, take n (drop (i * bs + offset mod bs) content) @ drop n buf)"
proof -
  let ?o = "offset mod bs"
  have o: "?o < bs" using assms(2) by simp
  have e: "(endp + 2 ^ 64 - offset) mod 2 ^ 64 = endp - offset"
  proof -
    have "endp + 2 ^ 64 - offset = (endp - offset) + 2 ^ 64" using assms(6) by (rule Nat.add_diff_assoc2 [symmetric])
    then have "(endp + 2 ^ 64 - offset) mod 2 ^ 64 = (endp - offset) mod 2 ^ 64" by (simp only: mod_add_self2)
    moreover have "endp - offset < 2 ^ 64" using assms(7) by linarith
    ultimately show ?thesis by (simp only: mod_less)
  qed
  have n: "(if ?o + min (endp - offset) bs > bs then bs - ?o else min (endp - offset) bs) = n" "?o + n \<le> bs"
    using part_size [OF assms(5) o] by blast+
  have rp: "read_part junk read v offset endp i buf = assert_res (?o + n \<le> bs) (
      if n = 0 then Inr (0, buf) else if ?o = 0 \<and> n = bs then readBlock read v i buf
      else bind_res (readBlock read v i (fresh_buf junk bs)) (\<lambda>(r, block).
           if r < 0 then Inr (r, buf)
           else bind_res (put_buf buf 0 (take n (drop ?o block))) (\<lambda>buf'. Inr (int n, buf'))))"
    unfolding read_part_def Let_def assms(1) e n(1) ..
  show ?thesis
  proof (cases "?o = 0 \<and> n = bs")
    case True
    then show ?thesis using n readBlock_ok [OF assms(1,3,4)] assms(1,8,9)
      by (simp add: rp dev_block_def)
  next
    case False
    have blk: "take n (drop ?o (dev_block content bs i)) = take n (drop (i * bs + ?o) content)"
    proof -
      have "min n (bs - ?o) = n" using n(2) by simp
      then show ?thesis by (simp add: dev_block_def drop_take add.commute)
    qed
    have "i * bs + ?o + n \<le> length content" using assms(3) n(2) by simp
    then have len: "length (take n (drop (i * bs + ?o) content)) = n" by simp
    have "length (dev_block content bs i) = bs" using assms(3) by (simp add: dev_block_def)
    then have dt: "take n (drop ?o (dev_block content bs i @ drop bs (fresh_buf junk bs))) = take n (drop (i * bs + ?o) content)"
      using n(2) blk by simp
    have "readBlock read v i (fresh_buf junk bs) = Inr (int bs, dev_block content bs i @ drop bs (fresh_buf junk bs))"
      using readBlock_ok [OF assms(1,3,4)] by simp
    then show ?thesis using False n dt len assms(1,8,9) put_buf_start [of "take n (drop (i * bs + ?o) content)" buf]
      by (auto simp: rp)
  qed
qed

lemma read_one_block:
  assumes "v_blockSize v = bs" "0 < bs" "bs < 2 ^ 31" "offset div bs < 12" "12 \<le> length (in_blocks ind)"
    "Suc (in_blocks ind ! (offset div bs)) * bs \<le> length content" "length content < 2 ^ 32" "0 < sz" "sz \<le> length buf"
    "offset mod bs + sz < bs \<or> offset mod bs = 0 \<and> sz = bs"
  shows "readInodeData junk read v ind offset sz buf
    = Inr (int sz, take sz (drop (in_blocks ind ! (offset div bs) * bs + offset mod bs) content) @ drop sz buf)"
proof -
  let ?k = "offset div bs" and ?b = "in_blocks ind ! (offset div bs)"
  let ?data = "take sz (drop (?b * bs + offset mod bs) content)"
  have "offset < 12 * bs" using assms(2,4) by (simp add: less_mult_imp_div_less div_less_iff_less_mult mult.commute)
  then have endp: "(offset + sz) mod 2 ^ 64 = offset + sz" and k32: "?k mod 2 ^ 32 = ?k"
    using assms(3,4,10) by auto
  have "(offset + sz) div bs + (if sz mod bs \<noteq> 0 then 1 else 0) = Suc ?k"
  proof (cases "offset mod bs = 0 \<and> sz = bs")
    case False
    then have lt: "offset mod bs + sz < bs" using assms(10) by blast
    have "offset + sz = ?k * bs + (offset mod bs + sz)" by simp
    then have "(offset + sz) div bs = ?k" using lt by (metis add.right_neutral div_less div_mult_self3 gr_implies_not0)
    then show ?thesis using lt assms(8) by simp
  qed (use assms(2) in \<open>simp add: div_add_self2\<close>)
  then have iend: "((offset + sz) div bs + (if sz mod bs \<noteq> 0 then 1 else 0)) mod 2 ^ 32 = Suc ?k" using assms(4) by simp
  have "offset mod bs + sz = min (offset mod bs + (offset + sz - offset)) bs" using assms(10) by auto
  then have part: "read_part junk read v offset (offset + sz) ?b buf = Inr (int sz, ?data @ drop sz buf)"
    using read_part_ok [OF assms(1,2,6,7), of offset sz "offset + sz" buf junk] assms(8,9) endp
    by (metis le_add1 mod_less_divisor zero_less_numeral zero_less_power)
  have sz32: "sz mod 2 ^ 32 = sz" using assms(3,10) by auto
  have cons: "drop ?k (take 12 (in_blocks ind)) = ?b # drop (Suc ?k) (take 12 (in_blocks ind))"
    using assms(4,5) Cons_nth_drop_Suc [of ?k "take 12 (in_blocks ind)"] by simp
  have "read_blocks (read_part junk read v offset (offset + sz)) (Suc ?k) (drop ?k (take 12 (in_blocks ind))) ?k 0 buf
      = read_blocks (read_part junk read v offset (offset + sz)) (Suc ?k) (drop (Suc ?k) (take 12 (in_blocks ind)))
          (Suc ?k) sz (?data @ drop sz buf)"
    using part sz32 by (simp add: cons)
  then show ?thesis using assms(1,2) endp k32 iend
    by (simp add: readInodeData_def Let_def read_blocks_done)
qed

lemma read_blocks_aligned:
  assumes "\<And>p buf. p \<in> set ps \<Longrightarrow> bs \<le> length buf \<Longrightarrow> part p buf = Inr (int bs, dev_block content bs p @ drop bs buf)"
    "\<forall>p \<in> set ps. Suc p * bs \<le> length content" "bs \<le> length buf" "boff + length ps * bs < 2 ^ 32"
  shows "read_blocks part (i + length ps) (ps @ rest) i boff buf
    = Inr (if rest = [] then None else Some (int (boff + length ps * bs)), i + length ps, boff + length ps * bs,
        (if ps = [] then buf else dev_block content bs (last ps) @ drop bs buf))"
  using assms
proof (induction ps arbitrary: i boff buf)
  case (Cons p ps)
  let ?buf = "dev_block content bs p @ drop bs buf"
  have len: "length (dev_block content bs p) = bs" using Cons.prems(2) by (auto simp: dev_block_def min_def)
  have "(boff + bs) mod 2 ^ 32 = boff + bs" using Cons.prems(4) by simp
  moreover have "part p buf = Inr (int bs, ?buf)" using Cons.prems(1,3) by simp
  ultimately have "read_blocks part (i + length (p # ps)) ((p # ps) @ rest) i boff buf
      = read_blocks part (Suc i + length ps) (ps @ rest) (Suc i) (boff + bs) ?buf" by simp
  also have "\<dots> = Inr (if rest = [] then None else Some (int (boff + bs + length ps * bs)), Suc i + length ps, boff + bs + length ps * bs,
        (if ps = [] then ?buf else dev_block content bs (last ps) @ drop bs ?buf))"
    using Cons.prems len by (intro Cons.IH) auto
  finally show ?case using len by (simp add: add.assoc)
qed (simp add: read_blocks_done)

lemma read_many_blocks:
  assumes "v_blockSize v = bs" "0 < bs" "12 * bs < 2 ^ 32" "0 < n" "k + n \<le> 12" "12 \<le> length (in_blocks ind)"
    "\<forall>j < n. Suc (in_blocks ind ! (k + j)) * bs \<le> length content" "length content < 2 ^ 32" "bs \<le> length buf"
  shows "readInodeData junk read v ind (k * bs) (n * bs) buf
    = Inr (int (n * bs), dev_block content bs (in_blocks ind ! (k + n - 1)) @ drop bs buf)"
proof -
  let ?ps = "take n (drop k (in_blocks ind))" and ?part = "read_part junk read v (k * bs) (k * bs + n * bs)"
  have len: "length ?ps = n" using assms(5,6) by simp
  have nth: "p \<in> set ?ps \<Longrightarrow> \<exists>j < n. p = in_blocks ind ! (k + j)" for p
    using assms(5,6) by (auto simp: in_set_conv_nth)
  have mult: "n * bs \<le> 12 * bs" "(k + n) * bs \<le> 12 * bs" using assms(5) by (auto intro: mult_le_mono1)
  have endp: "(k * bs + n * bs) mod 2 ^ 64 = k * bs + n * bs"
    using mult assms(3) by (intro mod_less) (simp add: add_mult_distrib)
  have dv: "(k * bs + n * bs) div bs = k + n" using assms(2) by (metis add_mult_distrib div_mult_self_is_m)
  have part: "?part p buf' = Inr (int bs, dev_block content bs p @ drop bs buf')" if p: "p \<in> set ?ps" and b: "bs \<le> length buf'" for p buf'
  proof -
    have "Suc p * bs \<le> length content" using nth [OF p] assms(7) by auto
    moreover have "bs = min (n * bs) bs" using assms(4) by simp
    moreover have "k * bs + n * bs < 2 ^ 64" using endp by (metis mod_less_divisor zero_less_numeral zero_less_power)
    ultimately show ?thesis
      using read_part_ok [OF assms(1,2) _ assms(8), of p "k * bs" bs "k * bs + n * bs" buf' junk] assms(2) b
      by (simp add: dev_block_def)
  qed
  have split: "drop k (take 12 (in_blocks ind)) = ?ps @ drop (k + n) (take 12 (in_blocks ind))"
  proof -
    have "drop k (take 12 (in_blocks ind)) = take n (drop k (take 12 (in_blocks ind))) @ drop n (drop k (take 12 (in_blocks ind)))"
      by (simp only: append_take_drop_id)
    moreover have "take n (drop k (take 12 (in_blocks ind))) = ?ps" using assms(5) by (simp add: drop_take take_take min_def)
    ultimately show ?thesis by (simp add: add.commute)
  qed
  have last: "last ?ps = in_blocks ind ! (k + n - 1)"
    using len assms(4,5,6) by (subst last_conv_nth) auto
  let ?rest = "drop (k + n) (take 12 (in_blocks ind))"
  have loop: "read_blocks ?part (k + n) (drop k (take 12 (in_blocks ind))) k 0 buf
      = Inr (if ?rest = [] then None else Some (int (n * bs)), k + n, n * bs,
          dev_block content bs (in_blocks ind ! (k + n - 1)) @ drop bs buf)"
  proof -
    have "\<forall>p \<in> set ?ps. Suc p * bs \<le> length content" using nth assms(7) by blast
    moreover have "0 + length ?ps * bs < 2 ^ 32" using mult(1) assms(3) unfolding len add_0 by (rule le_less_trans)
    ultimately have "read_blocks ?part (k + length ?ps) (?ps @ ?rest) k 0 buf
      = Inr (if ?rest = [] then None else Some (int (0 + length ?ps * bs)), k + length ?ps, 0 + length ?ps * bs,
          (if ?ps = [] then buf else dev_block content bs (last ?ps) @ drop bs buf))"
      using part assms(9) by (intro read_blocks_aligned) auto
    moreover have "?ps \<noteq> []" using len assms(4) by (metis less_irrefl list.size(3))
    ultimately show ?thesis by (simp only: split [symmetric] len last add_0 if_False)
  qed
  have k32: "k mod 2 ^ 32 = k" "(k + n + (if n * bs mod bs \<noteq> 0 then 1 else 0)) mod 2 ^ 32 = k + n" "k * bs div bs = k"
    using assms(2,5) by auto
  show ?thesis unfolding readInodeData_def Let_def assms(1) k32(3) endp dv k32(1,2) loop using assms(2) by simp
qed

end

definition sample_dev_mem :: kmem where
  "sample_dev_mem a = of_nat (unat a div 1024)"

definition sample_dev :: ifile where
  "sample_dev = \<lparr>if_header = 0, if_start = 0, if_size = 0x2000\<rparr>"

definition sample_volume :: volume where
  "sample_volume = \<lparr>v_super = parse_super [], v_blockGroups = [], v_blockSize = 1024, v_inodeSize = 128,
     v_blockGroupsCount = 1, v_readonly = False, v_err = NoError\<rparr>"

definition sample_inode :: inode where
  "sample_inode = (parse_inode (replicate 128 0))\<lparr>in_type := 8, in_lowerSize := 4096, in_blocks := [3, 5, 4, 6, 0, 0, 0, 0, 0, 0, 0, 0, 0, 0, 0]\<rparr>"


lemma sample_dev_length: "length (file_bytes sample_dev_mem sample_dev) = 8192"
  by (simp add: file_bytes_def sample_dev_def)


text \<open>
  A read of several blocks does not return the file: every block is stored at the start of the
  buffer, over the one before, so that afterwards the buffer begins with the last block and is
  unchanged behind it, while the return value claims that all bytes were read.
\<close>

theorem ext2_read_many_blocks:
  assumes "v_blockSize v = bs" "0 < bs" "12 * bs < 2 ^ 32" "0 < n" "k + n \<le> 12" "12 \<le> length (in_blocks ind)"
    "\<forall>j < n. Suc (in_blocks ind ! (k + j)) * bs \<le> length (file_bytes m f)" "length (file_bytes m f) < 2 ^ 32"
    "bs \<le> length buf"
  shows "readInodeData junk (file_read m f) v ind (k * bs) (n * bs) buf
    = Inr (int (n * bs), dev_block (file_bytes m f) bs (in_blocks ind ! (k + n - 1)) @ drop bs buf)"
  using assms by (rule rdf.read_many_blocks)

theorem ext2_read_many_blocks_witness:
  "readInodeData (\<lambda>_. 0xFF) (file_read sample_dev_mem sample_dev) sample_volume sample_inode 0 2048 (replicate 2048 0)
    = Inr (2048, dev_block (file_bytes sample_dev_mem sample_dev) 1024 5 @ replicate 1024 0)"
proof -
  have "\<forall>j < 2. Suc (in_blocks sample_inode ! (0 + j)) * 1024 \<le> length (file_bytes sample_dev_mem sample_dev)"
    using sample_dev_length by (auto simp: sample_inode_def less_2_cases_iff)
  from ext2_read_many_blocks [where v = sample_volume and junk = "\<lambda>_. 0xFF" and buf = "replicate 2048 0", OF _ _ _ _ _ _ this]
  show ?thesis by (simp add: sample_volume_def sample_inode_def file_bytes_def sample_dev_def)
qed

section \<open>Directories\<close>

text \<open>A block that consists of directory entries, one behind the other up to its end.\<close>

fun dir_entries :: "u8 list \<Rightarrow> nat \<Rightarrow> direntry list \<Rightarrow> bool" where
  "dir_entries buf off [] = (off = length buf)"
| "dir_entries buf off (e # es) = (parse_entry buf off = Inr e \<and> 0 < de_size e \<and> off + de_size e \<le> length buf \<and>
     dir_entries buf (off + de_size e) es)"

lemma dir_scan_block:
  assumes "dir_entries buf off es" "length buf = bs" "rd 0 buf = Inr (r, buf')" "0 \<le> r"
  shows "dir_scan rd bs name bs off off 0 buf = Some (Inr (case find (\<lambda>e. name = de_name e) es of
      None \<Rightarrow> Inl (- ENOENT) | Some e \<Rightarrow> Inr e))"
  using assms(1)
proof (induction es arbitrary: off)
  case Nil
  then show ?case using assms(2) by (subst dir_scan.simps) simp
next
  case (Cons e es)
  then have e: "parse_entry buf off = Inr e" "0 < de_size e" "off + de_size e \<le> bs" "dir_entries buf (off + de_size e) es"
    using assms(2) by auto
  show ?case
  proof (cases "name = de_name e \<or> off + de_size e < bs")
    case True
    then show ?thesis using e Cons.IH [OF e(4)] by (subst dir_scan.simps) auto
  next
    case False
    then have "off + de_size e = bs" using e(3) by simp
    moreover have "es = []"
    proof (cases es)
      case (Cons e' es')
      then show ?thesis using e(4) assms(2) calculation by auto
    qed
    moreover have "dir_scan rd bs name bs 0 bs bs buf' = Some (Inr (Inl (- ENOENT)))"
      by (subst dir_scan.simps) simp
    ultimately show ?thesis using e(1,2) False assms(3,4) by (subst dir_scan.simps) simp
  qed
qed

text \<open>
  Looking up a name in a directory of one block finds the first entry of that name and returns the
  node of its inode, from the cache or newly made; a name that is not there gives \<open>-ENOENT\<close>. (A second
  block of a directory is never searched: at the end of the first one it is the first one that is read
  again.)
\<close>

theorem ext2_findEntry_block:
  assumes "e_node s n = Some en" "en_type en AND DIRECTORY_TYPE \<noteq> 0" "v_blockSize (e_vol s) = bs" "in_lowerSize (en_inode en) = bs"
    "0 < bs" "bs < 2 ^ 31" "12 \<le> length (in_blocks (en_inode en))"
    "Suc (in_blocks (en_inode en) ! 0) * bs \<le> length (file_bytes m f)" "length (file_bytes m f) < 2 ^ 32"
    "dir_entries (dev_block (file_bytes m f) bs (in_blocks (en_inode en) ! 0)) 0 es"
  shows "ext2_findEntry junk (file_read m f) s n name = (case find (\<lambda>e. name = de_name e) es of
      None \<Rightarrow> Some (Inr (Inl (- ENOENT), s))
    | Some e \<Rightarrow> bind_opt (cacheOrCreateNode junk (file_read m f) s (de_inode e) (de_name e)) (\<lambda>(n', s'). Some (Inr (Inr n', s'))))"
proof -
  let ?blk = "dev_block (file_bytes m f) bs (in_blocks (en_inode en) ! 0)"
  have rd: "readInodeData junk (file_read m f) (e_vol s) (en_inode en) 0 bs buf = Inr (int bs, ?blk)" if "length buf = bs" for buf
    using rdf.read_one_block [of "e_vol s" bs 0 "en_inode en" m f bs buf junk] assms(3,5-9) that
    by (simp add: dev_block_def)
  have len: "length ?blk = bs" using assms(8) by (simp add: dev_block_def)
  have "dir_scan (\<lambda>off. readInodeData junk (file_read m f) (e_vol s) (en_inode en) off bs) bs name bs 0 0 0 ?blk
      = Some (Inr (case find (\<lambda>e. name = de_name e) es of None \<Rightarrow> Inl (- ENOENT) | Some e \<Rightarrow> Inr e))"
    using rd [OF len] by (intro dir_scan_block [OF assms(10) len]) auto
  then show ?thesis using assms(1-4) rd [of "fresh_buf junk bs"]
    by (simp add: ext2_findEntry_def ext2_node_def Let_def split: option.splits)
qed

section \<open>Lifetime of nodes\<close>

text \<open>No operation brings a deleted node back, and looking up a name touches no node that exists.\<close>

lemma findEntry_nodes:
  assumes "ext2_findEntry junk dev s n name = Some (Inr (r, s'))"
  shows "e_next s \<le> e_next s' \<and> (\<forall>k < e_next s. e_node s' k = e_node s k)"
  using assms
  by (auto simp: ext2_findEntry_def cacheOrCreateNode_def bind_opt_def bind_res_def Let_def
      split: option.splits sum.splits if_splits prod.splits)

lemma ext2_walk_keeps_deleted:
  assumes "walk (ext2_ops junk dev) s n cs = Some (Inr (r, s'))" "e_node s k = None" "k < e_next s"
  shows "e_node s' k = None"
  using assms
proof (induction cs arbitrary: s n)
  case (Cons c cs)
  let ?ops = "ext2_ops junk dev"
  show ?case
  proof (cases "e_node s n")
    case None
    then show ?thesis using Cons.prems(1) by (simp add: ext2_ops_def ext2_type_def ext2_node_def)
  next
    case (Some en)
    define s1 where "s1 = s\<lparr>e_node := (e_node s)(n \<mapsto> en\<lparr>en_ref := Suc (en_ref en)\<rparr>)\<rparr>"
    have op: "ext2_open s n MODE_READ = Inr (0, s1)" using Some by (simp add: ext2_open_def ext2_node_def mode_defs s1_def)
    have nk: "n \<noteq> k" using Some Cons.prems(2) by auto
    have s1: "e_node s1 k = None" "k < e_next s1" using Cons.prems(2,3) nk by (simp_all add: s1_def)
    show ?thesis
    proof (cases "en_type en AND DIRECTORY_TYPE = 0")
      case True
      then show ?thesis using Cons.prems(1,2) Some by (simp add: ext2_ops_def ext2_type_def ext2_node_def)
    next
      case dir: False
      from Cons.prems(1) obtain r1 s2 where f: "ext2_findEntry junk dev s1 n c = Some (Inr (r1, s2))"
        and rest: "(case r1 of Inl e \<Rightarrow> Some (Inr (Inl e, s2)) | Inr n' \<Rightarrow> bind_opt (ext2_close s2 n) (\<lambda>(_, s3). walk ?ops s3 n' cs))
          = Some (Inr (r, s'))"
        using dir Some op by (auto simp: ext2_ops_def ext2_type_def ext2_node_def bind_opt_def split: option.splits sum.splits)
      have s2: "e_node s2 k = None" "k < e_next s2" using findEntry_nodes [OF f] s1 by auto
      show ?thesis
      proof (cases r1)
        case (Inl e)
        then show ?thesis using rest s2 by simp
      next
        case (Inr n')
        with rest obtain x s3 where c: "ext2_close s2 n = Some (Inr (x, s3))" "walk ?ops s3 n' cs = Some (Inr (r, s'))"
          by (auto simp: bind_opt_def split: option.splits sum.splits)
        have "e_node s3 k = None \<and> k < e_next s3"
          using c(1) s2 nk by (auto simp: ext2_close_def ext2_node_def bind_opt_def split: option.splits sum.splits if_splits)
        then show ?thesis using Cons.IH [OF c(2)] by blast
      qed
    qed
  qed
qed simp

lemma ext2_walk_deletes:
  assumes w: "walk (ext2_ops junk dev) s n (c # cs) = Some (Inr (Inr n', s'))"
    and en: "e_node s n = Some en" "en_ref en = 0" "n < e_next s"
  shows "e_node s' n = None"
proof -
  let ?ops = "ext2_ops junk dev"
  define s1 where "s1 = s\<lparr>e_node := (e_node s)(n \<mapsto> en\<lparr>en_ref := Suc 0\<rparr>)\<rparr>"
  have op: "ext2_open s n MODE_READ = Inr (0, s1)" using en by (simp add: ext2_open_def ext2_node_def mode_defs s1_def)
  have dir: "en_type en AND DIRECTORY_TYPE \<noteq> 0" using w en(1) by (auto simp: ext2_ops_def ext2_type_def ext2_node_def)
  from w obtain m s2 where f: "ext2_findEntry junk dev s1 n c = Some (Inr (Inr m, s2))"
    and rest: "bind_opt (ext2_close s2 n) (\<lambda>(_, s3). walk ?ops s3 m cs) = Some (Inr (Inr n', s'))"
    using dir en(1) op
    by (auto simp: ext2_ops_def ext2_type_def ext2_node_def bind_opt_def split: option.splits sum.splits)
  have s2: "e_node s2 n = Some (en\<lparr>en_ref := Suc 0\<rparr>)" "n < e_next s2"
    using findEntry_nodes [OF f] en(3) by (auto simp: s1_def)
  from rest obtain x s3 where c: "ext2_close s2 n = Some (Inr (x, s3))" "walk ?ops s3 m cs = Some (Inr (Inr n', s'))"
    by (auto simp: bind_opt_def split: option.splits sum.splits)
  have "e_node s3 n = None \<and> n < e_next s3"
    using c(1) s2 by (auto simp: ext2_close_def ext2_node_def bind_opt_def split: option.splits sum.splits)
  then show ?thesis using ext2_walk_keeps_deleted [OF c(2)] by blast
qed

text \<open>
  \<open>C38\<close> The first path resolved on a mounted ext2 volume deletes the volume's root: \<open>resolvePath\<close> opens and
  closes every directory on its way, and the last \<open>close\<close> of a node deletes it, although the mount point
  still refers to the root. The next resolution of the same path uses the deleted node.
\<close>

theorem ext2_root_deleted:
  assumes "resolvePath (ext2_ops junk dev) s mt (abs_path cs) = Some (Inr (Inr n', s'))"
    and "findMountPoint mt cs = Some \<lparr>mp_node = root, mp_path = ''/''\<rparr>" "cs \<noteq> []" "path_names cs"
    and "e_node s root = Some en" "en_ref en = 0" "root < e_next s"
  shows "resolvePath (ext2_ops junk dev) s' mt (abs_path cs) = Some (Inl BadAccess)"
proof -
  obtain d ds where cs: "cs = d # ds" using assms(3) by (cases cs) auto
  have r: "resolvePath (ext2_ops junk dev) t mt (abs_path cs) = walk (ext2_ops junk dev) t root cs" for t
    using resolve_canonical [of mt "[]" cs "\<lparr>mp_node = root, mp_path = ''/''\<rparr>" "ext2_ops junk dev" t] assms(2,4)
    by (simp add: abs_path_def)
  then have "e_node s' root = None" using ext2_walk_deletes [OF _ assms(5-7)] assms(1) cs by metis
  then show ?thesis using r [of s'] cs by (simp add: ext2_ops_def ext2_type_def ext2_node_def)
qed

section \<open>A sample volume\<close>

text \<open>A directory block with one entry, \<open>a\<close>, whose inode 12 is cached beside the root.\<close>

definition dir_mem :: kmem where
  "dir_mem = store_bytes (\<lambda>_. 0) 0 [12, 0, 0, 0, 0, 4, 1, 1, 97]"

definition dir_entry :: direntry where
  "dir_entry = \<lparr>de_inode = 12, de_size = 1024, de_name = ''a'', de_type = 1\<rparr>"

definition dir_node :: ext2node where
  "dir_node = \<lparr>en_inode = (parse_inode (replicate 128 0))\<lparr>in_type := 4, in_lowerSize := 1024, in_blocks := replicate 15 0\<rparr>, en_index = 2, en_name = [],
     en_type = 2, en_ref = 0\<rparr>"

definition dir_cache :: "(u32, nat) hashMap" where
  "dir_cache = projr (bind_res (hm_set hash_u32 (hm_new_sized CACHE_SIZE) 2 5) (\<lambda>h. hm_set hash_u32 h 12 6))"

definition dir_state :: ext2 where
  "dir_state = \<lparr>e_vol = sample_volume, e_cache = dir_cache,
     e_node = [5 \<mapsto> dir_node, 6 \<mapsto> dir_node\<lparr>en_type := 1, en_index := 12\<rparr>], e_next = 7\<rparr>"

lemma dir_cache_ok: "hm_inv hash_u32 dir_cache" "hm_look hash_u32 dir_cache = [2 \<mapsto> 5, 12 \<mapsto> 6]"
proof -
  have new: "hm_inv hash_u32 (hm_new_sized CACHE_SIZE :: (u32, nat) hashMap)"
    "hm_look hash_u32 (hm_new_sized CACHE_SIZE :: (u32, nat) hashMap) = Map.empty"
    by (simp_all add: hm_new_sized_inv CACHE_SIZE_def)
  obtain h where h: "hm_set hash_u32 (hm_new_sized CACHE_SIZE :: (u32, nat) hashMap) 2 5 = Inr h" "hm_inv hash_u32 h"
    "hm_look hash_u32 h = [2 \<mapsto> 5]" using hm_set_new [OF new(1), of 2 5] new(2) by auto
  obtain h' where h': "hm_set hash_u32 h 12 6 = Inr h'" "hm_inv hash_u32 h'" "hm_look hash_u32 h' = [2 \<mapsto> 5, 12 \<mapsto> 6]"
    using hm_set_new [OF h(2), of 12 6] h(3) by auto
  show "hm_inv hash_u32 dir_cache" "hm_look hash_u32 dir_cache = [2 \<mapsto> 5, 12 \<mapsto> 6]"
    using h h' by (simp_all add: dir_cache_def)
qed

lemma dir_block: "dev_block (file_bytes dir_mem sample_dev) 1024 0 = bytes_at dir_mem 0 1024"
  by (simp add: dev_block_def file_bytes_def sample_dev_def take_bytes_at)

lemma dir_parse: "parse_entry (bytes_at dir_mem 0 1024) 0 = Inr dir_entry"
proof -
  have b: "bytes_at dir_mem 0 4 = [12, 0, 0, 0]" "bytes_at dir_mem 4 2 = [0, 4]" "bytes_at dir_mem 8 1 = [97]"
    by (simp_all add: bytes_at_eval dir_mem_def store_bytes_def)
  have "u32_at (bytes_at dir_mem 0 1024) 0 = 12" "u16_at (bytes_at dir_mem 0 1024) 4 = 1024"
    by (simp_all add: u32_at_def u16_at_def drop_bytes_at take_bytes_at b)
  moreover have "u8_at (bytes_at dir_mem 0 1024) 6 = 1" "u8_at (bytes_at dir_mem 0 1024) 7 = 1"
    by (simp_all add: u8_at_def bytes_at_def dir_mem_def store_bytes_def)
  moreover have "byte_char 97 = CHR ''a''" using byte_char_of_char [of "CHR ''a''"] by simp
  ultimately show ?thesis using b(3) by (simp add: parse_entry_def dir_entry_def drop_bytes_at take_bytes_at)
qed

lemma dir_is_block: "dir_entries (dev_block (file_bytes dir_mem sample_dev) 1024 0) 0 [dir_entry]"
  using dir_parse by (simp add: dir_block dir_entry_def)

lemma dir_dev_length: "length (file_bytes dir_mem sample_dev) = 8192"
  by (simp add: file_bytes_def sample_dev_def)

theorem ext2_findEntry_block_witness:
  "ext2_findEntry (\<lambda>_. 0) (file_read dir_mem sample_dev) dir_state 5 ''b'' = Some (Inr (Inl (- 2), dir_state))"
  using ext2_findEntry_block [of dir_state 5 dir_node 1024 dir_mem sample_dev "[dir_entry]" "\<lambda>_. 0" "''b''"]
    dir_is_block dir_dev_length
  by (simp add: dir_state_def dir_node_def sample_volume_def mode_defs dir_entry_def errno_defs)

theorem ext2_root_deleted_witness:
  "\<exists>s'. resolvePath (ext2_ops (\<lambda>_. 0) (file_read dir_mem sample_dev)) dir_state (mountNode (fs_init 0) ''/'' 5) ''/a''
      = Some (Inr (Inr 6, s')) \<and>
    resolvePath (ext2_ops (\<lambda>_. 0) (file_read dir_mem sample_dev)) s' (mountNode (fs_init 0) ''/'' 5) ''/a'' = Some (Inl BadAccess)"
proof -
  let ?ops = "ext2_ops (\<lambda>_. 0) (file_read dir_mem sample_dev)" and ?mt = "mountNode (fs_init 0) ''/'' 5"
  have mp: "findMountPoint ?mt [''a''] = Some \<lparr>mp_node = 5, mp_path = ''/''\<rparr>"
    by (simp add: findMountPoint_def isPathSubset_prefix path_eval)
  have p: "abs_path [''a''] = ''/a''" "path_names [''a'']" by (simp_all add: abs_path_def join_path_def path_names_def)
  define s1 where "s1 = dir_state\<lparr>e_node := (e_node dir_state)(5 \<mapsto> dir_node\<lparr>en_ref := Suc 0\<rparr>)\<rparr>"
  have rdf_blk: "readInodeData (\<lambda>_. 0) (file_read dir_mem sample_dev) sample_volume (en_inode dir_node) 0 1024 buf
      = Inr (1024, bytes_at dir_mem 0 1024)" if "length buf = 1024" for buf
    using rdf.read_one_block [of sample_volume 1024 0 "en_inode dir_node" dir_mem sample_dev 1024 buf "\<lambda>_. 0"] that
      dir_dev_length dir_block by (simp add: sample_volume_def dir_node_def dev_block_def)
  have sc: "dir_scan (\<lambda>off. readInodeData (\<lambda>_. 0) (file_read dir_mem sample_dev) sample_volume (en_inode dir_node) off 1024)
      1024 ''a'' 1024 0 0 0 (bytes_at dir_mem 0 1024) = Some (Inr (Inr dir_entry))"
    using dir_parse by (subst dir_scan.simps) (simp add: dir_entry_def)
  have cache: "cacheOrCreateNode (\<lambda>_. 0) dev s1 12 ''a'' = Some (Inr (6, s1))" for dev
    using hm_get_ok [OF dir_cache_ok(1), of 12] dir_cache_ok(2) by (simp add: cacheOrCreateNode_def s1_def dir_state_def)
  have find: "ext2_findEntry (\<lambda>_. 0) (file_read dir_mem sample_dev) s1 5 ''a'' = Some (Inr (Inr 6, s1))"
    using rdf_blk sc cache
    by (simp add: ext2_findEntry_def ext2_node_def s1_def dir_state_def dir_node_def mode_defs sample_volume_def dir_entry_def Let_def)
  obtain c where c: "hm_remove hash_u32 dir_cache 2 = Some (Inr c)" using hm_remove_returns [OF dir_cache_ok(1), of 2] dir_cache_ok(2) by auto
  have "walk ?ops dir_state 5 [''a''] = Some (Inr (Inr 6, s1\<lparr>e_cache := c, e_node := (e_node s1)(5 := None)\<rparr>))"
    using find c
    by (simp add: ext2_ops_def ext2_type_def ext2_open_def ext2_close_def ext2_node_def mode_defs s1_def dir_state_def dir_node_def)
  then have "resolvePath ?ops dir_state ?mt (abs_path [''a'']) = Some (Inr (Inr 6, s1\<lparr>e_cache := c, e_node := (e_node s1)(5 := None)\<rparr>))"
    using resolve_canonical [of ?mt "[]" "[''a'']" "\<lparr>mp_node = 5, mp_path = ''/''\<rparr>" ?ops dir_state] mp p
    by (simp add: abs_path_def join_path_def)
  from this ext2_root_deleted [OF this mp _ p(2), of dir_node] show ?thesis
    by (auto simp: p(1) dir_state_def dir_node_def)
qed

end
