(* ===== verification/Process.thy ===== *)
theory Process
  imports AddrSpace Sched KVector
begin

text \<open>
  \<open>kernel/scheduler/process.cpp\<close> and the memory part of \<open>kernel/scheduler/thread.cpp\<close>: processes, their
  file descriptors, and the creation and destruction of threads with their stacks. \<open>'n\<close> is the type of
  file system nodes, \<open>None\<close> the null pointer. Addresses of objects made by \<open>new\<close> or \<open>kmalloc\<close> are arguments.
\<close>

section \<open>Processes\<close>

record 'n fdentry =
  fd_node :: "'n option"
  fd_mode :: u32

record 'n process =
  pr_name :: string
  pr_id :: u32
  pr_threadIdCounter :: u32
  pr_entryPoint :: u64
  pr_space :: aspace
  pr_threads :: "nat vector"
  pr_fds :: "'n fdentry vector"

text \<open>
  \<open>createProcess\<close>; \<open>pid\<close> is the static counter of \<open>getNextProcessId\<close>. A pointer has 8 bytes and an \<open>FdEntry\<close>
  16, which matters to \<open>clear\<close>; \<open>entryPoint\<close> is left as \<open>new\<close> found it.
\<close>

definition createProcess :: "vmem \<Rightarrow> aspace \<Rightarrow> u32 \<Rightarrow> u64 \<Rightarrow> string \<Rightarrow> ('n process \<times> u32 \<times> vmem) res" where
  "createProcess m kspace pid junk name =
     bind_res (createAddressSpace m kspace) (\<lambda>(space, m').
     Inr (\<lparr>pr_name = name, pr_id = pid, pr_threadIdCounter = 0, pr_entryPoint = junk, pr_space = space,
           pr_threads = vec_clear 8 0 vec_new, pr_fds = vec_clear 16 \<lparr>fd_node = None, fd_mode = 0\<rparr> (vec_new_sized 10)\<rparr>, pid + 1, m'))"

text \<open>\<open>allocateFdEntry\<close>: the first entry without node, or a new one at the end.\<close>

function fd_search :: "'n fdentry vector \<Rightarrow> nat \<Rightarrow> nat option res" where
  "fd_search fds i =
     (if i < vsize fds
      then bind_res (vec_at fds i) (\<lambda>e. if fd_node e = None then Inr (Some i) else fd_search fds (Suc i))
      else Inr None)"
  by pat_completeness auto
termination
  by (relation "measure (\<lambda>(fds, i). vsize fds - i)") auto

declare fd_search.simps [simp del]

definition allocateFdEntry :: "'n fdentry vector \<Rightarrow> (nat \<times> 'n fdentry vector) res" where
  "allocateFdEntry fds =
     bind_res (fd_search fds 0) (\<lambda>r.
     case r of Some i \<Rightarrow> Inr (i, fds)
     | None \<Rightarrow> bind_res (vec_push fds \<lparr>fd_node = None, fd_mode = 0\<rparr>) (\<lambda>fds'. Inr (vsize fds' - 1, fds')))"

section \<open>Threads\<close>

definition KERNEL_STACK_SIZE :: nat where "KERNEL_STACK_SIZE = 0x1000"
definition USER_STACK_SIZE :: nat where "USER_STACK_SIZE = 0x10000"

record istate =
  is_rip :: u64
  is_cs :: u64
  is_rflags :: u64
  is_rsp :: u64
  is_ss :: u64

definition set_space :: "'n process \<Rightarrow> aspace \<Rightarrow> 'n process" where
  "set_space p space = p\<lparr>pr_space := space\<rparr>"

text \<open>
  \<open>createThread\<close>: the thread at the address \<open>t\<close> of the process at the address \<open>pa\<close>, and the interrupt state
  written to the top of its kernel stack. The size of the kernel stack is chosen as in the source.
\<close>

definition createThread :: "vmem \<Rightarrow> nat \<Rightarrow> 'n process \<Rightarrow> nat \<Rightarrow> u64 \<Rightarrow> bool \<Rightarrow> (thread \<times> istate \<times> 'n process \<times> vmem) res" where
  "createThread m pa p t entry userThread =
     (let id = pr_threadIdCounter p; p1 = p\<lparr>pr_threadIdCounter := id + 1\<rparr>;
          kernelStackSize = (if userThread then KERNEL_STACK_SIZE else USER_STACK_SIZE) in
      bind_res (mem_getFreePages m (pr_space p1) (kernelStackSize div 4096) 2) (\<lambda>(kva, m1, space1).
      let kernelStack = kva + of_nat kernelStackSize - sizeof_InterruptState;
          st0 = \<lparr>is_rip = (if entry \<noteq> 0 then entry else pr_entryPoint p), is_cs = 0, is_rflags = 0x202, is_rsp = 0, is_ss = 0\<rparr> in
      bind_res (if userThread
                then bind_res (mem_getFreePages m1 space1 (USER_STACK_SIZE div 4096) 6) (\<lambda>(uva, m2, space2).
                     Inr (st0\<lparr>is_cs := 0x2b, is_ss := 0x23, is_rsp := uva + of_nat USER_STACK_SIZE\<rparr>, uva, m2, space2))
                else Inr (st0\<lparr>is_cs := 0x8, is_ss := 0x10, is_rsp := kernelStack\<rparr>, 0, m1, space1)) (\<lambda>(st, ubase, m3, space3).
      bind_res (vec_push (pr_threads p1) t) (\<lambda>ts.
      Inr (\<lparr>th_process = pa, th_id = unat id, th_kernelStack = kernelStack, th_kernelStackBase = kva, th_userStackBase = ubase,
            th_state = Stopped\<rparr>, st, (set_space p1 space3)\<lparr>pr_threads := ts\<rparr>, m3)))))"

definition destroyProcess :: "vmem \<Rightarrow> nat \<Rightarrow> 'n process \<Rightarrow> nat \<Rightarrow> vmem res" where
  "destroyProcess m pa p current =
     assert_res (pa \<noteq> 0) (assert_res (pa \<noteq> current) (assert_res (vec_empty (pr_threads p)) (
       destroyAddressSpace m (pr_space p))))"

text \<open>
  \<open>destroyThread\<close> of the thread \<open>th\<close> at the address \<open>t\<close>: \<open>curt\<close> and \<open>curp\<close> are the current thread and process of the
  processor, \<open>kp\<close> the kernel's process. The result is the process without the thread, and whether it
  was destroyed with it.
\<close>

definition destroyThread :: "vmem \<Rightarrow> 'n process \<Rightarrow> nat \<Rightarrow> thread \<Rightarrow> nat \<Rightarrow> nat \<Rightarrow> nat \<Rightarrow> ('n process \<times> bool \<times> vmem) res" where
  "destroyThread m p t th curt curp kp =
     assert_res (t \<noteq> 0) (assert_res (t \<noteq> curt) (
     bind_res (releasePages m (pr_space p) (th_kernelStackBase th) (KERNEL_STACK_SIZE div 4096)) (\<lambda>(m1, space1).
     bind_res (if th_process th \<noteq> kp
               then assert_res (th_userStackBase th \<noteq> 0) (releasePages m1 space1 (th_userStackBase th) (USER_STACK_SIZE div 4096))
               else Inr (m1, space1)) (\<lambda>(m2, space2).
     bind_res (vec_remove (pr_threads p) t) (\<lambda>ts.
     let p' = (set_space p space2)\<lparr>pr_threads := ts\<rparr> in
     if vec_empty ts then bind_res (destroyProcess m2 (th_process th) p' curp) (\<lambda>m3. Inr (p', True, m3))
     else Inr (p', False, m2))))))"

section \<open>File descriptors\<close>

lemma fd_search_ok:
  assumes "vec_inv fds" "i \<le> vsize fds"
  shows "fd_search fds i = Inr (find (\<lambda>k. fd_node (vec_list fds ! k) = None) [i..<vsize fds])"
  using assms
proof (induction fds i rule: fd_search.induct)
  case (1 fds i)
  show ?case
  proof (cases "i < vsize fds")
    case True
    have "vec_at fds i = Inr (vec_list fds ! i)" using True 1(2) by (simp add: vec_at_list)
    then show ?thesis using 1 True by (subst fd_search.simps) (auto simp: upt_conv_Cons)
  qed (subst fd_search.simps, simp)
qed

lemma allocateFdEntry_ok:
  assumes "vec_inv fds"
  shows "\<exists>i fds'. allocateFdEntry fds = Inr (i, fds') \<and> vec_inv fds' \<and> i < length (vec_list fds') \<and>
    fd_node (vec_list fds' ! i) = None \<and> (\<forall>j < i. j < length (vec_list fds) \<and> fd_node (vec_list fds ! j) \<noteq> None) \<and>
    (vec_list fds' = vec_list fds \<or> vec_list fds' = vec_list fds @ [\<lparr>fd_node = None, fd_mode = 0\<rparr>])"
proof -
  have len: "length (vec_list fds) = vsize fds" using assms by (rule vec_list_length)
  have s: "fd_search fds 0 = Inr (find (\<lambda>k. fd_node (vec_list fds ! k) = None) [0..<vsize fds])"
    using fd_search_ok [OF assms, of 0] by simp
  show ?thesis
  proof (cases "find (\<lambda>k. fd_node (vec_list fds ! k) = None) [0..<vsize fds]")
    case None
    obtain fds' where v: "vec_push fds \<lparr>fd_node = None, fd_mode = 0\<rparr> = Inr fds'" "vec_inv fds'"
      "vec_list fds' = vec_list fds @ [\<lparr>fd_node = None, fd_mode = 0\<rparr>]" using vec_push_ok [OF assms] by blast
    moreover have "vsize fds' = Suc (vsize fds)" using vec_list_length [OF v(2)] v(3) len by simp
    ultimately show ?thesis using s None len by (auto simp: allocateFdEntry_def find_None_iff nth_append)
  next
    case (Some i)
    have r: "allocateFdEntry fds = Inr (i, fds)" using s Some by (simp add: allocateFdEntry_def)
    have "i < vsize fds" "fd_node (vec_list fds ! i) = None" "\<forall>j < i. fd_node (vec_list fds ! j) \<noteq> None"
      using Some by (auto simp: find_Some_iff)
    then show ?thesis using r len assms by auto
  qed
qed

text \<open>
  \<open>allocateFdEntry\<close> never faults; it returns the lowest descriptor that is not in use, growing the
  table only when all are, and leaves every entry as it was.
\<close>

theorem allocateFdEntry_lowest:
  assumes "vec_inv fds"
  shows "\<exists>i fds'. allocateFdEntry fds = Inr (i, fds') \<and> vec_inv fds' \<and> i < length (vec_list fds') \<and>
    fd_node (vec_list fds' ! i) = None \<and> (\<forall>j < i. j < length (vec_list fds) \<and> fd_node (vec_list fds ! j) \<noteq> None) \<and>
    (vec_list fds' = vec_list fds \<or> vec_list fds' = vec_list fds @ [\<lparr>fd_node = None, fd_mode = 0\<rparr>])"
  using assms by (rule allocateFdEntry_ok)

theorem allocateFdEntry_lowest_witness:
  "\<exists>i fds'. allocateFdEntry (vec_new_sized 10 :: nat fdentry vector) = Inr (i, fds') \<and> i = 0"
  using allocateFdEntry_lowest [of "vec_new_sized 10 :: nat fdentry vector"] vec_new_sized_inv [where n = 10 and ?'a = "nat fdentry"]
  by fastforce

end
