(* ===== verification/Syscalls.thy ===== *)
theory Syscalls
  imports Process Initrd Terminal
begin

text \<open>
  \<open>kernel/syscalls/fs.cpp\<close> and \<open>checkStrAccess\<close> of \<open>kernel/memory/virtual.cpp\<close>: the system calls on files, as a
  user process sees them. The state holds what the calls touch: the page tables, the current process,
  the memory of its address space, the file system and the console. The operations of the file system
  are an argument.
\<close>

record ('n, 's) sys =
  sy_vm :: vmem
  sy_proc :: "'n process"
  sy_mem :: kmem
  sy_fs :: 's
  sy_mounts :: "'n mounts"
  sy_term :: console

section \<open>Strings of the user\<close>

text \<open>The byte-wise check of the last ten bytes; \<open>assert(false)\<close> behind the loop.\<close>

fun str_bytes :: "vmem \<Rightarrow> aspace \<Rightarrow> kmem \<Rightarrow> u64 \<Rightarrow> nat list \<Rightarrow> bool res option" where
  "str_bytes m space mem cur [] = Some (Inl Panic)"
| "str_bytes m space mem cur (i # is) =
     bind_opt (checkAccess m space (cur + of_nat i) 1 False) (\<lambda>ok.
     if \<not> ok then Some (Inr False)
     else if mem (cur + of_nat i) = 0 then Some (Inr True)
     else str_bytes m space mem cur is)"

partial_function (option) str_chunks :: "vmem \<Rightarrow> aspace \<Rightarrow> kmem \<Rightarrow> u64 \<Rightarrow> bool res option" where
  "str_chunks m space mem cur =
     (case checkAccess m space cur 10 False of
        None \<Rightarrow> None
      | Some (Inl e) \<Rightarrow> Some (Inl e)
      | Some (Inr ok) \<Rightarrow>
          if ok then if list_ex (\<lambda>i. mem (cur + of_nat i) = 0) [0..<10] then Some (Inr True)
                     else str_chunks m space mem (cur + 10)
          else str_bytes m space mem cur [0..<10])"

declare str_chunks.simps [code]

definition checkStrAccess :: "vmem \<Rightarrow> aspace \<Rightarrow> kmem \<Rightarrow> u64 \<Rightarrow> bool res option" where
  "checkStrAccess m space mem str = (if str = 0 then Some (Inr False) else str_chunks m space mem str)"

section \<open>System calls\<close>

definition set_fds :: "('n, 's) sys \<Rightarrow> 'n fdentry vector \<Rightarrow> ('n, 's) sys" where
  "set_fds s fds = s\<lparr>sy_proc := (sy_proc s)\<lparr>pr_fds := fds\<rparr>\<rparr>"

definition sysOpen :: "('n, 's) node_ops \<Rightarrow> ('n, 's) sys \<Rightarrow> u64 \<Rightarrow> u32 \<Rightarrow> (int \<times> ('n, 's) sys) res option" where
  "sysOpen ops s path mode =
     bind_opt (checkStrAccess (sy_vm s) (pr_space (sy_proc s)) (sy_mem s) path) (\<lambda>ok.
     if \<not> ok then Some (Inr (- EFAULT, s))
     else case cstr_at (sy_mem s) path of None \<Rightarrow> None
     | Some p \<Rightarrow>
         bind_opt (resolvePath ops (sy_fs s) (sy_mounts s) p) (\<lambda>(r, fs1).
         case r of Inl e \<Rightarrow> Some (Inr (e, s\<lparr>sy_fs := fs1\<rparr>))
         | Inr nd \<Rightarrow>
             bind_opt (Some (no_open ops fs1 nd mode)) (\<lambda>(e, fs2).
             if e < 0 then Some (Inr (e, s\<lparr>sy_fs := fs2\<rparr>))
             else bind_opt (Some (allocateFdEntry (pr_fds (sy_proc s)))) (\<lambda>(i, fds).
                  bind_opt (Some (vec_set fds i \<lparr>fd_node = Some nd, fd_mode = mode\<rparr>)) (\<lambda>fds'.
                  Some (Inr (int i, set_fds (s\<lparr>sy_fs := fs2\<rparr>) fds')))))))"

text \<open>The lookup of a descriptor that \<open>sysRead\<close> and \<open>sysWrite\<close> share, with the mode it must have.\<close>

definition fd_lookup :: "'n fdentry vector \<Rightarrow> u32 \<Rightarrow> u32 \<Rightarrow> (int + 'n) res" where
  "fd_lookup fds fd need =
     (if unat fd \<ge> vsize fds then Inr (Inl (- EBADF))
      else bind_res (vec_at fds (unat fd)) (\<lambda>e.
           case fd_node e of None \<Rightarrow> Inr (Inl (- EBADF))
           | Some n \<Rightarrow> Inr (if fd_mode e AND need = 0 then Inl (- EACCES) else Inr n)))"

definition sysWrite :: "('n, 's) node_ops \<Rightarrow> ('n, 's) sys \<Rightarrow> u32 \<Rightarrow> u64 \<Rightarrow> u32 \<Rightarrow> u64 \<Rightarrow> (int \<times> ('n, 's) sys) res option" where
  "sysWrite ops s fd buffer sz offset =
     bind_opt (checkAccess (sy_vm s) (pr_space (sy_proc s)) buffer (ucast sz) False) (\<lambda>ok.
     if \<not> ok then Some (Inr (- EFAULT, s))
     else let bs = bytes_at (sy_mem s) buffer (unat sz) in
          if fd = 1 \<or> fd = 2
          then bind_opt (Some (printStr (sy_term s) (map byte_char bs))) (\<lambda>t. Some (Inr (int (unat sz), s\<lparr>sy_term := t\<rparr>)))
          else bind_opt (Some (fd_lookup (pr_fds (sy_proc s)) fd MODE_WRITE)) (\<lambda>r.
               case r of Inl e \<Rightarrow> Some (Inr (e, s))
               | Inr n \<Rightarrow> bind_opt (Some (no_write ops (sy_fs s) n offset bs)) (\<lambda>(k, fs'). Some (Inr (k, s\<lparr>sy_fs := fs'\<rparr>)))))"

definition sysRead :: "('n, 's) node_ops \<Rightarrow> ('n, 's) sys \<Rightarrow> u32 \<Rightarrow> u64 \<Rightarrow> u32 \<Rightarrow> u64 \<Rightarrow> (int \<times> ('n, 's) sys) res option" where
  "sysRead ops s fd buffer sz offset =
     bind_opt (checkAccess (sy_vm s) (pr_space (sy_proc s)) buffer (ucast sz) False) (\<lambda>ok.
     if \<not> ok then Some (Inr (- EFAULT, s))
     else bind_opt (Some (fd_lookup (pr_fds (sy_proc s)) fd MODE_READ)) (\<lambda>r.
          case r of Inl e \<Rightarrow> Some (Inr (e, s))
          | Inr n \<Rightarrow> bind_opt (no_read ops (sy_fs s) n offset sz) (\<lambda>(k, bs).
              Some (Inr (k, s\<lparr>sy_mem := store_bytes (sy_mem s) buffer bs\<rparr>)))))"

section \<open>The check of user strings\<close>

lemma range_bytes:
  fixes a :: u64
  assumes "unat a + n < 2 ^ 64" "0 < n"
  shows "(\<forall>va. a \<le> va \<and> va \<le> a + of_nat n - 1 \<longrightarrow> P va) \<longleftrightarrow> (\<forall>i < n. P (a + of_nat i))"
proof -
  have u: "unat (a + of_nat i) = unat a + i" if "i \<le> n" for i
    using that assms by (simp add: unat_word_ariths(1) unat_of_nat_u64)
  have l: "a + of_nat n - 1 = a + of_nat (n - 1)" using assms(2) by (simp add: of_nat_diff)
  have "\<exists>i < n. va = a + of_nat i" if "a \<le> va" "va \<le> a + of_nat n - 1" for va
  proof (intro exI conjI)
    have le: "unat a \<le> unat va" "unat va \<le> unat a + (n - 1)"
      using that u [of "n - 1"] by (simp_all add: l word_le_nat_alt)
    show "unat va - unat a < n" using le assms(2) by linarith
    have "unat (a + of_nat (unat va - unat a)) = unat va" using u [of "unat va - unat a"] le by simp
    then show "va = a + of_nat (unat va - unat a)" by (metis word_unat_eq_iff)
  qed
  moreover have "a \<le> a + of_nat i \<and> a + of_nat i \<le> a + of_nat n - 1" if "i < n" for i
    using u [of i] u [of "n - 1"] that by (simp add: l word_le_nat_alt)
  ultimately show ?thesis by blast
qed

lemma checkAccess_bytes:
  assumes "vm_inv m space" "\<not> as_lock space" "a \<noteq> 0" "unat a + n < 2 ^ 32" "0 < n"
  shows "checkAccess m space a (of_nat n) w = Some (Inr (\<forall>i < n. accessible m space w (a + of_nat i)))"
proof -
  have n: "unat (of_nat n :: u64) = n" using assms(4) by (simp add: unat_of_nat_u64)
  then have nz: "(of_nat n :: u64) \<noteq> 0" using assms(5) by (metis less_irrefl unsigned_0)
  have "unat a + unat (of_nat n :: u64) < 2 ^ 44 - 4096" "unat a + unat (of_nat n :: u64) < 2 ^ 32" using n assms(4) by auto
  then have "checkAccess m space a (of_nat n) w
      = Some (Inr (\<forall>va. a \<le> va \<and> va \<le> last_byte a (of_nat n) \<longrightarrow> accessible m space w va))"
    using checkAccess_ok [OF assms(1-3), of "of_nat n" w] by blast
  then have "checkAccess m space a (of_nat n) w
      = Some (Inr (\<forall>va. a \<le> va \<and> va \<le> a + of_nat n - 1 \<longrightarrow> accessible m space w va))"
    using nz by (simp only: last_byte_def if_True not_False_eq_True)
  then show ?thesis using range_bytes [of a n "accessible m space w"] assms(4,5) by simp
qed

lemma str_bytes_ok:
  assumes "vm_inv m space" "\<not> as_lock space" "unat cur + 20 < 2 ^ 32" "cur \<noteq> 0" "n < 10" "i \<le> n"
    "\<forall>k < n. accessible m space False (cur + of_nat k) \<and> mem (cur + of_nat k) \<noteq> 0"
    "\<not> accessible m space False (cur + of_nat n) \<or> mem (cur + of_nat n) = 0"
  shows "str_bytes m space mem cur [i..<10] = Some (Inr (accessible m space False (cur + of_nat n)))"
  using assms(6)
proof (induction "n - i" arbitrary: i)
  case 0
  have u: "unat (cur + of_nat i) = unat cur + i" using 0 assms(3,5) by (simp add: unat_word_ariths(1) unat_of_nat_u64)
  have nz: "cur + of_nat i \<noteq> 0" using u assms(4) by (metis add_is_0 unat_eq_zero unsigned_0)
  have "checkAccess m space (cur + of_nat i) 1 False = Some (Inr (accessible m space False (cur + of_nat i)))"
    using checkAccess_bytes [OF assms(1,2) nz, of 1 False] u 0 assms(3,5) by simp
  moreover have "i = n" using 0 by simp
  ultimately show ?case using assms(5,8) by (auto simp: upt_conv_Cons)
next
  case (Suc d)
  then have lt: "i < n" by simp
  have u: "unat (cur + of_nat i) = unat cur + i" using lt assms(3,5) by (simp add: unat_word_ariths(1) unat_of_nat_u64)
  have nz: "cur + of_nat i \<noteq> 0" using u assms(4) by (metis add_is_0 unat_eq_zero unsigned_0)
  have "checkAccess m space (cur + of_nat i) 1 False = Some (Inr True)"
    using checkAccess_bytes [OF assms(1,2) nz, of 1 False] u lt assms(3,5,7) by simp
  moreover have "str_bytes m space mem cur [Suc i..<10] = Some (Inr (accessible m space False (cur + of_nat n)))"
    using Suc.hyps lt by simp
  ultimately show ?case using lt assms(5,7) by (auto simp: upt_conv_Cons)
qed

lemma str_chunks_ok:
  assumes "vm_inv m space" "\<not> as_lock space" "unat cur + n + 20 < 2 ^ 32" "cur \<noteq> 0"
    "\<forall>k < n. accessible m space False (cur + of_nat k) \<and> mem (cur + of_nat k) \<noteq> 0"
    "\<not> accessible m space False (cur + of_nat n) \<or> mem (cur + of_nat n) = 0"
  shows "str_chunks m space mem cur = Some (Inr (accessible m space False (cur + of_nat n)))"
  using assms(3-6)
proof (induction n arbitrary: cur rule: less_induct)
  case (less n)
  let ?A = "accessible m space False"
  have chk: "checkAccess m space cur 10 False = Some (Inr (\<forall>i < 10. ?A (cur + of_nat i)))"
    using checkAccess_bytes [OF assms(1,2) less.prems(2), of 10 False] less.prems(1) by simp
  show ?case
  proof (cases "n < 10")
    case True
    then show ?thesis
    proof (cases "\<forall>i < 10. ?A (cur + of_nat i)")
      case all: True
      then have "mem (cur + of_nat n) = 0" "?A (cur + of_nat n)" using True less.prems(4) by auto
      then have "list_ex (\<lambda>i. mem (cur + of_nat i) = 0) [0..<10]" using True by (auto simp: list_ex_iff)
      then show ?thesis using all chk \<open>?A (cur + of_nat n)\<close> by (subst str_chunks.simps) simp
    next
      case False
      then have "checkAccess m space cur 10 False = Some (Inr False)" using chk by simp
      then show ?thesis using str_bytes_ok [OF assms(1,2) _ less.prems(2) True, of 0 mem] less.prems
        by (subst str_chunks.simps) simp
    qed
  next
    case False
    have u: "unat (cur + 10) = unat cur + 10" using less.prems(1) by (simp add: unat_word_ariths(1))
    have nz: "cur + 10 \<noteq> 0" using u by (metis add_is_0 unsigned_0 zero_neq_numeral)
    have sh: "cur + 10 + of_nat k = cur + of_nat (k + 10)" for k by (simp add: add.commute add.left_commute)
    have "str_chunks m space mem (cur + 10) = Some (Inr (?A (cur + 10 + of_nat (n - 10))))"
      proof (rule less.IH)
      show "\<forall>k < n - 10. ?A (cur + 10 + of_nat k) \<and> mem (cur + 10 + of_nat k) \<noteq> 0"
      proof (intro allI impI)
        fix k assume "k < n - 10"
        then show "?A (cur + 10 + of_nat k) \<and> mem (cur + 10 + of_nat k) \<noteq> 0"
          using less.prems(3) [rule_format, of "k + 10"] unfolding sh by simp
      qed
      show "\<not> ?A (cur + 10 + of_nat (n - 10)) \<or> mem (cur + 10 + of_nat (n - 10)) = 0"
        unfolding sh using less.prems(4) False by simp
    qed (use less.prems(1) u nz False in auto)
    moreover have "cur + 10 + of_nat (n - 10) = cur + of_nat n" using False sh by simp
    moreover have "\<forall>i < 10. ?A (cur + of_nat i) \<and> mem (cur + of_nat i) \<noteq> 0" using False less.prems(3) by auto
    moreover from this have "\<not> list_ex (\<lambda>i. mem (cur + of_nat i) = 0) [0..<10]" by (simp add: list_ex_iff)
    ultimately show ?thesis using chk by (subst str_chunks.simps) simp
  qed
qed

lemma checkStrAccess_ok:
  assumes "vm_inv m space" "\<not> as_lock space" "str \<noteq> 0" "unat str + n + 20 < 2 ^ 32"
    "\<forall>k < n. accessible m space False (str + of_nat k) \<and> mem (str + of_nat k) \<noteq> 0"
    "\<not> accessible m space False (str + of_nat n) \<or> mem (str + of_nat n) = 0"
  shows "checkStrAccess m space mem str = Some (Inr (accessible m space False (str + of_nat n)))"
  using str_chunks_ok [OF assms(1,2,4,3)] assms(3,5,6) by (simp add: checkStrAccess_def)

text \<open>
  \<open>C21\<close> \<open>checkStrAccess\<close> ends and is exact for strings below 4 GiB: it looks at the bytes in order up to the
  first one that is zero or not accessible, and accepts the string exactly when that byte is
  accessible. The assertion behind the byte-wise loop cannot fail.
\<close>

theorem checkStrAccess_exact:
  assumes "vm_inv m space" "\<not> as_lock space" "str \<noteq> 0" "unat str + n + 20 < 2 ^ 32"
    "\<forall>k < n. accessible m space False (str + of_nat k) \<and> mem (str + of_nat k) \<noteq> 0"
    "\<not> accessible m space False (str + of_nat n) \<or> mem (str + of_nat n) = 0"
  shows "checkStrAccess m space mem str = Some (Inr (accessible m space False (str + of_nat n)))"
  using assms by (rule checkStrAccess_ok)

text \<open>The page of the sample address space, as the process sees it.\<close>

lemma sample_user_page:
  "\<exists>m. vm_inv m sample_space \<and> (\<forall>w k. k < 4096 \<longrightarrow> accessible m sample_space w (0x400000 + of_nat k)) \<and>
    \<not> accessible m sample_space False 0x401000"
proof -
  obtain m where m: "vm_inv m sample_space"
    "\<forall>x. mmu m sample_space x = (if same_page 0x400000 x then Some 0x7007 else None)"
    using sample_mapped by blast
  have "same_page 0x400000 (0x400000 + of_nat k)" if "k < 4096" for k
  proof -
    have "unat (0x400000 + of_nat k :: u64) = 0x400000 + k" using that by (simp add: unat_word_ariths(1) unat_of_nat_u64)
    moreover have "(0x400000 + k) div 4096 = 1024" using that by simp
    ultimately have "frame (0x400000 + of_nat k) = frame 0x400000" by (simp add: frame_def)
    then have "drop_bit 12 (0x400000 + of_nat k :: u64) = drop_bit 12 0x400000" by (simp only: word_unat_eq_iff unat_drop_12)
    then show ?thesis by (simp only: same_page_def)
  qed
  moreover have "\<not> same_page 0x400000 0x401000" by (simp add: same_page_def)
  ultimately show ?thesis using m by (auto simp: accessible_def pml_writable_def)
qed

theorem checkStrAccess_exact_witness:
  "\<exists>m. vm_inv m sample_space \<and> checkStrAccess m sample_space (\<lambda>_. 65) 0x400FF1 = Some (Inr False) \<and>
    checkStrAccess m sample_space (\<lambda>a. if a = 0x400FFF then 0 else 65) 0x400FF1 = Some (Inr True)"
proof -
  obtain m where m: "vm_inv m sample_space" "\<forall>w k. k < 4096 \<longrightarrow> accessible m sample_space w (0x400000 + of_nat k)"
    "\<not> accessible m sample_space False 0x401000" using sample_user_page by blast
  have acc: "accessible m sample_space False (0x400FF1 + of_nat k)" if "k < 15" for k
    using m(2) [rule_format, of "0xFF1 + k" False] that by (simp add: add.assoc)
  have ne: "(0x400FF1 + of_nat k :: u64) \<noteq> 0x400FFF" if "k < 14" for k
    using that by (simp add: word_unat_eq_iff unat_word_ariths(1) unat_of_nat_u64)
  have "checkStrAccess m sample_space (\<lambda>_. 65) 0x400FF1 = Some (Inr False)"
    using checkStrAccess_exact [OF m(1) sample_vm_facts(3), where str = "0x400FF1" and n = 15 and mem = "\<lambda>_. 65"] acc m(3) by simp
  moreover have "checkStrAccess m sample_space (\<lambda>a. if a = 0x400FFF then 0 else 65) 0x400FF1 = Some (Inr True)"
    using checkStrAccess_exact [OF m(1) sample_vm_facts(3), where str = "0x400FF1" and n = 14
        and mem = "\<lambda>a. if a = 0x400FFF then 0 else 65"] acc [of 14] acc ne by simp
  ultimately show ?thesis using m(1) by blast
qed

section \<open>Opening and reading a file\<close>

text \<open>A C string in accessible memory passes the check.\<close>

lemma has_cstr_bytes: "has_cstr m a cs \<Longrightarrow> k < length cs \<Longrightarrow> m (a + of_nat k) \<noteq> 0"
proof -
  assume h: "has_cstr m a cs" and k: "k < length cs"
  have "m (a + of_nat k) = bytes_at m a (length cs) ! k" using k by (simp add: bytes_at_def)
  also have "\<dots> = of_char (cs ! k)" using h k by (simp add: has_cstr_def)
  finally show ?thesis using h k by (auto simp: has_cstr_def of_char_eq_0 in_set_conv_nth)
qed

lemma checkStrAccess_cstr:
  assumes "vm_inv m space" "\<not> as_lock space" "str \<noteq> 0" "unat str + length cs + 20 < 2 ^ 32" "has_cstr mem str cs"
    "\<forall>k \<le> length cs. accessible m space False (str + of_nat k)"
  shows "checkStrAccess m space mem str = Some (Inr True)"
proof -
  have "mem (str + of_nat (length cs)) = 0" using assms(5) by (simp add: has_cstr_def)
  then show ?thesis
    using checkStrAccess_ok [OF assms(1-4), of mem] has_cstr_bytes [OF assms(5)] assms(6) by simp
qed

text \<open>The descriptor that an open stores is the one a later lookup finds.\<close>

lemma allocateFdEntry_stored:
  assumes "vec_inv fds" "vsize fds < 2 ^ 32 - 1" "mode AND need \<noteq> 0"
  shows "\<exists>i fds1 fds2. allocateFdEntry fds = Inr (i, fds1) \<and> vec_set fds1 i \<lparr>fd_node = Some n, fd_mode = mode\<rparr> = Inr fds2 \<and>
    vec_inv fds2 \<and> i \<le> vsize fds \<and> fd_lookup fds2 (of_nat i) need = Inr (Inr n)"
proof -
  obtain i fds1 where a: "allocateFdEntry fds = Inr (i, fds1)" "vec_inv fds1" "i < length (vec_list fds1)"
    "vec_list fds1 = vec_list fds \<or> vec_list fds1 = vec_list fds @ [\<lparr>fd_node = None, fd_mode = 0\<rparr>]"
    using allocateFdEntry_ok [OF assms(1)] by blast
  have i: "i < vsize fds1" using a(2,3) vec_list_length by metis
  obtain fds2 where s: "vec_set fds1 i \<lparr>fd_node = Some n, fd_mode = mode\<rparr> = Inr fds2" "vec_inv fds2"
    "vec_list fds2 = (vec_list fds1)[i := \<lparr>fd_node = Some n, fd_mode = mode\<rparr>]"
    using vec_set_ok [OF a(2) i] by blast
  have sz: "vsize fds2 = vsize fds1" using vec_list_length [OF s(2)] vec_list_length [OF a(2)] s(3) by simp
  have le: "i \<le> vsize fds" using a(3,4) vec_list_length [OF assms(1)] by auto
  then have u: "unat (of_nat i :: u32) = i" using assms(2) by (simp add: unsigned_of_nat take_bit_eq_mod)
  have "vec_at fds2 i = Inr \<lparr>fd_node = Some n, fd_mode = mode\<rparr>"
    using vec_at_list [OF s(2), of i] sz i s(3) a(3) by simp
  then have "fd_lookup fds2 (of_nat i) need = Inr (Inr n)" using u sz i assms(3) by (simp add: fd_lookup_def)
  then show ?thesis using a(1) s(1,2) le by blast
qed

text \<open>
  \<open>C4\<close> A program that opens a file of the initial ram disk by its path gets a descriptor, and reading that
  descriptor from offset 0 into an accessible buffer stores the first bytes of the file there, as many
  as were asked for or as the file has, and returns their number.
\<close>

theorem sys_open_read:
  assumes rd: "rd_inv b es (sy_fs s)" "rd_next (sy_fs s) + 1 \<noteq> 0" "map_of es name = Some data" "name \<noteq> []" "CHR ''/'' \<notin> set name"
    and mp: "findMountPoint (sy_mounts s) [''initrd'', name] = Some \<lparr>mp_node = RdRoot, mp_path = ''/initrd''\<rparr>"
    and vm: "vm_inv (sy_vm s) (pr_space (sy_proc s))" "\<not> as_lock (pr_space (sy_proc s))"
    and path: "path \<noteq> 0" "has_cstr (sy_mem s) path (''/initrd/'' @ name)" "unat path + length name + 28 < 2 ^ 32"
      "\<forall>k \<le> 8 + length name. accessible (sy_vm s) (pr_space (sy_proc s)) False (path + of_nat k)"
    and fds: "vec_inv (pr_fds (sy_proc s))" "vsize (pr_fds (sy_proc s)) < 2 ^ 32 - 1"
    and mode: "mode AND MODE_READ \<noteq> 0" "mode AND MODE_WRITE = 0"
  shows "\<exists>fd s1. sysOpen initrd_ops s path mode = Some (Inr (int fd, s1)) \<and> fd \<le> vsize (pr_fds (sy_proc s)) \<and>
    (\<forall>buffer n. checkAccess (sy_vm s) (pr_space (sy_proc s)) buffer (ucast n) False = Some (Inr True) \<longrightarrow>
      sysRead initrd_ops s1 (of_nat fd) buffer n 0 = Some (Inr (int (min (unat n) (length data)),
        s1\<lparr>sy_mem := store_bytes (sy_mem s) buffer (take (unat n) data)\<rparr>)))"
proof -
  have chk: "checkStrAccess (sy_vm s) (pr_space (sy_proc s)) (sy_mem s) path = Some (Inr True)"
    using checkStrAccess_cstr [OF vm path(1) _ path(2)] path(3,4) by simp
  have str: "cstr_at (sy_mem s) path = Some (''/initrd/'' @ name)" by (rule cstr_at_has_cstr(2) [OF path(2)])
  obtain a fs1 where res: "resolvePath initrd_ops (sy_fs s) (sy_mounts s) (''/initrd/'' @ name) = Some (Inr (Inr (RdFile a), fs1))"
    "\<forall>n. rd_read fs1 (RdFile a) 0 n = Some (Inr (int (min (unat n) (length data)), take (unat n) data))"
    using initrd_resolve_ok [OF rd(1,2) mp rd(4,5)] rd(3) by auto
  obtain i fds1 fds2 where al: "allocateFdEntry (pr_fds (sy_proc s)) = Inr (i, fds1)"
    "vec_set fds1 i \<lparr>fd_node = Some (RdFile a), fd_mode = mode\<rparr> = Inr fds2" "i \<le> vsize (pr_fds (sy_proc s))"
    "fd_lookup fds2 (of_nat i) MODE_READ = Inr (Inr (RdFile a))"
    using allocateFdEntry_stored [OF fds mode(1)] by blast
  have "sysOpen initrd_ops s path mode = Some (Inr (int i, set_fds (s\<lparr>sy_fs := fs1\<rparr>) fds2))"
    using chk str res(1) al(1,2) mode(2) by (simp add: sysOpen_def initrd_ops_def rd_open_def)
  then show ?thesis using al(3,4) res(2) by (auto simp: sysRead_def set_fds_def initrd_ops_def)
qed

definition sample_sys :: "vmem \<Rightarrow> (rdnode, initrd) sys" where
  "sample_sys m = \<lparr>sy_vm = m,
     sy_proc = \<lparr>pr_name = ''app'', pr_id = 1, pr_threadIdCounter = 0, pr_entryPoint = 0, pr_space = sample_space,
       pr_threads = vec_null, pr_fds = vec_null\<rparr>,
     sy_mem = store_bytes (\<lambda>_. 0) 0x400000 (map of_char ''/initrd/app''), sy_fs = sample_rd,
     sy_mounts = mountNode (fs_init RdRoot) ''/initrd'' RdRoot, sy_term = term_boot 0 []\<rparr>"

theorem sys_open_read_witness:
  "\<exists>m fd s1 s2. sysOpen initrd_ops (sample_sys m) 0x400000 1 = Some (Inr (int fd, s1)) \<and>
    sysRead initrd_ops s1 (of_nat fd) 0x400100 2 0 = Some (Inr (2, s2)) \<and> bytes_at (sy_mem s2) 0x400100 2 = [7, 8]"
proof -
  obtain m where m: "vm_inv m sample_space" "\<forall>w k. k < 4096 \<longrightarrow> accessible m sample_space w (0x400000 + of_nat k)"
    using sample_user_page by blast
  have str: "has_cstr (sy_mem (sample_sys m)) 0x400000 (''/initrd/'' @ ''app'')"
    unfolding sample_sys_def sys.simps append.simps by (rule has_cstr_store_bytes) simp_all
  have acc: "\<forall>k \<le> 8 + length ''app''. accessible (sy_vm (sample_sys m)) (pr_space (sy_proc (sample_sys m))) False (0x400000 + of_nat k)"
    using m(2) by (simp add: sample_sys_def)
  have data: "map_of sample_files ''app'' = Some [7, 8, 9]" by (simp add: sample_files_def)
  have fds: "vec_inv (pr_fds (sy_proc (sample_sys m)))" "vsize (pr_fds (sy_proc (sample_sys m))) < 2 ^ 32 - 1"
    by (simp_all add: sample_sys_def vec_null_inv) (simp add: vec_null_def)
  have buf: "checkAccess (sy_vm (sample_sys m)) (pr_space (sy_proc (sample_sys m))) 0x400100 (ucast (2 :: u32)) False = Some (Inr True)"
    using checkAccess_bytes [OF m(1) sample_vm_facts(3), of "0x400100" 2 False] m(2) [rule_format, of 256]
      m(2) [rule_format, of 257] by (simp add: sample_sys_def less_2_cases_iff)
  have fs: "rd_inv 0x1000 sample_files (sy_fs (sample_sys m))" "rd_next (sy_fs (sample_sys m)) + 1 \<noteq> 0"
    "findMountPoint (sy_mounts (sample_sys m)) [''initrd'', ''app''] = Some \<lparr>mp_node = RdRoot, mp_path = ''/initrd''\<rparr>"
    using sample_rd_inv sample_mount by (simp_all add: sample_sys_def) (simp add: sample_rd_def one_rd_def)
  have vm: "vm_inv (sy_vm (sample_sys m)) (pr_space (sy_proc (sample_sys m)))" "\<not> as_lock (pr_space (sy_proc (sample_sys m)))"
    using m(1) sample_vm_facts(3) by (simp_all add: sample_sys_def)
  obtain fd s1 where r: "sysOpen initrd_ops (sample_sys m) 0x400000 1 = Some (Inr (int fd, s1))"
    "sysRead initrd_ops s1 (of_nat fd) 0x400100 2 0 = Some (Inr (int (min (unat (2 :: u32)) (length [7, 8, 9 :: u8])),
        s1\<lparr>sy_mem := store_bytes (sy_mem (sample_sys m)) 0x400100 (take (unat (2 :: u32)) [7, 8, 9])\<rparr>))"
    using sys_open_read [OF fs(1,2) data _ _ fs(3) vm _ str _ acc fds, where mode = 1] buf by (fastforce simp: mode_defs)
  have v: "int (min (unat (2 :: u32)) (length [7, 8, 9 :: u8])) = 2" "take (unat (2 :: u32)) [7, 8, 9 :: u8] = [7, 8]" "length [7, 8 :: u8] = 2"
    by simp_all
  have "bytes_at (store_bytes (sy_mem (sample_sys m)) 0x400100 [7, 8]) 0x400100 (length [7, 8 :: u8]) = [7, 8]"
    by (rule bytes_at_store_bytes) simp
  then show ?thesis using r unfolding v
    by (intro exI [of _ m] exI [of _ fd] exI [of _ s1] exI conjI) (assumption, assumption, simp)
qed

end
