(* ===== verification/Segments.thy ===== *)
theory Segments
  imports AddrSpace
begin

text \<open>
  What \<open>Memory::allocSpace\<close> of \<open>kernel/memory/virtual.cpp\<close> guarantees to the loader of programs: a run of
  physical pages mapped at consecutive virtual pages. The first-fit allocator finds a run, whatever the
  rest of the bitmap looks like, as long as enough pages at the end of the memory are free; this
  condition survives every allocation with the number of pages taken.
\<close>

section \<open>A free tail of the memory\<close>

definition tail_free :: "nat \<Rightarrow> phys \<Rightarrow> bool" where
  "tail_free k p \<longleftrightarrow> k \<le> pages (ph_bitmap p) \<and>
     (\<forall>i. pages (ph_bitmap p) - k \<le> i \<and> i < pages (ph_bitmap p) \<longrightarrow> \<not> ph_used p i)"

lemma tail_free_mono: "tail_free k p \<Longrightarrow> j \<le> k \<Longrightarrow> tail_free j p"
  by (auto simp: tail_free_def)

lemma tail_free_frames: "tail_free k p \<Longrightarrow> k \<le> free_frames p"
proof -
  assume t: "tail_free k p"
  let ?n = "pages (ph_bitmap p)"
  have "k = card {?n - k..<?n}" using t by (simp add: tail_free_def)
  also have "\<dots> \<le> free_frames p" unfolding free_frames_def
    by (rule card_mono) (use t in \<open>auto simp: tail_free_def\<close>)
  finally show ?thesis .
qed

lemma tail_alloc:
  assumes "ph_limited n p" "0 < c" "tail_free (c + k) p"
  shows "\<exists>s p'. ph_getFreePages p c 4096 = Inr (of_nat (s * 4096), p') \<and> ph_limited n p' \<and> tail_free k p' \<and>
    s + c \<le> n \<and> (\<forall>i. s \<le> i \<and> i < s + c \<longrightarrow> \<not> ph_used p i) \<and>
    (\<forall>i. ph_used p' i \<longleftrightarrow> ph_used p i \<or> s \<le> i \<and> i < s + c)"
proof -
  let ?n = "pages (ph_bitmap p)"
  define s where "s = (LEAST s. fits (ph_bitmap p) c 4096 s)"
  have inv: "ph_inv p" and lim: "?n \<le> n" using assms(1) by (simp_all add: ph_limited_def)
  have "\<not> ph_used p (?n - (c + k) + j)" if "j < c" for j
    using assms(3) that unfolding tail_free_def by (elim conjE allE [of _ "?n - (c + k) + j"]) auto
  then have t: "fits (ph_bitmap p) c 4096 (?n - (c + k))" using assms(3) by (auto simp: tail_free_def fits_def)
  then have ex: "\<exists>s. fits (ph_bitmap p) c 4096 s" by blast
  have le: "s \<le> ?n - (c + k)" unfolding s_def using t by (rule Least_le)
  have pos: "0 < (4096 :: nat)" by simp
  obtain p' where p': "ph_getFreePages p c 4096 = Inr (of_nat (s * 4096), p')" "ph_inv p'"
    "length (ph_bitmap p') = length (ph_bitmap p)" "fits (ph_bitmap p) c 4096 s"
    "\<forall>i. ph_used p' i \<longleftrightarrow> ph_used p i \<or> s \<le> i \<and> i < s + c"
    using ph_getFreePages_ok [OF inv assms(2) pos ex] unfolding s_def by blast
  have ck: "c + k \<le> ?n" using assms(3) by (simp add: tail_free_def)
  have "tail_free k p'" using assms(3) p'(3,5) le ck by (auto simp: tail_free_def)
  moreover have "ph_limited n p'" using p'(2,3) lim by (simp add: ph_limited_def)
  moreover have "s + c \<le> n" using p'(4) lim by (simp add: fits_def)
  moreover have "\<not> ph_used p i" if "s \<le> i \<and> i < s + c" for i
  proof -
    have "i - s < c" "s + (i - s) = i" using that by auto
    then show ?thesis using p'(4) unfolding fits_def by metis
  qed
  ultimately show ?thesis using p'(1,5) by blast
qed

text \<open>Mapping a page takes at most three pages for tables, and gives none back.\<close>

lemma pml_ensure_phys:
  assumes "pml_ensure m f i fl = Inr (g, m')" "ph_limited n (vm_phys m)" "tail_free (Suc k) (vm_phys m)"
  shows "ph_limited n (vm_phys m') \<and> tail_free k (vm_phys m') \<and> (\<forall>i. ph_used (vm_phys m) i \<longrightarrow> ph_used (vm_phys m') i)"
proof (cases "pml_present (vm_tab m f i)")
  case True
  then have "m' = m" using assms(1) by (auto simp: pml_ensure_def bind_res_eq_Inr)
  then show ?thesis using assms(2,3) tail_free_mono [of "Suc k" _ k] by auto
next
  case False
  obtain s p' where p': "ph_getFreePages (vm_phys m) 1 4096 = Inr (of_nat (s * 4096), p')" "ph_limited n p'" "tail_free k p'"
    "\<forall>i. ph_used p' i \<longleftrightarrow> ph_used (vm_phys m) i \<or> s \<le> i \<and> i < s + 1"
    using tail_alloc [OF assms(2), of 1 k] assms(3) by auto
  have "vm_phys m' = p'" using assms(1) False p'(1)
    by (auto simp: pml_ensure_def bind_res_eq_Inr Let_def tab_clear_def tab_write_def)
  then show ?thesis using p' by simp
qed

lemma mapPage_phys:
  assumes "mapPage m space pa va flags do_lock = Inr (m', space')" "ph_limited n (vm_phys m)" "tail_free (3 + k) (vm_phys m)"
  shows "ph_limited n (vm_phys m') \<and> tail_free k (vm_phys m') \<and> (\<forall>i. ph_used (vm_phys m) i \<longrightarrow> ph_used (vm_phys m') i)"
proof -
  obtain fl f3 m1 f2 m2 f1 m3 where e: "pml_ensure m (pml4 space) (pml4_index va) fl = Inr (f3, m1)"
    "pml_ensure m1 f3 (pml3_index va) fl = Inr (f2, m2)" "pml_ensure m2 f2 (pml2_index va) fl = Inr (f1, m3)"
    "vm_phys m' = vm_phys m3"
    using assms(1) unfolding mapPage_def Let_def
    by (auto simp: bind_res_eq_Inr tab_write_def take_lock_def pml4_def split: if_splits)
  have "tail_free (Suc (Suc (Suc k))) (vm_phys m)" using assms(3) by (simp add: numeral_3_eq_3)
  note a = pml_ensure_phys [OF e(1) assms(2) this]
  note b = pml_ensure_phys [OF e(2) a [THEN conjunct1] a [THEN conjunct2, THEN conjunct1]]
  note c = pml_ensure_phys [OF e(3) b [THEN conjunct1] b [THEN conjunct2, THEN conjunct1]]
  show ?thesis using a b c e(4) by simp
qed

section \<open>A run of mapped pages\<close>

lemma locked_space:
  "vm_inv m (space\<lparr>as_lock := b\<rparr>) = vm_inv m space" "mmu m (space\<lparr>as_lock := b\<rparr>) va = mmu m space va"
  "no_huge m (space\<lparr>as_lock := b\<rparr>) va = no_huge m space va"
  by (simp_all add: vm_inv_def mmu_def no_huge_def pml4_def)

lemma same_page_frame:
  assumes "unat a < 2 ^ 47" "unat b < 2 ^ 47"
  shows "same_page a b \<longleftrightarrow> frame a = frame b"
proof -
  have f: "take_bit 36 (drop_bit 12 c) = drop_bit 12 c" if "unat c < 2 ^ 47" for c :: u64
  proof -
    have "unat c div 4096 < 2 ^ 36" using that by (simp add: div_less_iff_less_mult)
    then have "unat (drop_bit 12 c) < 2 ^ 36" by (simp only: unat_drop_12 frame_def)
    then show ?thesis by (simp add: word_unat_eq_iff unsigned_take_bit_eq take_bit_nat_eq_self)
  qed
  show ?thesis unfolding same_page_def f [OF assms(1)] f [OF assms(2)] by (simp only: word_unat_eq_iff unat_drop_12)
qed

text \<open>The pages of a run that does not leave the lower half are different ones.\<close>

lemma run_pages_distinct:
  fixes va :: u64
  assumes "unat va + n * 4096 \<le> 2 ^ 47" "i < n" "j < n" "same_page (va + of_nat (i * 4096)) (va + of_nat (j * 4096))"
  shows "i = j"
proof -
  have u: "unat (va + of_nat (k * 4096)) = unat va + k * 4096" if "k < n" for k
  proof -
    have "k * 4096 < n * 4096" using that by simp
    then have lt: "unat va + k * 4096 < 2 ^ 64" using assms(1) by simp
    then have "unat (of_nat (k * 4096) :: u64) = k * 4096" by (intro unat_of_nat_u64) linarith
    then show ?thesis using lt by (simp only: unat_word_ariths(1)) simp
  qed
  have lt: "unat (va + of_nat (k * 4096)) < 2 ^ 47" if "k < n" for k
  proof -
    have "k * 4096 < n * 4096" using that by simp
    then show ?thesis using u [OF that] assms(1) by simp
  qed
  have "frame (va + of_nat (i * 4096)) = frame (va + of_nat (j * 4096))"
    using assms(4) same_page_frame [OF lt [OF assms(2)] lt [OF assms(3)]] by blast
  then show ?thesis using u [OF assms(2)] u [OF assms(3)] by (simp add: frame_def)
qed

text \<open>The loop of \<open>allocSpace\<close>, for any pages that differ from one another.\<close>

abbreviation map_run :: "(nat \<Rightarrow> u64) \<Rightarrow> (nat \<Rightarrow> u64) \<Rightarrow> u64 \<Rightarrow> vmem \<times> aspace \<Rightarrow> nat \<Rightarrow> (vmem \<times> aspace) res" where
  "map_run pa va flags \<equiv> (\<lambda>(m, space) i. mapPage m space (pa i) (va i) flags False)"

lemma map_run_ok:
  assumes "vm_inv m space" "tail_free (3 * n + k) (vm_phys m)" "\<forall>i < n. no_huge m space (va i)"
    "\<forall>i < n. \<forall>j < n. same_page (va i) (va j) \<longrightarrow> i = j"
  shows "\<exists>m'. for_each (map_run pa va flags) [0..<n] (m, space) = Inr (m', space) \<and> vm_inv m' space \<and>
    tail_free k (vm_phys m') \<and> (\<forall>i. ph_used (vm_phys m) i \<longrightarrow> ph_used (vm_phys m') i) \<and>
    (\<forall>x. no_huge m space x \<longrightarrow> no_huge m' space x) \<and>
    (\<forall>i x. i < n \<and> same_page (va i) x \<longrightarrow> mmu m' space x = Some ((pa i AND NOT 0xFFF) OR flags OR 1)) \<and>
    (\<forall>x. (\<forall>i < n. \<not> same_page (va i) x) \<longrightarrow> mmu m' space x = mmu m space x)"
  using assms(2-)
proof (induction n arbitrary: k)
  case (Suc n)
  have t: "tail_free (3 * n + (3 + k)) (vm_phys m)" using Suc.prems(1) by (simp add: algebra_simps)
  obtain m1 where m1: "for_each (map_run pa va flags) [0..<n] (m, space) = Inr (m1, space)" "vm_inv m1 space"
    "tail_free (3 + k) (vm_phys m1)" "\<forall>i. ph_used (vm_phys m) i \<longrightarrow> ph_used (vm_phys m1) i"
    "\<forall>x. no_huge m space x \<longrightarrow> no_huge m1 space x"
    "\<forall>i x. i < n \<and> same_page (va i) x \<longrightarrow> mmu m1 space x = Some ((pa i AND NOT 0xFFF) OR flags OR 1)"
    "\<forall>x. (\<forall>i < n. \<not> same_page (va i) x) \<longrightarrow> mmu m1 space x = mmu m space x"
    using Suc.IH [OF t] Suc.prems(2,3) by auto
  have nh: "no_huge m1 space (va n)" using m1(5) Suc.prems(2) by blast
  obtain m2 where m2: "mapPage m1 space (pa n) (va n) flags False = Inr (m2, space)" "vm_inv m2 space"
    "\<forall>x. no_huge m1 space x \<longrightarrow> no_huge m2 space x"
    "\<forall>x. mmu m2 space x = (if same_page (va n) x then Some ((pa n AND NOT 0xFFF) OR flags OR 1) else mmu m1 space x)"
    using mapPage_ok [OF m1(2) nh _ tail_free_frames [OF m1(3)], of False "pa n" flags] by auto
  have "ph_limited (2 ^ 19) (vm_phys m1)" using m1(2) by (simp add: vm_inv_def)
  note p2 = mapPage_phys [OF m2(1) this m1(3)]
  have d: "\<not> same_page (va n) x" if "i < n" "same_page (va i) x" for i x
  proof
    assume "same_page (va n) x"
    then have "same_page (va i) (va n)" using that(2) by (simp add: same_page_def)
    then have "i = n" using Suc.prems(3) that(1) by (meson less_SucI lessI)
    then show False using that(1) by simp
  qed
  have "for_each (map_run pa va flags) [0..<Suc n] (m, space) = Inr (m2, space)"
    using m1(1) m2(1) by (simp add: push_all_append)
  moreover have "mmu m2 space x = Some ((pa i AND NOT 0xFFF) OR flags OR 1)" if "i < Suc n" "same_page (va i) x" for i x
  proof (cases "i = n")
    case False
    then have "i < n" using that(1) by simp
    then show ?thesis using d that(2) m2(4) m1(6) by simp
  qed (use that(2) m2(4) in simp)
  moreover have "mmu m2 space x = mmu m space x" if "\<forall>i < Suc n. \<not> same_page (va i) x" for x
    using that m2(4) m1(7) by auto
  ultimately show ?case using m2(2,3) m1(4,5) p2 by blast
qed (use assms(1) in simp)

text \<open>
  \<open>allocSpace\<close> succeeds when enough pages at the end of the memory are free. It maps the requested run
  of virtual pages, in order, to one run of physical pages that were free before, keeps the page tables
  well formed, releases the lock and leaves every other translation as it was.
\<close>

lemma allocSpace_ok:
  assumes inv: "vm_inv m space" and l: "\<not> as_lock space" and n: "0 < n" and t: "tail_free (4 * n + k) (vm_phys m)"
    and nh: "\<forall>i < n. no_huge m space (va + of_nat (i * 4096))" and va: "unat va + n * 4096 \<le> 2 ^ 47"
  shows "\<exists>s m'. allocSpace m space va n flags = Inr (of_nat (s * 4096), m', space) \<and> vm_inv m' space \<and>
    tail_free k (vm_phys m') \<and> s + n \<le> 2 ^ 19 \<and> (\<forall>i < n. \<not> ph_used (vm_phys m) (s + i) \<and> ph_used (vm_phys m') (s + i)) \<and>
    (\<forall>i. ph_used (vm_phys m) i \<longrightarrow> ph_used (vm_phys m') i) \<and> (\<forall>x. no_huge m space x \<longrightarrow> no_huge m' space x) \<and>
    (\<forall>i x. i < n \<and> same_page (va + of_nat (i * 4096)) x \<longrightarrow> mmu m' space x = Some (of_nat ((s + i) * 4096) OR flags OR 1)) \<and>
    (\<forall>x. (\<forall>i < n. \<not> same_page (va + of_nat (i * 4096)) x) \<longrightarrow> mmu m' space x = mmu m space x)"
proof -
  have lim: "ph_limited (2 ^ 19) (vm_phys m)" using inv by (simp add: vm_inv_def)
  have t': "tail_free (n + (3 * n + k)) (vm_phys m)" using t by (simp add: algebra_simps)
  obtain s p' where s: "ph_getFreePages (vm_phys m) n 4096 = Inr (of_nat (s * 4096), p')" "ph_limited (2 ^ 19) p'"
    "tail_free (3 * n + k) p'" "s + n \<le> 2 ^ 19" "\<forall>i. s \<le> i \<and> i < s + n \<longrightarrow> \<not> ph_used (vm_phys m) i"
    "\<forall>i. ph_used p' i \<longleftrightarrow> ph_used (vm_phys m) i \<or> s \<le> i \<and> i < s + n"
    using tail_alloc [OF lim n t'] by blast
  let ?m = "m\<lparr>vm_phys := p'\<rparr>" and ?l = "space\<lparr>as_lock := True\<rparr>"
  have "vm_inv ?m space" using inv s(2,6) by (auto simp: vm_inv_def tables_ok_def)
  then have inv1: "vm_inv ?m ?l" by (simp only: locked_space)
  have d: "\<forall>i < n. \<forall>j < n. same_page (va + of_nat (i * 4096)) (va + of_nat (j * 4096)) \<longrightarrow> i = j"
    using run_pages_distinct [OF va] by blast
  have same: "mmu ?m space x = mmu m space x" "no_huge ?m space x = no_huge m space x" for x
    by (simp_all add: mmu_def no_huge_def)
  have t1: "tail_free (3 * n + k) (vm_phys ?m)" using s(3) by simp
  have nh1: "\<forall>i < n. no_huge ?m ?l (va + of_nat (i * 4096))" using nh by (simp only: locked_space same)
  obtain m' where m': "for_each (map_run (\<lambda>i. of_nat (s * 4096) + of_nat (i * 4096)) (\<lambda>i. va + of_nat (i * 4096)) flags) [0..<n] (?m, ?l) = Inr (m', ?l)" "vm_inv m' ?l"
    "tail_free k (vm_phys m')" "\<forall>i. ph_used (vm_phys ?m) i \<longrightarrow> ph_used (vm_phys m') i"
    "\<forall>x. no_huge ?m ?l x \<longrightarrow> no_huge m' ?l x"
    "\<forall>i x. i < n \<and> same_page (va + of_nat (i * 4096)) x \<longrightarrow>
       mmu m' ?l x = Some (((of_nat (s * 4096) + of_nat (i * 4096)) AND NOT 0xFFF) OR flags OR 1)"
    "\<forall>x. (\<forall>i < n. \<not> same_page (va + of_nat (i * 4096)) x) \<longrightarrow> mmu m' ?l x = mmu ?m ?l x"
    using map_run_ok [OF inv1 t1 nh1 d, of "\<lambda>i. of_nat (s * 4096) + of_nat (i * 4096)" flags] by blast
  have al: "(of_nat (s * 4096) + of_nat (i * 4096)) AND NOT 0xFFF = (of_nat ((s + i) * 4096) :: u64)" for i
  proof -
    have "(of_nat (s * 4096) + of_nat (i * 4096) :: u64) = of_nat ((s + i) * 4096)" by (simp add: algebra_simps)
    also have "\<dots> = push_bit 12 (of_nat (s + i))" by (simp add: push_bit_eq_mult)
    finally have e: "(of_nat (s * 4096) + of_nat (i * 4096) :: u64) = push_bit 12 (of_nat (s + i))"
      and e': "(of_nat ((s + i) * 4096) :: u64) = push_bit 12 (of_nat (s + i))"
      by (simp_all add: push_bit_eq_mult)
    have "push_bit 12 w AND NOT 0xFFF = push_bit 12 (w :: u64)" for w
    proof (rule bit_eqI)
      have m: "(0xFFF :: u64) = mask 12" by (simp add: mask_eq_exp_minus_1)
      fix k
      show "bit (push_bit 12 w AND NOT 0xFFF) k = bit (push_bit 12 w) k"
        unfolding m by (auto simp: bit_and_iff bit_not_iff bit_push_bit_iff bit_mask_iff)
    qed
    then show ?thesis unfolding e e' .
  qed
  have "allocSpace m space va n flags = Inr (of_nat (s * 4096), m', drop_lock True ?l)"
    using s(1) take_lock_free(1) [OF l, of True] m'(1) by (simp add: allocSpace_def)
  moreover have "drop_lock True ?l = space" using take_lock_free(2) [OF l, of True] by simp
  moreover have "\<forall>i < n. \<not> ph_used (vm_phys m) (s + i) \<and> ph_used (vm_phys m') (s + i)" using s(5,6) m'(4) by simp
  moreover have "\<forall>i. ph_used (vm_phys m) i \<longrightarrow> ph_used (vm_phys m') i" using s(6) m'(4) by simp
  moreover note m'(2,3,5-7) [unfolded al locked_space same] s(4)
  ultimately show ?thesis by (intro exI [of _ s] exI [of _ m']) simp
qed

end
