(* ===== verification/Elf.thy ===== *)
theory Elf
  imports Segments Process Initrd
begin

text \<open>
  \<open>include/elf.h\<close> and the loader of programs of \<open>kernel/scheduler/elf.cpp\<close>. Headers are parsed from the
  bytes that were read; the fields are \<open>nat\<close>. The loader writes the contents of a segment through the
  window on physical memory, so the memory it changes is addressed by kernel addresses; what the program
  will read at a virtual address is \<open>user_byte\<close>, the byte in the frame that the page tables give.
\<close>

section \<open>Structures of the file\<close>

record elf_header =
  e_ident :: "u8 list"
  e_type :: nat
  e_machine :: nat
  e_version :: nat
  e_entry :: nat
  e_phoff :: nat
  e_shoff :: nat
  e_flags :: nat
  e_ehsize :: nat
  e_phentsize :: nat
  e_phnum :: nat
  e_shentsize :: nat
  e_shnum :: nat
  e_shstrndx :: nat

definition sizeof_Elf64_Header :: nat where "sizeof_Elf64_Header = 64"

definition parse_header :: "u8 list \<Rightarrow> elf_header" where
  "parse_header bs = \<lparr>e_ident = take 16 bs, e_type = u16_at bs 16, e_machine = u16_at bs 18, e_version = u32_at bs 20,
     e_entry = u64_at bs 24, e_phoff = u64_at bs 32, e_shoff = u64_at bs 40, e_flags = u32_at bs 48,
     e_ehsize = u16_at bs 52, e_phentsize = u16_at bs 54, e_phnum = u16_at bs 56, e_shentsize = u16_at bs 58,
     e_shnum = u16_at bs 60, e_shstrndx = u16_at bs 62\<rparr>"

record elf_phdr =
  p_type :: nat
  p_flags :: nat
  p_offset :: nat
  p_vaddr :: nat
  p_paddr :: nat
  p_filesz :: nat
  p_memsz :: nat
  p_align :: nat

definition sizeof_Elf64_Phdr :: nat where "sizeof_Elf64_Phdr = 56"

definition parse_phdr :: "u8 list \<Rightarrow> nat \<Rightarrow> elf_phdr" where
  "parse_phdr bs o' = \<lparr>p_type = u32_at bs o', p_flags = u32_at bs (o' + 4), p_offset = u64_at bs (o' + 8),
     p_vaddr = u64_at bs (o' + 16), p_paddr = u64_at bs (o' + 24), p_filesz = u64_at bs (o' + 32),
     p_memsz = u64_at bs (o' + 40), p_align = u64_at bs (o' + 48)\<rparr>"

definition ELFMAG :: "u8 list" where "ELFMAG = [0x7F, 0x45, 0x4C, 0x46]"
definition ELFCLASS64 :: u8 where "ELFCLASS64 = 2"
definition ELFDATA2LSB :: u8 where "ELFDATA2LSB = 1"
definition ET_REL :: nat where "ET_REL = 1"
definition ET_EXEC :: nat where "ET_EXEC = 2"
definition PF_W :: nat where "PF_W = 2"

section \<open>Loading a program\<close>

text \<open>The number of pages of a segment, passed on as a \<open>uint\<close>.\<close>

definition seg_pages :: "elf_phdr \<Rightarrow> nat" where
  "seg_pages s = p_memsz s div 4096 + (if p_memsz s mod 4096 \<noteq> 0 then 1 else 0)"

definition seg_flags :: "elf_phdr \<Rightarrow> u64" where
  "seg_flags s = (if p_flags s AND PF_W \<noteq> 0 then 4 OR 2 else 4)"

definition load_segment :: "device \<Rightarrow> vmem \<times> aspace \<times> kmem \<Rightarrow> elf_phdr \<Rightarrow> (vmem \<times> aspace \<times> kmem) res" where
  "load_segment file st s = (case st of (m, space, mem) \<Rightarrow>
     assert_res (p_memsz s \<ge> p_filesz s) (
     bind_res (allocSpace m space (of_nat (p_vaddr s)) (seg_pages s mod 2 ^ 32) (seg_flags s)) (\<lambda>(pa, m, space).
     let kva = getKernelVirtualAddress pa in
     bind_res (if p_filesz s > 0
               then let (r, bs) = file (of_nat (p_offset s)) (of_nat (p_filesz s)) in assert_res (r > 0) (Inr (store_bytes mem kva bs))
               else Inr mem) (\<lambda>mem.
     Inr (m, space, memset mem (kva + of_nat (p_filesz s)) 0 (of_nat (p_memsz s - p_filesz s)))))))"

definition phdr_at :: "u8 list \<Rightarrow> nat \<Rightarrow> elf_phdr res" where
  "phdr_at bs i = (if Suc i * sizeof_Elf64_Phdr \<le> length bs then Inr (parse_phdr bs (i * sizeof_Elf64_Phdr)) else Inl BadAccess)"

definition loadExecutable :: "junk \<Rightarrow> device \<Rightarrow> vmem \<Rightarrow> kmem \<Rightarrow> 'n process \<Rightarrow> (vmem \<times> kmem \<times> 'n process) res" where
  "loadExecutable junk file m mem p =
     bind_res (dev_into file 0 sizeof_Elf64_Header (fresh_buf junk sizeof_Elf64_Header)) (\<lambda>(r, hb).
     let h = parse_header hb in
     assert_res (r > 0) (
     assert_res (take 4 (e_ident h) = ELFMAG) (
     assert_res (e_ident h ! 4 = ELFCLASS64) (
     assert_res (e_ident h ! 5 = ELFDATA2LSB) (
     assert_res (e_type h = ET_EXEC) (
     let segmentsSize = e_phnum h * e_phentsize h in
     bind_res (dev_into file (e_phoff h) segmentsSize (fresh_buf junk segmentsSize)) (\<lambda>(r, pb).
     assert_res (r > 0) (
     bind_res (for_each (\<lambda>st i. bind_res (phdr_at pb i) (load_segment file st)) [0..<e_phnum h] (m, pr_space p, mem)) (\<lambda>(m, space, mem).
     Inr (m, mem, (set_space p space)\<lparr>pr_entryPoint := of_nat (e_entry h)\<rparr>))))))))))"

section \<open>What the program sees\<close>

definition user_byte :: "vmem \<Rightarrow> aspace \<Rightarrow> kmem \<Rightarrow> u64 \<Rightarrow> u8 option" where
  "user_byte m space mem va = (case mmu m space va of None \<Rightarrow> None
     | Some e \<Rightarrow> Some (mem (getKernelVirtualAddress (of_nat (pml_frame e * 4096)) + (va AND 0xFFF))))"

lemma entry_frame:
  assumes "f < 2 ^ 19" "fl = 4 \<or> fl = 4 OR 2"
  shows "pml_frame (of_nat (f * 4096) OR fl OR 1) = f" "pml_user (of_nat (f * 4096) OR fl OR 1)"
    "pml_writable (of_nat (f * 4096) OR fl OR 1) \<longleftrightarrow> fl = (4 OR 2 :: u64)"
proof -
  let ?a = "of_nat (f * 4096) :: u64"
  have u: "unat ?a = f * 4096" using assms(1) by (intro unat_of_nat_u64) simp
  have d: "drop_bit 12 fl = 0" "drop_bit 12 (1 :: u64) = 0" using assms(2) by auto
  have "unat (drop_bit 12 ?a) = f" using u by (simp only: unat_drop_12 frame_def)
  then have "unat (drop_bit 12 (?a OR fl OR 1)) = f" by (simp only: drop_bit_or d or.right_neutral)
  moreover have "take_bit 28 f = f" using assms(1) by (simp add: take_bit_nat_eq_self)
  ultimately show "pml_frame (?a OR fl OR 1) = f" by (simp only: pml_frame_def unsigned_take_bit_eq)
  have p: "?a = push_bit 12 (of_nat f)" by (simp add: push_bit_eq_mult)
  have "\<not> bit ?a 2" "\<not> bit ?a 1" unfolding p by (simp_all add: bit_push_bit_iff)
  then show "pml_user (?a OR fl OR 1)" "pml_writable (?a OR fl OR 1) \<longleftrightarrow> fl = 4 OR 2"
    using assms(2) by (auto simp: pml_user_def pml_writable_def bit_or_iff)
qed

text \<open>An address inside a page-aligned run: its page and the offset in it.\<close>

lemma run_address:
  fixes va :: u64
  assumes "unat va mod 4096 = 0" "unat va + n * 4096 \<le> 2 ^ 47" "x < n * 4096"
  shows "same_page (va + of_nat (x div 4096 * 4096)) (va + of_nat x)" "(va + of_nat x) AND 0xFFF = of_nat (x mod 4096)"
    "x div 4096 < n"
proof -
  have u: "unat (va + of_nat y) = unat va + y" if "y \<le> x" for y
  proof -
    have lt: "unat va + y < 2 ^ 64" using that assms(2,3) by simp
    then have "unat (of_nat y :: u64) = y" by (intro unat_of_nat_u64) linarith
    then show ?thesis using lt by (simp only: unat_word_ariths(1)) simp
  qed
  obtain q where q: "unat va = q * 4096" using assms(1) by (metis dvd_def dvd_eq_mod_eq_0 mult.commute)
  have le: "x div 4096 * 4096 \<le> x" by simp
  have "frame (va + of_nat x) = q + x div 4096" "frame (va + of_nat (x div 4096 * 4096)) = q + x div 4096"
    using u [OF order_refl] u [OF le] by (simp_all add: frame_def q)
  then have "drop_bit 12 (va + of_nat x) = drop_bit 12 (va + of_nat (x div 4096 * 4096))"
    by (simp only: word_unat_eq_iff unat_drop_12)
  then show "same_page (va + of_nat (x div 4096 * 4096)) (va + of_nat x)" by (simp only: same_page_def)
  have "(va + of_nat x) AND 0xFFF = take_bit 12 (va + of_nat x)" by (simp add: take_bit_eq_mask mask_eq_exp_minus_1)
  moreover have "unat (take_bit 12 (va + of_nat x)) = x mod 4096"
    using u [OF order_refl] q by (simp only: unsigned_take_bit_eq) (simp add: take_bit_eq_mod)
  moreover have "unat (of_nat (x mod 4096) :: u64) = x mod 4096" by (intro unat_of_nat_u64) (simp add: less_trans [OF mod_less_divisor])
  ultimately show "(va + of_nat x) AND 0xFFF = of_nat (x mod 4096)" by (simp only: word_unat_eq_iff)
  show "x div 4096 < n" using assms(3) by (simp add: div_less_iff_less_mult)
qed

text \<open>Writing the pages of one run leaves every other frame as it was.\<close>

lemma other_frame:
  assumes "f < 2 ^ 19" "s + n \<le> 2 ^ 19" "b < 4096" "f < s \<or> s + n \<le> f" "j + len \<le> n * 4096"
  shows "len \<le> unat (getKernelVirtualAddress (of_nat (f * 4096)) + of_nat b - (getKernelVirtualAddress (of_nat (s * 4096)) + of_nat j))"
proof -
  let ?c = "0xFFFF800000000000 :: u64"
  have e: "getKernelVirtualAddress (of_nat (f * 4096)) + of_nat b = ?c + of_nat (f * 4096 + b)"
    "getKernelVirtualAddress (of_nat (s * 4096)) + of_nat j = ?c + of_nat (s * 4096 + j)"
    by (simp_all add: getKernelVirtualAddress_def algebra_simps)
  have "f * 4096 + b < 2 ^ 32" "s * 4096 + j < 2 ^ 32" using assms(1-3,5) by simp_all
  then have "unat (?c + of_nat (f * 4096 + b) - (?c + of_nat (s * 4096 + j)))
      = (if s * 4096 + j \<le> f * 4096 + b then f * 4096 + b - (s * 4096 + j) else 2 ^ 64 - (s * 4096 + j - (f * 4096 + b)))"
    by (intro offset_distance) simp_all
  then show ?thesis unfolding e using assms by auto
qed

section \<open>One segment\<close>

definition seg_ok :: "nat \<Rightarrow> elf_phdr \<Rightarrow> bool" where
  "seg_ok len s \<longleftrightarrow> 0 < p_memsz s \<and> p_filesz s \<le> p_memsz s \<and> p_memsz s < 2 ^ 31 \<and> p_offset s + p_filesz s \<le> len \<and>
     p_vaddr s mod 4096 = 0 \<and> p_vaddr s + seg_pages s * 4096 \<le> 2 ^ 47"

definition seg_byte :: "u8 list \<Rightarrow> elf_phdr \<Rightarrow> nat \<Rightarrow> u8" where
  "seg_byte data s x = (if x < p_filesz s then data ! (p_offset s + x) else 0)"

definition seg_at :: "elf_phdr \<Rightarrow> nat \<Rightarrow> u64" where
  "seg_at s x = of_nat (p_vaddr s) + of_nat x"

lemma seg_pages_bounds: "p_memsz s \<le> seg_pages s * 4096" "p_memsz s < 2 ^ 31 \<Longrightarrow> seg_pages s \<le> 2 ^ 19"
  "0 < p_memsz s \<Longrightarrow> 0 < seg_pages s"
proof -
  have e: "p_memsz s = p_memsz s div 4096 * 4096 + p_memsz s mod 4096" by simp
  have m: "p_memsz s mod 4096 < 4096" by simp
  show "p_memsz s \<le> seg_pages s * 4096" unfolding seg_pages_def using e m by (auto split: if_splits)
  show "p_memsz s < 2 ^ 31 \<Longrightarrow> seg_pages s \<le> 2 ^ 19" unfolding seg_pages_def using e m by (auto split: if_splits)
  show "0 < p_memsz s \<Longrightarrow> 0 < seg_pages s" unfolding seg_pages_def using e by (auto split: if_splits)
qed

text \<open>The segment is in place: every byte of it can be read by the program, and written if the segment says so.\<close>

definition seg_loaded :: "u8 list \<Rightarrow> vmem \<Rightarrow> aspace \<Rightarrow> kmem \<Rightarrow> elf_phdr \<Rightarrow> bool" where
  "seg_loaded data m space mem s \<longleftrightarrow> (\<forall>x < p_memsz s. user_byte m space mem (seg_at s x) = Some (seg_byte data s x) \<and>
     (\<exists>e. mmu m space (seg_at s x) = Some e \<and> ph_used (vm_phys m) (pml_frame e) \<and> pml_user e \<and>
          (pml_writable e \<longleftrightarrow> p_flags s AND PF_W \<noteq> 0)))"

lemma seg_loaded_keep:
  assumes "seg_loaded data m space mem s" "\<And>x. x < p_memsz s \<Longrightarrow> mmu m' space (seg_at s x) = mmu m space (seg_at s x)"
    "\<forall>f. ph_used (vm_phys m) f \<longrightarrow> ph_used (vm_phys m') f \<and>
       (\<forall>b < 4096. mem' (getKernelVirtualAddress (of_nat (f * 4096)) + of_nat b) = mem (getKernelVirtualAddress (of_nat (f * 4096)) + of_nat b))"
  shows "seg_loaded data m' space mem' s"
  unfolding seg_loaded_def
proof (intro allI impI)
  fix x assume x: "x < p_memsz s"
  from assms(1) x obtain e where e: "mmu m space (seg_at s x) = Some e" "ph_used (vm_phys m) (pml_frame e)" "pml_user e"
    "pml_writable e \<longleftrightarrow> p_flags s AND PF_W \<noteq> 0" "user_byte m space mem (seg_at s x) = Some (seg_byte data s x)"
    unfolding seg_loaded_def by blast
  have "unat (seg_at s x AND 0xFFF) < 4096"
    using word_and_le1 [of "seg_at s x" "0xFFF"] by (simp add: word_le_nat_alt)
  then have "mem' (getKernelVirtualAddress (of_nat (pml_frame e * 4096)) + of_nat (unat (seg_at s x AND 0xFFF)))
      = mem (getKernelVirtualAddress (of_nat (pml_frame e * 4096)) + of_nat (unat (seg_at s x AND 0xFFF)))"
    using assms(3) e(2) by blast
  then have "user_byte m' space mem' (seg_at s x) = user_byte m space mem (seg_at s x)"
    using assms(2) [OF x] e(1) by (simp add: user_byte_def)
  then show "user_byte m' space mem' (seg_at s x) = Some (seg_byte data s x) \<and>
     (\<exists>e. mmu m' space (seg_at s x) = Some e \<and> ph_used (vm_phys m') (pml_frame e) \<and> pml_user e \<and>
          (pml_writable e \<longleftrightarrow> p_flags s AND PF_W \<noteq> 0))"
    using e assms(2) [OF x] assms(3) by auto
qed

definition seg_disjoint :: "elf_phdr \<Rightarrow> elf_phdr \<Rightarrow> bool" where
  "seg_disjoint s s' \<longleftrightarrow> p_vaddr s + seg_pages s * 4096 \<le> p_vaddr s' \<or> p_vaddr s' + seg_pages s' * 4096 \<le> p_vaddr s"

lemma seg_disjoint_page:
  assumes "seg_ok len s" "seg_ok len s'" "seg_disjoint s s'" "x < p_memsz s" "i < seg_pages s'"
  shows "\<not> same_page (seg_at s' (i * 4096)) (seg_at s x)"
proof -
  have xn: "x < seg_pages s * 4096" using assms(4) seg_pages_bounds(1) [of s] by simp
  have i: "i * 4096 + 4096 \<le> seg_pages s' * 4096" using assms(5) by simp
  have u: "unat (seg_at t y) = p_vaddr t + y" if "seg_ok len t" "y < seg_pages t * 4096" for t y
  proof -
    have lt: "p_vaddr t + y < 2 ^ 64" using that by (simp add: seg_ok_def)
    then have "unat (of_nat (p_vaddr t + y) :: u64) = p_vaddr t + y" by (rule unat_of_nat_u64)
    then show ?thesis by (simp only: seg_at_def of_nat_add)
  qed
  have a: "unat (seg_at s x) = p_vaddr s + x" "unat (seg_at s' (i * 4096)) = p_vaddr s' + i * 4096"
    using u [OF assms(1) xn] u [OF assms(2)] i by simp_all
  have al: "p_vaddr s' mod 4096 = 0" "p_vaddr s mod 4096 = 0" using assms(1,2) by (simp_all add: seg_ok_def)
  then obtain q q' where q: "p_vaddr s = q * 4096" "p_vaddr s' = q' * 4096" by (metis dvd_def dvd_eq_mod_eq_0 mult.commute)
  have "frame (seg_at s x) = q + x div 4096" "frame (seg_at s' (i * 4096)) = q' + i" using a by (simp_all add: frame_def q)
  moreover have "x div 4096 < seg_pages s" using xn by (simp add: div_less_iff_less_mult)
  moreover have "q + seg_pages s \<le> q' \<or> q' + seg_pages s' \<le> q" using assms(3) unfolding seg_disjoint_def q by auto
  ultimately have "frame (seg_at s x) \<noteq> frame (seg_at s' (i * 4096))" using assms(5) by auto
  moreover have "unat (seg_at s x) < 2 ^ 47" "unat (seg_at s' (i * 4096)) < 2 ^ 47"
    using a xn i assms(1,2) by (simp_all add: seg_ok_def)
  ultimately show ?thesis using same_page_frame by metis
qed

text \<open>The bytes that the two writes leave behind, inside and outside the run of frames.\<close>

lemma seg_memory:
  fixes mem :: kmem
  assumes "length bs = fsz" "fsz \<le> msz" "msz \<le> n * 4096" "s + n \<le> 2 ^ 19"
  defines "kva \<equiv> getKernelVirtualAddress (of_nat (s * 4096))"
  defines "mem' \<equiv> memset (store_bytes mem kva bs) (kva + of_nat fsz) 0 (of_nat (msz - fsz))"
  shows "x < msz \<Longrightarrow> mem' (kva + of_nat x) = (if x < fsz then bs ! x else 0)"
    and "f < 2 ^ 19 \<Longrightarrow> b < 4096 \<Longrightarrow> f < s \<or> s + n \<le> f \<Longrightarrow>
      mem' (getKernelVirtualAddress (of_nat (f * 4096)) + of_nat b) = mem (getKernelVirtualAddress (of_nat (f * 4096)) + of_nat b)"
proof -
  have small: "msz \<le> 2 ^ 31" using assms(3,4) by simp
  have um: "unat (of_nat (msz - fsz) :: u64) = msz - fsz" using small by (intro unat_of_nat_u64) simp
  have mem': "mem' = fill (store_bytes mem kva bs) (kva + of_nat fsz) 0 (msz - fsz)"
    by (simp only: mem'_def memset_fill um)
  show "mem' (kva + of_nat x) = (if x < fsz then bs ! x else 0)" if x: "x < msz"
  proof -
    have d: "unat (kva + of_nat x - (kva + of_nat fsz)) = (if fsz \<le> x then x - fsz else 2 ^ 64 - (fsz - x))"
      using x small assms(2) by (intro offset_distance) simp_all
    have "unat (of_nat x :: u64) = x" using x small by (intro unat_of_nat_u64) simp
    then show ?thesis unfolding mem' fill_def d using x small assms(1,2) by (auto simp: store_bytes_def)
  qed
  show "mem' (getKernelVirtualAddress (of_nat (f * 4096)) + of_nat b) = mem (getKernelVirtualAddress (of_nat (f * 4096)) + of_nat b)"
    if f: "f < 2 ^ 19" "b < 4096" "f < s \<or> s + n \<le> f"
    using other_frame [OF f(1) assms(4) f(2,3), of fsz "msz - fsz"] other_frame [OF f(1) assms(4) f(2,3), of 0 fsz] assms(1-3)
    unfolding mem' fill_def by (simp add: store_bytes_def kva_def)
qed

section \<open>The whole file\<close>

text \<open>An executable that the loader accepts: its header, and the program headers that the header points to.\<close>

definition exec_file :: "u8 list \<Rightarrow> elf_header \<Rightarrow> elf_phdr list \<Rightarrow> bool" where
  "exec_file data h ps \<longleftrightarrow> sizeof_Elf64_Header \<le> length data \<and> h = parse_header (take sizeof_Elf64_Header data) \<and>
     take 4 (e_ident h) = ELFMAG \<and> e_ident h ! 4 = ELFCLASS64 \<and> e_ident h ! 5 = ELFDATA2LSB \<and> e_type h = ET_EXEC \<and>
     e_phentsize h = sizeof_Elf64_Phdr \<and> 0 < e_phnum h \<and> e_phoff h + e_phnum h * sizeof_Elf64_Phdr \<le> length data \<and>
     ps = map (\<lambda>i. parse_phdr (take (e_phnum h * sizeof_Elf64_Phdr) (drop (e_phoff h) data)) (i * sizeof_Elf64_Phdr)) [0..<e_phnum h] \<and>
     (\<forall>s \<in> set ps. seg_ok (length data) s)"

lemma for_each_lookup:
  "\<forall>i \<in> set is. g i = Inr (h i) \<Longrightarrow> for_each (\<lambda>st i. bind_res (g i) (f st)) is st = for_each f (map h is) st"
  by (induction "is" arbitrary: st) (auto simp: bind_res_def split: sum.splits)

context block_device
begin

lemma read_segment:
  assumes "seg_ok (length content) s" "length content < 2 ^ 32" "0 < p_filesz s"
  shows "read (of_nat (p_offset s)) (of_nat (p_filesz s))
    = (int (p_filesz s), take (p_filesz s) (drop (p_offset s) content))"
proof -
  have le: "p_offset s + p_filesz s \<le> length content" using assms(1) by (simp add: seg_ok_def)
  have o: "unat (of_nat (p_offset s) :: u64) = p_offset s" using le assms(2) by (intro unat_of_nat_u64) simp
  have "p_filesz s < 2 ^ 32" using le assms(2) by simp
  then have f: "unat (of_nat (p_filesz s) :: u32) = p_filesz s" by (simp add: unsigned_of_nat take_bit_nat_eq_self)
  show ?thesis using read_inside [of "of_nat (p_offset s)" "of_nat (p_filesz s)"] le o f by simp
qed

text \<open>
  One segment is loaded: its bytes are where the program will look for them, and nothing that was
  there before changes, neither a translation of another page nor the contents of a used frame.
\<close>

lemma load_segment_ok:
  assumes ok: "seg_ok (length content) s" "length content < 2 ^ 32" and inv: "vm_inv m space" "\<not> as_lock space"
    and t: "tail_free (4 * seg_pages s + k) (vm_phys m)" and nh: "\<forall>i < seg_pages s. no_huge m space (seg_at s (i * 4096))"
  shows "\<exists>m' mem'. load_segment read (m, space, mem) s = Inr (m', space, mem') \<and> vm_inv m' space \<and>
    tail_free k (vm_phys m') \<and> (\<forall>x. no_huge m space x \<longrightarrow> no_huge m' space x) \<and>
    seg_loaded content m' space mem' s \<and>
    (\<forall>x. (\<forall>i < seg_pages s. \<not> same_page (seg_at s (i * 4096)) x) \<longrightarrow> mmu m' space x = mmu m space x) \<and>
    (\<forall>f. ph_used (vm_phys m) f \<longrightarrow> ph_used (vm_phys m') f \<and>
       (\<forall>b < 4096. mem' (getKernelVirtualAddress (of_nat (f * 4096)) + of_nat b) = mem (getKernelVirtualAddress (of_nat (f * 4096)) + of_nat b)))"
proof -
  let ?n = "seg_pages s" and ?va = "of_nat (p_vaddr s) :: u64" and ?fl = "seg_flags s"
  note seg = ok(1) [unfolded seg_ok_def]
  have n: "0 < ?n" "?n \<le> 2 ^ 19" "p_memsz s \<le> ?n * 4096" using seg seg_pages_bounds [of s] by auto
  have uva: "unat ?va = p_vaddr s" using seg by (intro unat_of_nat_u64) simp
  have va: "unat ?va + ?n * 4096 \<le> 2 ^ 47" "unat ?va mod 4096 = 0" using seg uva by auto
  have lim: "ph_limited (2 ^ 19) (vm_phys m)" using inv(1) by (simp add: vm_inv_def)
  obtain st m' where a: "allocSpace m space ?va ?n ?fl = Inr (of_nat (st * 4096), m', space)" "vm_inv m' space"
    "tail_free k (vm_phys m')" "st + ?n \<le> 2 ^ 19"
    "\<forall>i < ?n. \<not> ph_used (vm_phys m) (st + i) \<and> ph_used (vm_phys m') (st + i)"
    "\<forall>i. ph_used (vm_phys m) i \<longrightarrow> ph_used (vm_phys m') i" "\<forall>x. no_huge m space x \<longrightarrow> no_huge m' space x"
    "\<forall>i x. i < ?n \<and> same_page (?va + of_nat (i * 4096)) x \<longrightarrow> mmu m' space x = Some (of_nat ((st + i) * 4096) OR ?fl OR 1)"
    "\<forall>x. (\<forall>i < ?n. \<not> same_page (?va + of_nat (i * 4096)) x) \<longrightarrow> mmu m' space x = mmu m space x"
    using allocSpace_ok [OF inv n(1) t nh [unfolded seg_at_def] va(1)] by blast
  define kva where "kva = getKernelVirtualAddress (of_nat (st * 4096))"
  define bs where "bs = take (p_filesz s) (drop (p_offset s) content)"
  define mem' where "mem' = memset (store_bytes mem kva bs) (kva + of_nat (p_filesz s)) 0 (of_nat (p_memsz s - p_filesz s))"
  have lb: "length bs = p_filesz s" using seg by (auto simp: bs_def min_def)
  have "store_bytes mem kva [] = mem" by (simp add: store_bytes_def)
  then have "(if p_filesz s > 0
      then let (r, bs) = read (of_nat (p_offset s)) (of_nat (p_filesz s)) in assert_res (r > 0) (Inr (store_bytes mem kva bs))
      else Inr mem) = Inr (store_bytes mem kva bs)"
    using read_segment [OF ok] by (auto simp: bs_def)
  moreover have "?n mod 2 ^ 32 = ?n" "p_filesz s \<le> p_memsz s" using n(2) seg by simp_all
  ultimately have run: "load_segment read (m, space, mem) s = Inr (m', space, mem')"
    using a(1) unfolding load_segment_def mem'_def Let_def by (simp only: prod.case bind_res_Inr assert_res_def kva_def [symmetric] if_True)
  note sm = seg_memory [OF lb _ n(3) a(4), where mem = mem, folded kva_def, folded mem'_def]
  have fl: "?fl = 4 \<or> ?fl = 4 OR 2" "?fl = 4 OR 2 \<longleftrightarrow> p_flags s AND PF_W \<noteq> 0" by (auto simp: seg_flags_def)
  have inside: "user_byte m' space mem' (seg_at s x) = Some (seg_byte content s x) \<and>
       (\<exists>e. mmu m' space (seg_at s x) = Some e \<and> ph_used (vm_phys m') (pml_frame e) \<and> pml_user e \<and>
            (pml_writable e \<longleftrightarrow> p_flags s AND PF_W \<noteq> 0))" if x: "x < p_memsz s" for x
  proof -
    have xn: "x < ?n * 4096" using x n(3) by simp
    note ra = run_address [OF va(2,1) xn]
    let ?f = "st + x div 4096"
    have f: "?f < 2 ^ 19" using ra(3) a(4) by simp
    have e: "mmu m' space (seg_at s x) = Some (of_nat (?f * 4096) OR ?fl OR 1)"
      using a(8) ra(1,3) unfolding seg_at_def by blast
    note ef = entry_frame [OF f fl(1)]
    have "getKernelVirtualAddress (of_nat (?f * 4096)) + of_nat (x mod 4096) = kva + of_nat (x div 4096 * 4096 + x mod 4096)"
      by (simp only: kva_def getKernelVirtualAddress_def distrib_right of_nat_add add.assoc add.commute add.left_commute)
    then have ad: "getKernelVirtualAddress (of_nat (?f * 4096)) + of_nat (x mod 4096) = kva + of_nat x" by (simp only: div_mult_mod_eq)
    have "mem' (kva + of_nat x) = seg_byte content s x"
      using sm(1) [OF _ x] seg lb by (simp add: seg_byte_def bs_def)
    then have "user_byte m' space mem' (seg_at s x) = Some (seg_byte content s x)"
      using e ef(1) ad ra(2) by (simp only: user_byte_def option.case seg_at_def)
    moreover have "ph_used (vm_phys m') ?f" using a(5) ra(3) by blast
    ultimately show ?thesis using e ef fl(2) by simp
  qed
  have keep: "mem' (getKernelVirtualAddress (of_nat (f * 4096)) + of_nat b) = mem (getKernelVirtualAddress (of_nat (f * 4096)) + of_nat b)"
    if f: "ph_used (vm_phys m) f" "b < 4096" for f b
  proof -
    have "f < 2 ^ 19" using f(1) lim by (auto simp: ph_limited_def used_def)
    moreover have "f < st \<or> st + ?n \<le> f" using f(1) a(5) [rule_format, of "f - st"] by (cases "st \<le> f") (fastforce, simp)
    ultimately show ?thesis using sm(2) f(2) seg by blast
  qed
  show ?thesis using run a(2,3,6,7,9) inside keep unfolding seg_loaded_def seg_at_def by blast
qed

lemma load_segments_ok:
  assumes "\<forall>s \<in> set ps. seg_ok (length content) s" "length content < 2 ^ 32" "sorted_wrt seg_disjoint ps" "vm_inv m space" "\<not> as_lock space"
    "tail_free (4 * sum_list (map seg_pages ps) + k) (vm_phys m)"
    "\<forall>s \<in> set ps. \<forall>i < seg_pages s. no_huge m space (seg_at s (i * 4096))"
  shows "\<exists>m' mem'. for_each (load_segment read) ps (m, space, mem) = Inr (m', space, mem') \<and> vm_inv m' space \<and>
    tail_free k (vm_phys m') \<and> (\<forall>s \<in> set ps. seg_loaded content m' space mem' s) \<and>
    (\<forall>x. (\<forall>s \<in> set ps. \<forall>i < seg_pages s. \<not> same_page (seg_at s (i * 4096)) x) \<longrightarrow> mmu m' space x = mmu m space x) \<and>
    (\<forall>f. ph_used (vm_phys m) f \<longrightarrow> ph_used (vm_phys m') f \<and>
       (\<forall>b < 4096. mem' (getKernelVirtualAddress (of_nat (f * 4096)) + of_nat b) = mem (getKernelVirtualAddress (of_nat (f * 4096)) + of_nat b)))"
  using assms(1,3-4,6-7)
proof (induction ps arbitrary: m mem)
  case (Cons s ps)
  have t: "tail_free (4 * seg_pages s + (4 * sum_list (map seg_pages ps) + k)) (vm_phys m)"
    using Cons.prems(4) by (simp add: algebra_simps)
  obtain m1 mem1 where m1: "load_segment read (m, space, mem) s = Inr (m1, space, mem1)" "vm_inv m1 space"
    "tail_free (4 * sum_list (map seg_pages ps) + k) (vm_phys m1)" "\<forall>x. no_huge m space x \<longrightarrow> no_huge m1 space x"
    "seg_loaded content m1 space mem1 s"
    "\<forall>x. (\<forall>i < seg_pages s. \<not> same_page (seg_at s (i * 4096)) x) \<longrightarrow> mmu m1 space x = mmu m space x"
    "\<forall>f. ph_used (vm_phys m) f \<longrightarrow> ph_used (vm_phys m1) f \<and>
       (\<forall>b < 4096. mem1 (getKernelVirtualAddress (of_nat (f * 4096)) + of_nat b) = mem (getKernelVirtualAddress (of_nat (f * 4096)) + of_nat b))"
    using load_segment_ok [OF _ assms(2) Cons.prems(3) assms(5) t, of mem] Cons.prems(1,5) by auto
  obtain m2 mem2 where m2: "for_each (load_segment read) ps (m1, space, mem1) = Inr (m2, space, mem2)" "vm_inv m2 space"
    "tail_free k (vm_phys m2)" "\<forall>s \<in> set ps. seg_loaded content m2 space mem2 s"
    "\<forall>x. (\<forall>s \<in> set ps. \<forall>i < seg_pages s. \<not> same_page (seg_at s (i * 4096)) x) \<longrightarrow> mmu m2 space x = mmu m1 space x"
    "\<forall>f. ph_used (vm_phys m1) f \<longrightarrow> ph_used (vm_phys m2) f \<and>
       (\<forall>b < 4096. mem2 (getKernelVirtualAddress (of_nat (f * 4096)) + of_nat b) = mem1 (getKernelVirtualAddress (of_nat (f * 4096)) + of_nat b))"
    using Cons.IH [OF _ _ m1(2,3), of mem1] Cons.prems(1,2,5) m1(4) by auto
  have "mmu m2 space (seg_at s x) = mmu m1 space (seg_at s x)" if "x < p_memsz s" for x
    using m2(5) seg_disjoint_page that Cons.prems(1,2) by (metis list.set_intros sorted_wrt.simps(2))
  then have "seg_loaded content m2 space mem2 s" using seg_loaded_keep [OF m1(5)] m2(6) by blast
  moreover have "for_each (load_segment read) (s # ps) (m, space, mem) = Inr (m2, space, mem2)" using m1(1) m2(1) by simp
  ultimately show ?case using m2(2-6) m1(6,7) by auto
qed (use assms(5) in auto)

lemma load_file_ok:
  assumes "exec_file content h ps" "length content < 2 ^ 32" "sorted_wrt seg_disjoint ps"
    "vm_inv m (pr_space p)" "\<not> as_lock (pr_space p)" "tail_free (4 * sum_list (map seg_pages ps) + k) (vm_phys m)"
    "\<forall>s \<in> set ps. \<forall>i < seg_pages s. no_huge m (pr_space p) (seg_at s (i * 4096))"
  shows "\<exists>m' mem'. loadExecutable junk read m mem p = Inr (m', mem', p\<lparr>pr_entryPoint := of_nat (e_entry h)\<rparr>) \<and>
    vm_inv m' (pr_space p) \<and> tail_free k (vm_phys m') \<and> (\<forall>s \<in> set ps. seg_loaded content m' (pr_space p) mem' s)"
proof -
  note ex = assms(1) [unfolded exec_file_def]
  let ?sz = "e_phnum h * sizeof_Elf64_Phdr" and ?tab = "take (e_phnum h * sizeof_Elf64_Phdr) (drop (e_phoff h) content)"
  have rd: "dev_into read off n (fresh_buf junk n) = Inr (int n, take n (drop off content))" if "off + n \<le> length content" for off n
  proof -
    have "unat (of_nat off :: u64) = off" using that assms(2) by (intro unat_of_nat_u64) simp
    moreover have "unat (of_nat n :: u32) = n" using that assms(2) by (simp add: unsigned_of_nat take_bit_nat_eq_self)
    ultimately have "read (of_nat off) (of_nat n) = (int n, take n (drop off content))"
      using read_inside [of "of_nat off" "of_nat n"] that by simp
    then show ?thesis using that by (simp add: dev_into_def put_buf_def fresh_buf_def)
  qed
  have tl: "length ?tab = ?sz" using ex by (elim conjE) (simp del: min_def)
  have ps: "ps = map (\<lambda>i. parse_phdr ?tab (i * sizeof_Elf64_Phdr)) [0..<e_phnum h]" using ex by blast
  have ph: "phdr_at ?tab i = Inr (ps ! i)" if "i < e_phnum h" for i
  proof -
    have "Suc i * sizeof_Elf64_Phdr \<le> ?sz" using that by (intro mult_le_mono1) simp
    then have "Suc i * sizeof_Elf64_Phdr \<le> length ?tab" unfolding tl .
    then show ?thesis using that by (simp only: phdr_at_def if_True ps nth_map_upt) simp
  qed
  have len: "length ps = e_phnum h" using ps by simp
  have loop: "for_each (\<lambda>st i. bind_res (phdr_at ?tab i) (load_segment read st)) [0..<e_phnum h] st = for_each (load_segment read) ps st" for st
    using for_each_lookup [of "[0..<e_phnum h]" "phdr_at ?tab" "(!) ps" "load_segment read" st] ph len
    by (simp add: map_nth [of ps, unfolded len])
  obtain m' mem' where m': "for_each (load_segment read) ps (m, pr_space p, mem) = Inr (m', pr_space p, mem')" "vm_inv m' (pr_space p)"
    "tail_free k (vm_phys m')" "\<forall>s \<in> set ps. seg_loaded content m' (pr_space p) mem' s"
    using load_segments_ok [OF _ assms(2,3,4,5,6,7), of mem] ex by blast
  have h: "parse_header (take sizeof_Elf64_Header content) = h" "e_phentsize h = sizeof_Elf64_Phdr" "0 < e_phnum h"
    "take 4 (e_ident h) = ELFMAG" "e_ident h ! 4 = ELFCLASS64" "e_ident h ! 5 = ELFDATA2LSB" "e_type h = ET_EXEC"
    "0 + sizeof_Elf64_Header \<le> length content" "e_phoff h + ?sz \<le> length content"
    using ex by auto
  have pos: "0 < int sizeof_Elf64_Header" "0 < int ?sz" using h(3) by (simp_all add: sizeof_Elf64_Header_def sizeof_Elf64_Phdr_def)
  have "set_space p (pr_space p) = p" by (simp add: set_space_def)
  then have "loadExecutable junk read m mem p = Inr (m', mem', p\<lparr>pr_entryPoint := of_nat (e_entry h)\<rparr>)"
    unfolding loadExecutable_def Let_def
    by (simp only: rd [OF h(8)] drop_0 bind_res_Inr prod.case h pos if_True assert_res_def rd [OF h(9)] loop m'(1)) simp
  then show ?thesis using m' by blast
qed

end

text \<open>
  \<open>C5\<close> Loading a well-formed executable from the ram disk succeeds when enough memory is free and puts the
  program in place: every byte of every segment, read through the process's page tables, is the byte of the
  file, or zero behind the part that the file holds; the page is a user page and writable exactly when
  the segment is; and the entry point is that of the file.
\<close>

theorem loadExecutable_image:
  assumes "exec_file (file_bytes fm f) h ps" "length (file_bytes fm f) < 2 ^ 32" "sorted_wrt seg_disjoint ps"
    "vm_inv m (pr_space p)" "\<not> as_lock (pr_space p)" "tail_free (4 * sum_list (map seg_pages ps) + k) (vm_phys m)"
    "\<forall>s \<in> set ps. \<forall>i < seg_pages s. no_huge m (pr_space p) (seg_at s (i * 4096))"
  shows "\<exists>m' mem'. loadExecutable junk (file_read fm f) m mem p = Inr (m', mem', p\<lparr>pr_entryPoint := of_nat (e_entry h)\<rparr>) \<and>
    vm_inv m' (pr_space p) \<and> tail_free k (vm_phys m') \<and>
    (\<forall>s \<in> set ps. seg_loaded (file_bytes fm f) m' (pr_space p) mem' s)"
  using assms by (rule rdf.load_file_ok)

text \<open>A program of one segment of three bytes, of which the file holds two.\<close>

definition sample_exec :: "u8 list" where
  "sample_exec = [
     127, 69, 76, 70, 2, 1, 1, 0, 0, 0, 0, 0, 0, 0, 0, 0, 2, 0, 62, 0, 1, 0, 0, 0, 0, 0, 64, 0, 0, 0, 0, 0,
     64, 0, 0, 0, 0, 0, 0, 0, 0, 0, 0, 0, 0, 0, 0, 0, 0, 0, 0, 0, 64, 0, 56, 0, 1, 0, 0, 0, 0, 0, 0, 0] @ [
     1, 0, 0, 0, 6, 0, 0, 0, 120, 0, 0, 0, 0, 0, 0, 0, 0, 0, 64, 0, 0, 0, 0, 0, 0, 0, 0, 0, 0, 0, 0, 0, 2, 0,
     0, 0, 0, 0, 0, 0, 3, 0, 0, 0, 0, 0, 0, 0, 0, 0, 0, 0, 0, 0, 0, 0] @ [7, 8]"

definition sample_exec_file :: ifile where
  "sample_exec_file = \<lparr>if_header = 0, if_start = 0x1000, if_size = 122\<rparr>"

definition sample_exec_mem :: kmem where
  "sample_exec_mem = store_bytes (\<lambda>_. 0) 0x1000 sample_exec"

definition sample_seg :: elf_phdr where
  "sample_seg = \<lparr>p_type = 1, p_flags = 6, p_offset = 120, p_vaddr = 0x400000, p_paddr = 0, p_filesz = 2, p_memsz = 3, p_align = 0\<rparr>"

lemma sample_exec_bytes: "length sample_exec = 122" "file_bytes sample_exec_mem sample_exec_file = sample_exec"
proof -
  show l: "length sample_exec = 122" by (simp add: sample_exec_def)
  then show "file_bytes sample_exec_mem sample_exec_file = sample_exec"
    using bytes_at_store_bytes [of sample_exec "\<lambda>_. 0" "0x1000"]
    by (simp add: file_bytes_def sample_exec_mem_def sample_exec_file_def)
qed

lemma sample_exec_ok:
  "exec_file sample_exec (parse_header (take 64 sample_exec)) [sample_seg]" "e_entry (parse_header (take 64 sample_exec)) = 0x400000"
proof -
  let ?h = "parse_header (take 64 sample_exec)"
  have h: "take 4 (e_ident ?h) = ELFMAG" "e_ident ?h ! 4 = ELFCLASS64" "e_ident ?h ! 5 = ELFDATA2LSB" "e_type ?h = ET_EXEC"
    "e_phentsize ?h = 56" "e_phnum ?h = 1" "e_phoff ?h = 64" "e_entry ?h = 0x400000"
    by (simp_all add: parse_header_def sample_exec_def u16_at_def u64_at_def ELFMAG_def ELFCLASS64_def ELFDATA2LSB_def ET_EXEC_def)
  have s: "parse_phdr (take 56 (drop 64 sample_exec)) 0 = sample_seg"
    by (simp add: parse_phdr_def sample_exec_def sample_seg_def u32_at_def u64_at_def)
  have "seg_ok 122 sample_seg" by (simp add: seg_ok_def sample_seg_def seg_pages_def)
  then show "exec_file sample_exec ?h [sample_seg]"
    using h s sample_exec_bytes(1) by (simp add: exec_file_def sizeof_Elf64_Header_def sizeof_Elf64_Phdr_def)
  show "e_entry ?h = 0x400000" by (rule h)
qed

theorem loadExecutable_image_witness:
  "\<exists>m' mem' p'. loadExecutable (\<lambda>_. 0xFF) (file_read sample_exec_mem sample_exec_file) sample_vm (\<lambda>_. 0xFF)
      (\<lparr>pr_name = [], pr_id = 1, pr_threadIdCounter = 0, pr_entryPoint = 0, pr_space = sample_space, pr_threads = vec_null,
        pr_fds = vec_null\<rparr> :: nat process) = Inr (m', mem', p') \<and> pr_entryPoint p' = 0x400000 \<and>
    user_byte m' sample_space mem' 0x400001 = Some 8 \<and> user_byte m' sample_space mem' 0x400002 = Some 0"
proof -
  define p :: "nat process" where "p = \<lparr>pr_name = [], pr_id = 1, pr_threadIdCounter = 0, pr_entryPoint = 0,
    pr_space = sample_space, pr_threads = vec_null, pr_fds = vec_null\<rparr>"
  have sp: "pr_space p = sample_space" by (simp add: p_def)
  have n: "4 * sum_list (map seg_pages [sample_seg]) + 0 = 4" by (simp add: seg_pages_def sample_seg_def)
  have t: "tail_free (4 * sum_list (map seg_pages [sample_seg]) + 0) (vm_phys sample_vm)"
    unfolding n by (auto simp: tail_free_def sample_vm_def sample_phys_used) (simp_all add: sample_phys_def)
  have nh: "\<forall>s \<in> set [sample_seg]. \<forall>i < seg_pages s. no_huge sample_vm (pr_space p) (seg_at s (i * 4096))"
    unfolding sp using sample_vm_facts(2) by blast
  obtain m' mem' where r: "loadExecutable (\<lambda>_. 0xFF) (file_read sample_exec_mem sample_exec_file) sample_vm (\<lambda>_. 0xFF) p
      = Inr (m', mem', p\<lparr>pr_entryPoint := of_nat 0x400000\<rparr>)" "seg_loaded sample_exec m' sample_space mem' sample_seg"
    using loadExecutable_image [where fm = sample_exec_mem and f = sample_exec_file and p = p and mem = "\<lambda>_. 0xFF" and junk = "\<lambda>_. 0xFF",
        unfolded sample_exec_bytes(2), OF sample_exec_ok(1) _ _ _ _ t nh, unfolded sp sample_exec_ok(2)]
      sample_vm_facts(1,3) sample_exec_bytes(1) by auto
  have "user_byte m' sample_space mem' (seg_at sample_seg x) = Some (seg_byte sample_exec sample_seg x)" if "x < 3" for x
    using r(2) that by (simp add: seg_loaded_def sample_seg_def)
  from this [of 1] this [of 2] show ?thesis using r(1) unfolding p_def
    by (simp add: seg_at_def seg_byte_def sample_seg_def sample_exec_def)
qed

end
