(* ===== verification/Symbols.thy ===== *)
theory Symbols
  imports KHashMap Initrd
begin

text \<open>
  \<open>kernel/symbols.cpp\<close>: the table of kernel symbols that modules are linked against. It is read from a
  file of the ram disk: the number of symbols, then for each its address and its name. Reading behind
  the buffer is a fault. The counter of the loop cannot wrap around, because a buffer of 2 GiB or more does not
  fit into the heap and the allocation is asserted to succeed.
\<close>

type_synonym symtab = "(string, u64) hashMap"

definition cstr_in :: "u8 list \<Rightarrow> nat \<Rightarrow> string res" where
  "cstr_in buf i = (if 0 \<in> set (drop i buf) then Inr (map byte_char (takeWhile (\<lambda>b. b \<noteq> 0) (drop i buf))) else Inl BadAccess)"

function sym_loop :: "u8 list \<Rightarrow> nat \<Rightarrow> symtab \<Rightarrow> symtab res" where
  "sym_loop buf i h =
     (if i < length buf
      then bind_res (cstr_in buf (i + 8)) (\<lambda>name.
           bind_res (hm_set hash_string h name (of_nat (u64_at buf i))) (\<lambda>h.
           sym_loop buf (i + 8 + length name + 1) h))
      else Inr h)"
  by pat_completeness auto
termination
  by (relation "measure (\<lambda>(buf, i, h). length buf - i)") auto

declare sym_loop.simps [simp del]

definition symbols_install :: "junk \<Rightarrow> ('n, 's) node_ops \<Rightarrow> 's \<Rightarrow> 'n mounts \<Rightarrow> (symtab \<times> 's) res option" where
  "symbols_install junk ops s mt =
     bind_opt (resolvePath ops s mt ''/initrd/symbols'') (\<lambda>(r, s).
     case r of Inl e \<Rightarrow> Some (Inl Panic)
     | Inr file \<Rightarrow>
         bind_opt (Some (no_size ops s file)) (\<lambda>sz.
         bind_opt (Some (assert_res (unat sz < 2 ^ 31) (Inr (fresh_buf junk (unat sz))))) (\<lambda>buf.
         bind_opt (no_read ops s file 0 (ucast sz)) (\<lambda>(r, bs).
         bind_opt (Some (assert_res (r > 0) (put_buf buf 0 bs))) (\<lambda>buf.
         if length buf < 4 then Some (Inl BadAccess)
         else bind_opt (Some (sym_loop buf 4 (hm_new_sized (u32_at buf 0)))) (\<lambda>h. Some (Inr (h, s))))))))"

definition symbols_get :: "symtab \<Rightarrow> string \<Rightarrow> u64 res option" where
  "symbols_get h name = bind_opt (hm_get hash_string h name) (\<lambda>v. Some (Inr (case v of None \<Rightarrow> 0 | Some a \<Rightarrow> a)))"

section \<open>The format of the file\<close>

definition sym_entry :: "string \<times> u64 \<Rightarrow> u8 list" where
  "sym_entry e = le_bytes 8 (unat (snd e)) @ map of_char (fst e) @ [0]"

definition sym_file :: "nat \<Rightarrow> (string \<times> u64) list \<Rightarrow> u8 list" where
  "sym_file n es = le_bytes 4 n @ concat (map sym_entry es)"

lemma cstr_in_string:
  assumes "CHR 0x00 \<notin> set cs"
  shows "cstr_in (pre @ map of_char cs @ 0 # rest) (length pre) = Inr cs"
proof -
  have "takeWhile (\<lambda>b. b \<noteq> 0) (map of_char cs @ 0 # rest) = (map of_char cs :: u8 list)"
    using assms by (subst takeWhile_append2) (auto simp: of_char_eq_0)
  then show ?thesis by (simp add: cstr_in_def comp_def)
qed

lemma sym_loop_entries:
  assumes "\<forall>e \<in> set es. CHR 0x00 \<notin> set (fst e)" "hm_inv hash_string h"
  shows "\<exists>h'. sym_loop (pre @ concat (map sym_entry es)) (length pre) h = Inr h' \<and> hm_inv hash_string h' \<and>
    hm_look hash_string h' = map_of es ++ hm_look hash_string h"
  using assms
proof (induction es arbitrary: pre h)
  case Nil
  then show ?case by (simp add: sym_loop.simps)
next
  case (Cons e es)
  obtain name v where e: "e = (name, v)" by (cases e)
  let ?rest = "concat (map sym_entry es)" and ?buf = "pre @ concat (map sym_entry (e # es))"
  have buf: "?buf = (pre @ le_bytes 8 (unat v)) @ map of_char name @ 0 # ?rest"
    "?buf = (pre @ sym_entry e) @ ?rest" by (simp_all add: e sym_entry_def)
  have nm: "cstr_in ?buf (length pre + 8) = Inr name"
    using cstr_in_string [of name "pre @ le_bytes 8 (unat v)" ?rest] Cons.prems(1) buf(1) by (simp add: e)
  have "take 8 (drop (length pre) ?buf) = le_bytes 8 (unat v)" unfolding buf(1) by simp
  then have val: "(of_nat (u64_at ?buf (length pre)) :: u64) = v"
    using unat_lt_2p64 [of v] by (simp add: u64_at_def le_nat_le_bytes del: concat.simps)
  obtain h1 where h1: "hm_set hash_string h name v = Inr h1" "hm_inv hash_string h1"
    "hm_look hash_string h1 = (if hm_look hash_string h name = None then (hm_look hash_string h)(name \<mapsto> v) else hm_look hash_string h)"
    using hm_set_look [OF Cons.prems(2)] by blast
  have len: "length pre < length ?buf" "length pre + 8 + length name + 1 = length (pre @ sym_entry e)"
    by (simp_all add: e sym_entry_def)
  obtain h' where h': "sym_loop ((pre @ sym_entry e) @ ?rest) (length (pre @ sym_entry e)) h1 = Inr h'" "hm_inv hash_string h'"
    "hm_look hash_string h' = map_of es ++ hm_look hash_string h1"
    using Cons.IH [OF _ h1(2), of "pre @ sym_entry e"] Cons.prems(1) by (meson list.set_intros(2))
  have "sym_loop ?buf (length pre) h = Inr h'"
    using nm val h1(1) h'(1) len by (subst sym_loop.simps) (simp only: if_True bind_res_Inr buf(2))
  moreover have "map_of es ++ hm_look hash_string h1 = map_of (e # es) ++ hm_look hash_string h"
    using h1(3) by (auto simp: e map_add_def fun_eq_iff split: option.splits)
  ultimately show ?case using h'(2,3) by metis
qed

text \<open>
  Installing the symbol file of the ram disk succeeds, and afterwards every symbol of the file is found
  at its address (the first one, if a name occurs twice) and every other name gives 0.
\<close>

theorem symbols_install_get:
  assumes "rd_inv b fs s" "rd_next s + 1 \<noteq> 0"
    "findMountPoint mt [''initrd'', ''symbols''] = Some \<lparr>mp_node = RdRoot, mp_path = ''/initrd''\<rparr>"
    "map_of fs ''symbols'' = Some (sym_file n es)" "0 < n" "n < 2 ^ 32" "length (sym_file n es) < 2 ^ 31"
    "\<forall>e \<in> set es. CHR 0x00 \<notin> set (fst e)"
  shows "\<exists>h s'. symbols_install junk initrd_ops s mt = Some (Inr (h, s')) \<and> rd_inv b fs s' \<and>
    (\<forall>name. symbols_get h name = Some (Inr (case map_of es name of None \<Rightarrow> 0 | Some a \<Rightarrow> a)))"
proof -
  let ?d = "sym_file n es"
  obtain a s' where r: "resolvePath initrd_ops s mt ''/initrd/symbols'' = Some (Inr (Inr (RdFile a), s'))" "rd_inv b fs s'"
    "rd_size s' (RdFile a) = Inr (of_nat (length ?d))"
    "\<forall>k. rd_read s' (RdFile a) 0 k = Some (Inr (int (min (unat k) (length ?d)), take (unat k) ?d))"
    using initrd_resolve_ok [OF assms(1,2,3)] assms(4) by auto
  have u: "unat (of_nat (length ?d) :: u64) = length ?d" using assms(7) by (intro unat_of_nat_u64) simp
  have u2: "unat (ucast (of_nat (length ?d) :: u64) :: u32) = length ?d"
    using assms(7) u by (simp add: unsigned_ucast_eq take_bit_nat_eq_self)
  have pos: "4 \<le> length ?d" by (simp add: sym_file_def)
  then have ne: "?d \<noteq> []" by auto
  have cnt: "u32_at ?d 0 = n" using assms(6) by (simp add: u32_at_def sym_file_def le_nat_le_bytes)
  obtain h where h: "sym_loop ?d 4 (hm_new_sized n) = Inr h" "hm_inv hash_string h" "hm_look hash_string h = map_of es"
    using sym_loop_entries [OF assms(8) hm_new_sized_inv(1) [OF assms(5)], of "le_bytes 4 n"]
    by (auto simp: sym_file_def hm_new_sized_inv(2) [OF assms(5)])
  have "symbols_install junk initrd_ops s mt = Some (Inr (h, s'))"
    using r(1,3,4) assms(7) pos ne h(1) cnt u u2
    by (simp add: symbols_install_def initrd_ops_def put_buf_def fresh_buf_def assert_res_def)
  moreover have "symbols_get h name = Some (Inr (case map_of es name of None \<Rightarrow> 0 | Some a \<Rightarrow> a))" for name
    using hm_get_ok [OF h(2), of name] h(3) by (simp add: symbols_get_def)
  ultimately show ?thesis using r(2) by blast
qed

theorem symbols_install_get_witness:
  "\<exists>h s'. symbols_install (\<lambda>_. 0xFF) initrd_ops (one_rd ''symbols'' (sym_file 1 [(''f'', 0xFFFF8000)]))
      (mountNode (fs_init RdRoot) ''/initrd'' RdRoot) = Some (Inr (h, s')) \<and>
    symbols_get h ''f'' = Some (Inr 0xFFFF8000) \<and> symbols_get h ''g'' = Some (Inr 0)"
proof -
  let ?d = "sym_file 1 [(''f'', 0xFFFF8000)]"
  have len: "length ?d = 14" by (simp add: sym_file_def sym_entry_def)
  have inv: "rd_inv 0x1000 [(''symbols'', ?d)] (one_rd ''symbols'' ?d)" by (rule one_rd_inv) (simp_all only: len, simp_all)
  have mp: "findMountPoint (mountNode (fs_init RdRoot) ''/initrd'' RdRoot) [''initrd'', ''symbols''] = Some \<lparr>mp_node = RdRoot, mp_path = ''/initrd''\<rparr>"
    by (rule initrd_mount) simp_all
  from symbols_install_get [OF inv _ mp, where n = 1 and es = "[(''f'', 0xFFFF8000)]" and junk = "\<lambda>_. 0xFF"] len
  show ?thesis by (auto simp: one_rd_def split: if_splits)
qed

end
