(* ===== verification/Irq.thy ===== *)
theory Irq
  imports KTrees
begin

text \<open>
  Interrupt delivery: \<open>kernel/devices/apic/ioapic.cpp\<close>, \<open>kernel/devices/pic.cpp\<close>,
  \<open>kernel/interrupts/interrupts.cpp\<close> and \<open>kernel/interrupts/idt.cpp\<close>. The controllers are represented by
  their registers, as their data sheets describe them: an access to an IOAPIC selects a register
  through the index register at its address and then reads or writes it through the window behind it;
  a mask register of the PIC holds the byte last written to its port. The list of IOAPICs is
  represented by the sequence of its elements, the tree of remapped lines by the search tree.
\<close>

section \<open>State\<close>

record ioapic =
  ioa_ID :: u8
  ioa_address :: u64
  ioa_GSIBase :: u32
  ioa_maxIRQ :: u32

record irqs =
  iq_apics :: "ioapic list"
  iq_map :: "(u8, u8) btree"
  iq_sel :: "u64 \<Rightarrow> u32"
  iq_reg :: "u64 \<Rightarrow> u32 \<Rightarrow> u32"
  iq_port :: "u16 \<Rightarrow> u8"
  iq_entries :: "u8 \<Rightarrow> u64"

section \<open>IOAPIC\<close>

definition writeIOAPIC :: "irqs \<Rightarrow> ioapic \<Rightarrow> u32 \<Rightarrow> u32 \<Rightarrow> irqs" where
  "writeIOAPIC s ioa reg v =
     (let a = ioa_address ioa; s = s\<lparr>iq_sel := (iq_sel s)(a := reg AND 0xFF)\<rparr> in
      s\<lparr>iq_reg := (iq_reg s)(a := (iq_reg s a)(iq_sel s a := v))\<rparr>)"

definition readIOAPIC :: "irqs \<Rightarrow> ioapic \<Rightarrow> u32 \<Rightarrow> u32 \<times> irqs" where
  "readIOAPIC s ioa reg =
     (let a = ioa_address ioa; s = s\<lparr>iq_sel := (iq_sel s)(a := reg AND 0xFF)\<rparr> in (iq_reg s a (iq_sel s a), s))"

definition ioapic_isEnable :: "irqs \<Rightarrow> bool" where
  "ioapic_isEnable s \<longleftrightarrow> iq_apics s \<noteq> []"

definition ioapic_add :: "irqs \<Rightarrow> (u64 \<Rightarrow> u64) \<Rightarrow> u8 \<Rightarrow> u32 \<Rightarrow> u32 \<Rightarrow> irqs" where
  "ioapic_add s toVirtual ID address GSI =
     (let ioa = \<lparr>ioa_ID = ID, ioa_address = toVirtual (ucast address), ioa_GSIBase = GSI, ioa_maxIRQ = 0\<rparr>;
          (v, s) = readIOAPIC s ioa 1 in
      s\<lparr>iq_apics := iq_apics s @ [ioa\<lparr>ioa_maxIRQ := drop_bit 16 v AND 0xFF\<rparr>]\<rparr>)"

definition remapIRQ :: "irqs \<Rightarrow> u8 \<Rightarrow> u8 \<Rightarrow> irqs" where
  "remapIRQ s source destination = s\<lparr>iq_map := bt_insert (iq_map s) source destination\<rparr>"

definition getIRQRemap :: "irqs \<Rightarrow> u8 \<Rightarrow> u8" where
  "getIRQRemap s irq = (if \<not> ioapic_isEnable s then irq else case bt_find (iq_map s) irq of Some r \<Rightarrow> r | None \<Rightarrow> irq)"

definition serves :: "u8 \<Rightarrow> ioapic \<Rightarrow> bool" where
  "serves irq ioa \<longleftrightarrow> ucast irq \<ge> ioa_GSIBase ioa \<and> ucast irq < ioa_GSIBase ioa + ioa_maxIRQ ioa"

definition getIoApicForIrq :: "irqs \<Rightarrow> u8 \<Rightarrow> ioapic option" where
  "getIoApicForIrq s irq = find (serves irq) (iq_apics s)"

definition irq_reg :: "u8 \<Rightarrow> u32" where
  "irq_reg irq = 0x10 + ucast irq * 2"

definition addIRQMapping :: "irqs \<Rightarrow> u8 \<Rightarrow> u8 \<Rightarrow> u8 \<Rightarrow> irqs res" where
  "addIRQMapping s irq vector lApicID =
     (let vector = vector + 32; low = ucast vector OR push_bit 16 1; high = push_bit 24 (ucast (lApicID AND 0xF)) in
      case getIoApicForIrq s irq of None \<Rightarrow> Inl Panic
      | Some ioa \<Rightarrow>
          let irq = irq - ucast (ioa_GSIBase ioa); s = writeIOAPIC s ioa (irq_reg irq) low in
          Inr (writeIOAPIC s ioa (irq_reg irq + 1) high))"

text \<open>\<open>maskIRQ\<close> does not check the pointer that it got; a write through null is a fault.\<close>

definition ioapic_maskIRQ :: "irqs \<Rightarrow> u8 \<Rightarrow> irqs res" where
  "ioapic_maskIRQ s irq =
     (case getIoApicForIrq s irq of None \<Rightarrow> Inl BadAccess
      | Some ioa \<Rightarrow> let (v, s) = readIOAPIC s ioa (irq_reg irq) in Inr (writeIOAPIC s ioa (irq_reg irq) (v OR push_bit 16 1)))"

definition ioapic_unmaskIRQ :: "irqs \<Rightarrow> u8 \<Rightarrow> irqs res" where
  "ioapic_unmaskIRQ s irq =
     (case getIoApicForIrq s irq of None \<Rightarrow> Inl Panic
      | Some ioa \<Rightarrow> let (v, s) = readIOAPIC s ioa (irq_reg irq) in Inr (writeIOAPIC s ioa (irq_reg irq) (v AND NOT (push_bit 16 1))))"

section \<open>PIC\<close>

definition outb :: "irqs \<Rightarrow> u16 \<Rightarrow> u8 \<Rightarrow> irqs" where
  "outb s port v = s\<lparr>iq_port := (iq_port s)(port := v)\<rparr>"

definition inb :: "irqs \<Rightarrow> u16 \<Rightarrow> u8" where
  "inb s port = iq_port s port"

definition pic_disable :: "irqs \<Rightarrow> irqs" where
  "pic_disable s = outb (outb s 0x21 0xFF) 0xA1 0xFF"

definition pic_init :: "irqs \<Rightarrow> irqs" where
  "pic_init s = pic_disable (fold (\<lambda>(port, v) s. outb s port v)
     [(0x20, 0x11), (0xA0, 0x11), (0x21, 0x20), (0xA1, 0x28), (0x21, 0x04), (0xA1, 0x02), (0x21, 0x01), (0xA1, 0x01),
      (0x21, 0x00), (0xA1, 0x00)] s)"

definition pic_maskIRQ :: "irqs \<Rightarrow> u8 \<Rightarrow> irqs" where
  "pic_maskIRQ s num =
     (let (port, num) = (if num < 8 then (0x21, num) else (0xA1, num - 8)); oldmask = inb s port in
      outb s port (oldmask OR push_bit (unat num) 1))"

definition pic_unmask1 :: "irqs \<Rightarrow> u16 \<Rightarrow> u8 \<Rightarrow> irqs" where
  "pic_unmask1 s port num = outb s port (inb s port AND NOT (push_bit (unat num) 1))"

definition pic_unmaskIRQ :: "irqs \<Rightarrow> u8 \<Rightarrow> irqs res" where
  "pic_unmaskIRQ s num = assert_res (num \<le> 15) (Inr (
     if num < 8 then pic_unmask1 s 0x21 num else pic_unmask1 (pic_unmask1 s 0x21 2) 0xA1 (num - 8)))"

definition pic_sendEOI :: "irqs \<Rightarrow> u8 \<Rightarrow> irqs res" where
  "pic_sendEOI s irq = assert_res (irq \<le> 15) (
     let s = (if irq \<ge> 8 then outb s 0xA0 0x20 else s) in Inr (outb s 0x20 0x20))"

section \<open>Handlers\<close>

text \<open>\<open>lApicID\<close> is the identifier of the current processor's local APIC.\<close>

definition addEntry :: "irqs \<Rightarrow> u8 \<Rightarrow> u8 \<Rightarrow> u64 \<Rightarrow> irqs res" where
  "addEntry s lApicID vector entry =
     (let s = s\<lparr>iq_entries := (iq_entries s)(vector := entry)\<rparr> in
      if vector \<ge> 32
      then let irq = vector - 32 in
           if ioapic_isEnable s
           then if getIoApicForIrq s irq \<noteq> None
                then bind_res (addIRQMapping s irq irq lApicID) (\<lambda>s. ioapic_unmaskIRQ s irq)
                else Inr s
           else if irq < 16 then pic_unmaskIRQ s irq else Inr s
      else Inr s)"

definition removeEntry :: "irqs \<Rightarrow> u8 \<Rightarrow> irqs res" where
  "removeEntry s vector =
     (let s = s\<lparr>iq_entries := (iq_entries s)(vector := 0)\<rparr> in
      if vector \<ge> 32
      then let irq = vector - 32 in
           if ioapic_isEnable s
           then if getIoApicForIrq s irq \<noteq> None then ioapic_maskIRQ s irq else Inr s
           else if irq < 16 then Inr (pic_maskIRQ s irq) else Inr s
      else Inr s)"

text \<open>What \<open>enable\<close> and \<open>disable\<close> see of a processor: whether its \<open>CPU\<close> exists, its counter, and the interrupt flag.\<close>

record intr =
  ir_init :: bool
  ir_level :: u32
  ir_flag :: bool

text \<open>
  The handler that is called for a vector, and the processor as it finds it: the gate has disabled
  interrupts, and the counter restarts at one. The index is a \<open>uint\<close>.
\<close>

definition interruptsHandler :: "irqs \<Rightarrow> intr \<Rightarrow> u32 \<Rightarrow> u64 \<Rightarrow> (u64 \<times> intr) res" where
  "interruptsHandler s cpu vector state =
     (let cpu = cpu\<lparr>ir_level := 1\<rparr> in
      assert_res (state \<noteq> 0) (if unat vector \<ge> 256 then Inl BadAccess
      else assert_res (iq_entries s (ucast vector) \<noteq> 0) (Inr (iq_entries s (ucast vector), cpu))))"

section \<open>Nested disabling\<close>

definition intr_enable :: "intr \<Rightarrow> intr res" where
  "intr_enable s =
     (if \<not> ir_init s then Inr (s\<lparr>ir_flag := True\<rparr>)
      else assert_res (ir_level s > 0) (
           let s = s\<lparr>ir_level := ir_level s - 1\<rparr> in
           Inr (if ir_level s = 0 then s\<lparr>ir_flag := True\<rparr> else s)))"

definition intr_disable :: "intr \<Rightarrow> intr" where
  "intr_disable s =
     (let s = s\<lparr>ir_flag := False\<rparr> in if ir_init s then s\<lparr>ir_level := ir_level s + 1\<rparr> else s)"

datatype intr_op = Enable | Disable

fun intr_run :: "intr_op list \<Rightarrow> intr \<Rightarrow> intr res" where
  "intr_run [] s = Inr s"
| "intr_run (Enable # os) s = bind_res (intr_enable s) (intr_run os)"
| "intr_run (Disable # os) s = intr_run os (intr_disable s)"

section \<open>Interrupt descriptor table\<close>

record gate =
  g_baseLow :: u16
  g_segmentSelector :: u16
  g_IST :: u8
  g_gateType :: u8
  g_reserved1 :: bool
  g_DPL :: u8
  g_present :: bool
  g_baseMid :: u16
  g_basHigh :: u32
  g_reserved :: u32

definition zero_gate :: gate where
  "zero_gate = \<lparr>g_baseLow = 0, g_segmentSelector = 0, g_IST = 0, g_gateType = 0, g_reserved1 = False, g_DPL = 0,
     g_present = False, g_baseMid = 0, g_basHigh = 0, g_reserved = 0\<rparr>"

definition maxEntries :: nat where "maxEntries = 256"

definition setEntry :: "gate list \<Rightarrow> u8 \<Rightarrow> u64 \<Rightarrow> u8 \<Rightarrow> gate list res" where
  "setEntry idt entry isr ist = assert_res (ist \<le> 7) (
     let g = idt ! unat entry in
     Inr (idt[unat entry := g\<lparr>g_baseLow := ucast (isr AND 0xFFFF), g_baseMid := ucast (drop_bit 16 isr AND 0xFFFF),
       g_basHigh := ucast (drop_bit 32 isr AND 0xFFFFFFFF), g_segmentSelector := 8, g_gateType := 0xE, g_present := True,
       g_IST := ist\<rparr>]))"

text \<open>\<open>isr\<close> and \<open>irq\<close> give the addresses of the entry points \<open>isr_0\<close> to \<open>isr_31\<close> and \<open>irq_0\<close> to \<open>irq_15\<close>.\<close>

definition idt_init :: "(nat \<Rightarrow> u64) \<Rightarrow> (nat \<Rightarrow> u64) \<Rightarrow> gate list res" where
  "idt_init isr irq =
     bind_res (for_each (\<lambda>idt i. setEntry idt (of_nat i) (isr i) 1) [0..<32] (replicate maxEntries zero_gate)) (\<lambda>idt.
     for_each (\<lambda>idt i. setEntry idt (of_nat (32 + i)) (irq i) 0) [0..<16] idt)"

text \<open>The address that the processor jumps to, put together from the three fields.\<close>

definition gate_base :: "gate \<Rightarrow> u64" where
  "gate_base g = ucast (g_baseLow g) OR push_bit 16 (ucast (g_baseMid g)) OR push_bit 32 (ucast (g_basHigh g))"

section \<open>Nesting\<close>

abbreviation count_ops :: "intr_op \<Rightarrow> intr_op list \<Rightarrow> nat" where
  "count_ops o' os \<equiv> length (filter ((=) o') os)"

text \<open>
  Calls of \<open>disable\<close> and \<open>enable\<close> nest: as long as no \<open>enable\<close> comes without its \<open>disable\<close>, none of
  them panics, the counter is the nesting depth, and interrupts are enabled exactly at depth zero.
\<close>

theorem intr_nesting:
  assumes "ir_init s" "ir_flag s \<longleftrightarrow> ir_level s = 0" "unat (ir_level s) + length os < 2 ^ 32"
    "\<forall>k \<le> length os. count_ops Enable (take k os) \<le> unat (ir_level s) + count_ops Disable (take k os)"
  shows "\<exists>s'. intr_run os s = Inr s' \<and> ir_init s' \<and> (ir_flag s' \<longleftrightarrow> ir_level s' = 0) \<and>
    unat (ir_level s') + count_ops Enable os = unat (ir_level s) + count_ops Disable os"
  using assms
proof (induction os arbitrary: s)
  case (Cons o' os)
  show ?case
  proof (cases o')
    case Enable
    have "1 \<le> unat (ir_level s)" using Cons.prems(4) [rule_format, of 1] Enable by simp
    then have u: "unat (ir_level s - 1) = unat (ir_level s) - 1" "0 < ir_level s"
      by (simp_all add: unat_sub word_le_nat_alt word_less_nat_alt)
    define s1 where "s1 = s\<lparr>ir_level := ir_level s - 1, ir_flag := (if ir_level s - 1 = 0 then True else ir_flag s)\<rparr>"
    have s1: "intr_enable s = Inr s1" using u(2) Cons.prems(1) by (cases s) (auto simp: intr_enable_def s1_def Let_def)
    have l: "unat (ir_level s1) = unat (ir_level s) - 1" using u(1) by (simp add: s1_def)
    have "count_ops Enable (take k os) \<le> unat (ir_level s1) + count_ops Disable (take k os)" if "k \<le> length os" for k
      using Cons.prems(4) [rule_format, of "Suc k"] that l Enable \<open>1 \<le> unat (ir_level s)\<close> by simp
    moreover have "ir_flag s1 \<longleftrightarrow> ir_level s1 = 0" using Cons.prems(2) u(2) by (auto simp: s1_def)
    moreover have "ir_init s1" using Cons.prems(1) by (simp add: s1_def)
    moreover have "unat (ir_level s1) + length os < 2 ^ 32" using Cons.prems(3) l by simp
    ultimately obtain s' where "intr_run os s1 = Inr s'" "ir_init s'" "ir_flag s' \<longleftrightarrow> ir_level s' = 0"
      "unat (ir_level s') + count_ops Enable os = unat (ir_level s1) + count_ops Disable os"
      using Cons.IH [of s1] by blast
    then show ?thesis using s1 l Enable \<open>1 \<le> unat (ir_level s)\<close> by simp
  next
    case Disable
    have "unat (ir_level s) < 2 ^ 32 - 1" using Cons.prems(3) by simp
    then have l: "unat (ir_level (intr_disable s)) = unat (ir_level s) + 1"
      using Cons.prems(1) by (simp add: intr_disable_def unat_word_ariths(1))
    then have "ir_level (intr_disable s) \<noteq> 0" by (metis add_is_0 one_neq_zero unsigned_0)
    then have f: "ir_flag (intr_disable s) \<longleftrightarrow> ir_level (intr_disable s) = 0" by (simp add: intr_disable_def Let_def)
    have "count_ops Enable (take k os) \<le> unat (ir_level (intr_disable s)) + count_ops Disable (take k os)" if "k \<le> length os" for k
      using Cons.prems(4) [rule_format, of "Suc k"] that l Disable by simp
    moreover have "ir_init (intr_disable s)" using Cons.prems(1) by (simp add: intr_disable_def)
    ultimately obtain s' where "intr_run os (intr_disable s) = Inr s'" "ir_init s'" "ir_flag s' \<longleftrightarrow> ir_level s' = 0"
      "unat (ir_level s') + count_ops Enable os = unat (ir_level (intr_disable s)) + count_ops Disable os"
      using Cons.IH [of "intr_disable s"] Cons.prems(3) l f by auto
    then show ?thesis using l Disable by simp
  qed
qed simp

theorem intr_nesting_witness:
  "\<exists>s'. intr_run [Disable, Disable, Enable, Enable] \<lparr>ir_init = True, ir_level = 0, ir_flag = True\<rparr> = Inr s' \<and> ir_flag s'"
proof -
  have "\<forall>k \<le> length [Disable, Disable, Enable, Enable]. count_ops Enable (take k [Disable, Disable, Enable, Enable])
      \<le> unat (0 :: u32) + count_ops Disable (take k [Disable, Disable, Enable, Enable])"
    by (simp add: numeral_eq_Suc le_Suc_eq)
  from intr_nesting [of "\<lparr>ir_init = True, ir_level = 0, ir_flag = True\<rparr>" "[Disable, Disable, Enable, Enable]"] this
  show ?thesis by (auto simp: unat_eq_zero)
qed

section \<open>Gates\<close>

lemma gate_base_split:
  fixes a :: u64
  shows "ucast (ucast (a AND 0xFFFF) :: u16) OR push_bit 16 (ucast (ucast (drop_bit 16 a AND 0xFFFF) :: u16))
    OR push_bit 32 (ucast (ucast (drop_bit 32 a AND 0xFFFFFFFF) :: u32)) = a" (is "?l = a")
proof (rule bit_word_eqI)
  have m: "(0xFFFF :: u64) = mask 16" "(0xFFFFFFFF :: u64) = mask 32" by (simp_all add: mask_eq_exp_minus_1)
  fix n assume "n < LENGTH(64)"
  then show "bit ?l n \<longleftrightarrow> bit a n" unfolding m
    by (cases "n < 16"; cases "n < 32")
      (auto simp: bit_or_iff bit_and_iff bit_push_bit_iff bit_drop_bit_eq bit_mask_iff bit_ucast_iff)
qed

lemma setEntry_ok:
  assumes "ist \<le> 7" "unat entry < length idt"
  shows "\<exists>g. setEntry idt entry isr ist = Inr (idt[unat entry := g]) \<and> g_present g \<and> gate_base g = isr \<and> g_IST g = ist \<and>
    g_gateType g = 0xE \<and> g_segmentSelector g = 8"
proof -
  define g where "g = (idt ! unat entry)\<lparr>g_baseLow := ucast (isr AND 0xFFFF), g_baseMid := ucast (drop_bit 16 isr AND 0xFFFF),
    g_basHigh := ucast (drop_bit 32 isr AND 0xFFFFFFFF), g_segmentSelector := 8, g_gateType := 0xE, g_present := True, g_IST := ist\<rparr>"
  have "gate_base g = isr" using gate_base_split [of isr] by (simp add: g_def gate_base_def)
  moreover have "setEntry idt entry isr ist = Inr (idt[unat entry := g])" using assms(1) by (simp add: setEntry_def g_def Let_def)
  ultimately show ?thesis by (intro exI [of _ g]) (simp add: g_def)
qed

text \<open>A loop that sets consecutive entries sets exactly these.\<close>

lemma set_entries:
  assumes "ist \<le> 7" "b + n \<le> 256" "length idt = 256"
  shows "\<exists>idt'. for_each (\<lambda>idt i. setEntry idt (of_nat (b + i)) (f i) ist) [0..<n] idt = Inr idt' \<and> length idt' = 256 \<and>
    (\<forall>i < n. g_present (idt' ! (b + i)) \<and> gate_base (idt' ! (b + i)) = f i \<and> g_IST (idt' ! (b + i)) = ist) \<and>
    (\<forall>j. j < b \<or> b + n \<le> j \<longrightarrow> idt' ! j = idt ! j)"
  using assms(2)
proof (induction n)
  case (Suc n)
  then obtain i1 where i1: "for_each (\<lambda>idt i. setEntry idt (of_nat (b + i)) (f i) ist) [0..<n] idt = Inr i1" "length i1 = 256"
    "\<forall>i < n. g_present (i1 ! (b + i)) \<and> gate_base (i1 ! (b + i)) = f i \<and> g_IST (i1 ! (b + i)) = ist"
    "\<forall>j. j < b \<or> b + n \<le> j \<longrightarrow> i1 ! j = idt ! j" by auto
  have u: "unat (of_nat (b + n) :: u8) = b + n" using Suc.prems by (simp add: unsigned_of_nat take_bit_nat_eq_self del: of_nat_add)
  obtain g where g: "setEntry i1 (of_nat (b + n)) (f n) ist = Inr (i1[b + n := g])" "g_present g" "gate_base g = f n" "g_IST g = ist"
    using setEntry_ok [OF assms(1), of "of_nat (b + n)" i1 "f n"] u i1(2) Suc.prems by auto
  have "for_each (\<lambda>idt i. setEntry idt (of_nat (b + i)) (f i) ist) [0..<Suc n] idt = Inr (i1[b + n := g])"
    using i1(1) g(1) by (simp add: push_all_append del: of_nat_add)
  moreover have "g_present (i1[b + n := g] ! (b + i)) \<and> gate_base (i1[b + n := g] ! (b + i)) = f i \<and> g_IST (i1[b + n := g] ! (b + i)) = ist"
    if "i < Suc n" for i
    using that g i1(2,3) Suc.prems by (cases "i = n") auto
  ultimately show ?case using i1(2,4) by auto
qed (use assms(3) in simp)

text \<open>
  \<open>IDT::init\<close> succeeds; afterwards the gates of the 32 exceptions and the 16 interrupt lines are present
  and lead to their entry points, put together again from the three parts of the address, with the
  stack switch for exceptions only, and no other gate is present.
\<close>

theorem idt_init_gates:
  "\<exists>idt. idt_init isr irq = Inr idt \<and> length idt = 256 \<and> (\<forall>v < 256.
     if v < 32 then g_present (idt ! v) \<and> gate_base (idt ! v) = isr v \<and> g_IST (idt ! v) = 1
     else if v < 48 then g_present (idt ! v) \<and> gate_base (idt ! v) = irq (v - 32) \<and> g_IST (idt ! v) = 0
     else \<not> g_present (idt ! v))"
proof -
  have l: "length (replicate maxEntries zero_gate) = 256" by (simp add: maxEntries_def)
  obtain i1 where i1: "for_each (\<lambda>idt i. setEntry idt (of_nat (0 + i)) (isr i) 1) [0..<32] (replicate maxEntries zero_gate) = Inr i1"
    "length i1 = 256" "\<forall>i < 32. g_present (i1 ! (0 + i)) \<and> gate_base (i1 ! (0 + i)) = isr i \<and> g_IST (i1 ! (0 + i)) = 1"
    "\<forall>j. j < 0 \<or> 0 + 32 \<le> j \<longrightarrow> i1 ! j = replicate maxEntries zero_gate ! j"
    using set_entries [OF _ _ l, of 1 0 32 isr] by auto
  obtain i2 where i2: "for_each (\<lambda>idt i. setEntry idt (of_nat (32 + i)) (irq i) 0) [0..<16] i1 = Inr i2"
    "length i2 = 256" "\<forall>i < 16. g_present (i2 ! (32 + i)) \<and> gate_base (i2 ! (32 + i)) = irq i \<and> g_IST (i2 ! (32 + i)) = 0"
    "\<forall>j. j < 32 \<or> 32 + 16 \<le> j \<longrightarrow> i2 ! j = i1 ! j"
    using set_entries [OF _ _ i1(2), of 0 32 16 irq] by auto
  have "idt_init isr irq = Inr i2" using i1(1) i2(1) by (simp add: idt_init_def del: upt_rec_numeral)
  moreover have "if v < 32 then g_present (i2 ! v) \<and> gate_base (i2 ! v) = isr v \<and> g_IST (i2 ! v) = 1
     else if v < 48 then g_present (i2 ! v) \<and> gate_base (i2 ! v) = irq (v - 32) \<and> g_IST (i2 ! v) = 0
     else \<not> g_present (i2 ! v)" if "v < 256" for v
  proof -
    consider "v < 32" | "32 \<le> v" "v < 48" | "48 \<le> v" by linarith
    then show ?thesis
    proof cases
      case 1
      then show ?thesis using i1(3) i2(4) by simp
    next
      case 2
      then have "v = 32 + (v - 32)" "v - 32 < 16" by simp_all
      then show ?thesis using i2(3) 2 by (metis not_less)
    next
      case 3
      then show ?thesis using i1(4) i2(4) that by (simp add: maxEntries_def zero_gate_def)
    qed
  qed
  ultimately show ?thesis using i2(2) by blast
qed

theorem idt_init_gates_witness:
  "\<exists>idt. idt_init (\<lambda>i. of_nat i) (\<lambda>i. of_nat (i + 0x1000)) = Inr idt \<and> gate_base (idt ! 14) = 14 \<and> g_IST (idt ! 14) = 1 \<and>
    gate_base (idt ! 33) = 0x1001 \<and> \<not> g_present (idt ! 48)"
proof -
  obtain idt where i: "idt_init (\<lambda>i. of_nat i) (\<lambda>i. of_nat (i + 0x1000)) = Inr idt" and g: "\<forall>v < 256.
     if v < 32 then g_present (idt ! v) \<and> gate_base (idt ! v) = of_nat v \<and> g_IST (idt ! v) = 1
     else if v < 48 then g_present (idt ! v) \<and> gate_base (idt ! v) = of_nat (v - 32 + 0x1000) \<and> g_IST (idt ! v) = 0
     else \<not> g_present (idt ! v)"
    using idt_init_gates [of "\<lambda>i. of_nat i" "\<lambda>i. of_nat (i + 0x1000)"] by blast
  show ?thesis using i g [rule_format, of 14] g [rule_format, of 33] g [rule_format, of 48] by simp
qed

section \<open>Routing through the IOAPIC\<close>

lemma writeIOAPIC_simps [simp]:
  "iq_apics (writeIOAPIC s ioa reg v) = iq_apics s" "iq_map (writeIOAPIC s ioa reg v) = iq_map s"
  "iq_port (writeIOAPIC s ioa reg v) = iq_port s" "iq_entries (writeIOAPIC s ioa reg v) = iq_entries s"
  "iq_reg (writeIOAPIC s ioa reg v) = (iq_reg s)(ioa_address ioa := (iq_reg s (ioa_address ioa))(reg AND 0xFF := v))"
  by (simp_all add: writeIOAPIC_def Let_def)

lemma readIOAPIC_simps [simp]:
  "fst (readIOAPIC s ioa reg) = iq_reg s (ioa_address ioa) (reg AND 0xFF)"
  "iq_apics (snd (readIOAPIC s ioa reg)) = iq_apics s" "iq_map (snd (readIOAPIC s ioa reg)) = iq_map s"
  "iq_port (snd (readIOAPIC s ioa reg)) = iq_port s" "iq_entries (snd (readIOAPIC s ioa reg)) = iq_entries s"
  "iq_reg (snd (readIOAPIC s ioa reg)) = iq_reg s"
  by (simp_all add: readIOAPIC_def Let_def)

text \<open>Register numbers below 256 are not cut by the selector.\<close>

lemma reg_uncut:
  fixes r :: u32
  assumes "unat r < 256"
  shows "r AND 0xFF = r"
proof -
  have "unat (take_bit 8 r) = unat r" using assms by (simp add: unsigned_take_bit_eq take_bit_nat_eq_self)
  then have "r AND mask 8 = r" by (simp add: take_bit_eq_mask word_unat_eq_iff)
  then show ?thesis by (simp add: mask_eq_exp_minus_1)
qed

lemma unat_irq_reg:
  assumes "irq < 120"
  shows "unat (irq_reg irq) = 16 + unat irq * 2" "unat (irq_reg irq + 1) = 17 + unat irq * 2"
proof -
  have i: "unat irq < 120" using assms by (simp add: word_less_nat_alt)
  have u: "unat (ucast irq :: u32) = unat irq" using i by (simp add: unsigned_ucast_eq take_bit_nat_eq_self)
  have m: "unat (ucast irq * 2 :: u32) = unat irq * 2" using i u by (simp add: unat_word_ariths(2))
  show r: "unat (irq_reg irq) = 16 + unat irq * 2" using i m by (simp add: irq_reg_def unat_word_ariths(1))
  show "unat (irq_reg irq + 1) = 17 + unat irq * 2" using i r by (simp add: unat_word_ariths(1))
qed

lemma irq_reg_cut:
  assumes "irq < 120"
  shows "irq_reg irq AND 0xFF = irq_reg irq" "(irq_reg irq + 1) AND 0xFF = irq_reg irq + 1" "irq_reg irq + 1 \<noteq> irq_reg irq"
proof -
  have "unat irq < 120" using assms by (simp add: word_less_nat_alt)
  then show "irq_reg irq AND 0xFF = irq_reg irq" "(irq_reg irq + 1) AND 0xFF = irq_reg irq + 1"
    using unat_irq_reg [OF assms] by (simp_all add: reg_uncut)
qed simp

lemma unmask_masked:
  fixes v :: u8
  shows "((ucast v :: u32) OR push_bit 16 1) AND NOT (push_bit 16 1) = ucast v"
proof (rule bit_word_eqI)
  fix n assume "n < LENGTH(32)"
  then show "bit (((ucast v :: u32) OR push_bit 16 1) AND NOT (push_bit 16 1)) n \<longleftrightarrow> bit (ucast v :: u32) n"
    by (simp only: bit_or_iff bit_and_iff bit_not_iff bit_push_bit_iff bit_ucast_iff bit_1_iff)
      (auto dest: bit_imp_le_length)
qed

lemma getIoApicForIrq_cong:
  "iq_apics s' = iq_apics s \<Longrightarrow> getIoApicForIrq s' irq = getIoApicForIrq s irq"
  by (simp add: getIoApicForIrq_def)

lemma found_isEnable:
  "getIoApicForIrq s irq = Some ioa \<Longrightarrow> ioapic_isEnable s"
  by (auto simp: getIoApicForIrq_def ioapic_isEnable_def)

text \<open>What a redirection entry holds: its low register the vector and the mask bit, its high register the destination.\<close>

definition route :: "(u32 \<Rightarrow> u32) \<Rightarrow> u8 \<Rightarrow> bool \<Rightarrow> u8 \<Rightarrow> u8 \<Rightarrow> (u32 \<Rightarrow> u32)" where
  "route regs irq masked vector dest = regs(irq_reg irq := (if masked then ucast vector OR push_bit 16 1 else ucast vector),
     irq_reg irq + 1 := push_bit 24 (ucast (dest AND 0xF)))"

lemma addIRQMapping_ok:
  assumes "getIoApicForIrq s irq = Some ioa" "irq - ucast (ioa_GSIBase ioa) < 120"
  shows "\<exists>s'. addIRQMapping s irq vector l = Inr s' \<and> iq_apics s' = iq_apics s \<and> iq_port s' = iq_port s \<and>
    iq_entries s' = iq_entries s \<and> iq_map s' = iq_map s \<and>
    iq_reg s' = (iq_reg s)(ioa_address ioa :=
      route (iq_reg s (ioa_address ioa)) (irq - ucast (ioa_GSIBase ioa)) True (vector + 32) l)"
  using assms irq_reg_cut [OF assms(2)] by (simp add: addIRQMapping_def Let_def route_def)

lemma ioapic_unmaskIRQ_ok:
  assumes "getIoApicForIrq s irq = Some ioa" "irq < 120"
  shows "\<exists>s'. ioapic_unmaskIRQ s irq = Inr s' \<and> iq_apics s' = iq_apics s \<and> iq_port s' = iq_port s \<and>
    iq_entries s' = iq_entries s \<and> iq_map s' = iq_map s \<and>
    iq_reg s' = (iq_reg s)(ioa_address ioa := (iq_reg s (ioa_address ioa))
      (irq_reg irq := iq_reg s (ioa_address ioa) (irq_reg irq) AND NOT (push_bit 16 1)))"
  using assms irq_reg_cut [OF assms(2)] by (simp add: ioapic_unmaskIRQ_def split_beta Let_def)

lemma ioapic_maskIRQ_ok:
  assumes "getIoApicForIrq s irq = Some ioa" "irq < 120"
  shows "\<exists>s'. ioapic_maskIRQ s irq = Inr s' \<and> iq_apics s' = iq_apics s \<and> iq_port s' = iq_port s \<and>
    iq_entries s' = iq_entries s \<and> iq_map s' = iq_map s \<and>
    iq_reg s' = (iq_reg s)(ioa_address ioa := (iq_reg s (ioa_address ioa))
      (irq_reg irq := iq_reg s (ioa_address ioa) (irq_reg irq) OR push_bit 16 1))"
  using assms irq_reg_cut [OF assms(2)] by (simp add: ioapic_maskIRQ_def split_beta Let_def)

lemma addEntry_served:
  assumes "32 \<le> vector" "getIoApicForIrq s (vector - 32) = Some ioa"
  shows "addEntry s l vector entry = (let irq = vector - 32 in
    bind_res (addIRQMapping (s\<lparr>iq_entries := (iq_entries s)(vector := entry)\<rparr>) irq irq l) (\<lambda>s. ioapic_unmaskIRQ s irq))"
  using assms found_isEnable [OF assms(2)]
  by (simp add: addEntry_def Let_def ioapic_isEnable_def getIoApicForIrq_def)

lemma irq_less_120:
  fixes vector :: u8
  assumes "32 \<le> vector" "vector < 152"
  shows "vector - 32 < 120"
  using assms by (simp add: word_less_nat_alt word_le_nat_alt unat_sub)


text \<open>A machine with one IOAPIC of 24 inputs at base zero.\<close>

definition sample_irqs :: irqs where
  "sample_irqs = \<lparr>iq_apics = [\<lparr>ioa_ID = 1, ioa_address = 0xFEC00000, ioa_GSIBase = 0, ioa_maxIRQ = 23\<rparr>],
     iq_map = BLeaf, iq_sel = (\<lambda>_. 0), iq_reg = (\<lambda>_ _. 0x10000), iq_port = (\<lambda>_. 0xFF), iq_entries = (\<lambda>_. 0)\<rparr>"


text \<open>
  An IOAPIC at another base: the mapping is entered at the input behind the base, masked, but \<open>unmaskIRQ\<close>
  clears the mask bit at the line's number without the base taken off, so the input stays masked.
\<close>

theorem addEntry_other_base_masked:
  assumes "32 \<le> vector" "vector < 152" "getIoApicForIrq s (vector - 32) = Some ioa"
    "vector - 32 - ucast (ioa_GSIBase ioa) < 120" "(ucast (ioa_GSIBase ioa) :: u8) \<noteq> 0"
  shows "\<exists>s'. addEntry s l vector entry = Inr s' \<and>
    iq_reg s' (ioa_address ioa) (irq_reg (vector - 32 - ucast (ioa_GSIBase ioa))) = ucast vector OR push_bit 16 1"
proof -
  let ?irq = "vector - 32" and ?a = "ioa_address ioa" and ?s0 = "s\<lparr>iq_entries := (iq_entries s)(vector := entry)\<rparr>"
  let ?in = "?irq - ucast (ioa_GSIBase ioa)"
  have i: "?irq < 120" by (rule irq_less_120 [OF assms(1,2)])
  have "getIoApicForIrq ?s0 ?irq = Some ioa" using assms(3) by (simp add: getIoApicForIrq_def)
  then obtain s1 where s1: "addIRQMapping ?s0 ?irq ?irq l = Inr s1" "iq_apics s1 = iq_apics s"
    "iq_reg s1 = (iq_reg s)(?a := route (iq_reg s ?a) ?in True vector l)"
    using addIRQMapping_ok [of ?s0 ?irq ioa ?irq l] assms(4) by auto
  obtain s2 where s2: "ioapic_unmaskIRQ s1 ?irq = Inr s2"
    "iq_reg s2 = (iq_reg s1)(?a := (iq_reg s1 ?a)(irq_reg ?irq := iq_reg s1 ?a (irq_reg ?irq) AND NOT (push_bit 16 1)))"
    using ioapic_unmaskIRQ_ok [of s1 ?irq ioa] s1 assms(3) i getIoApicForIrq_cong [OF s1(2)] by auto
  have "?in \<noteq> ?irq" using assms(5) by simp
  then have "irq_reg ?irq \<noteq> irq_reg ?in"
    using unat_irq_reg(1) [OF i] unat_irq_reg(1) [OF assms(4)] by (metis add_left_cancel mult_cancel2 word_unat_eq_iff zero_neq_numeral)
  then have "iq_reg s2 ?a (irq_reg ?in) = ucast vector OR push_bit 16 1"
    using irq_reg_cut(3) [OF assms(4)] by (simp add: s2(2) s1(3) route_def)
  moreover have "addEntry s l vector entry = Inr s2" using addEntry_served [OF assms(1,3)] s1(1) s2(1) by simp
  ultimately show ?thesis by blast
qed

section \<open>Lines of the PIC\<close>

text \<open>Whether a line is masked: its bit in the mask register of its controller, and for a line of the second one the cascade line too.\<close>

definition line_bit :: "irqs \<Rightarrow> u8 \<Rightarrow> bool" where
  "line_bit s num = (if num < 8 then bit (iq_port s 0x21) (unat num) else bit (iq_port s 0xA1) (unat (num - 8)))"

definition line_masked :: "irqs \<Rightarrow> u8 \<Rightarrow> bool" where
  "line_masked s num \<longleftrightarrow> line_bit s num \<or> (num \<ge> 8 \<and> line_bit s 2)"

lemma bit_clear_set:
  fixes a :: u8
  assumes "k < 8"
  shows "bit (a AND NOT (push_bit k 1)) m \<longleftrightarrow> bit a m \<and> m \<noteq> k" "bit (a OR push_bit k 1) m \<longleftrightarrow> bit a m \<or> m = k"
  using assms
  by (simp_all only: bit_or_iff bit_and_iff bit_not_iff bit_push_bit_iff bit_1_iff) (auto dest: bit_imp_le_length)

lemma line_index:
  fixes n m :: u8
  shows "n < 8 \<Longrightarrow> unat n < 8" "\<not> n < 8 \<Longrightarrow> n \<le> 15 \<Longrightarrow> unat (n - 8) < 8" "unat (m - 8) = unat (n - 8) \<longleftrightarrow> m = n"
proof -
  show "\<not> n < 8 \<Longrightarrow> n \<le> 15 \<Longrightarrow> unat (n - 8) < 8" by (simp add: word_less_nat_alt word_le_nat_alt unat_sub)
  show "unat (m - 8) = unat (n - 8) \<longleftrightarrow> m = n" by (simp add: word_unat_eq_iff [symmetric])
qed (simp add: word_less_nat_alt)

lemma max_word_bit: "bit (0xFF :: u8) k \<longleftrightarrow> k < 8"
proof -
  have "(0xFF :: u8) = mask 8" by (simp add: mask_eq_exp_minus_1)
  then show ?thesis by (simp only: bit_mask_iff possible_bit_word) simp
qed

lemmas pic_line = line_bit_def inb_def outb_def Let_def bit_clear_set line_index word_unat_eq_iff [symmetric]

lemma pic_unmask1_bit:
  assumes "m \<le> 15"
  shows "n < 8 \<Longrightarrow> line_bit (pic_unmask1 s 0x21 n) m \<longleftrightarrow> line_bit s m \<and> m \<noteq> n"
    "8 \<le> n \<Longrightarrow> n \<le> 15 \<Longrightarrow> line_bit (pic_unmask1 s 0xA1 (n - 8)) m \<longleftrightarrow> line_bit s m \<and> m \<noteq> n"
  using assms by (auto simp: pic_unmask1_def pic_line linorder_not_less [symmetric] simp del: push_bit_of_1)

lemma pic_lines_ok:
  assumes "m \<le> 15"
  shows "line_masked (pic_init s) m"
    "15 < n \<Longrightarrow> pic_unmaskIRQ s n = Inl Panic"
    "n \<le> 15 \<Longrightarrow> \<exists>s'. pic_unmaskIRQ s n = Inr s' \<and> \<not> line_masked s' n \<and>
       (line_bit s' m \<longleftrightarrow> line_bit s m \<and> m \<noteq> n \<and> \<not> (8 \<le> n \<and> m = 2))"
    "n \<le> 15 \<Longrightarrow> line_bit (pic_maskIRQ s n) m \<longleftrightarrow> line_bit s m \<or> m = n"
proof -
  show "line_masked (pic_init s) m"
  proof -
    have "iq_port (pic_init s) 0x21 = 0xFF" "iq_port (pic_init s) 0xA1 = 0xFF"
      by (simp_all add: pic_init_def pic_disable_def outb_def)
    then show ?thesis
      using line_index(1,2) [of m] assms unfolding line_masked_def line_bit_def by (simp only: max_word_bit split: if_split) blast
  qed
  show "pic_unmaskIRQ s n = Inl Panic" if "15 < n" using that by (simp add: pic_unmaskIRQ_def linorder_not_le [symmetric])
  show "line_bit (pic_maskIRQ s n) m \<longleftrightarrow> line_bit s m \<or> m = n" if "n \<le> 15"
    using that assms by (auto simp: pic_maskIRQ_def pic_line simp del: push_bit_of_1)
  show "\<exists>s'. pic_unmaskIRQ s n = Inr s' \<and> \<not> line_masked s' n \<and>
       (line_bit s' m \<longleftrightarrow> line_bit s m \<and> m \<noteq> n \<and> \<not> (8 \<le> n \<and> m = 2))" if "n \<le> 15"
    using that assms by (auto simp: pic_unmaskIRQ_def pic_unmask1_bit line_masked_def linorder_not_less)
qed

text \<open>
  After \<open>PIC::init\<close> every line is masked. \<open>unmaskIRQ\<close> panics exactly for a number above 15; otherwise the
  line is no longer masked, for a line of the second controller because the cascade line is unmasked
  as well, and no other mask bit changes. \<open>maskIRQ\<close> sets exactly the line's own bit.
\<close>

theorem pic_lines:
  assumes "m \<le> 15"
  shows "line_masked (pic_init s) m \<and> (pic_unmaskIRQ s n = Inl Panic \<longleftrightarrow> 15 < n) \<and>
    (n \<le> 15 \<longrightarrow> (\<exists>s'. pic_unmaskIRQ s n = Inr s' \<and> \<not> line_masked s' n \<and>
       (line_bit s' m \<longleftrightarrow> line_bit s m \<and> m \<noteq> n \<and> \<not> (8 \<le> n \<and> m = 2)))) \<and>
    (n \<le> 15 \<longrightarrow> (line_bit (pic_maskIRQ s n) m \<longleftrightarrow> line_bit s m \<or> m = n))"
  using pic_lines_ok(1) [OF assms, of s] pic_lines_ok(2) [OF assms, of n s] pic_lines_ok(3,4) [OF assms, of n s] by (cases "n \<le> 15") (auto simp: linorder_not_le)

theorem pic_lines_witness:
  "\<exists>s'. pic_unmaskIRQ (pic_init sample_irqs) 12 = Inr s' \<and> \<not> line_masked s' 12"
  using pic_lines [of 1 "pic_init sample_irqs" 12] by auto

end
