(* ===== verification/Multiboot.thy ===== *)
theory Multiboot
  imports KBytes "HOL-Library.Sublist"
begin

text \<open>
  \<open>kernel/multibootInformations.cpp\<close>: the search for tags in the boot information that the boot loader left in
  memory. A search over a list of tags that is not ended by a zero type may run for ever and then has no
  result; a null pointer is zero.
\<close>

section \<open>Operations\<close>

definition MODULES :: u32 where "MODULES = 3"

text \<open>The step to the next tag: over this tag's size and up to a multiple of eight.\<close>

definition next_tag :: "kmem \<Rightarrow> u64 \<Rightarrow> u64" where
  "next_tag m addr =
     (let addr = addr + ucast (load32 m (addr + 4)) in
      if addr AND 7 \<noteq> 0 then (addr AND NOT 7) + 8 else addr)"

partial_function (option) getEntry_from :: "kmem \<Rightarrow> u32 \<Rightarrow> u64 \<Rightarrow> u64 option" where
  "getEntry_from m type addr =
     (if load32 m addr \<noteq> 0
      then if load32 m addr = type then Some addr else getEntry_from m type (next_tag m addr)
      else Some 0)"

definition getEntry :: "kmem \<Rightarrow> u64 \<Rightarrow> u32 \<Rightarrow> u64 option" where
  "getEntry m multibootStruct type = getEntry_from m type (multibootStruct + 8)"

text \<open>Whether the module at an address has the name; the name of a module is behind its type, size, start and end.\<close>

definition is_module :: "kmem \<Rightarrow> u64 \<Rightarrow> u64 \<Rightarrow> bool option" where
  "is_module m name addr =
     (if load32 m addr = MODULES then map_option (\<lambda>n. memcmp m (addr + 16) name (ucast n)) (strlen m name) else Some False)"

partial_function (option) findModule_from :: "kmem \<Rightarrow> u64 \<Rightarrow> u64 \<Rightarrow> u64 option" where
  "findModule_from m name addr =
     (if load32 m addr \<noteq> 0
      then Option.bind (is_module m name addr) (\<lambda>b.
           if b then Some addr else findModule_from m name (next_tag m addr))
      else Some 0)"

definition findModule :: "kmem \<Rightarrow> u64 \<Rightarrow> u64 \<Rightarrow> u64 option" where
  "findModule m multibootStruct name = findModule_from m name (multibootStruct + 8)"

section \<open>Layout of the tags\<close>

text \<open>A tag takes its eight bytes of type and size, its data, and padding up to a multiple of eight.\<close>

definition tag_len :: "u8 list \<Rightarrow> nat" where
  "tag_len d = (15 + length d) div 8 * 8"

fun tags_at :: "kmem \<Rightarrow> u64 \<Rightarrow> (u32 \<times> u8 list) list \<Rightarrow> bool" where
  "tags_at m a [] \<longleftrightarrow> load32 m a = 0"
| "tags_at m a ((ty, d) # ts) \<longleftrightarrow> ty \<noteq> 0 \<and> load32 m a = ty \<and> load32 m (a + 4) = of_nat (8 + length d) \<and> 8 + length d < 2 ^ 32 \<and>
     bytes_at m (a + 8) (length d) = d \<and> tags_at m (a + of_nat (tag_len d)) ts"

definition tags_len :: "(u32 \<times> u8 list) list \<Rightarrow> nat" where
  "tags_len ts = sum_list (map (tag_len \<circ> snd) ts)"

text \<open>The address of the first tag that fits.\<close>

fun tag_find :: "(u32 \<Rightarrow> u8 list \<Rightarrow> bool) \<Rightarrow> u64 \<Rightarrow> (u32 \<times> u8 list) list \<Rightarrow> u64" where
  "tag_find P a [] = 0"
| "tag_find P a ((ty, d) # ts) = (if P ty d then a else tag_find P (a + of_nat (tag_len d)) ts)"

text \<open>The name in a module's tag; the tag contains its terminator.\<close>

definition mod_name :: "u8 list \<Rightarrow> string" where
  "mod_name d = map byte_char (takeWhile (\<lambda>b. b \<noteq> 0) (drop 8 d))"

definition named :: "u32 \<times> u8 list \<Rightarrow> bool" where
  "named t \<longleftrightarrow> (fst t = MODULES \<longrightarrow> 0 \<in> set (drop 8 (snd t)))"

section \<open>Lemmas\<close>

lemma and_7: "unat ((x :: u64) AND 7) = unat x mod 8"
proof -
  have "x AND 7 = take_bit 3 x" by (simp add: take_bit_eq_mask mask_eq_exp_minus_1)
  then have "unat (x AND 7) = take_bit 3 (unat x)" by (simp only: unsigned_take_bit_eq)
  then show ?thesis by (simp add: take_bit_eq_mod)
qed

lemma and_not_7: "unat ((x :: u64) AND NOT 7) = unat x - unat x mod 8"
proof -
  have "(x AND 7) + (x AND NOT 7) = x" by (subst disjunctive_add) (auto simp: bit_simps intro: bit_word_eqI)
  then have "x AND NOT 7 = x - (x AND 7)" by (metis add_diff_cancel_left')
  moreover have "unat (x AND 7) \<le> unat x" by (simp add: and_7)
  ultimately show ?thesis by (simp add: unat_sub word_le_nat_alt and_7)
qed

lemma round_up_8:
  fixes n :: nat
  assumes "n mod 8 \<noteq> 0"
  shows "(n + 7) div 8 * 8 = n - n mod 8 + 8"
proof -
  have "n + 7 = (n mod 8 - 1) + 8 * (n div 8 + 1)" "n mod 8 - 1 < 8" using assms mult_div_mod_eq [of 8 n] by (simp_all add: algebra_simps)
  then have "(n + 7) div 8 = n div 8 + 1" by (metis add.right_neutral add_cancel_right_left div_less div_mult_self2 zero_neq_numeral)
  then show ?thesis by (simp add: minus_mod_eq_div_mult)
qed

lemma next_tag_len:
  assumes "unat a mod 8 = 0" "load32 m (a + 4) = of_nat (8 + length d)" "8 + length d < 2 ^ 32" "unat a + tag_len d < 2 ^ 64"
  shows "next_tag m a = a + of_nat (tag_len d)" "unat (a + of_nat (tag_len d)) = unat a + tag_len d"
    "unat (a + of_nat (tag_len d)) mod 8 = 0"
proof -
  let ?s = "8 + length d" and ?x = "a + of_nat (8 + length d)"
  have t: "tag_len d = (?s + 7) div 8 * 8" "?s \<le> tag_len d" by (simp_all add: tag_len_def)
  obtain q where q: "unat a = q * 8" using assms(1) by (metis dvd_def dvd_eq_mod_eq_0 mult.commute)
  have u: "unat (a + of_nat y) = unat a + y" if "y \<le> tag_len d" for y
  proof -
    have lt: "unat a + y < 2 ^ 64" using that assms(4) by linarith
    then have "unat (of_nat y :: u64) = y" by (intro unat_of_nat_u64) linarith
    then show ?thesis using lt by (simp only: unat_word_ariths(1)) simp
  qed
  show ut: "unat (a + of_nat (tag_len d)) = unat a + tag_len d" by (simp add: u)
  then show "unat (a + of_nat (tag_len d)) mod 8 = 0" using q by (simp add: t(1))
  have "(ucast (load32 m (a + 4)) :: u64) = of_nat ?s"
    using assms(2,3) by (simp add: word_unat_eq_iff unat_ucast_u32 unat_of_nat_u64 unsigned_of_nat take_bit_nat_eq_self del: of_nat_add)
  then have n: "next_tag m a = (if ?x AND 7 \<noteq> 0 then (?x AND NOT 7) + 8 else ?x)" by (simp add: next_tag_def Let_def)
  have ux: "unat ?x = unat a + ?s" using u t(2) by blast
  have x7: "?x AND 7 \<noteq> 0 \<longleftrightarrow> ?s mod 8 \<noteq> 0" using and_7 [of ?x] ux q by (simp add: word_unat_eq_iff del: of_nat_add)
  show "next_tag m a = a + of_nat (tag_len d)"
  proof (cases "?s mod 8 = 0")
    case True
    then have "tag_len d = ?s" using t(1) by presburger
    then show ?thesis using n x7 True by simp
  next
    case False
    then have l: "tag_len d = ?s - ?s mod 8 + 8" unfolding t(1) by (rule round_up_8)
    define c where "c = ?s - ?s mod 8"
    have "unat (?x AND NOT 7) = unat a + c" using and_not_7 [of ?x] ux q by (simp add: c_def)
    moreover have tc: "tag_len d = c + 8" using l by (simp only: c_def)
    ultimately have "unat ((?x AND NOT 7) + 8) = unat a + tag_len d"
      using assms(4) by (simp only: unat_word_ariths(1)) simp
    then show ?thesis using n x7 False ut by (simp add: word_unat_eq_iff)
  qed
qed

lemma getEntry_from_tags:
  assumes "tags_at m a ts" "unat a mod 8 = 0" "unat a + tags_len ts < 2 ^ 64"
  shows "getEntry_from m ty a = Some (tag_find (\<lambda>t d. t = ty) a ts)"
  using assms
proof (induction ts arbitrary: a)
  case Nil
  then show ?case by (simp add: getEntry_from.simps)
next
  case (Cons t ts)
  obtain t' d where t: "t = (t', d)" by (cases t)
  have n: "next_tag m a = a + of_nat (tag_len d)" "unat (a + of_nat (tag_len d)) = unat a + tag_len d"
    "unat (a + of_nat (tag_len d)) mod 8 = 0"
    using next_tag_len [of a m d] Cons.prems t by (simp_all add: tags_len_def)
  have "getEntry_from m ty (a + of_nat (tag_len d)) = Some (tag_find (\<lambda>t d. t = ty) (a + of_nat (tag_len d)) ts)"
    using Cons.IH [of "a + of_nat (tag_len d)"] Cons.prems t n by (simp add: tags_len_def)
  then show ?case using Cons.prems t n(1) by (subst getEntry_from.simps) auto
qed

lemma of_char_byte_char [simp]: "of_char (byte_char b) = b"
proof -
  have "(of_char (byte_char b) :: nat) = unat b"
  proof -
    have "unat b < 256" using unsigned_less [of b] by simp
    then show ?thesis by (simp add: byte_char_def)
  qed
  then have "(of_nat (of_char (byte_char b)) :: u8) = b" by simp
  then show ?thesis by (simp only: of_nat_of_char)
qed

lemma nth_bytes_at: "k < n \<Longrightarrow> bytes_at m a n ! k = m (a + of_nat k)"
  by (simp add: bytes_at_def)

lemma has_cstr_nth:
  assumes "has_cstr m a cs" "k < length cs"
  shows "m (a + of_nat k) = of_char (cs ! k)"
  using assms nth_bytes_at [of k "length cs" m a] by (simp add: has_cstr_def)

text \<open>Comparing as many bytes as the wanted name has tests whether the module's name begins with it.\<close>

lemma name_prefix:
  assumes "bytes_at m (a + 8) (length d) = d" "0 \<in> set (drop 8 d)" "has_cstr m name nm"
  shows "(\<forall>k < length nm. m (a + 16 + of_nat k) = m (name + of_nat k)) \<longleftrightarrow> prefix nm (mod_name d)"
proof -
  let ?e = "drop 8 d" let ?w = "takeWhile (\<lambda>b. b \<noteq> 0) ?e"
  have lt: "length ?w < length ?e" 
  proof -
    have "?w \<noteq> ?e" using assms(2) by (auto simp: takeWhile_eq_all_conv)
    then show ?thesis by (metis le_neq_implies_less length_takeWhile_le take_all_iff takeWhile_eq_take order_refl)
  qed
  have at: "m (a + 16 + of_nat k) = ?e ! k" if "k < length ?e" for k
  proof -
    have "bytes_at m (a + 8) (length d) ! (8 + k) = m (a + 16 + of_nat k)" using that by (subst nth_bytes_at) (simp_all add: algebra_simps)
    then show ?thesis using assms(1) that by simp
  qed
  have z: "?e ! length ?w = 0" using lt nth_length_takeWhile by fastforce
  have nz: "of_char (nm ! k) \<noteq> (0 :: u8)" if "k < length nm" for k
    using assms(3) that by (auto simp: has_cstr_def of_char_eq_0 dest: nth_mem)
  show ?thesis
  proof
    assume eq: "\<forall>k < length nm. m (a + 16 + of_nat k) = m (name + of_nat k)"
    have le: "length nm \<le> length ?w"
    proof (rule ccontr)
      assume "\<not> ?thesis"
      then have k: "length ?w < length nm" by simp
      then show False using eq at [OF lt] z nz [OF k] has_cstr_nth [OF assms(3) k] by metis
    qed
    have "nm ! k = mod_name d ! k" if "k < length nm" for k
    proof -
      have "of_char (nm ! k) = m (a + 16 + of_nat k)" using eq that has_cstr_nth [OF assms(3) that] by simp
      also have "\<dots> = ?e ! k" using that le lt by (intro at) linarith
      finally have "of_char (nm ! k) = ?e ! k" .
      moreover have "?e ! k = ?w ! k" using that le by (simp add: takeWhile_nth)
      ultimately have "byte_char (of_char (nm ! k)) = byte_char (?w ! k)" by simp
      then show ?thesis using that le by (simp add: mod_name_def)
    qed
    then have "nm = take (length nm) (mod_name d)" using le by (intro nth_equalityI) (simp_all add: mod_name_def)
    then show "prefix nm (mod_name d)" by (metis take_is_prefix)
  next
    assume p: "prefix nm (mod_name d)"
    then have le: "length nm \<le> length ?w" using prefix_length_le by (fastforce simp: mod_name_def)
    show "\<forall>k < length nm. m (a + 16 + of_nat k) = m (name + of_nat k)"
    proof (intro allI impI)
      fix k assume k: "k < length nm"
      have "nm ! k = mod_name d ! k" using p k by (auto simp: prefix_def nth_append)
      then have "nm ! k = byte_char (?e ! k)" using k le by (simp add: mod_name_def takeWhile_nth)
      then show "m (a + 16 + of_nat k) = m (name + of_nat k)"
        using at [of k] k le lt has_cstr_nth [OF assms(3) k] by simp
    qed
  qed
qed

lemma is_module_tag:
  assumes "load32 m a = ty" "bytes_at m (a + 8) (length d) = d" "named (ty, d)" "has_cstr m name nm"
  shows "is_module m name a = Some (ty = MODULES \<and> prefix nm (mod_name d))"
proof (cases "ty = MODULES")
  case True
  have "strlen m name = Some (of_nat (length nm))" "length nm < 2 ^ 32"
    using cstr_at_has_cstr(1) [OF assms(4)] assms(4) by (simp_all add: has_cstr_def)
  moreover from this have "unat (ucast (of_nat (length nm) :: u32) :: u64) = length nm"
    by (simp add: unat_ucast_u32 unsigned_of_nat take_bit_nat_eq_self)
  ultimately show ?thesis
    using name_prefix [OF assms(2) _ assms(4)] assms(1,3) True by (simp add: is_module_def memcmp_iff named_def)
next
  case False
  then show ?thesis using assms(1) by (simp add: is_module_def)
qed

lemma findModule_from_tags:
  assumes "tags_at m a ts" "unat a mod 8 = 0" "unat a + tags_len ts < 2 ^ 64" "has_cstr m name nm" "\<forall>t \<in> set ts. named t"
  shows "findModule_from m name a = Some (tag_find (\<lambda>t d. t = MODULES \<and> prefix nm (mod_name d)) a ts)"
  using assms
proof (induction ts arbitrary: a)
  case Nil
  then show ?case by (simp add: findModule_from.simps)
next
  case (Cons t ts)
  obtain t' d where t: "t = (t', d)" by (cases t)
  have n: "next_tag m a = a + of_nat (tag_len d)" "unat (a + of_nat (tag_len d)) = unat a + tag_len d"
    "unat (a + of_nat (tag_len d)) mod 8 = 0"
    using next_tag_len [of a m d] Cons.prems t by (simp_all add: tags_len_def)
  have "findModule_from m name (a + of_nat (tag_len d)) =
      Some (tag_find (\<lambda>t d. t = MODULES \<and> prefix nm (mod_name d)) (a + of_nat (tag_len d)) ts)"
    using Cons.IH [of "a + of_nat (tag_len d)"] Cons.prems t n by (simp add: tags_len_def)
  moreover have "is_module m name a = Some (t' = MODULES \<and> prefix nm (mod_name d))"
    using is_module_tag [of m a t' d name nm] Cons.prems t by auto
  ultimately show ?case using Cons.prems t n(1) by (subst findModule_from.simps) auto
qed

text \<open>
  On boot information that is a list of tags closed by a zero type both searches end: \<open>getEntry\<close> returns the
  first tag of the wanted type, \<open>findModule\<close> the first module whose name begins with the wanted name, and
  both return null when there is none.
\<close>

theorem multiboot_search:
  assumes "tags_at m (p + 8) ts" "unat (p + 8) mod 8 = 0" "unat (p + 8) + tags_len ts < 2 ^ 64" "has_cstr m name nm"
    "\<forall>t \<in> set ts. named t"
  shows "getEntry m p ty = Some (tag_find (\<lambda>t d. t = ty) (p + 8) ts) \<and>
    findModule m p name = Some (tag_find (\<lambda>t d. t = MODULES \<and> prefix nm (mod_name d)) (p + 8) ts)"
  using getEntry_from_tags [OF assms(1-3)] findModule_from_tags [OF assms]
  by (simp add: getEntry_def findModule_def)

text \<open>Boot information with two modules, \<open>initrd2\<close> and \<open>initrd\<close>; the search for the second finds the first.\<close>

definition mod_data :: "string \<Rightarrow> u8 list" where
  "mod_data nm = replicate 8 0 @ map of_char nm @ replicate (8 - length nm) 0"

lemma mod_name_mod_data:
  assumes "CHR 0x00 \<notin> set nm"
  shows "mod_name (mod_data nm) = nm"
proof -
  have "takeWhile (\<lambda>b. b \<noteq> 0) (map of_char nm @ replicate k 0) = (map of_char nm :: u8 list)" for k
    using assms by (subst takeWhile_append2) (auto simp: of_char_eq_0 takeWhile_replicate)
  then show ?thesis by (simp add: mod_name_def mod_data_def comp_def)
qed

definition sample_tag :: "u8 list \<Rightarrow> u8 list" where
  "sample_tag d = le_bytes 4 3 @ le_bytes 4 (8 + length d) @ d"

definition sample_boot :: kmem where
  "sample_boot = store_bytes (\<lambda>_. 0) 0x1000
     (replicate 8 0 @ sample_tag (mod_data ''initrd2'') @ sample_tag (mod_data ''initrd'') @ replicate 8 0 @
      map of_char ''initrd'' @ [0])"

theorem multiboot_search_witness:
  "findModule sample_boot 0x1000 0x1040 = Some 0x1008 \<and> getEntry sample_boot 0x1000 6 = Some 0"
proof -
  define d1 d2 where "d1 = mod_data ''initrd2''" and "d2 = mod_data ''initrd''"
  define bs where "bs = replicate 8 0 @ sample_tag d1 @ sample_tag d2 @ replicate 8 0 @ map of_char ''initrd'' @ [0]"
  have d: "length d1 = 16" "length d2 = 16" by (simp_all add: d1_def d2_def mod_data_def)
  have l: "length bs = 71" by (simp add: bs_def sample_tag_def d)
  have b: "bytes_at sample_boot (0x1000 + of_nat i) n = take n (drop i bs)" if "i + n \<le> 71" for i n
    unfolding sample_boot_def d1_def [symmetric] d2_def [symmetric] bs_def [symmetric]
    using that l by (intro bytes_at_store_slice) simp_all
  have v: "le_nat (le_bytes 4 3) = 3" "le_nat (le_bytes 4 24) = 24" "le_nat (replicate 4 0) = 0"
  proof -
    show "le_nat (replicate 4 0) = 0" by (simp add: numeral_eq_Suc)
  qed (simp_all add: le_nat_le_bytes del: le_bytes.simps)
  have "tags_at sample_boot (0x1000 + 8) [(3, d1), (3, d2)]"
    using b [of 8 4] b [of 12 4] b [of 16 16] b [of 32 4] b [of 36 4] b [of 40 16] b [of 56 4]
    by (simp add: load32_def tag_len_def bs_def sample_tag_def d v)
  moreover have "has_cstr sample_boot 0x1040 ''initrd''"
    using b [of 64 6] b [of 70 1] by (simp add: has_cstr_def bs_def sample_tag_def d bytes_at_eval bytes_at_Suc)
  moreover have "\<forall>t \<in> set [(3, d1), (3, d2)]. named t" by (simp add: named_def d1_def d2_def mod_data_def)
  ultimately show ?thesis
    using multiboot_search [of sample_boot "0x1000" "[(3, d1), (3, d2)]" "0x1040" "''initrd''" 6]
    by (simp add: tags_len_def tag_len_def d MODULES_def) (simp add: d1_def mod_name_mod_data)
qed

end
