(* ===== verification/Acpi.thy ===== *)
theory Acpi
  imports Irq Multiboot Paging
begin

text \<open>
  \<open>kernel/acpi.cpp\<close>: the search for the table of interrupt controllers (MADT) and the registration of the
  processors and controllers that it lists. The tables are read from memory at the offsets of the packed
  structures of \<open>include/acpi.h\<close>. The loops over the entries of a table advance by the length that an entry
  gives and so may run for ever. Of the processors, \<open>registerCPU\<close> and \<open>initCPU\<close> keep what the table gives and
  which of them the base of \<open>gs\<close> points to.
\<close>

section \<open>Registration of processors\<close>

record cpu_info =
  ci_isBsp :: bool
  ci_lApicAddress :: u64
  ci_ID :: u8
  ci_lApicID :: u8

record machine =
  mc_processors :: "cpu_info list"
  mc_gs :: "nat option"
  mc_irqs :: irqs

definition registerCPU :: "machine \<Rightarrow> bool \<Rightarrow> u64 \<Rightarrow> u8 \<Rightarrow> u8 \<Rightarrow> machine" where
  "registerCPU s bsp lApicAddress ID lApicID =
     (let n = length (mc_processors s);
          s = s\<lparr>mc_processors := mc_processors s @
            [\<lparr>ci_isBsp = bsp, ci_lApicAddress = lApicAddress, ci_ID = ID, ci_lApicID = lApicID\<rparr>]\<rparr> in
      if bsp then s\<lparr>mc_gs := Some n\<rparr> else s)"

section \<open>Operations\<close>

definition sizeof_MADT :: u64 where "sizeof_MADT = 44"
definition sizeof_RSDT :: u64 where "sizeof_RSDT = 36"

text \<open>A loop over the entries of a table.\<close>

partial_function (option) madt_loop :: "kmem \<Rightarrow> u64 \<Rightarrow> ('s \<Rightarrow> u64 \<Rightarrow> 's) \<Rightarrow> u32 \<Rightarrow> 's \<Rightarrow> 's option" where
  "madt_loop m madt f offset s =
     (if ucast offset < ucast (load32 m (madt + 4)) - sizeof_MADT
      then let entry = madt + sizeof_MADT + ucast offset in
           madt_loop m madt f (offset + ucast (m (entry + 1))) (f s entry)
      else Some s)"

definition lapic_address_step :: "kmem \<Rightarrow> u64 \<Rightarrow> u64 \<Rightarrow> u64" where
  "lapic_address_step m localAPICAddress entry = (if m entry = 5 then load64 m (entry + 4) else localAPICAddress)"

definition madt_step :: "kmem \<Rightarrow> u64 \<Rightarrow> machine \<times> bool \<Rightarrow> u64 \<Rightarrow> machine \<times> bool" where
  "madt_step m localAPICAddress st entry = (case st of (s, foundBsp) \<Rightarrow>
     if m entry = 0
     then if load32 m (entry + 4) AND 1 \<noteq> 0
          then (registerCPU s (\<not> foundBsp) localAPICAddress (m (entry + 2)) (m (entry + 3)), True)
          else (s, foundBsp)
     else if m entry = 1
     then (s\<lparr>mc_irqs := ioapic_add (mc_irqs s) getKernelVirtualAddress (m (entry + 2)) (load32 m (entry + 4)) (load32 m (entry + 8))\<rparr>, foundBsp)
     else if m entry = 2
     then (s\<lparr>mc_irqs := remapIRQ (mc_irqs s) (m (entry + 3)) (ucast (load32 m (entry + 4)))\<rparr>, foundBsp)
     else (s, foundBsp))"

definition parseMADT :: "kmem \<Rightarrow> u64 \<Rightarrow> machine \<Rightarrow> machine option" where
  "parseMADT m madt s =
     Option.bind (madt_loop m madt (lapic_address_step m) 0 (ucast (load32 m (madt + 36)))) (\<lambda>localAPICAddress.
     let localAPICAddress = getKernelVirtualAddress localAPICAddress in
     Option.bind (madt_loop m madt (madt_step m localAPICAddress) 0 (s, False)) (\<lambda>(s, foundBsp). Some s))"

text \<open>The body of the loop of \<open>init\<close> for one pointer of the root table.\<close>

definition sdt_step :: "kmem \<Rightarrow> u64 \<Rightarrow> machine \<Rightarrow> machine option" where
  "sdt_step m sdt s = (if bytes_at m sdt 4 = map of_char ''APIC'' then parseMADT m sdt s else Some s)"

fun rsdt_loop :: "kmem \<Rightarrow> u64 \<Rightarrow> nat list \<Rightarrow> machine \<Rightarrow> machine option" where
  "rsdt_loop m rsdt [] s = Some s"
| "rsdt_loop m rsdt (i # is') s =
     Option.bind (sdt_step m (getKernelVirtualAddress (ucast (load32 m (rsdt + 36 + of_nat (4 * i))))) s) (rsdt_loop m rsdt is')"

definition acpi_init :: "kmem \<Rightarrow> u64 \<Rightarrow> machine \<Rightarrow> machine option" where
  "acpi_init m multibootStruct s =
     Option.bind (getEntry m multibootStruct 14) (\<lambda>rsdp.
     Option.bind (if rsdp = 0 then getEntry m multibootStruct 15 else Some rsdp) (\<lambda>rsdp.
     if rsdp = 0 then Some s
     else let rsdt = getKernelVirtualAddress (ucast (load32 m (rsdp + 24))) in
          rsdt_loop m rsdt [0..<unat ((ucast (load32 m (rsdt + 4)) - sizeof_RSDT) div 4)] s))"

section \<open>The entries of a table\<close>

datatype madt_entry = Lapic u8 u8 u32 | Ioapic u8 u32 u32 | IrqMap u8 u8 u32 u16 | LapicAddress u64 | OtherEntry u8 "u8 list"

fun entry_bytes :: "madt_entry \<Rightarrow> u8 list" where
  "entry_bytes (Lapic pid i flags) = [0, 8, pid, i] @ le_bytes 4 (unat flags)"
| "entry_bytes (Ioapic i address gsib) = [1, 12, i, 0] @ le_bytes 4 (unat address) @ le_bytes 4 (unat gsib)"
| "entry_bytes (IrqMap bus src gsi flags) = [2, 10, bus, src] @ le_bytes 4 (unat gsi) @ le_bytes 2 (unat flags)"
| "entry_bytes (LapicAddress address) = [5, 12, 0, 0] @ le_bytes 8 (unat address)"
| "entry_bytes (OtherEntry ty d) = [ty, of_nat (2 + length d)] @ d"

fun entry_ok :: "madt_entry \<Rightarrow> bool" where
  "entry_ok (OtherEntry ty d) \<longleftrightarrow> ty \<notin> {0, 1, 2, 5} \<and> length d < 254"
| "entry_ok e \<longleftrightarrow> True"

text \<open>What the table means: the address of the local controllers, and what each entry registers.\<close>

fun spec_address :: "u64 \<Rightarrow> madt_entry \<Rightarrow> u64" where
  "spec_address a (LapicAddress b) = b"
| "spec_address a e = a"

fun spec_entry :: "u64 \<Rightarrow> machine \<times> bool \<Rightarrow> madt_entry \<Rightarrow> machine \<times> bool" where
  "spec_entry la (s, bsp) (Lapic pid i flags) = (if bit flags 0 then (registerCPU s (\<not> bsp) la pid i, True) else (s, bsp))"
| "spec_entry la (s, bsp) (Ioapic i address gsib) = (s\<lparr>mc_irqs := ioapic_add (mc_irqs s) getKernelVirtualAddress i address gsib\<rparr>, bsp)"
| "spec_entry la (s, bsp) (IrqMap bus src gsi flags) = (s\<lparr>mc_irqs := remapIRQ (mc_irqs s) src (ucast gsi)\<rparr>, bsp)"
| "spec_entry la (s, bsp) _ = (s, bsp)"

definition spec_madt :: "u32 \<Rightarrow> madt_entry list \<Rightarrow> machine \<Rightarrow> machine" where
  "spec_madt a es s = fst (foldl (spec_entry (getKernelVirtualAddress (foldl spec_address (ucast a) es))) (s, False) es)"

definition entries_bytes :: "madt_entry list \<Rightarrow> u8 list" where
  "entries_bytes es = concat (map entry_bytes es)"

text \<open>A table in memory.\<close>

definition madt_at :: "kmem \<Rightarrow> u64 \<Rightarrow> u32 \<Rightarrow> madt_entry list \<Rightarrow> bool" where
  "madt_at m madt a es \<longleftrightarrow> load32 m (madt + 4) = of_nat (44 + length (entries_bytes es)) \<and> 44 + length (entries_bytes es) < 2 ^ 31 \<and>
     load32 m (madt + 36) = a \<and> bytes_at m (madt + 44) (length (entries_bytes es)) = entries_bytes es \<and> (\<forall>e \<in> set es. entry_ok e)"

section \<open>Lemmas\<close>

text \<open>An entry in memory gives its length, and the steps of the loops do what the entry means.\<close>

lemma nth_at:
  assumes "bytes_at m a (length bs) = bs" "k < length bs"
  shows "m (a + of_nat k) = bs ! k"
proof -
  have "bs ! k = bytes_at m a (length bs) ! k" by (simp only: assms(1))
  then show ?thesis using assms(2) by (simp add: nth_bytes_at)
qed

lemma entry_length:
  assumes "bytes_at m a (length (entry_bytes e)) = entry_bytes e" "entry_ok e"
  shows "unat (m (a + 1)) = length (entry_bytes e)" "2 \<le> length (entry_bytes e)" "length (entry_bytes e) < 256"
proof -
  show l: "2 \<le> length (entry_bytes e)" "length (entry_bytes e) < 256" using assms(2) by (cases e; simp)+
  have "m (a + 1) = entry_bytes e ! 1" using nth_at [OF assms(1), of 1] l(1) by simp
  moreover have "unat (entry_bytes e ! 1) = length (entry_bytes e)"
  proof (cases e)
    case (OtherEntry ty d)
    have "unat (of_nat (2 + length d) :: u8) = 2 + length d"
      using assms(2) OtherEntry by (simp only: unsigned_of_nat) (simp add: take_bit_nat_eq_self)
    then show ?thesis using OtherEntry by (simp del: of_nat_add)
  qed simp_all
  ultimately show "unat (m (a + 1)) = length (entry_bytes e)" by simp
qed

lemma bit_0_and: "(x :: u32) AND 1 \<noteq> 0 \<longleftrightarrow> bit x 0"
  by (simp add: and_one_eq odd_iff_mod_2_eq_one [symmetric] bit_0)

text \<open>The fields of an entry.\<close>

lemma entry_fields:
  assumes "bytes_at m a (length (entry_bytes e)) = entry_bytes e"
  shows "m a = entry_bytes e ! 0 \<or> entry_bytes e = []"
    "e = Lapic pid i flags \<Longrightarrow> m (a + 2) = pid \<and> m (a + 3) = i \<and> load32 m (a + 4) = flags"
    "e = Ioapic i address gsib \<Longrightarrow> m (a + 2) = i \<and> load32 m (a + 4) = address \<and> load32 m (a + 8) = gsib"
    "e = IrqMap bus src gsi fl \<Longrightarrow> m (a + 3) = src \<and> load32 m (a + 4) = gsi"
    "e = LapicAddress la \<Longrightarrow> load64 m (a + 4) = la"
proof -
  note n = nth_at [OF assms] and sl = bytes_at_slice [OF assms]
  show "m a = entry_bytes e ! 0 \<or> entry_bytes e = []" using n [of 0] by auto
  show "m (a + 2) = pid \<and> m (a + 3) = i \<and> load32 m (a + 4) = flags" if "e = Lapic pid i flags"
    using n [of 2] n [of 3] load_le_bytes(1) [of m "a + 4" "le_bytes 4 (unat flags)" flags] sl [of 4 4] that by simp
  show "m (a + 2) = i \<and> load32 m (a + 4) = address \<and> load32 m (a + 8) = gsib" if "e = Ioapic i address gsib"
    using n [of 2] load_le_bytes(1) [of m "a + 4" "le_bytes 4 (unat address)" address]
      load_le_bytes(1) [of m "a + 8" "le_bytes 4 (unat gsib)" gsib] sl [of 4 4] sl [of 8 4] that by simp
  show "m (a + 3) = src \<and> load32 m (a + 4) = gsi" if "e = IrqMap bus src gsi fl"
    using n [of 3] load_le_bytes(1) [of m "a + 4" "le_bytes 4 (unat gsi)" gsi] sl [of 4 4] that by simp
  show "load64 m (a + 4) = la" if "e = LapicAddress la"
    using load_le_bytes(2) [of m "a + 4" "le_bytes 8 (unat la)" la] sl [of 4 8] that by simp
qed

lemma entry_steps:
  assumes "bytes_at m a (length (entry_bytes e)) = entry_bytes e" "entry_ok e"
  shows "lapic_address_step m la a = spec_address la e" "madt_step m la st a = spec_entry la st e"
proof -
  have t: "m a = entry_bytes e ! 0" using entry_fields(1) [OF assms(1)] entry_length(2) [OF assms] by auto
  note f = entry_fields(2-) [OF assms(1)]
  show "lapic_address_step m la a = spec_address la e"
    using t f(4) assms(2) by (cases e) (auto simp: lapic_address_step_def)
  obtain s bsp where st: "st = (s, bsp)" by (cases st)
  show "madt_step m la st a = spec_entry la st e"
    using t f(1-3) assms(2) unfolding st by (cases e) (simp_all add: madt_step_def bit_0_and)
qed

lemma ucast_of_nat_u32:
  assumes "n < 2 ^ 32"
  shows "(ucast (of_nat n :: u32) :: u64) = of_nat n"
proof -
  have "unat (of_nat n :: u32) = n" using assms by (simp only: unsigned_of_nat) (simp add: take_bit_nat_eq_self)
  moreover have "unat (of_nat n :: u64) = n" using assms by (intro unat_of_nat_u64) simp
  ultimately show ?thesis by (simp only: word_unat_eq_iff unat_ucast_u32)
qed

lemma madt_less:
  assumes "44 + n < 2 ^ 31" "p \<le> n"
  shows "(ucast (of_nat p :: u32) :: u64) < ucast (of_nat (44 + n) :: u32) - sizeof_MADT \<longleftrightarrow> p < n"
proof -
  have "(ucast (of_nat (44 + n) :: u32) :: u64) = of_nat (44 + n)" "(ucast (of_nat p :: u32) :: u64) = of_nat p"
    using assms by (simp_all add: ucast_of_nat_u32 del: of_nat_add)
  moreover have "of_nat (44 + n) - sizeof_MADT = of_nat n" by (simp add: sizeof_MADT_def)
  moreover have "unat (of_nat p :: u64) = p" "unat (of_nat n :: u64) = n" using assms by (intro unat_of_nat_u64; simp)+
  ultimately show ?thesis by (simp only: word_less_nat_alt)
qed

text \<open>The loop runs through the entries.\<close>

lemma madt_loop_entries:
  assumes "madt_at m madt a (pre @ es)" "\<And>x e s. bytes_at m x (length (entry_bytes e)) = entry_bytes e \<Longrightarrow> entry_ok e \<Longrightarrow> f s x = g s e"
  shows "madt_loop m madt f (of_nat (length (entries_bytes pre))) s = Some (foldl g s es)"
  using assms(1)
proof (induction es arbitrary: pre s)
  case Nil
  have l: "44 + length (entries_bytes pre) < 2 ^ 31" "load32 m (madt + 4) = of_nat (44 + length (entries_bytes pre))"
    using Nil by (simp_all add: madt_at_def)
  then show ?case using madt_less [OF l(1) order_refl] by (subst madt_loop.simps) (simp del: of_nat_add)
next
  case (Cons e es)
  let ?p = "length (entries_bytes pre)" and ?x = "madt + 44 + of_nat (length (entries_bytes pre))"
  have b: "bytes_at m (madt + 44) (length (entries_bytes (pre @ e # es))) = entries_bytes (pre @ e # es)"
    "44 + length (entries_bytes (pre @ e # es)) < 2 ^ 31" "load32 m (madt + 4) = of_nat (44 + length (entries_bytes (pre @ e # es)))"
    "entry_ok e" using Cons.prems by (simp_all add: madt_at_def)
  have x: "bytes_at m ?x (length (entry_bytes e)) = entry_bytes e"
    using bytes_at_slice [OF b(1), of ?p "length (entry_bytes e)"] by (simp add: entries_bytes_def)
  have u: "(of_nat ?p :: u32) + ucast (m (?x + 1)) = of_nat (length (entries_bytes (pre @ [e])))"
    using entry_length(1) [OF x b(4)] by (simp add: entries_bytes_def) (metis of_nat_unat)
  have "madt_loop m madt f (of_nat (length (entries_bytes (pre @ [e])))) (f s ?x) = Some (foldl g (f s ?x) es)"
    using Cons.IH [of "pre @ [e]"] Cons.prems by simp
  moreover have "?p < length (entries_bytes (pre @ e # es))" 
  proof -
    have "length (entries_bytes (pre @ e # es)) = ?p + (length (entry_bytes e) + length (entries_bytes es))"
      by (simp only: entries_bytes_def map_append concat_append list.map concat.simps length_append)
    then show ?thesis using entry_length(2) [OF x b(4)] by linarith
  qed
  moreover from this have "(ucast (of_nat ?p :: u32) :: u64) < ucast (load32 m (madt + 4)) - sizeof_MADT"
    "(ucast (of_nat ?p :: u32) :: u64) = of_nat ?p"
    using madt_less [OF b(2), of ?p] b(2,3) by (simp_all add: ucast_of_nat_u32 del: of_nat_add)
  ultimately show ?case using u assms(2) [OF x b(4)]
    by (subst madt_loop.simps) (simp add: Let_def sizeof_MADT_def del: of_nat_add)
qed

lemma madt_loop_all:
  assumes "madt_at m madt a es" "\<And>x e s. bytes_at m x (length (entry_bytes e)) = entry_bytes e \<Longrightarrow> entry_ok e \<Longrightarrow> f s x = g s e"
  shows "madt_loop m madt f 0 s = Some (foldl g s es)"
  using madt_loop_entries [of m madt a "[]" es f g s] assms by (simp add: entries_bytes_def)

lemma parseMADT_entries:
  assumes "madt_at m madt a es"
  shows "parseMADT m madt s = Some (spec_madt a es s)"
proof -
  have "load32 m (madt + 36) = a" using assms by (simp add: madt_at_def)
  then show ?thesis
    by (simp add: parseMADT_def spec_madt_def madt_loop_all [OF assms entry_steps(1)] madt_loop_all [OF assms entry_steps(2)]
      Let_def split_beta)
qed

section \<open>The tables in memory\<close>

text \<open>A table that the root table points to: one of another kind, or a MADT with its address and its entries.\<close>

type_synonym sdt = "u32 \<times> (u32 \<times> madt_entry list) option"

definition sdt_at :: "kmem \<Rightarrow> sdt \<Rightarrow> bool" where
  "sdt_at m t = (let p = getKernelVirtualAddress (ucast (fst t)) in
     case snd t of None \<Rightarrow> bytes_at m p 4 \<noteq> map of_char ''APIC''
     | Some (a, es) \<Rightarrow> bytes_at m p 4 = map of_char ''APIC'' \<and> madt_at m p a es)"

definition rsdt_at :: "kmem \<Rightarrow> u64 \<Rightarrow> sdt list \<Rightarrow> bool" where
  "rsdt_at m rsdt ts \<longleftrightarrow> load32 m (rsdt + 4) = of_nat (36 + 4 * length ts) \<and> 36 + 4 * length ts < 2 ^ 32 \<and>
     (\<forall>i < length ts. load32 m (rsdt + 36 + of_nat (4 * i)) = fst (ts ! i) \<and> sdt_at m (ts ! i))"

definition spec_sdt :: "machine \<Rightarrow> sdt \<Rightarrow> machine" where
  "spec_sdt s t = (case snd t of None \<Rightarrow> s | Some (a, es) \<Rightarrow> spec_madt a es s)"

lemma sdt_step_at: "sdt_at m t \<Longrightarrow> sdt_step m (getKernelVirtualAddress (ucast (fst t))) s = Some (spec_sdt s t)"
  by (auto simp: sdt_at_def sdt_step_def spec_sdt_def parseMADT_entries Let_def split: option.splits)

lemma rsdt_loop_tables:
  assumes "\<forall>i < length ts. load32 m (rsdt + 36 + of_nat (4 * i)) = fst (ts ! i) \<and> sdt_at m (ts ! i)" "k \<le> length ts"
  shows "rsdt_loop m rsdt [k..<length ts] s = Some (foldl spec_sdt s (drop k ts))"
  using assms(2)
proof (induction "length ts - k" arbitrary: k s)
  case (Suc d)
  then have k: "k < length ts" by simp
  then have "rsdt_loop m rsdt [Suc k..<length ts] (spec_sdt s (ts ! k)) = Some (foldl spec_sdt (spec_sdt s (ts ! k)) (drop (Suc k) ts))"
    using Suc.hyps(1) [of "Suc k"] Suc.hyps(2) by simp
  moreover have "drop k ts = ts ! k # drop (Suc k) ts" using k by (simp add: Cons_nth_drop_Suc)
  ultimately show ?case using assms(1) k sdt_step_at [of m "ts ! k"] by (simp add: upt_conv_Cons)
qed simp

lemma rsdt_count:
  assumes "36 + 4 * n < 2 ^ 32"
  shows "unat (((ucast (of_nat (36 + 4 * n) :: u32) :: u64) - sizeof_RSDT) div 4) = n"
proof -
  have "(ucast (of_nat (36 + 4 * n) :: u32) :: u64) - sizeof_RSDT = of_nat (4 * n)"
    using ucast_of_nat_u32 [OF assms] by (simp add: sizeof_RSDT_def)
  moreover have "unat (of_nat (4 * n) :: u64) = 4 * n" using assms by (intro unat_of_nat_u64) simp
  ultimately show ?thesis by (simp add: unat_div del: of_nat_mult)
qed

text \<open>
  \<open>C22\<close> On boot information with an old ACPI tag whose root table is well formed, \<open>ACPI::init\<close> ends and registers
  exactly what the interrupt controller tables list, in their order: every enabled processor, the first of
  them as the boot processor, at the address of the local controllers that the table gives or overrides,
  the IOAPICs and the remapped lines. Without an ACPI tag it changes nothing.
\<close>

theorem acpi_init_registers:
  assumes "tags_at m (p + 8) tags" "unat (p + 8) mod 8 = 0" "unat (p + 8) + tags_len tags < 2 ^ 64"
    "rsdp = tag_find (\<lambda>t d. t = 14) (p + 8) tags" "rsdp \<noteq> 0 \<longrightarrow> rsdt_at m (getKernelVirtualAddress (ucast (load32 m (rsdp + 24)))) ts"
    "rsdp = 0 \<longrightarrow> tag_find (\<lambda>t d. t = 15) (p + 8) tags = 0"
  shows "acpi_init m p s = Some (if rsdp = 0 then s else foldl spec_sdt s ts)"
proof -
  have g: "getEntry m p ty = Some (tag_find (\<lambda>t d. t = ty) (p + 8) tags)" for ty
    using getEntry_from_tags [OF assms(1-3)] by (simp add: getEntry_def)
  show ?thesis
  proof (cases "rsdp = 0")
    case True
    then show ?thesis using g [of 14] g [of 15] assms(4,6) by (simp add: acpi_init_def)
  next
    case False
    let ?r = "getKernelVirtualAddress (ucast (load32 m (rsdp + 24)))"
    have r: "rsdt_at m ?r ts" using assms(5) False by simp
    then have "unat ((ucast (load32 m (?r + 4)) - sizeof_RSDT) div 4) = length ts"
      using rsdt_count [of "length ts"] by (simp add: rsdt_at_def del: of_nat_add of_nat_mult)
    moreover have "rsdt_loop m ?r [0..<length ts] s = Some (foldl spec_sdt s ts)"
      using rsdt_loop_tables [of ts m ?r 0 s] r by (simp add: rsdt_at_def)
    ultimately show ?thesis using g [of 14] assms(4) False by (simp add: acpi_init_def Let_def)
  qed
qed

text \<open>A machine with two enabled processors and one that is not.\<close>

definition sample_entries :: "madt_entry list" where
  "sample_entries = [Lapic 0 0 1, Lapic 1 4 0, Lapic 2 6 1]"

definition sample_tables :: "u8 list" where
  "sample_tables = replicate 8 0 @ le_bytes 4 14 @ le_bytes 4 28 @ replicate 16 0 @ le_bytes 4 0x1030 @ replicate 4 0 @ replicate 8 0 @
     replicate 4 0 @ le_bytes 4 40 @ replicate 28 0 @ le_bytes 4 0x1058 @
     map of_char ''APIC'' @ le_bytes 4 68 @ replicate 28 0 @ le_bytes 4 0xFEE00000 @ replicate 4 0 @ entries_bytes sample_entries"

definition sample_acpi :: kmem where
  "sample_acpi = store_bytes (\<lambda>_. 0) (getKernelVirtualAddress 0x1000) sample_tables"

definition sample_machine :: machine where
  "sample_machine = \<lparr>mc_processors = [], mc_gs = None, mc_irqs = sample_irqs\<rparr>"

lemma sample_slice:
  assumes "i + n \<le> 156"
  shows "bytes_at sample_acpi (getKernelVirtualAddress 0x1000 + of_nat i) n = take n (drop i sample_tables)"
proof -
  have "length sample_tables = 156" by (simp add: sample_tables_def entries_bytes_def sample_entries_def)
  then show ?thesis using assms unfolding sample_acpi_def by (intro bytes_at_store_slice) simp_all
qed

lemma sample_load32:
  assumes "i + 4 \<le> 156" "take 4 (drop i sample_tables) = le_bytes 4 (unat v)"
  shows "load32 sample_acpi (getKernelVirtualAddress 0x1000 + of_nat i) = v"
  using load_le_bytes(1) [of sample_acpi _ "le_bytes 4 (unat v)" v] sample_slice [OF assms(1)] assms(2) by simp

theorem acpi_init_registers_witness:
  "\<exists>s'. acpi_init sample_acpi (getKernelVirtualAddress 0x1000) sample_machine = Some s' \<and> mc_gs s' = Some 0 \<and>
    map ci_lApicID (mc_processors s') = [0, 6] \<and> map ci_isBsp (mc_processors s') = [True, False]"
proof -
  let ?p = "getKernelVirtualAddress 0x1000" and ?d = "replicate 16 0 @ le_bytes 4 0x1030"
  note tab = sample_tables_def entries_bytes_def sample_entries_def
  have l: "load32 sample_acpi (?p + 8) = 14" "load32 sample_acpi (?p + 12) = 28" "load32 sample_acpi (?p + 40) = 0"
    "load32 sample_acpi (?p + 32) = 0x1030" "load32 sample_acpi (?p + 52) = 40" "load32 sample_acpi (?p + 84) = 0x1058"
    "load32 sample_acpi (?p + 92) = 68" "load32 sample_acpi (?p + 124) = 0xFEE00000"
  proof -
    show "load32 sample_acpi (?p + 8) = 14" using sample_load32 [of 8 14] by (simp add: tab)
    show "load32 sample_acpi (?p + 12) = 28" using sample_load32 [of 12 28] by (simp add: tab)
    show "load32 sample_acpi (?p + 40) = 0" using sample_load32 [of 40 0] by (simp add: tab le_bytes_zero)
    show "load32 sample_acpi (?p + 32) = 0x1030" using sample_load32 [of 32 "0x1030"] by (simp add: tab)
    show "load32 sample_acpi (?p + 52) = 40" using sample_load32 [of 52 40] by (simp add: tab)
    show "load32 sample_acpi (?p + 84) = 0x1058" using sample_load32 [of 84 "0x1058"] by (simp add: tab)
    show "load32 sample_acpi (?p + 92) = 68" using sample_load32 [of 92 68] by (simp add: tab)
    show "load32 sample_acpi (?p + 124) = 0xFEE00000" using sample_load32 [of 124 "0xFEE00000"] by (simp add: tab)
  qed
  have t: "tags_at sample_acpi (?p + 8) [(14, ?d)]"
    using l(1-3) sample_slice [of 16 20] by (simp add: tag_len_def add.assoc) (simp add: tab)
  have "rsdt_at sample_acpi (getKernelVirtualAddress 0x1030) [(0x1058, Some (0xFEE00000, sample_entries))]"
    using l(5-8) sample_slice [of 88 4] sample_slice [of 132 24]
    by (simp add: rsdt_at_def sdt_at_def madt_at_def getKernelVirtualAddress_def) (simp add: tab)
  with acpi_init_registers [OF t, of _ "[(0x1058, Some (0xFEE00000, sample_entries))]" sample_machine] l(4) show ?thesis
    by (simp add: getKernelVirtualAddress_def tags_len_def tag_len_def spec_sdt_def spec_madt_def sample_entries_def registerCPU_def
      sample_machine_def Let_def)
qed

end
