(* ===== verification/Heap.thy ===== *)
theory Heap
  imports AddrSpace Irq
begin

text \<open>
  \<open>kernel/memory/heap.cpp\<close>: the pages behind the kernel heap. \<open>physicalPages\<close> holds the physical address of
  every page of the heap's range, zero where none is mapped; \<open>liballoc_alloc\<close> takes the first run of such
  places that is long enough and maps fresh pages there, from the last to the first, and \<open>liballoc_free\<close>
  gives them back. An index outside the array is a fault.
\<close>

section \<open>State\<close>

definition heapAddress :: u64 where "heapAddress = 0xFFFFFFFF00000000"
definition physicalPagesSize :: nat where "physicalPagesSize = 1024 * 512"

record heap =
  hp_pages :: "u64 list"
  hp_vm :: vmem
  hp_space :: aspace

abbreviation heap_page :: "nat \<Rightarrow> u64" where
  "heap_page i \<equiv> heapAddress + of_nat (i * 4096)"

section \<open>Operations\<close>

definition heap_init :: "vmem \<Rightarrow> aspace \<Rightarrow> heap res" where
  "heap_init m space =
     bind_res (ph_getFreePages (vm_phys m) (physicalPagesSize div 512) 4096) (\<lambda>(a, p).
     Inr \<lparr>hp_pages = replicate physicalPagesSize 0, hp_vm = m\<lparr>vm_phys := p\<rparr>, hp_space = space\<rparr>)"

definition liballoc_lock :: "intr \<Rightarrow> bool \<Rightarrow> (intr \<times> bool) res" where
  "liballoc_lock cpu lock = (let cpu = intr_disable cpu in bind_res (spin_lock lock) (\<lambda>lock. Inr (cpu, lock)))"

definition liballoc_unlock :: "intr \<Rightarrow> bool \<Rightarrow> (intr \<times> bool) res" where
  "liballoc_unlock cpu lock = (let lock = spin_unlock lock in bind_res (intr_enable cpu) (\<lambda>cpu. Inr (cpu, lock)))"

text \<open>The body of the inner loop, for the page of one index.\<close>

definition heap_map :: "heap \<Rightarrow> nat \<Rightarrow> heap res" where
  "heap_map h k =
     bind_res (ph_getFreePages (vm_phys (hp_vm h)) 1 4096) (\<lambda>(a, p).
     bind_res (mapPage ((hp_vm h)\<lparr>vm_phys := p\<rparr>) (hp_space h) a (heap_page k) 2 True) (\<lambda>(m, space).
     Inr \<lparr>hp_pages = (hp_pages h)[k := a], hp_vm = m, hp_space = space\<rparr>))"

function alloc_scan :: "heap \<Rightarrow> nat \<Rightarrow> nat \<Rightarrow> nat \<Rightarrow> (u64 \<times> heap) res" where
  "alloc_scan h sz i count =
     (if i < length (hp_pages h)
      then if hp_pages h ! i = 0
           then if count + 1 = sz
                then bind_res (for_each (\<lambda>h y. heap_map h (i - y)) [0..<sz] h) (\<lambda>h. Inr (heap_page (i - (sz - 1)), h))
                else alloc_scan h sz (i + 1) (count + 1)
           else alloc_scan h sz (i + 1) 0
      else Inr (0, h))"
  by pat_completeness auto
termination
  by (relation "measure (\<lambda>(h, sz, i, count). length (hp_pages h) - i)") auto

declare alloc_scan.simps [simp del]

definition liballoc_alloc :: "heap \<Rightarrow> nat \<Rightarrow> (u64 \<times> heap) res" where
  "liballoc_alloc h sz = alloc_scan h sz 0 0"

definition heap_unmap :: "heap \<Rightarrow> nat \<Rightarrow> heap res" where
  "heap_unmap h i =
     (if i < length (hp_pages h)
      then bind_res (ph_freePages (vm_phys (hp_vm h)) (hp_pages h ! i) 1) (\<lambda>p.
           bind_res (unmapPage ((hp_vm h)\<lparr>vm_phys := p\<rparr>) (hp_space h) (heap_page i)) (\<lambda>(a, m, space).
           Inr \<lparr>hp_pages = (hp_pages h)[i := 0], hp_vm = m, hp_space = space\<rparr>))
      else Inl BadAccess)"

definition liballoc_free :: "heap \<Rightarrow> u64 \<Rightarrow> nat \<Rightarrow> heap res" where
  "liballoc_free h ptr sz = (let baseIndex = unat (ptr - heapAddress) div 4096 in
     for_each heap_unmap [baseIndex..<sz + baseIndex] h)"

section \<open>Tables and frames\<close>

text \<open>The frames of the page tables of an address space.\<close>

definition tabs :: "vmem \<Rightarrow> aspace \<Rightarrow> nat set" where
  "tabs m space = {f. \<exists>q. vpath q \<and> node (vm_tab m) (pml4 space) q = Some f}"

lemma pml_ensure_tabs:
  assumes inv: "vm_inv m space" and q: "vpath (q @ [i])" and f: "node (vm_tab m) (pml4 space) q = Some f"
    and nh: "\<not> huge (vm_tab m) (pml4 space) q i" and fl: "fl = 7 \<or> fl = 3"
    and run: "pml_ensure m f i fl = Inr (g, m')"
  shows "tabs m' space \<subseteq> tabs m space \<union> {f. \<not> ph_used (vm_phys m) f} \<and>
    (\<forall>i. ph_used (vm_phys m) i \<longrightarrow> ph_used (vm_phys m') i)"
proof (cases "pml_present (vm_tab m f i)")
  case True
  then have "m' = m" using run by (auto simp: pml_ensure_def bind_res_eq_Inr)
  then show ?thesis by simp
next
  case False
  have lim: "ph_limited (2 ^ 19) (vm_phys m)" and ok: "tables_ok (vm_phys m) (vm_tab m) (pml4 space)"
    using inv by (simp_all add: vm_inv_def)
  obtain a p where a: "ph_getFreePages (vm_phys m) 1 4096 = Inr (a, p)"
    and m': "m' = tab_clear (tab_write (m\<lparr>vm_phys := p\<rparr>) f i (a OR fl)) (frame a)"
    using run False by (auto simp: pml_ensure_def bind_res_eq_Inr Let_def)
  note fr = fr.alloc_ok [OF lim a(1)]
  have e: "pml_present (a OR fl)" "pml_frame (a OR fl) = frame a" "\<not> pml_size (a OR fl)"
    using pml_entry_fields [OF _ _ fl] fr by auto
  have free: "\<not> ph_used (vm_phys m) (frame a)" using fr by blast
  have t': "vm_tab m' = ((vm_tab m)(f := (vm_tab m f)(i := a OR fl)))(frame a := \<lambda>_. 0)" and p': "vm_phys m' = p"
    by (simp_all add: m' tab_clear_def tab_write_def)
  show ?thesis using node_ensure [OF ok q f False free e t'] free fr by (auto simp: tabs_def p' split: if_splits)
qed

lemma tabs_leaf_write:
  assumes "vm_inv m space" "node (vm_tab m) (pml4 space) (upper va) = Some f"
  shows "tabs (tab_write m f (table_index va) e) space = tabs m space"
proof -
  have t': "vm_tab (tab_write m f (table_index va) e) = (vm_tab m)(f := (vm_tab m f)(table_index va := e))" by (simp add: tab_write_def)
  have "tables_ok (vm_phys m) (vm_tab m) (pml4 space)" using assms(1) by (simp add: vm_inv_def)
  then show ?thesis using node_leaf_write [OF _ vpath_upper assms(2) t'] unfolding tabs_def by metis
qed

lemma mapPage_tabs:
  assumes inv: "vm_inv m space" and nh: "no_huge m space va" and run: "mapPage m space pa va flags do_lock = Inr (m', space')"
  shows "tabs m' space \<subseteq> tabs m space \<union> {f. \<not> ph_used (vm_phys m) f} \<and>
    (\<forall>i. ph_used (vm_phys m) i \<longrightarrow> ph_used (vm_phys m') i)"
proof -
  let ?r = "pml4 space"
  define fl :: u64 where "fl = (if pml4_index va < 128 then 7 else 3)"
  have fl: "fl = 7 \<or> fl = 3" by (simp add: fl_def)
  obtain f3 m1 f2 m2 f1 m3 where e: "pml_ensure m ?r (pml4_index va) fl = Inr (f3, m1)"
    "pml_ensure m1 f3 (pml3_index va) fl = Inr (f2, m2)" "pml_ensure m2 f2 (pml2_index va) fl = Inr (f1, m3)"
    and m': "m' = tab_write m3 f1 (table_index va) ((pa AND NOT 0xFFF) OR flags OR 1)"
    using run unfolding mapPage_def Let_def fl_def [symmetric]
    by (auto simp: bind_res_eq_Inr take_lock_def pml4_def split: if_splits)
  have v: "vpath ([] @ [pml4_index va])" "vpath ([pml4_index va] @ [pml3_index va])"
    "vpath ([pml4_index va, pml3_index va] @ [pml2_index va])"
    "vpath [pml4_index va]" "vpath [pml4_index va, pml3_index va]" by (simp_all add: vpath_def)
  have h1: "\<not> huge (vm_tab m) ?r [] (pml4_index va)" using nh by (simp add: no_huge_def)
  note s1 = pml_ensure_Inr [OF inv v(1) node.simps(1) h1 fl e(1)] and t1 = pml_ensure_tabs [OF inv v(1) node.simps(1) h1 fl e(1)]
  have i1: "vm_inv m1 space" "node (vm_tab m1) ?r [pml4_index va] = Some f3" "\<not> huge (vm_tab m1) ?r [pml4_index va] (pml3_index va)"
    using s1 nh v(4) by (auto simp: no_huge_def)
  note s2 = pml_ensure_Inr [OF i1(1) v(2) i1(2,3) fl e(2)] and t2 = pml_ensure_tabs [OF i1(1) v(2) i1(2,3) fl e(2)]
  have i2: "vm_inv m2 space" "node (vm_tab m2) ?r [pml4_index va, pml3_index va] = Some f2"
    "\<not> huge (vm_tab m2) ?r [pml4_index va, pml3_index va] (pml2_index va)"
    using s1 s2 nh v(5) by (auto simp: no_huge_def)
  note s3 = pml_ensure_Inr [OF i2(1) v(3) _ i2(3) fl e(3)] and t3 = pml_ensure_tabs [OF i2(1) v(3) _ i2(3) fl e(3)]
  have i3: "vm_inv m3 space" "node (vm_tab m3) ?r (upper va) = Some f1" using s3 i2(2) by (simp_all add: upper_def)
  have "tabs m' space = tabs m3 space" unfolding m' by (rule tabs_leaf_write [OF i3])
  moreover have "vm_phys m' = vm_phys m3" by (simp add: m' tab_write_def)
  moreover have c: "C \<subseteq> A \<union> {f. \<not> u f} \<and> (\<forall>i. u i \<longrightarrow> w i)"
    if "B \<subseteq> A \<union> {f. \<not> u f} \<and> (\<forall>i. u i \<longrightarrow> v i)" "C \<subseteq> B \<union> {f. \<not> v f} \<and> (\<forall>i. v i \<longrightarrow> w i)" for A B C :: "nat set" and u v w
    using that by blast
  ultimately show ?thesis using c [OF c [OF t1 t2] t3 [OF i2(2)]] by simp
qed

lemma unmapPage_tabs:
  assumes inv: "vm_inv m space" and nh: "no_huge m space va" and l: "\<not> as_lock space"
    and run: "unmapPage m space va = Inr (a, m', space')"
  shows "tabs m' space = tabs m space"
proof -
  have tl: "take_lock True space = Inr (space\<lparr>as_lock := True\<rparr>)" "pml4 (space\<lparr>as_lock := True\<rparr>) = pml4 space"
    using take_lock_free [OF l, of True] by simp_all
  obtain f where f: "node (vm_tab m) (pml4 space) (upper va) = Some f"
    and m': "\<exists>e. m' = tab_write m f (table_index va) e"
  proof (cases "node (vm_tab m) (pml4 space) (upper va)")
    case None
    then show ?thesis using run by (simp add: unmapPage_def tl pml_walk_down [OF inv nh])
  next
    case (Some f)
    then show ?thesis using run that by (auto simp: unmapPage_def tl pml_walk_down [OF inv nh] Let_def res_elims)
  qed
  then show ?thesis using tabs_leaf_write [OF inv f] by auto
qed

section \<open>Invariant\<close>

text \<open>
  The array agrees with the page tables, the pages it holds are used frames that are neither shared
  nor page tables, and frame zero, which the array could not tell from an unused place, is reserved.
\<close>

definition place_ok :: "vmem \<Rightarrow> aspace \<Rightarrow> nat \<Rightarrow> u64 \<Rightarrow> bool" where
  "place_ok m space i a \<longleftrightarrow> no_huge m space (heap_page i) \<and> mmu m space (heap_page i) = (if a = 0 then None else Some (a OR 3)) \<and>
     (a \<noteq> 0 \<longrightarrow> unat a = frame a * 4096 \<and> ph_used (vm_phys m) (frame a) \<and> frame a \<notin> tabs m space)"

definition heap_inv :: "heap \<Rightarrow> bool" where
  "heap_inv h \<longleftrightarrow> vm_inv (hp_vm h) (hp_space h) \<and> \<not> as_lock (hp_space h) \<and> length (hp_pages h) \<le> physicalPagesSize \<and>
     ph_used (vm_phys (hp_vm h)) 0 \<and>
     (\<forall>i < length (hp_pages h). place_ok (hp_vm h) (hp_space h) i (hp_pages h ! i)) \<and>
     (\<forall>i < length (hp_pages h). \<forall>j < length (hp_pages h). hp_pages h ! i \<noteq> 0 \<and> hp_pages h ! i = hp_pages h ! j \<longrightarrow> i = j)"

lemma heap_page_unat:
  assumes "k < physicalPagesSize"
  shows "unat (heap_page k) = 0xFFFFFFFF00000000 + k * 4096"
proof -
  have k: "k < 2 ^ 19" using assms by (simp add: physicalPagesSize_def)
  have o: "unat (of_nat (k * 4096) :: u64) = k * 4096" using k by (intro unat_of_nat_u64) simp
  show ?thesis using k by (simp only: unat_word_ariths(1) o) (simp add: heapAddress_def)
qed

lemma heap_pages_distinct:
  assumes "i < physicalPagesSize" "j < physicalPagesSize" "same_page (heap_page i) (heap_page j)"
  shows "i = j"
proof -
  have n: "unat (take_bit 36 (drop_bit 12 (heap_page k))) = 0xFFFF00000 + k" if "k < physicalPagesSize" for k
  proof -
    have k: "k < 2 ^ 19" using that by (simp add: physicalPagesSize_def)
    have "frame (heap_page k) = 0xFFFFFFFF00000 + k" unfolding frame_def heap_page_unat [OF that] by simp
    then have "unat (drop_bit 12 (heap_page k)) = 0xFFFFFFFF00000 + k" by (simp only: unat_drop_12)
    then have "unat (take_bit 36 (drop_bit 12 (heap_page k))) = take_bit 36 (0xFFFFFFFF00000 + k)"
      by (simp only: unsigned_take_bit_eq)
    then have "unat (take_bit 36 (drop_bit 12 (heap_page k))) = (0xFFFFFFFF00000 + k) mod 2 ^ 36"
      unfolding take_bit_eq_mod [of 36 "0xFFFFFFFF00000 + k"] .
    also have "0xFFFFFFFF00000 + k = (0xFFFF00000 + k) + 0xFFFF * 2 ^ 36" by simp
    also have "\<dots> mod 2 ^ 36 = (0xFFFF00000 + k) mod 2 ^ 36" by (rule mod_mult_self1)
    also have "\<dots> = 0xFFFF00000 + k" using k by (intro mod_less) simp
    finally show ?thesis .
  qed
  show ?thesis using n [OF assms(1)] n [OF assms(2)] assms(3) by (simp only: same_page_def)
qed

lemma page_entry:
  assumes "unat a = frame a * 4096" "frame a < 2 ^ 19"
  shows "(a AND NOT 0xFFF) OR 2 OR 1 = a OR 3"
proof -
  have "a = of_nat (frame a * 4096)" using assms(1) by (metis of_nat_unat ucast_id)
  then have "a AND 0xFFF = 0" using page_address(3) [of "frame a"] assms(2) by simp
  then have "a AND NOT 0xFFF = a" 
  proof -
    have "(a AND 0xFFF) OR (a AND NOT 0xFFF) = a" by (rule bit_word_eqI) (simp only: bit_or_iff bit_and_iff bit_not_iff, auto)
    then show ?thesis using \<open>a AND 0xFFF = 0\<close> by simp
  qed
  then show ?thesis by (simp add: or.assoc)
qed

lemma tabs_phys [simp]: "tabs (m\<lparr>vm_phys := p\<rparr>) space = tabs m space"
  by (simp add: tabs_def)

lemma tabs_used: "vm_inv m space \<Longrightarrow> f \<in> tabs m space \<Longrightarrow> ph_used (vm_phys m) f \<and> f < 2 ^ 19"
  by (auto simp: tabs_def vm_inv_def tables_ok_def)

text \<open>Changing the allocator alone keeps the tables well formed as long as their frames stay used.\<close>

lemma vm_inv_phys:
  assumes "vm_inv m space" "ph_limited (2 ^ 19) p" "\<forall>f \<in> tabs m space. ph_used p f"
  shows "vm_inv (m\<lparr>vm_phys := p\<rparr>) space" "mmu (m\<lparr>vm_phys := p\<rparr>) space x = mmu m space x"
    "no_huge (m\<lparr>vm_phys := p\<rparr>) space x = no_huge m space x"
  using assms by (auto simp: vm_inv_def tables_ok_def tabs_def mmu_def no_huge_def)

section \<open>One page\<close>

lemma heap_invD:
  assumes "heap_inv h"
  shows "vm_inv (hp_vm h) (hp_space h)" "\<not> as_lock (hp_space h)" "length (hp_pages h) \<le> physicalPagesSize"
    "ph_used (vm_phys (hp_vm h)) 0" "i < length (hp_pages h) \<Longrightarrow> place_ok (hp_vm h) (hp_space h) i (hp_pages h ! i)"
    "i < length (hp_pages h) \<Longrightarrow> j < length (hp_pages h) \<Longrightarrow> hp_pages h ! i \<noteq> 0 \<Longrightarrow> hp_pages h ! i = hp_pages h ! j \<Longrightarrow> i = j"
  using assms by (auto simp: heap_inv_def)

lemma heap_map_ok:
  assumes inv: "heap_inv h" and k: "k < length (hp_pages h)" "hp_pages h ! k = 0"
    and n: "4 + t \<le> free_frames (vm_phys (hp_vm h))"
  shows "\<exists>h' a. heap_map h k = Inr h' \<and> heap_inv h' \<and> hp_pages h' = (hp_pages h)[k := a] \<and> a \<noteq> 0 \<and>
    \<not> ph_used (vm_phys (hp_vm h)) (frame a) \<and> hp_space h' = hp_space h \<and> t \<le> free_frames (vm_phys (hp_vm h')) \<and>
    (\<forall>x. mmu (hp_vm h') (hp_space h) x = (if same_page (heap_page k) x then Some (a OR 3) else mmu (hp_vm h) (hp_space h) x)) \<and>
    (\<forall>i. ph_used (vm_phys (hp_vm h)) i \<longrightarrow> ph_used (vm_phys (hp_vm h')) i)"
proof -
  let ?m = "hp_vm h" and ?s = "hp_space h" and ?ps = "hp_pages h"
  note vi = heap_invD(1) [OF inv] and l = heap_invD(2) [OF inv] and len = heap_invD(3) [OF inv] and z = heap_invD(4) [OF inv]
    and pg = heap_invD(5) [OF inv] and ds = heap_invD(6) [OF inv]
  have lim: "ph_limited (2 ^ 19) (vm_phys ?m)" using vi by (simp add: vm_inv_def)
  obtain a p where a: "ph_getFreePages (vm_phys ?m) 1 4096 = Inr (a, p)" "3 + t \<le> free_frames p"
    using alloc_total [OF lim, of "3 + t"] n by auto
  note fr = fr.alloc_ok [OF lim a(1)]
  have a0: "a \<noteq> 0" using fr z by (auto simp: frame_def)
  let ?m1 = "?m\<lparr>vm_phys := p\<rparr>"
  have m1: "vm_inv ?m1 ?s" "\<And>x. mmu ?m1 ?s x = mmu ?m ?s x" "\<And>x. no_huge ?m1 ?s x = no_huge ?m ?s x"
    using vm_inv_phys [OF vi, of p] fr tabs_used [OF vi] by auto
  have nh: "no_huge ?m1 ?s (heap_page k)" using m1(3) pg [OF k(1)] by (simp add: place_ok_def)
  obtain m2 where m2: "mapPage ?m1 ?s a (heap_page k) 2 True = Inr (m2, ?s)" "vm_inv m2 ?s" "t \<le> free_frames (vm_phys m2)"
    "\<forall>x. no_huge ?m1 ?s x \<longrightarrow> no_huge m2 ?s x"
    "\<forall>x. mmu m2 ?s x = (if same_page (heap_page k) x then Some ((a AND NOT 0xFFF) OR 2 OR 1) else mmu ?m1 ?s x)"
    using mapPage_ok [OF m1(1) nh, of True t a 2] l a(2) by auto
  note tb = mapPage_tabs [OF m1(1) nh m2(1)]
  have ae: "(a AND NOT 0xFFF) OR 2 OR 1 = a OR 3" using page_entry fr by blast
  have used: "ph_used (vm_phys ?m) i \<Longrightarrow> ph_used (vm_phys m2) i" for i using tb fr by simp
  have nt: "f \<notin> tabs m2 ?s" if "f \<notin> tabs ?m ?s" "ph_used p f" for f using tb that by auto
  have at: "frame a \<notin> tabs ?m ?s" using tabs_used [OF vi] fr by blast
  define h' where "h' = \<lparr>hp_pages = ?ps[k := a], hp_vm = m2, hp_space = ?s\<rparr>"
  have run: "heap_map h k = Inr h'" using a(1) m2(1) by (simp add: heap_map_def h'_def)
  have ent: "place_ok m2 ?s i (?ps[k := a] ! i)" if i: "i < length ?ps" for i
  proof (cases "i = k")
    case True
    have "same_page (heap_page k) (heap_page k)" by (simp add: same_page_def)
    moreover have "frame a \<notin> tabs m2 ?s" "ph_used (vm_phys m2) (frame a)" using nt at fr tb by auto
    ultimately show ?thesis using True k(1) m2(4,5) m1(3) pg [OF k(1)] a0 ae fr by (simp add: place_ok_def)
  next
    case False
    have "\<not> same_page (heap_page k) (heap_page i)"
      using heap_pages_distinct [of k i] len k(1) i False by auto
    then have "mmu m2 ?s (heap_page i) = mmu ?m ?s (heap_page i)" using m2(5) m1(2) by simp
    moreover have "no_huge m2 ?s (heap_page i)" using m2(4) m1(3) pg [OF i] by (simp add: place_ok_def)
    moreover have "?ps ! i \<noteq> 0 \<longrightarrow> frame (?ps ! i) \<notin> tabs m2 ?s" using pg [OF i] nt fr by (auto simp: place_ok_def)
    ultimately show ?thesis using pg [OF i] False used by (simp add: place_ok_def)
  qed
  have dist: "i = j" if "i < length ?ps" "j < length ?ps" "?ps[k := a] ! i \<noteq> 0" "?ps[k := a] ! i = ?ps[k := a] ! j" for i j
  proof -
    have na: "?ps ! x \<noteq> a" if "x < length ?ps" for x using pg [OF that] fr a0 by (auto simp: place_ok_def)
    show ?thesis using that ds na k(1) by (cases "i = k"; cases "j = k") auto
  qed
  have "heap_inv h'" unfolding heap_inv_def using m2(2) l len used [OF z] ent by (simp add: h'_def) (use dist in blast)
  then show ?thesis using run m2(3,5) m1(2) a0 fr used unfolding ae by (intro exI [of _ h'] exI [of _ a]) (simp add: h'_def)
qed

lemma heap_unmap_ok:
  assumes inv: "heap_inv h" and i: "i < length (hp_pages h)" "hp_pages h ! i \<noteq> 0"
  shows "\<exists>h'. heap_unmap h i = Inr h' \<and> heap_inv h' \<and> hp_pages h' = (hp_pages h)[i := 0] \<and> hp_space h' = hp_space h \<and>
    (\<forall>x. mmu (hp_vm h') (hp_space h) x = (if same_page (heap_page i) x then None else mmu (hp_vm h) (hp_space h) x)) \<and>
    (\<forall>f. ph_used (vm_phys (hp_vm h')) f \<longleftrightarrow> ph_used (vm_phys (hp_vm h)) f \<and> f \<noteq> frame (hp_pages h ! i))"
proof -
  let ?m = "hp_vm h" and ?s = "hp_space h" and ?ps = "hp_pages h" and ?f = "frame (hp_pages h ! i)"
  note vi = heap_invD(1) [OF inv] and l = heap_invD(2) [OF inv] and len = heap_invD(3) [OF inv] and z = heap_invD(4) [OF inv]
    and pg = heap_invD(5) [OF inv] and ds = heap_invD(6) [OF inv]
  have pi: "unat (?ps ! i) = ?f * 4096" "ph_used (vm_phys ?m) ?f" "?f \<notin> tabs ?m ?s" "mmu ?m ?s (heap_page i) = Some (?ps ! i OR 3)"
    "no_huge ?m ?s (heap_page i)" using pg [OF i(1)] i(2) by (auto simp: place_ok_def)
  have f0: "?f \<noteq> 0" using pi(1) i(2) by (metis mult_0 unat_eq_zero)
  have lim: "ph_inv (vm_phys ?m)" "pages (ph_bitmap (vm_phys ?m)) \<le> 2 ^ 19" using vi by (simp_all add: vm_inv_def ph_limited_def)
  obtain p where p: "ph_freePages (vm_phys ?m) (?ps ! i) 1 = Inr p" "clears {?f} (vm_phys ?m) p"
    using ph_freePages_clears [OF pi(1) _ lim(2)] pi(2) by (auto simp: used_def div_less_iff_less_mult)
  have pl: "ph_limited (2 ^ 19) p" using p(2) lim by (simp add: clears_def ph_limited_def ph_inv_def)
  have us: "ph_used p f \<longleftrightarrow> ph_used (vm_phys ?m) f \<and> f \<noteq> ?f" for f using p(2) by (simp add: clears_def)
  let ?m1 = "?m\<lparr>vm_phys := p\<rparr>"
  have m1: "vm_inv ?m1 ?s" "\<And>x. mmu ?m1 ?s x = mmu ?m ?s x" "\<And>x. no_huge ?m1 ?s x = no_huge ?m ?s x"
    using vm_inv_phys [OF vi pl] tabs_used [OF vi] pi(3) us by auto
  have nh: "no_huge ?m1 ?s (heap_page i)" using m1(3) pi(5) by simp
  obtain a m2 where m2: "unmapPage ?m1 ?s (heap_page i) = Inr (a, m2, ?s)" "vm_inv m2 ?s" "vm_phys m2 = p"
    "\<forall>x. no_huge m2 ?s x = no_huge ?m1 ?s x" "\<forall>x. mmu m2 ?s x = (if same_page (heap_page i) x then None else mmu ?m1 ?s x)"
    using unmapPage_ok [OF m1(1) nh l] m1(2) pi(4) by auto
  have tb: "tabs m2 ?s = tabs ?m ?s" using unmapPage_tabs [OF m1(1) nh l m2(1)] by simp
  define h' where "h' = \<lparr>hp_pages = ?ps[i := 0], hp_vm = m2, hp_space = ?s\<rparr>"
  have run: "heap_unmap h i = Inr h'" using p(1) m2(1) i(1) by (simp add: heap_unmap_def h'_def)
  have ent: "place_ok m2 ?s j (?ps[i := 0] ! j)" if j: "j < length ?ps" for j
  proof (cases "j = i")
    case True
    have "same_page (heap_page i) (heap_page i)" by (simp add: same_page_def)
    then show ?thesis using True i(1) m2(4,5) nh by (simp add: place_ok_def)
  next
    case False
    have "\<not> same_page (heap_page i) (heap_page j)"
      using heap_pages_distinct [of i j] len i(1) j False by auto
    then have "mmu m2 ?s (heap_page j) = mmu ?m ?s (heap_page j)" using m2(5) m1(2) by simp
    moreover have "frame (?ps ! j) \<noteq> ?f" if "?ps ! j \<noteq> 0"
    proof
      assume "frame (?ps ! j) = ?f"
      then have "?ps ! j = ?ps ! i" using pi(1) pg [OF j] that by (simp add: place_ok_def word_unat_eq_iff)
      then show False using ds [OF j i(1)] that False by simp
    qed
    ultimately show ?thesis using pg [OF j] False m1(3) m2(3,4) us tb by (simp add: place_ok_def)
  qed
  have dist: "j = k" if "j < length ?ps" "k < length ?ps" "?ps[i := 0] ! j \<noteq> 0" "?ps[i := 0] ! j = ?ps[i := 0] ! k" for j k
    using that ds i(1) by (cases "j = i"; cases "k = i") auto
  have "heap_inv h'" unfolding heap_inv_def using m2(2,3) l len z us f0 ent by (simp add: h'_def) (use dist in blast)
  then show ?thesis using run m2(3,5) m1(2) us by (intro exI [of _ h']) (simp add: h'_def)
qed

section \<open>Runs of pages\<close>

text \<open>What mapping or unmapping the places of a set leaves alone.\<close>

definition same_elsewhere :: "nat set \<Rightarrow> heap \<Rightarrow> heap \<Rightarrow> bool" where
  "same_elsewhere K h h' \<longleftrightarrow> hp_space h' = hp_space h \<and> length (hp_pages h') = length (hp_pages h) \<and>
     (\<forall>i < length (hp_pages h). i \<notin> K \<longrightarrow> hp_pages h' ! i = hp_pages h ! i) \<and>
     (\<forall>x. (\<forall>k \<in> K. \<not> same_page (heap_page k) x) \<longrightarrow> mmu (hp_vm h') (hp_space h) x = mmu (hp_vm h) (hp_space h) x)"

lemma same_elsewhere_trans:
  "same_elsewhere {k} h h1 \<Longrightarrow> same_elsewhere K h1 h2 \<Longrightarrow> same_elsewhere (insert k K) h h2"
  by (auto simp: same_elsewhere_def)

lemma heap_map_all:
  assumes "heap_inv h" "distinct ks" "\<forall>k \<in> set ks. k < length (hp_pages h) \<and> hp_pages h ! k = 0"
    "4 * length ks + t \<le> free_frames (vm_phys (hp_vm h))"
  shows "\<exists>h'. for_each heap_map ks h = Inr h' \<and> heap_inv h' \<and> same_elsewhere (set ks) h h' \<and>
    (\<forall>k \<in> set ks. hp_pages h' ! k \<noteq> 0 \<and> \<not> ph_used (vm_phys (hp_vm h)) (frame (hp_pages h' ! k)))"
  using assms
proof (induction ks arbitrary: h)
  case (Cons k ks)
  have k: "k < length (hp_pages h)" "hp_pages h ! k = 0" and n: "4 + (4 * length ks + t) \<le> free_frames (vm_phys (hp_vm h))"
    using Cons.prems(3,4) by simp_all
  obtain h1 a where h1: "heap_map h k = Inr h1" "heap_inv h1" "hp_pages h1 = (hp_pages h)[k := a]" "a \<noteq> 0"
    "\<not> ph_used (vm_phys (hp_vm h)) (frame a)" "hp_space h1 = hp_space h" "4 * length ks + t \<le> free_frames (vm_phys (hp_vm h1))"
    "\<forall>x. mmu (hp_vm h1) (hp_space h) x = (if same_page (heap_page k) x then Some (a OR 3) else mmu (hp_vm h) (hp_space h) x)"
    "\<forall>i. ph_used (vm_phys (hp_vm h)) i \<longrightarrow> ph_used (vm_phys (hp_vm h1)) i"
    using heap_map_ok [OF Cons.prems(1) k n] by blast
  have "\<forall>j \<in> set ks. j < length (hp_pages h1) \<and> hp_pages h1 ! j = 0" using Cons.prems(2,3) h1(3) by (auto simp: nth_list_update)
  then obtain h2 where h2: "for_each heap_map ks h1 = Inr h2" "heap_inv h2" "same_elsewhere (set ks) h1 h2"
    "\<forall>j \<in> set ks. hp_pages h2 ! j \<noteq> 0 \<and> \<not> ph_used (vm_phys (hp_vm h1)) (frame (hp_pages h2 ! j))"
    using Cons.IH [OF h1(2) _ _ h1(7)] Cons.prems(2) by auto
  have "same_elsewhere {k} h h1" using h1(3,6,8) by (simp add: same_elsewhere_def)
  then have s: "same_elsewhere (set (k # ks)) h h2" using same_elsewhere_trans h2(3) by simp
  have "hp_pages h2 ! k = a" using h2(3) Cons.prems(2) k(1) h1(3) by (simp add: same_elsewhere_def)
  then have "\<forall>j \<in> set (k # ks). hp_pages h2 ! j \<noteq> 0 \<and> \<not> ph_used (vm_phys (hp_vm h)) (frame (hp_pages h2 ! j))"
    using h2(4) h1(4,5,9) by auto
  then show ?case using h1(1) h2(1,2) s by simp
qed (simp add: same_elsewhere_def)

lemma heap_unmap_all:
  assumes "heap_inv h" "distinct ks" "\<forall>k \<in> set ks. k < length (hp_pages h) \<and> hp_pages h ! k \<noteq> 0"
  shows "\<exists>h'. for_each heap_unmap ks h = Inr h' \<and> heap_inv h' \<and> same_elsewhere (set ks) h h' \<and>
    (\<forall>k \<in> set ks. hp_pages h' ! k = 0 \<and> (\<forall>x. same_page (heap_page k) x \<longrightarrow> mmu (hp_vm h') (hp_space h) x = None)) \<and>
    (\<forall>f. ph_used (vm_phys (hp_vm h')) f \<longleftrightarrow> ph_used (vm_phys (hp_vm h)) f \<and> f \<notin> (\<lambda>k. frame (hp_pages h ! k)) ` set ks)"
  using assms
proof (induction ks arbitrary: h)
  case (Cons k ks)
  have k: "k < length (hp_pages h)" "hp_pages h ! k \<noteq> 0" using Cons.prems(3) by simp_all
  obtain h1 where h1: "heap_unmap h k = Inr h1" "heap_inv h1" "hp_pages h1 = (hp_pages h)[k := 0]" "hp_space h1 = hp_space h"
    "\<forall>x. mmu (hp_vm h1) (hp_space h) x = (if same_page (heap_page k) x then None else mmu (hp_vm h) (hp_space h) x)"
    "\<forall>f. ph_used (vm_phys (hp_vm h1)) f \<longleftrightarrow> ph_used (vm_phys (hp_vm h)) f \<and> f \<noteq> frame (hp_pages h ! k)"
    using heap_unmap_ok [OF Cons.prems(1) k] by blast
  have o: "hp_pages h1 ! j = hp_pages h ! j" if "j \<in> set ks" for j using that Cons.prems(2) h1(3) by (metis distinct.simps(2) nth_list_update_neq)
  then have "\<forall>j \<in> set ks. j < length (hp_pages h1) \<and> hp_pages h1 ! j \<noteq> 0" using Cons.prems(3) h1(3) by simp
  then obtain h2 where h2: "for_each heap_unmap ks h1 = Inr h2" "heap_inv h2" "same_elsewhere (set ks) h1 h2"
    "\<forall>j \<in> set ks. hp_pages h2 ! j = 0 \<and> (\<forall>x. same_page (heap_page j) x \<longrightarrow> mmu (hp_vm h2) (hp_space h) x = None)"
    "\<forall>f. ph_used (vm_phys (hp_vm h2)) f \<longleftrightarrow> ph_used (vm_phys (hp_vm h1)) f \<and> f \<notin> (\<lambda>k. frame (hp_pages h1 ! k)) ` set ks"
    using Cons.IH [OF h1(2)] Cons.prems(2) h1(4) by auto
  have "same_elsewhere {k} h h1" using h1(3,4,5) by (simp add: same_elsewhere_def)
  then have s: "same_elsewhere (set (k # ks)) h h2" using same_elsewhere_trans h2(3) by simp
  have k2: "hp_pages h2 ! k = 0" using h2(3) Cons.prems(2) k(1) h1(3) by (simp add: same_elsewhere_def)
  have "mmu (hp_vm h2) (hp_space h) x = None" if "same_page (heap_page k) x" for x
    using that h1(4,5) h2(3,4) by (cases "\<exists>j \<in> set ks. same_page (heap_page j) x") (auto simp: same_elsewhere_def)
  then have "\<forall>j \<in> set (k # ks). hp_pages h2 ! j = 0 \<and> (\<forall>x. same_page (heap_page j) x \<longrightarrow> mmu (hp_vm h2) (hp_space h) x = None)"
    using k2 h2(4) by simp
  moreover have "\<forall>f. ph_used (vm_phys (hp_vm h2)) f \<longleftrightarrow> ph_used (vm_phys (hp_vm h)) f \<and> f \<notin> (\<lambda>k. frame (hp_pages h ! k)) ` set (k # ks)"
    using h2(5) h1(6) o by auto
  ultimately show ?case using h1(1) h2(1,2) s by simp
qed (simp add: same_elsewhere_def)

section \<open>First fit\<close>

definition heap_run :: "heap \<Rightarrow> nat \<Rightarrow> nat \<Rightarrow> bool" where
  "heap_run h sz s \<longleftrightarrow> s + sz \<le> length (hp_pages h) \<and> (\<forall>j < sz. hp_pages h ! (s + j) = 0)"

definition scan_result :: "heap \<Rightarrow> nat \<Rightarrow> (u64 \<times> heap) res" where
  "scan_result h sz =
     (if \<exists>s. heap_run h sz s
      then let s = (LEAST s. heap_run h sz s) in
           bind_res (for_each (\<lambda>h y. heap_map h (s + (sz - 1) - y)) [0..<sz] h) (\<lambda>h. Inr (heap_page s, h))
      else Inr (0, h))"

lemma alloc_scan_first:
  assumes "count < sz" "count \<le> i" "i \<le> length (hp_pages h)" "\<forall>j. i - count \<le> j \<and> j < i \<longrightarrow> hp_pages h ! j = 0"
    "\<forall>s. heap_run h sz s \<longrightarrow> i - count \<le> s"
  shows "alloc_scan h sz i count = scan_result h sz"
  using assms
proof (induction h sz i count rule: alloc_scan.induct)
  case (1 h sz i count)
  show ?case
  proof (cases "i < length (hp_pages h)")
    case False
    then have "\<not> heap_run h sz s" for s using 1(3-7) by (fastforce simp: heap_run_def)
    then show ?thesis using False by (simp add: alloc_scan.simps scan_result_def)
  next
    case i: True
    show ?thesis
    proof (cases "hp_pages h ! i = 0")
      case nz: False
      have r1: "i + 1 \<le> s" if r: "heap_run h sz s" for s
      proof (rule ccontr)
        assume "\<not> i + 1 \<le> s"
        then have "i - s < sz" "s + (i - s) = i" using 1(3,4,7) r by auto
        then show False using r nz unfolding heap_run_def by metis
      qed
      have "alloc_scan h sz (i + 1) 0 = scan_result h sz" by (rule 1(2) [OF i nz]) (use 1(3) i r1 in auto)
      then show ?thesis using i nz by (subst alloc_scan.simps) simp
    next
      case z: True
      then have r: "\<forall>j. i - count \<le> j \<and> j < i + 1 \<longrightarrow> hp_pages h ! j = 0" using 1(6) by (metis less_SucE Suc_eq_plus1)
      show ?thesis
      proof (cases "count + 1 = sz")
        case True
        have "hp_pages h ! (i - count + j) = 0" if "j < sz" for j using that True 1(4) by (intro r [rule_format]) auto
        then have "heap_run h sz (i - count)" using True 1(4) i by (simp add: heap_run_def)
        moreover from this have "(LEAST s. heap_run h sz s) = i - count" using 1(7) by (intro Least_equality) auto
        moreover have "i - count + (sz - 1) = i" "i - (sz - 1) = i - count" using True 1(4) by auto
        ultimately show ?thesis using True i z by (subst alloc_scan.simps) (auto simp: scan_result_def Let_def)
      next
        case False
        have "alloc_scan h sz (i + 1) (count + 1) = scan_result h sz" using 1(1) [OF i z False] 1(3,4,7) False i r by simp
        then show ?thesis using False i z by (subst alloc_scan.simps) simp
      qed
    qed
  qed
qed

lemma for_each_map: "for_each (\<lambda>s x. f s (g x)) xs s = for_each f (map g xs) s"
  by (induction xs arbitrary: s) simp_all

lemma run_places:
  "distinct (map (\<lambda>y. s + (sz - 1) - y) [0..<sz])" "set (map (\<lambda>y. s + (sz - 1) - y) [0..<sz]) = {s..<s + sz}"
proof -
  show "distinct (map (\<lambda>y. s + (sz - 1) - y) [0..<sz])" by (auto simp: distinct_map inj_on_def)
  have "k \<in> (\<lambda>y. s + (sz - 1) - y) ` {0..<sz}" if "k \<in> {s..<s + sz}" for k
    using that by (intro image_eqI [of _ _ "s + (sz - 1) - k"]) auto
  then show "set (map (\<lambda>y. s + (sz - 1) - y) [0..<sz]) = {s..<s + sz}" by auto
qed

text \<open>The pages of a run are unmapped before an allocation, and after it mapped writable to frames that were free.\<close>

definition fresh_page :: "heap \<Rightarrow> heap \<Rightarrow> nat \<Rightarrow> bool" where
  "fresh_page h h' k \<longleftrightarrow> mmu (hp_vm h) (hp_space h) (heap_page k) = None \<and>
     (\<exists>a. mmu (hp_vm h') (hp_space h) (heap_page k) = Some (a OR 3) \<and> unat a = frame a * 4096 \<and>
        \<not> ph_used (vm_phys (hp_vm h)) (frame a) \<and> ph_used (vm_phys (hp_vm h')) (frame a))"

lemma liballoc_alloc_ok:
  assumes inv: "heap_inv h" and sz: "0 < sz" and n: "4 * sz \<le> free_frames (vm_phys (hp_vm h))" and ex: "\<exists>s. heap_run h sz s"
  defines "s \<equiv> LEAST s. heap_run h sz s"
  shows "\<exists>h'. liballoc_alloc h sz = Inr (heap_page s, h') \<and> heap_inv h' \<and> same_elsewhere {s..<s + sz} h h' \<and>
    (\<forall>k \<in> {s..<s + sz}. hp_pages h' ! k \<noteq> 0 \<and> fresh_page h h' k) \<and> heap_run h sz s"
proof -
  let ?ks = "map (\<lambda>y. s + (sz - 1) - y) [0..<sz]"
  have r: "heap_run h sz s" unfolding s_def by (rule LeastI_ex [OF ex])
  have z: "k < length (hp_pages h) \<and> hp_pages h ! k = 0" if "k \<in> {s..<s + sz}" for k
  proof -
    have "k - s < sz" "s + (k - s) = k" "k < s + sz" using that by auto
    then show ?thesis using r unfolding heap_run_def by (metis order_less_le_trans)
  qed
  have n': "4 * length ?ks + 0 \<le> free_frames (vm_phys (hp_vm h))" using n by simp
  obtain h' where h': "for_each heap_map ?ks h = Inr h'" "heap_inv h'" "same_elsewhere (set ?ks) h h'"
    "\<forall>k \<in> set ?ks. hp_pages h' ! k \<noteq> 0 \<and> \<not> ph_used (vm_phys (hp_vm h)) (frame (hp_pages h' ! k))"
    using heap_map_all [OF inv run_places(1) _ n'] z unfolding run_places(2) by blast
  have "liballoc_alloc h sz = scan_result h sz" unfolding liballoc_alloc_def by (rule alloc_scan_first) (use sz in auto)
  then have "liballoc_alloc h sz = Inr (heap_page s, h')"
    using h'(1) ex unfolding scan_result_def s_def [symmetric] Let_def for_each_map [of heap_map "\<lambda>y. s + (sz - 1) - y"] by simp
  moreover have "fresh_page h h' k" if k: "k \<in> {s..<s + sz}" for k
  proof -
    have "k < length (hp_pages h')" using z [OF k] h'(3) by (simp add: same_elsewhere_def)
    then have "place_ok (hp_vm h') (hp_space h) k (hp_pages h' ! k)" using heap_invD(5) [OF h'(2)] h'(3) by (simp add: same_elsewhere_def)
    moreover have "place_ok (hp_vm h) (hp_space h) k 0" using heap_invD(5) [OF inv, of k] z [OF k] by simp
    moreover have "hp_pages h' ! k \<noteq> 0 \<and> \<not> ph_used (vm_phys (hp_vm h)) (frame (hp_pages h' ! k))"
      using h'(4) k unfolding run_places(2) by blast
    ultimately show ?thesis unfolding fresh_page_def place_ok_def by auto
  qed
  ultimately show ?thesis using h'(2-4) r unfolding run_places(2) by blast
qed

lemma liballoc_free_ok:
  assumes inv: "heap_inv h'" and s: "s + sz \<le> physicalPagesSize" and z: "\<forall>k \<in> {s..<s + sz}. hp_pages h' ! k \<noteq> 0 \<and> k < length (hp_pages h')"
  shows "\<exists>h2. liballoc_free h' (heap_page s) sz = Inr h2 \<and> heap_inv h2 \<and> same_elsewhere {s..<s + sz} h' h2 \<and>
    (\<forall>k \<in> {s..<s + sz}. hp_pages h2 ! k = 0 \<and> (\<forall>x. same_page (heap_page k) x \<longrightarrow> mmu (hp_vm h2) (hp_space h') x = None))"
proof -
  have "s < 2 ^ 28" using s by (simp add: physicalPagesSize_def)
  then have "unat (heap_page s - heapAddress) div 4096 = s" using page_address(2) by (simp del: of_nat_mult)
  moreover have "set [s..<sz + s] = {s..<s + sz}" by auto
  ultimately show ?thesis using heap_unmap_all [OF inv, of "[s..<sz + s]"] z unfolding liballoc_free_def Let_def
    by (simp del: of_nat_mult set_upt) blast
qed

text \<open>
  \<open>C13\<close> \<open>liballoc_alloc\<close> returns the first run of unused heap pages that is long enough, null when there is none.
  The pages of the run, which were not mapped, are mapped writable to frames that were free, every other
  translation stays, and \<open>liballoc_free\<close> of the run brings the array and every translation back to what
  they were; the invariant of the heap holds throughout.
\<close>

theorem heap_alloc_free:
  assumes "heap_inv h" "0 < sz" "4 * sz \<le> free_frames (vm_phys (hp_vm h))" "s = (LEAST s. heap_run h sz s)"
  shows "if \<exists>s. heap_run h sz s
    then \<exists>h1 h2. liballoc_alloc h sz = Inr (heap_page s, h1) \<and> heap_inv h1 \<and> same_elsewhere {s..<s + sz} h h1 \<and>
      (\<forall>k \<in> {s..<s + sz}. fresh_page h h1 k) \<and> liballoc_free h1 (heap_page s) sz = Inr h2 \<and> heap_inv h2 \<and>
      hp_pages h2 = hp_pages h \<and> (\<forall>x. mmu (hp_vm h2) (hp_space h) x = mmu (hp_vm h) (hp_space h) x)
    else liballoc_alloc h sz = Inr (0, h)"
proof (cases "\<exists>s. heap_run h sz s")
  case True
  obtain h1 where h1: "liballoc_alloc h sz = Inr (heap_page s, h1)" "heap_inv h1" "same_elsewhere {s..<s + sz} h h1"
    "\<forall>k \<in> {s..<s + sz}. hp_pages h1 ! k \<noteq> 0 \<and> fresh_page h h1 k" "heap_run h sz s"
    using liballoc_alloc_ok [OF assms(1-3) True] unfolding assms(4) by blast
  have len: "s + sz \<le> length (hp_pages h)" "length (hp_pages h1) = length (hp_pages h)" "hp_space h1 = hp_space h"
    using h1(3,5) by (simp_all add: heap_run_def same_elsewhere_def)
  have "s + sz \<le> physicalPagesSize" "\<forall>k \<in> {s..<s + sz}. hp_pages h1 ! k \<noteq> 0 \<and> k < length (hp_pages h1)"
    using len h1(4) heap_invD(3) [OF assms(1)] by auto
  from liballoc_free_ok [OF h1(2) this] obtain h2 where h2: "liballoc_free h1 (heap_page s) sz = Inr h2" "heap_inv h2"
    "same_elsewhere {s..<s + sz} h1 h2"
    "\<forall>k \<in> {s..<s + sz}. hp_pages h2 ! k = 0 \<and> (\<forall>x. same_page (heap_page k) x \<longrightarrow> mmu (hp_vm h2) (hp_space h) x = None)"
    using len(3) by auto
  have z: "hp_pages h ! k = 0" if "k \<in> {s..<s + sz}" for k
  proof -
    have "k - s < sz" "s + (k - s) = k" using that by auto
    then show ?thesis using h1(5) unfolding heap_run_def by metis
  qed
  have "hp_pages h2 = hp_pages h"
    using h1(3) h2(3,4) z len by (intro nth_equalityI) (auto simp: same_elsewhere_def)
  moreover have "mmu (hp_vm h2) (hp_space h) x = mmu (hp_vm h) (hp_space h) x" for x
  proof (cases "\<exists>k \<in> {s..<s + sz}. same_page (heap_page k) x")
    case True
    then obtain k where k: "k \<in> {s..<s + sz}" "same_page (heap_page k) x" by blast
    then have "mmu (hp_vm h) (hp_space h) (heap_page k) = None" using h1(4) by (simp add: fresh_page_def)
    then have "mmu (hp_vm h) (hp_space h) x = None" by (simp only: mmu_same_page [OF k(2)])
    then show ?thesis using k h2(4) by simp
  qed (use h1(3) h2(3) len(3) in \<open>auto simp: same_elsewhere_def\<close>)
  ultimately show ?thesis using True h1(1-4) h2(1,2) by auto
next
  case False
  have "liballoc_alloc h sz = scan_result h sz" unfolding liballoc_alloc_def by (rule alloc_scan_first) (use assms(2) in auto)
  then show ?thesis using False by (simp add: scan_result_def)
qed

definition sample_heap :: heap where
  "sample_heap = \<lparr>hp_pages = replicate 3 0, hp_vm = sample_vm, hp_space = sample_space\<rparr>"

theorem heap_alloc_free_witness:
  "\<exists>h1 h2. liballoc_alloc sample_heap 1 = Inr (0xFFFFFFFF00000000, h1) \<and> fresh_page sample_heap h1 0 \<and>
    liballoc_free h1 0xFFFFFFFF00000000 1 = Inr h2 \<and> hp_pages h2 = replicate 3 0"
proof -
  have "heap_inv sample_heap"
    using sample_vm_facts by (auto simp: heap_inv_def place_ok_def sample_heap_def physicalPagesSize_def sample_vm_def sample_phys_used)
  moreover have "4 * 1 \<le> free_frames (vm_phys (hp_vm sample_heap))" by (simp add: sample_heap_def sample_vm_facts)
  moreover have r: "heap_run sample_heap 1 0" by (simp add: heap_run_def sample_heap_def)
  moreover have "0 = (LEAST s. heap_run sample_heap 1 s)" using r by (intro Least_equality [symmetric]) auto
  ultimately obtain h1 h2 where "liballoc_alloc sample_heap 1 = Inr (heap_page 0, h1)" "\<forall>k \<in> {0..<0 + 1}. fresh_page sample_heap h1 k"
    "liballoc_free h1 (heap_page 0) 1 = Inr h2" "hp_pages h2 = hp_pages sample_heap"
    using heap_alloc_free [of sample_heap 1 0] by (auto split: if_splits)
  moreover have "hp_pages sample_heap = replicate 3 0" by (simp add: sample_heap_def)
  ultimately show ?thesis by (simp add: heapAddress_def)
qed

section \<open>The heap as a provider of pages\<close>

text \<open>
  What the allocator above relies on: runs of pages are handed out and taken back whole. \<open>own\<close> is the set of
  the pages that are handed out, \<open>frames\<close> the number of free frames behind them.
\<close>

locale page_heap =
  fixes inv :: "'h \<Rightarrow> bool" and own :: "'h \<Rightarrow> nat set" and cap :: "'h \<Rightarrow> nat" and frames :: "'h \<Rightarrow> nat"
    and mapped :: "'h \<Rightarrow> u64 \<Rightarrow> bool" and alloc :: "'h \<Rightarrow> nat \<Rightarrow> (u64 \<times> 'h) res" and release :: "'h \<Rightarrow> u64 \<Rightarrow> nat \<Rightarrow> 'h res"
  assumes own_cap: "inv h \<Longrightarrow> own h \<subseteq> {..<cap h} \<and> cap h \<le> physicalPagesSize"
    and mapped_own: "inv h \<Longrightarrow> i < cap h \<Longrightarrow> same_page (heap_page i) x \<Longrightarrow> mapped h x \<longleftrightarrow> i \<in> own h"
    and alloc_ok: "inv h \<Longrightarrow> 0 < n \<Longrightarrow> 4 * n \<le> frames h \<Longrightarrow> s + n \<le> cap h \<Longrightarrow> {s..<s + n} \<inter> own h = {} \<Longrightarrow>
      \<exists>k h'. alloc h n = Inr (heap_page k, h') \<and> k + n \<le> cap h \<and> {k..<k + n} \<inter> own h = {} \<and> inv h' \<and>
        own h' = own h \<union> {k..<k + n} \<and> cap h' = cap h"
    and alloc_null: "inv h \<Longrightarrow> 0 < n \<Longrightarrow> \<nexists>s. s + n \<le> cap h \<and> {s..<s + n} \<inter> own h = {} \<Longrightarrow> alloc h n = Inr (0, h)"
    and release_ok: "inv h \<Longrightarrow> {s..<s + n} \<subseteq> own h \<Longrightarrow>
      \<exists>h'. release h (heap_page s) n = Inr h' \<and> inv h' \<and> own h' = own h - {s..<s + n} \<and> cap h' = cap h"
begin

text \<open>A client that holds runs of pages, none of them empty and no two overlapping.\<close>

definition holds :: "'h \<Rightarrow> (nat \<times> nat) list \<Rightarrow> bool" where
  "holds h rs \<longleftrightarrow> (\<forall>(k, n) \<in> set rs. 0 < n \<and> {k..<k + n} \<subseteq> own h) \<and> sorted_wrt (\<lambda>(k, n) (j, m). k + n \<le> j \<or> j + m \<le> k) rs"

lemma holdsD: "holds h rs \<Longrightarrow> (k, n) \<in> set rs \<Longrightarrow> 0 < n \<and> {k..<k + n} \<subseteq> own h"
  unfolding holds_def by (drule conjunct1, drule bspec, assumption, simp)

lemma apart_runs:
  assumes "0 < n" "0 < m" "{k..<k + n} \<inter> {j..<j + m} = {}"
  shows "k + n \<le> j \<or> j + m \<le> (k :: nat)"
proof (rule ccontr)
  assume "\<not> ?thesis"
  then have "max k j \<in> {k..<k + n} \<inter> {j..<j + m}" using assms(1,2) by auto
  then show False using assms(3) by blast
qed

lemma alloc_holds:
  assumes "inv h" "holds h rs" "0 < n" "\<exists>s. s + n \<le> cap h \<and> {s..<s + n} \<inter> own h = {} \<Longrightarrow> 4 * n \<le> frames h"
  shows "\<exists>a h'. alloc h n = Inr (a, h') \<and> inv h' \<and> cap h' = cap h \<and>
    (if a = 0 then h' = h \<and> (\<nexists>s. s + n \<le> cap h \<and> {s..<s + n} \<inter> own h = {})
     else \<exists>k. a = heap_page k \<and> k + n \<le> cap h \<and> holds h' (rs @ [(k, n)]))"
proof (cases "\<exists>s. s + n \<le> cap h \<and> {s..<s + n} \<inter> own h = {}")
  case False
  then show ?thesis using alloc_null [OF assms(1,3)] assms(1) by auto
next
  case True
  then obtain k h' where k: "alloc h n = Inr (heap_page k, h')" "k + n \<le> cap h" "{k..<k + n} \<inter> own h = {}" "inv h'"
    "own h' = own h \<union> {k..<k + n}" "cap h' = cap h" using alloc_ok [OF assms(1,3) assms(4) [OF True]] by blast
  have "k < physicalPagesSize" using own_cap [OF assms(1)] k(2) assms(3) by linarith
  then have "heap_page k \<noteq> 0" using heap_page_unat [of k] by (metis add_is_0 unat_0 zero_neq_numeral)
  moreover have "holds h' (rs @ [(k, n)])"
  proof -
    have "j + m \<le> k \<or> k + n \<le> j" if "(j, m) \<in> set rs" for j m
      using apart_runs [of n m k j] k(3) that assms(2,3) unfolding holds_def by fast
    then show ?thesis using assms(2,3) k(5) unfolding holds_def by (auto simp: sorted_wrt_append)
  qed
  ultimately show ?thesis using k(1,2,4,6) by auto
qed

lemma release_holds:
  assumes "inv h" "holds h (xs @ (k, n) # ys)"
  shows "\<exists>h'. release h (heap_page k) n = Inr h' \<and> inv h' \<and> holds h' (xs @ ys) \<and> {k..<k + n} \<inter> own h' = {} \<and> cap h' = cap h"
proof -
  have "{k..<k + n} \<subseteq> own h" using holdsD [OF assms(2), of k n] by simp
  then obtain h' where h': "release h (heap_page k) n = Inr h'" "inv h'" "own h' = own h - {k..<k + n}" "cap h' = cap h"
    using release_ok [OF assms(1)] by blast
  have o: "0 < m \<and> {j..<j + m} \<subseteq> own h'" if "(j, m) \<in> set (xs @ ys)" for j m
  proof -
    have "0 < m \<and> {j..<j + m} \<subseteq> own h" using that holdsD [OF assms(2), of j m] by simp
    moreover have "(j, m) \<in> set xs \<or> (j, m) \<in> set ys" using that by simp
    then have "j + m \<le> k \<or> k + n \<le> j" using assms(2) unfolding holds_def sorted_wrt_append
      by (elim disjE conjE) (fastforce dest: bspec)+
    ultimately show ?thesis using h'(3) by auto
  qed
  moreover have "sorted_wrt (\<lambda>(k, n) (j, m). k + n \<le> j \<or> j + m \<le> k) (xs @ ys)"
    using assms(2) unfolding holds_def by (simp add: sorted_wrt_append)
  ultimately have "holds h' (xs @ ys)" unfolding holds_def by blast
  then show ?thesis using h' by auto
qed

lemma holds_mapped:
  assumes "inv h" "holds h rs" "(k, n) \<in> set rs" "j < n" "same_page (heap_page (k + j)) x"
  shows "mapped h x"
proof -
  have "k + j \<in> own h" using holdsD [OF assms(2,3)] assms(4) by auto
  then show ?thesis using mapped_own [OF assms(1) _ assms(5)] own_cap [OF assms(1)] by auto
qed

lemma holds_cap:
  assumes "inv h" "holds h rs" "(k, n) \<in> set rs"
  shows "0 < n" "k + n \<le> cap h" "cap h \<le> physicalPagesSize"
proof -
  have o: "0 < n" "{k..<k + n} \<subseteq> own h" using holdsD [OF assms(2,3)] by simp_all
  then have "k + n - 1 \<in> own h" by auto
  then show "0 < n" "k + n \<le> cap h" "cap h \<le> physicalPagesSize" using o(1) own_cap [OF assms(1)] by auto
qed

end

definition heap_own :: "heap \<Rightarrow> nat set" where
  "heap_own h = {i. i < length (hp_pages h) \<and> hp_pages h ! i \<noteq> 0}"

lemma heap_run_own: "heap_run h n s \<longleftrightarrow> s + n \<le> length (hp_pages h) \<and> {s..<s + n} \<inter> heap_own h = {}"
proof -
  have "(\<forall>j < n. hp_pages h ! (s + j) = 0) \<longleftrightarrow> (\<forall>i \<in> {s..<s + n}. hp_pages h ! i = 0)"
    by (metis add_diff_inverse_nat atLeastLessThan_iff le_add1 nat_add_left_cancel_less not_le)
  then show ?thesis by (auto simp: heap_run_def heap_own_def)
qed

lemma same_elsewhere_own:
  assumes "same_elsewhere {s..<s + n} h h'" "s + n \<le> length (hp_pages h)"
  shows "(\<forall>k \<in> {s..<s + n}. hp_pages h' ! k \<noteq> 0) \<Longrightarrow> heap_own h' = heap_own h \<union> {s..<s + n}"
    "(\<forall>k \<in> {s..<s + n}. hp_pages h' ! k = 0) \<Longrightarrow> heap_own h' = heap_own h - {s..<s + n}"
proof -
  have l: "length (hp_pages h') = length (hp_pages h)"
    and o: "\<And>i. i < length (hp_pages h) \<Longrightarrow> i \<notin> {s..<s + n} \<Longrightarrow> hp_pages h' ! i = hp_pages h ! i"
    using assms(1) unfolding same_elsewhere_def by blast+
  show "heap_own h' = heap_own h \<union> {s..<s + n}" if "\<forall>k \<in> {s..<s + n}. hp_pages h' ! k \<noteq> 0"
    using that o l assms(2) unfolding heap_own_def by auto
  show "heap_own h' = heap_own h - {s..<s + n}" if "\<forall>k \<in> {s..<s + n}. hp_pages h' ! k = 0"
    using that o l assms(2) unfolding heap_own_def by auto
qed

interpretation hp: page_heap heap_inv heap_own "\<lambda>h. length (hp_pages h)" "\<lambda>h. free_frames (vm_phys (hp_vm h))"
    "\<lambda>h x. mmu (hp_vm h) (hp_space h) x \<noteq> None" liballoc_alloc liballoc_free
proof unfold_locales
  fix h :: heap and n s i :: nat and x
  assume inv: "heap_inv h"
  show "heap_own h \<subseteq> {..<length (hp_pages h)} \<and> length (hp_pages h) \<le> physicalPagesSize"
    using heap_invD(3) [OF inv] by (auto simp: heap_own_def)
  show "mmu (hp_vm h) (hp_space h) x \<noteq> None \<longleftrightarrow> i \<in> heap_own h" if "i < length (hp_pages h)" "same_page (heap_page i) x"
    using heap_invD(5) [OF inv that(1)] that(1) mmu_same_page [OF that(2)] by (auto simp: place_ok_def heap_own_def)
  show "\<exists>k h'. liballoc_alloc h n = Inr (heap_page k, h') \<and> k + n \<le> length (hp_pages h) \<and> {k..<k + n} \<inter> heap_own h = {} \<and>
      heap_inv h' \<and> heap_own h' = heap_own h \<union> {k..<k + n} \<and> length (hp_pages h') = length (hp_pages h)"
    if n: "0 < n" "4 * n \<le> free_frames (vm_phys (hp_vm h))" and r: "s + n \<le> length (hp_pages h)" "{s..<s + n} \<inter> heap_own h = {}"
  proof -
    have "\<exists>s. heap_run h n s" using r by (auto simp: heap_run_own)
    then obtain k h' where k: "liballoc_alloc h n = Inr (heap_page k, h')" "heap_inv h'" "same_elsewhere {k..<k + n} h h'"
      "\<forall>j \<in> {k..<k + n}. hp_pages h' ! j \<noteq> 0" "heap_run h n k" using liballoc_alloc_ok [OF inv n] by blast
    have l: "k + n \<le> length (hp_pages h)" "{k..<k + n} \<inter> heap_own h = {}" using k(5) by (simp_all add: heap_run_own)
    have "length (hp_pages h') = length (hp_pages h)" using k(3) by (simp add: same_elsewhere_def)
    then show ?thesis using k(1,2) l same_elsewhere_own(1) [OF k(3) l(1) k(4)] by blast
  qed
  show "liballoc_alloc h n = Inr (0, h)" if "0 < n" "\<nexists>s. s + n \<le> length (hp_pages h) \<and> {s..<s + n} \<inter> heap_own h = {}"
  proof -
    have "liballoc_alloc h n = scan_result h n" unfolding liballoc_alloc_def by (rule alloc_scan_first) (use that(1) in auto)
    then show ?thesis using that(2) by (simp add: scan_result_def heap_run_own)
  qed
  show "\<exists>h'. liballoc_free h (heap_page s) n = Inr h' \<and> heap_inv h' \<and> heap_own h' = heap_own h - {s..<s + n} \<and>
      length (hp_pages h') = length (hp_pages h)" if o: "{s..<s + n} \<subseteq> heap_own h"
  proof (cases "n = 0")
    case True
    then show ?thesis using inv by (simp add: liballoc_free_def Let_def)
  next
    case False
    then have "s + n - 1 \<in> heap_own h" using o by auto
    then have l: "s + n \<le> length (hp_pages h)" by (auto simp: heap_own_def)
    then have "s + n \<le> physicalPagesSize" using heap_invD(3) [OF inv] by simp
    moreover have "\<forall>k \<in> {s..<s + n}. hp_pages h ! k \<noteq> 0 \<and> k < length (hp_pages h)" using o by (auto simp: heap_own_def)
    ultimately obtain h' where h': "liballoc_free h (heap_page s) n = Inr h'" "heap_inv h'" "same_elsewhere {s..<s + n} h h'"
      "\<forall>k \<in> {s..<s + n}. hp_pages h' ! k = 0" using liballoc_free_ok [OF inv] by blast
    then have "length (hp_pages h') = length (hp_pages h)" by (simp add: same_elsewhere_def)
    then show ?thesis using h'(1,2) same_elsewhere_own(2) [OF h'(3) l h'(4)] by blast
  qed
qed

end
