(* ===== verification/Liballoc.thy ===== *)
theory Liballoc
  imports Heap KBytes "HOL-Library.Multiset"
begin

text \<open>
  \<open>kernel/memory/liballoc.c\<close>: \<open>malloc\<close>, \<open>free\<close>, \<open>calloc\<close> and \<open>realloc\<close> of the kernel, over the pages of the heap. The
  doubly linked list of blocks (majors) and those of the allocations in a block (minors) are represented
  by lists in their order; the magic numbers, which \<open>free\<close> also reads from headers that are in no list any
  more, and the bytes of memory are functions of the address. Addresses and sizes are \<open>nat\<close>, with
  the wrap-around of the 32-bit and 64-bit fields written out. The loop of \<open>malloc\<close> may run for ever on
  inconsistent lists and then has no result. The lock of the allocator is not part of the state: each
  operation runs between \<open>liballoc_lock\<close> and \<open>liballoc_unlock\<close>, which the theory of the heap models.
\<close>

section \<open>State\<close>

record minor =
  mi_addr :: nat
  mi_size :: nat
  mi_req_size :: nat

record major =
  mj_addr :: nat
  mj_pages :: nat
  mj_size :: nat
  mj_usage :: nat
  mj_minors :: "minor list"

record liballoc =
  la_majors :: "major list"
  la_bestBet :: nat
  la_allocated :: nat
  la_inuse :: nat
  la_warningCount :: nat
  la_errorCount :: nat
  la_possibleOverruns :: nat
  la_magic :: "nat \<Rightarrow> u32"
  la_mem :: kmem
  la_heap :: heap

definition ALIGNMENT :: nat where "ALIGNMENT = 16"
definition ALIGN_INFO :: nat where "ALIGN_INFO = 16"
definition LIBALLOC_MAGIC :: u32 where "LIBALLOC_MAGIC = 0xC001C0DE"
definition LIBALLOC_DEAD :: u32 where "LIBALLOC_DEAD = 0xDEADDEAD"
definition sizeof_major :: nat where "sizeof_major = 40"
definition sizeof_minor :: nat where "sizeof_minor = 40"
definition l_pageSize :: nat where "l_pageSize = 4096"
definition l_pageCount :: nat where "l_pageCount = 16"

text \<open>Differences of unsigned fields.\<close>

definition sub32 :: "nat \<Rightarrow> nat \<Rightarrow> nat" where "sub32 a b = (a + 2 ^ 32 - b mod 2 ^ 32) mod 2 ^ 32"
definition sub64 :: "nat \<Rightarrow> nat \<Rightarrow> nat" where "sub64 a b = (a + 2 ^ 64 - b mod 2 ^ 64) mod 2 ^ 64"

section \<open>Alignment\<close>

text \<open>The aligned pointer and the distance that is stored \<open>ALIGN_INFO\<close> bytes before it.\<close>

definition align_ptr :: "nat \<Rightarrow> nat \<times> nat" where
  "align_ptr ptr =
     (let ptr = (ptr + ALIGN_INFO) mod 2 ^ 64; diff = ptr mod ALIGNMENT in
      if diff \<noteq> 0 then let diff = ALIGNMENT - diff in ((ptr + diff) mod 2 ^ 64, diff + ALIGN_INFO) else (ptr, ALIGN_INFO))"

text \<open>The byte is a signed \<open>char\<close>; a negative one becomes a huge distance.\<close>

definition unalign_ptr :: "kmem \<Rightarrow> nat \<Rightarrow> nat" where
  "unalign_ptr mem ptr =
     (let diff = unat (scast (mem (of_nat (sub64 ptr ALIGN_INFO))) :: u64) in
      if diff < ALIGNMENT + ALIGN_INFO then sub64 ptr diff else ptr)"

text \<open>Whether bytes of the heap can be read: reading an unmapped page is a fault.\<close>

definition readable :: "heap \<Rightarrow> nat \<Rightarrow> bool" where
  "readable h a \<longleftrightarrow> mmu (hp_vm h) (hp_space h) (of_nat a) \<noteq> None"

text \<open>
  The header that a pointer belongs to, as \<open>free\<close> and \<open>realloc\<close> find it: the byte before the pointer and
  the magic number, at offset 24 of the header, are read.
\<close>

definition header_of :: "liballoc \<Rightarrow> nat \<Rightarrow> nat res" where
  "header_of s ptr =
     (if \<not> readable (la_heap s) (sub64 ptr ALIGN_INFO) then Inl BadAccess
      else let a = sub64 (unalign_ptr (la_mem s) ptr) sizeof_minor in
      if readable (la_heap s) ((a + 24) mod 2 ^ 64) \<and> readable (la_heap s) ((a + 27) mod 2 ^ 64) then Inr a else Inl BadAccess)"

section \<open>Blocks\<close>

definition allocate_new_page :: "liballoc \<Rightarrow> nat \<Rightarrow> (major option \<times> liballoc) res" where
  "allocate_new_page s sz =
     (let st = (sz mod 2 ^ 32 + sizeof_major + sizeof_minor) mod 2 ^ 32;
          st = (if st mod l_pageSize = 0 then st div l_pageSize else st div l_pageSize + 1);
          st = (if st < l_pageCount then l_pageCount else st) in
      bind_res (liballoc_alloc (la_heap s) st) (\<lambda>(a, h).
      let s = s\<lparr>la_heap := h\<rparr> in
      if a = 0 then Inr (None, s\<lparr>la_warningCount := la_warningCount s + 1\<rparr>)
      else let maj = \<lparr>mj_addr = unat a, mj_pages = st, mj_size = st * l_pageSize mod 2 ^ 32, mj_usage = sizeof_major, mj_minors = []\<rparr> in
           Inr (Some maj, s\<lparr>la_allocated := (la_allocated s + mj_size maj) mod 2 ^ 64\<rparr>)))"

text \<open>Case 4: the first gap behind a minor that is large enough, with the position in the list.\<close>

fun find_gap :: "nat \<Rightarrow> nat \<Rightarrow> minor list \<Rightarrow> nat \<Rightarrow> (nat \<times> nat) option" where
  "find_gap blockEnd need [] k = None"
| "find_gap blockEnd need (m # ms) k =
     (let upto = (case ms of [] \<Rightarrow> blockEnd | n # _ \<Rightarrow> mi_addr n);
          diff = sub64 (sub64 (sub64 upto (mi_addr m)) sizeof_minor) (mi_size m) in
      if diff \<ge> need then Some (Suc k, (mi_addr m + sizeof_minor + mi_size m) mod 2 ^ 64)
      else find_gap blockEnd need ms (Suc k))"

text \<open>Cases 2 to 4: the position and the address of a new minor in a block.\<close>

definition find_place :: "major \<Rightarrow> nat \<Rightarrow> (nat \<times> nat) option" where
  "find_place maj sz =
     (let start = (mj_addr maj + sizeof_major) mod 2 ^ 64; need = (sz + sizeof_minor) mod 2 ^ 64 in
      case mj_minors maj of [] \<Rightarrow> Some (0, start)
      | m # ms \<Rightarrow>
          if sub64 (sub64 (mi_addr m) (mj_addr maj)) sizeof_major \<ge> need then Some (0, start)
          else find_gap ((mj_addr maj + mj_size maj) mod 2 ^ 64) need (m # ms) 0)"

text \<open>Entering the minor, and the pointer that \<open>malloc\<close> returns.\<close>

definition enter_minor :: "liballoc \<Rightarrow> nat \<Rightarrow> nat \<times> nat \<Rightarrow> nat \<Rightarrow> nat \<Rightarrow> nat \<times> liballoc" where
  "enter_minor s i place req sz = (case place of (k, a) \<Rightarrow>
     let maj = la_majors s ! i; ms = mj_minors maj;
         min = \<lparr>mi_addr = a, mi_size = sz mod 2 ^ 32, mi_req_size = req mod 2 ^ 32\<rparr>;
         maj = maj\<lparr>mj_minors := take k ms @ [min] @ drop k ms, mj_usage := (mj_usage maj + sz + sizeof_minor) mod 2 ^ 32\<rparr>;
         (p, diff) = align_ptr ((a + sizeof_minor) mod 2 ^ 64) in
     (p, s\<lparr>la_majors := (la_majors s)[i := maj], la_magic := (la_magic s)(a := LIBALLOC_MAGIC),
           la_inuse := (la_inuse s + sz) mod 2 ^ 64, la_mem := (la_mem s)(of_nat (sub64 p ALIGN_INFO) := of_nat diff)\<rparr>))"

section \<open>malloc\<close>

partial_function (option) malloc_loop :: "liballoc \<Rightarrow> nat \<Rightarrow> nat \<Rightarrow> nat \<Rightarrow> bool \<Rightarrow> nat \<Rightarrow> (nat \<times> liballoc) res option" where
  "malloc_loop s req sz bestSize startedBet i =
     (let maj = la_majors s ! i; diff = sub32 (mj_size maj) (mj_usage maj);
          (s, bestSize) = (if bestSize < diff then (s\<lparr>la_bestBet := mj_addr maj\<rparr>, diff) else (s, bestSize)) in
      if diff < (sz + sizeof_minor) mod 2 ^ 64
      then if i + 1 < length (la_majors s) then malloc_loop s req sz bestSize startedBet (i + 1)
           else if startedBet then malloc_loop s req sz bestSize False 0
           else (case allocate_new_page s sz of Inl e \<Rightarrow> Some (Inl e)
                 | Inr (None, s) \<Rightarrow> Some (Inr (0, s))
                 | Inr (Some maj, s) \<Rightarrow>
                     let s = s\<lparr>la_majors := la_majors s @ [maj]\<rparr> in
                     Some (Inr (enter_minor s (i + 1) (0, (mj_addr maj + sizeof_major) mod 2 ^ 64) req sz)))
      else (case find_place maj sz of Some place \<Rightarrow> Some (Inr (enter_minor s i place req sz))
            | None \<Rightarrow>
                if i + 1 < length (la_majors s) then malloc_loop s req sz bestSize startedBet (i + 1)
                else if startedBet then malloc_loop s req sz bestSize False 0
                else (case allocate_new_page s sz of Inl e \<Rightarrow> Some (Inl e)
                      | Inr (None, s) \<Rightarrow> Some (Inr (0, s))
                      | Inr (Some maj, s) \<Rightarrow>
                          malloc_loop (s\<lparr>la_majors := la_majors s @ [maj]\<rparr>) req sz bestSize False (i + 1))))"

text \<open>The position of the block at an address.\<close>

fun major_at :: "major list \<Rightarrow> nat \<Rightarrow> nat option" where
  "major_at [] a = None"
| "major_at (m # ms) a = (if mj_addr m = a then Some 0 else map_option Suc (major_at ms a))"

definition malloc_sized :: "liballoc \<Rightarrow> nat \<Rightarrow> nat \<Rightarrow> (nat \<times> liballoc) res option" where
  "malloc_sized s req sz =
     bind_opt (if la_majors s = []
               then (case allocate_new_page s sz of Inl e \<Rightarrow> Some (Inl e)
                     | Inr (None, s) \<Rightarrow> Some (Inr (False, s))
                     | Inr (Some maj, s) \<Rightarrow> Some (Inr (True, s\<lparr>la_majors := [maj]\<rparr>)))
               else Some (Inr (True, s))) (\<lambda>(ok, s).
     if \<not> ok then Some (Inr (0, s))
     else if la_bestBet s = 0 then malloc_loop s req sz 0 False 0
     else case major_at (la_majors s) (la_bestBet s) of None \<Rightarrow> Some (Inl BadAccess)
          | Some b \<Rightarrow>
              let best = la_majors s ! b; bestSize = sub32 (mj_size best) (mj_usage best) in
              if bestSize > (sz + sizeof_minor) mod 2 ^ 64 then malloc_loop s req sz bestSize True b
              else malloc_loop s req sz bestSize False 0)"

definition kmalloc :: "liballoc \<Rightarrow> nat \<Rightarrow> (nat \<times> liballoc) res option" where
  "kmalloc s req =
     (let sz = (req + ALIGNMENT + ALIGN_INFO) mod 2 ^ 64 in
      if sz = 0 then malloc_sized (s\<lparr>la_warningCount := la_warningCount s + 1\<rparr>) 1 (1 + ALIGNMENT + ALIGN_INFO)
      else malloc_sized s req sz)"

section \<open>free\<close>

text \<open>The position of the minor with a header at an address.\<close>

fun minor_in :: "minor list \<Rightarrow> nat \<Rightarrow> nat option" where
  "minor_in [] a = None"
| "minor_in (m # ms) a = (if mi_addr m = a then Some 0 else map_option Suc (minor_in ms a))"

fun minor_at :: "major list \<Rightarrow> nat \<Rightarrow> (nat \<times> nat) option" where
  "minor_at [] a = None"
| "minor_at (m # ms) a = (case minor_in (mj_minors m) a of Some k \<Rightarrow> Some (0, k) | None \<Rightarrow> map_option (\<lambda>(i, k). (Suc i, k)) (minor_at ms a))"

text \<open>The counts of a header whose magic number is wrong.\<close>

definition bad_magic :: "liballoc \<Rightarrow> u32 \<Rightarrow> liballoc" where
  "bad_magic s magic =
     (let s = s\<lparr>la_errorCount := la_errorCount s + 1\<rparr> in
      if magic AND 0xFFFFFF = LIBALLOC_MAGIC AND 0xFFFFFF \<or> magic AND 0xFFFF = LIBALLOC_MAGIC AND 0xFFFF \<or>
         magic AND 0xFF = LIBALLOC_MAGIC AND 0xFF
      then s\<lparr>la_possibleOverruns := la_possibleOverruns s + 1\<rparr> else s)"

definition drop_nth :: "nat \<Rightarrow> 'a list \<Rightarrow> 'a list" where
  "drop_nth i xs = take i xs @ drop (Suc i) xs"

text \<open>What \<open>free\<close> does with a block that still has minors: it may become the best bet. The two differences are \<open>int\<close>.\<close>

definition better_bet :: "liballoc \<Rightarrow> major \<Rightarrow> liballoc res" where
  "better_bet s maj =
     (if la_bestBet s = 0 then Inr s
      else case major_at (la_majors s) (la_bestBet s) of None \<Rightarrow> Inl BadAccess
           | Some b \<Rightarrow>
               let best = la_majors s ! b;
                   bestSize = sint (of_nat (sub32 (mj_size best) (mj_usage best)) :: 32 word);
                   majSize = sint (of_nat (sub32 (mj_size maj) (mj_usage maj)) :: 32 word) in
               Inr (if majSize > bestSize then s\<lparr>la_bestBet := mj_addr maj\<rparr> else s))"

definition kfree :: "liballoc \<Rightarrow> nat \<Rightarrow> liballoc res" where
  "kfree s ptr =
     (if ptr = 0 then Inr (s\<lparr>la_warningCount := la_warningCount s + 1\<rparr>)
      else bind_res (header_of s ptr) (\<lambda>a.
      if la_magic s a \<noteq> LIBALLOC_MAGIC then Inr (bad_magic s (la_magic s a))
      else case minor_at (la_majors s) a of None \<Rightarrow> Inl BadAccess
      | Some (i, k) \<Rightarrow>
          let maj = la_majors s ! i; min = mj_minors maj ! k;
              maj = maj\<lparr>mj_usage := sub32 (mj_usage maj) (mi_size min + sizeof_minor), mj_minors := drop_nth k (mj_minors maj)\<rparr>;
              s = s\<lparr>la_inuse := sub64 (la_inuse s) (mi_size min), la_magic := (la_magic s)(a := LIBALLOC_DEAD)\<rparr> in
          if mj_minors maj = []
          then bind_res (liballoc_free (la_heap s) (of_nat (mj_addr maj)) (mj_pages maj)) (\<lambda>h.
               Inr (s\<lparr>la_majors := drop_nth i (la_majors s), la_bestBet := (if la_bestBet s = mj_addr maj then 0 else la_bestBet s),
                      la_allocated := sub64 (la_allocated s) (mj_size maj), la_heap := h\<rparr>))
          else better_bet (s\<lparr>la_majors := (la_majors s)[i := maj]\<rparr>) maj))"

section \<open>calloc and realloc\<close>

text \<open>
  Both use the pointer that \<open>malloc\<close> returned without testing it; storing through null is a fault. The
  counter of \<open>liballoc_memset\<close> has 32 bits, so the loop never ends for a size of \<open>2 ^ 32\<close> or more.
  \<open>liballoc_memcpy\<close> copies words of four bytes and then the remaining bytes.
\<close>

definition liballoc_memset :: "kmem \<Rightarrow> nat \<Rightarrow> u8 \<Rightarrow> nat \<Rightarrow> kmem res option" where
  "liballoc_memset mem a c n =
     (if a = 0 \<and> 0 < n then Some (Inl BadAccess)
      else if n \<ge> 2 ^ 32 then None
      else Some (Inr (store_bytes mem (of_nat a) (replicate n c))))"

fun la_memcpy_bytes :: "kmem \<Rightarrow> u64 \<Rightarrow> u64 \<Rightarrow> nat \<Rightarrow> kmem" where
  "la_memcpy_bytes mem a b 0 = mem"
| "la_memcpy_bytes mem a b (Suc n) = la_memcpy_bytes (mem(a := mem b)) (a + 1) (b + 1) n"

fun la_memcpy_words :: "kmem \<Rightarrow> u64 \<Rightarrow> u64 \<Rightarrow> nat \<Rightarrow> kmem" where
  "la_memcpy_words mem a b n =
     (if n \<ge> 4 then la_memcpy_words (store_bytes mem a (bytes_at mem b 4)) (a + 4) (b + 4) (n - 4) else la_memcpy_bytes mem a b n)"

declare la_memcpy_words.simps [simp del]

definition liballoc_memcpy :: "kmem \<Rightarrow> nat \<Rightarrow> nat \<Rightarrow> nat \<Rightarrow> kmem res" where
  "liballoc_memcpy mem a b n = (if a = 0 \<and> 0 < n then Inl BadAccess else Inr (la_memcpy_words mem (of_nat a) (of_nat b) n))"

definition kcalloc :: "liballoc \<Rightarrow> nat \<Rightarrow> nat \<Rightarrow> (nat \<times> liballoc) res option" where
  "kcalloc s nobj sz =
     (let real_size = unat (scast (of_nat (nobj * sz) :: u32) :: u64) in
      bind_opt (kmalloc s real_size) (\<lambda>(p, s).
      bind_opt (liballoc_memset (la_mem s) p 0 real_size) (\<lambda>mem. Some (Inr (p, s\<lparr>la_mem := mem\<rparr>)))))"

text \<open>Writing the requested size into a header.\<close>

definition set_req :: "liballoc \<Rightarrow> nat \<times> nat \<Rightarrow> nat \<Rightarrow> liballoc" where
  "set_req s pos req = (case pos of (i, k) \<Rightarrow>
     let maj = la_majors s ! i; min = mj_minors maj ! k in
     s\<lparr>la_majors := (la_majors s)[i := maj\<lparr>mj_minors := (mj_minors maj)[k := min\<lparr>mi_req_size := req mod 2 ^ 32\<rparr>]\<rparr>]\<rparr>)"

definition krealloc :: "liballoc \<Rightarrow> nat \<Rightarrow> nat \<Rightarrow> (nat \<times> liballoc) res option" where
  "krealloc s p sz =
     (if sz = 0 then bind_opt (Some (kfree s p)) (\<lambda>s. Some (Inr (0, s)))
      else if p = 0 then kmalloc s sz
      else bind_opt (Some (header_of s p)) (\<lambda>a.
      if la_magic s a \<noteq> LIBALLOC_MAGIC then Some (Inr (0, bad_magic s (la_magic s a)))
      else case minor_at (la_majors s) a of None \<Rightarrow> Some (Inl BadAccess)
      | Some (i, k) \<Rightarrow>
          let real_size = mi_req_size (mj_minors (la_majors s ! i) ! k) in
          if real_size \<ge> sz then Some (Inr (p, set_req s (i, k) sz))
          else bind_opt (kmalloc s sz) (\<lambda>(ptr, s).
               bind_opt (Some (liballoc_memcpy (la_mem s) ptr p real_size)) (\<lambda>mem.
               bind_opt (Some (kfree (s\<lparr>la_mem := mem\<rparr>) p)) (\<lambda>s. Some (Inr (ptr, s)))))))"

section \<open>Alignment\<close>

lemma sub_exact: "b \<le> a \<Longrightarrow> a < 2 ^ 64 \<Longrightarrow> sub64 a b = a - b" "b \<le> a \<Longrightarrow> a < 2 ^ 32 \<Longrightarrow> sub32 a b = a - b"
proof -
  have "(a + N - b mod N) mod N = a - b" if "b \<le> a" "a < N" for a b N :: nat
  proof -
    have "(a + N - b mod N) mod N = ((a - b) + N) mod N" using that by (intro arg_cong [where f = "\<lambda>x. x mod N"]) simp
    also have "\<dots> = a - b" using that by (simp only: mod_add_self2) simp
    finally show ?thesis .
  qed
  then show "b \<le> a \<Longrightarrow> a < 2 ^ 64 \<Longrightarrow> sub64 a b = a - b" "b \<le> a \<Longrightarrow> a < 2 ^ 32 \<Longrightarrow> sub32 a b = a - b"
    unfolding sub64_def sub32_def by blast+
qed

text \<open>The pointer that belongs to a header, and the distance that is stored before it.\<close>

definition user_ptr :: "minor \<Rightarrow> nat" where
  "user_ptr m = fst (align_ptr (mi_addr m + sizeof_minor))"

lemma align_ptr_ok:
  assumes "a + 32 < 2 ^ 64"
  obtains d where "align_ptr a = (a + d, d)" "16 \<le> d" "d < 32" "(a + d) mod 16 = 0"
proof (cases "(a + 16) mod 16 = 0")
  case True
  then show ?thesis using assms that [of 16] by (simp add: align_ptr_def Let_def ALIGN_INFO_def ALIGNMENT_def)
next
  case False
  define r where "r = a mod 16"
  have r: "0 < r" "r < 16" using False by (simp_all add: r_def)
  have "(a + (32 - r)) mod 16 = 0"
  proof -
    have "a = a div 16 * 16 + r" unfolding r_def by (simp only: div_mult_mod_eq)
    then have "a + (32 - r) = (a div 16 + 2) * 16" using r by simp
    then show ?thesis by simp
  qed
  moreover have "a + 16 + (16 - r) = a + (32 - r)" "16 - r + 16 = 32 - r" using r by auto
  moreover have "align_ptr a = (a + 16 + (16 - r), 16 - r + 16)"
    using r assms by (simp add: align_ptr_def Let_def ALIGN_INFO_def ALIGNMENT_def r_def [symmetric])
  ultimately show ?thesis using that [of "32 - r"] r by simp
qed

lemma unalign_ptr_ok:
  assumes "mem (of_nat (p - 16)) = of_nat d" "16 \<le> d" "d < 32" "d \<le> p" "p < 2 ^ 64"
  shows "unalign_ptr mem p = p - d"
proof -
  have "(sint (of_nat d :: u8)) = int d"
    using assms(3) by (simp add: signed_of_nat signed_take_bit_int_eq_self_iff)
  then have "(scast (of_nat d :: u8) :: u64) = of_nat d" by (simp add: scast_eq)
  then have "unat (scast (of_nat d :: u8) :: u64) = d" using assms(3) by (simp add: unat_of_nat_u64)
  then show ?thesis using assms by (simp add: unalign_ptr_def Let_def sub_exact ALIGN_INFO_def ALIGNMENT_def)
qed

section \<open>Invariant\<close>

text \<open>The minors of a block lie behind each other between two addresses, each large enough for its request.\<close>

fun minors_ok :: "nat \<Rightarrow> nat \<Rightarrow> minor list \<Rightarrow> bool" where
  "minors_ok lo hi [] \<longleftrightarrow> lo \<le> hi"
| "minors_ok lo hi (m # ms) \<longleftrightarrow>
     lo \<le> mi_addr m \<and> mi_req_size m + ALIGNMENT + ALIGN_INFO \<le> mi_size m \<and> minors_ok (mi_addr m + sizeof_minor + mi_size m) hi ms"

definition heap_base :: nat where "heap_base = 0xFFFFFFFF00000000"

text \<open>The pages of a block.\<close>

definition run_of :: "major \<Rightarrow> nat \<times> nat" where
  "run_of maj = ((mj_addr maj - heap_base) div l_pageSize, mj_pages maj)"

definition major_ok :: "major \<Rightarrow> bool" where
  "major_ok maj \<longleftrightarrow> mj_addr maj = heap_base + fst (run_of maj) * l_pageSize \<and> mj_size maj = mj_pages maj * l_pageSize \<and>
     minors_ok (mj_addr maj + sizeof_major) (mj_addr maj + mj_size maj) (mj_minors maj) \<and>
     mj_usage maj = sizeof_major + sum_list (map (\<lambda>m. mi_size m + sizeof_minor) (mj_minors maj))"

definition allocs :: "liballoc \<Rightarrow> minor list" where
  "allocs s = concat (map mj_minors (la_majors s))"

text \<open>What a header and the byte before the pointer hold.\<close>

definition tagged :: "liballoc \<Rightarrow> minor \<Rightarrow> bool" where
  "tagged s m \<longleftrightarrow> la_magic s (mi_addr m) = LIBALLOC_MAGIC \<and>
     la_mem s (of_nat (user_ptr m - ALIGN_INFO)) = of_nat (user_ptr m - (mi_addr m + sizeof_minor))"

definition la_struct :: "liballoc \<Rightarrow> bool" where
  "la_struct s \<longleftrightarrow> heap_inv (la_heap s) \<and> hp.holds (la_heap s) (map run_of (la_majors s)) \<and>
     (\<forall>maj \<in> set (la_majors s). major_ok maj) \<and> (la_bestBet s = 0 \<or> la_bestBet s \<in> mj_addr ` set (la_majors s))"

definition la_inv :: "liballoc \<Rightarrow> bool" where
  "la_inv s \<longleftrightarrow> la_struct s \<and> (\<forall>m \<in> set (allocs s). tagged s m)"

definition mi_apart :: "minor \<Rightarrow> minor \<Rightarrow> bool" where
  "mi_apart m n \<longleftrightarrow> mi_addr m + sizeof_minor + mi_size m \<le> mi_addr n \<or> mi_addr n + sizeof_minor + mi_size n \<le> mi_addr m"

lemmas liballoc_consts = sizeof_minor_def sizeof_major_def ALIGNMENT_def ALIGN_INFO_def l_pageSize_def l_pageCount_def heap_base_def

lemma major_ok_minors:
  "major_ok maj \<Longrightarrow> minors_ok (mj_addr maj + sizeof_major) (mj_addr maj + mj_size maj) (mj_minors maj)"
  unfolding major_ok_def by blast

lemma minors_ok_le: "minors_ok lo hi ms \<Longrightarrow> lo \<le> hi"
  by (induction ms arbitrary: lo) (fastforce simp: liballoc_consts)+

lemma minors_ok_weaken: "minors_ok lo hi ms \<Longrightarrow> lo' \<le> lo \<Longrightarrow> minors_ok lo' hi ms"
  by (cases ms) auto

lemma minors_ok_append:
  "minors_ok lo hi (xs @ m # ys) \<longleftrightarrow> minors_ok lo (mi_addr m) xs \<and> mi_req_size m + ALIGNMENT + ALIGN_INFO \<le> mi_size m \<and>
     minors_ok (mi_addr m + sizeof_minor + mi_size m) hi ys"
  by (induction xs arbitrary: lo) auto

lemma minors_ok_split: "minors_ok lo mid xs \<Longrightarrow> minors_ok mid hi ys \<Longrightarrow> minors_ok lo hi (xs @ ys)"
  by (induction xs arbitrary: lo) (auto intro: minors_ok_weaken)

lemma minors_ok_in:
  assumes "minors_ok lo hi ms" "m \<in> set ms"
  shows "lo \<le> mi_addr m" "mi_addr m + sizeof_minor + mi_size m \<le> hi" "mi_req_size m + ALIGNMENT + ALIGN_INFO \<le> mi_size m"
  using assms by (auto dest!: split_list simp: minors_ok_append dest: minors_ok_le)

lemma minors_ok_apart: "minors_ok lo hi ms \<Longrightarrow> sorted_wrt mi_apart ms"
  by (induction ms arbitrary: lo) (auto simp: mi_apart_def dest: minors_ok_in(1))

lemma minors_ok_sum: "minors_ok lo hi ms \<Longrightarrow> lo + sum_list (map (\<lambda>m. mi_size m + sizeof_minor) ms) \<le> hi"
  by (induction ms arbitrary: lo) fastforce+

section \<open>Finding a place\<close>

text \<open>A place for a header and \<open>sz\<close> bytes between the minors of a block.\<close>

definition place_fits :: "major \<Rightarrow> nat \<times> nat \<Rightarrow> nat \<Rightarrow> bool" where
  "place_fits maj place sz \<longleftrightarrow> (case place of (k, a) \<Rightarrow>
     minors_ok (mj_addr maj + sizeof_major) a (take k (mj_minors maj)) \<and>
     minors_ok (a + sizeof_minor + sz) (mj_addr maj + mj_size maj) (drop k (mj_minors maj)))"

lemma find_gap_fits:
  assumes "find_gap hi (sz + sizeof_minor) ms k = Some (j, a)" "minors_ok lo hi ms" "hi < 2 ^ 64"
  shows "\<exists>i. j = k + i \<and> minors_ok lo a (take i ms) \<and> minors_ok (a + sizeof_minor + sz) hi (drop i ms)"
  using assms(1,2)
proof (induction ms arbitrary: k lo)
  case (Cons m ms)
  define upto where "upto = (case ms of [] \<Rightarrow> hi | n # _ \<Rightarrow> mi_addr n)"
  have m: "lo \<le> mi_addr m" "mi_req_size m + ALIGNMENT + ALIGN_INFO \<le> mi_size m" "minors_ok (mi_addr m + sizeof_minor + mi_size m) hi ms"
    using Cons.prems(2) by simp_all
  have u: "mi_addr m + sizeof_minor + mi_size m \<le> upto" "upto \<le> hi"
    using m(3) minors_ok_le [OF m(3)] minors_ok_in(2) [OF m(3)] by (auto simp: upto_def split: list.splits) fastforce
  have d: "minors_ok x hi ms" if "x \<le> upto" for x using m(3) that by (auto simp: upto_def split: list.splits)
  have e: "sub64 (sub64 (sub64 upto (mi_addr m)) sizeof_minor) (mi_size m) = upto - mi_addr m - sizeof_minor - mi_size m"
    using u assms(3) by (simp add: sub_exact)
  show ?case
  proof (cases "upto - mi_addr m - sizeof_minor - mi_size m \<ge> sz + sizeof_minor")
    case True
    then have "mi_addr m + sizeof_minor + mi_size m = a \<and> j = k + 1"
      using Cons.prems(1) u assms(3) by (simp add: upto_def [symmetric] e)
    moreover from this have "minors_ok (a + sizeof_minor + sz) hi ms" using True u by (intro d) simp
    ultimately show ?thesis using m by (intro exI [of _ 1]) auto
  next
    case False
    then have "find_gap hi (sz + sizeof_minor) ms (Suc k) = Some (j, a)" using Cons.prems(1) by (simp add: upto_def [symmetric] e)
    then obtain i where "j = Suc k + i" "minors_ok (mi_addr m + sizeof_minor + mi_size m) a (take i ms)"
      "minors_ok (a + sizeof_minor + sz) hi (drop i ms)" using Cons.IH m(3) by blast
    then show ?thesis using m by (intro exI [of _ "Suc i"]) simp
  qed
qed simp

lemma find_place_fits:
  assumes "find_place maj sz = Some place" "major_ok maj" "sizeof_major + sz + sizeof_minor \<le> mj_size maj"
    "mj_addr maj + mj_size maj < 2 ^ 64"
  shows "place_fits maj place sz"
proof (cases "mj_minors maj")
  case Nil
  then show ?thesis using assms by (auto simp: find_place_def place_fits_def Let_def)
next
  case (Cons m ms)
  have ok: "minors_ok (mj_addr maj + sizeof_major) (mj_addr maj + mj_size maj) (m # ms)" using major_ok_minors [OF assms(2)] Cons by simp
  have b: "mi_addr m < 2 ^ 64" using minors_ok_in(2) [OF ok, of m] assms(4) by simp
  have e: "sub64 (sub64 (mi_addr m) (mj_addr maj)) sizeof_major = mi_addr m - mj_addr maj - sizeof_major"
  proof -
    have "mj_addr maj + sizeof_major \<le> mi_addr m" using ok by simp
    then have "mj_addr maj \<le> mi_addr m" "sizeof_major \<le> mi_addr m - mj_addr maj" by simp_all
    then show ?thesis using b by (simp add: sub_exact)
  qed
  have n: "(sz + sizeof_minor) mod 2 ^ 64 = sz + sizeof_minor" "(mj_addr maj + sizeof_major) mod 2 ^ 64 = mj_addr maj + sizeof_major"
    using assms(3,4) by simp_all
  show ?thesis
  proof (cases "sz + sizeof_minor \<le> mi_addr m - mj_addr maj - sizeof_major")
    case True
    then have "place = (0, mj_addr maj + sizeof_major)" using assms(1) Cons unfolding find_place_def Let_def n by (simp add: e)
    then show ?thesis using ok True Cons by (auto simp: place_fits_def)
  next
    case False
    obtain k a where p: "place = (k, a)" by (cases place)
    from False have "find_gap (mj_addr maj + mj_size maj) (sz + sizeof_minor) (m # ms) 0 = Some place"
      using assms(1,4) Cons unfolding find_place_def Let_def n by (simp add: e del: find_gap.simps)
    from find_gap_fits [OF this [unfolded p] ok assms(4)] show ?thesis by (simp add: place_fits_def p Cons)
  qed
qed

section \<open>Blocks\<close>

lemma run_of_simps [simp]: "run_of (maj\<lparr>mj_minors := ms, mj_usage := u\<rparr>) = run_of maj" "run_of (maj\<lparr>mj_usage := u, mj_minors := ms\<rparr>) = run_of maj"
  by (simp_all add: run_of_def)

lemma major_ok_bounds:
  assumes "heap_inv h" "hp.holds h (map run_of ms)" "maj \<in> set ms" "major_ok maj"
  shows "0 < mj_pages maj" "mj_addr maj + mj_size maj < 2 ^ 64" "mj_size maj < 2 ^ 32" "heap_base \<le> mj_addr maj"
proof -
  have i: "(fst (run_of maj), mj_pages maj) \<in> set (map run_of ms)" using assms(3) by (force simp: run_of_def)
  note c = hp.holds_cap [OF assms(1,2) i]
  have "fst (run_of maj) + mj_pages maj \<le> 2 ^ 19" using c(2,3) by (simp add: physicalPagesSize_def)
  then have "fst (run_of maj) * 4096 + mj_pages maj * 4096 \<le> 2 ^ 31" by simp
  then show "0 < mj_pages maj" "mj_addr maj + mj_size maj < 2 ^ 64" "mj_size maj < 2 ^ 32" "heap_base \<le> mj_addr maj"
    using c(1) assms(4) unfolding major_ok_def by (simp_all add: liballoc_consts)
qed

lemma la_structD:
  assumes "la_struct s" "maj \<in> set (la_majors s)"
  shows "major_ok maj" "0 < mj_pages maj" "mj_addr maj + mj_size maj < 2 ^ 64" "mj_size maj < 2 ^ 32" "heap_base \<le> mj_addr maj"
  using assms major_ok_bounds [OF _ _ assms(2)] unfolding la_struct_def by blast+

lemma blocks_apart:
  assumes "\<forall>maj \<in> set ms. major_ok maj" "sorted_wrt (\<lambda>(k, n) (j, m). k + n \<le> j \<or> j + m \<le> k) (map run_of ms)"
  shows "sorted_wrt mi_apart (concat (map mj_minors ms))"
  using assms
proof (induction ms)
  case (Cons b bs)
  have "mi_apart m n" if "m \<in> set (mj_minors b)" "c \<in> set bs" "n \<in> set (mj_minors c)" for m n c
  proof -
    have ok: "major_ok b" "major_ok c" using Cons.prems(1) that(2) by auto
    have "\<forall>x \<in> run_of ` set bs. (\<lambda>(k, n) (j, m). k + n \<le> j \<or> j + m \<le> k) (run_of b) x" using Cons.prems(2) by simp
    then have "fst (run_of b) + mj_pages b \<le> fst (run_of c) \<or> fst (run_of c) + mj_pages c \<le> fst (run_of b)"
      using that(2) by (force simp: run_of_def)
    then have "mj_addr b + mj_size b \<le> mj_addr c \<or> mj_addr c + mj_size c \<le> mj_addr b"
      using ok unfolding major_ok_def by (simp add: liballoc_consts) linarith
    moreover have "mj_addr b \<le> mi_addr m" "mi_addr m + sizeof_minor + mi_size m \<le> mj_addr b + mj_size b"
      using ok(1) that(1) minors_ok_in(1,2) unfolding major_ok_def by (meson add_leD1)+
    moreover have "mj_addr c \<le> mi_addr n" "mi_addr n + sizeof_minor + mi_size n \<le> mj_addr c + mj_size c"
      using ok(2) that(3) minors_ok_in(1,2) unfolding major_ok_def by (meson add_leD1)+
    ultimately show ?thesis unfolding mi_apart_def by linarith
  qed
  moreover have "sorted_wrt mi_apart (mj_minors b)" using Cons.prems(1) minors_ok_apart major_ok_minors by (metis list.set_intros(1))
  ultimately show ?case using Cons by (auto simp: sorted_wrt_append)
qed simp

lemma allocs_apart: "la_struct s \<Longrightarrow> sorted_wrt mi_apart (allocs s)"
  using blocks_apart by (auto simp: la_struct_def allocs_def hp.holds_def)

text \<open>Every allocation has its bytes, behind an aligned pointer, in the mapped pages of a block.\<close>

lemma alloc_bounds:
  assumes "la_struct s" "m \<in> set (allocs s)"
  obtains maj d where "maj \<in> set (la_majors s)" "m \<in> set (mj_minors maj)" "user_ptr m = mi_addr m + sizeof_minor + d"
    "align_ptr (mi_addr m + sizeof_minor) = (user_ptr m, d)" "16 \<le> d" "d < 32" "user_ptr m mod 16 = 0"
    "mj_addr maj + sizeof_major \<le> mi_addr m" "mi_addr m + sizeof_minor + mi_size m \<le> mj_addr maj + mj_size maj"
    "mi_req_size m + 32 \<le> mi_size m"
proof -
  obtain maj where maj: "maj \<in> set (la_majors s)" "m \<in> set (mj_minors maj)" using assms(2) by (auto simp: allocs_def)
  note i = minors_ok_in [OF _ maj(2), of "mj_addr maj + sizeof_major" "mj_addr maj + mj_size maj"]
  have ok: "minors_ok (mj_addr maj + sizeof_major) (mj_addr maj + mj_size maj) (mj_minors maj)"
    by (rule major_ok_minors [OF la_structD(1) [OF assms(1) maj(1)]])
  have "mi_addr m + sizeof_minor + 32 < 2 ^ 64" using i [OF ok] la_structD(3) [OF assms(1) maj(1)] by (simp add: ALIGNMENT_def ALIGN_INFO_def)
  then obtain d where "align_ptr (mi_addr m + sizeof_minor) = (mi_addr m + sizeof_minor + d, d)" "16 \<le> d" "d < 32"
    "(mi_addr m + sizeof_minor + d) mod 16 = 0" by (rule align_ptr_ok)
  then show ?thesis using that [OF maj] i [OF ok] by (simp add: user_ptr_def ALIGNMENT_def ALIGN_INFO_def)
qed

lemma alloc_in_block:
  assumes "la_struct s" "m \<in> set (allocs s)"
  shows "mi_addr m + sizeof_minor + mi_size m < 2 ^ 64"
proof -
  obtain maj where "maj \<in> set (la_majors s)" "mi_addr m + sizeof_minor + mi_size m \<le> mj_addr maj + mj_size maj"
    using alloc_bounds [OF assms] by metis
  then show ?thesis using la_structD(3) [OF assms(1)] by fastforce
qed

section \<open>Entering a minor\<close>

text \<open>What a successful \<open>malloc\<close> adds.\<close>

definition gained :: "liballoc \<Rightarrow> liballoc \<Rightarrow> nat \<Rightarrow> nat \<Rightarrow> bool" where
  "gained s s' p req \<longleftrightarrow> (\<exists>m. mset (allocs s') = add_mset m (mset (allocs s)) \<and> user_ptr m = p \<and> mi_req_size m = req) \<and>
     (\<exists>v. la_mem s' = (la_mem s)(of_nat (p - ALIGN_INFO) := v))"

lemma split_nth: "i < length xs \<Longrightarrow> xs = take i xs @ xs ! i # drop (Suc i) xs"
  by (rule id_take_nth_drop)

lemma fits_major_ok:
  assumes "place_fits maj (k, a) (req + 32)" "major_ok maj" "mj_size maj < 2 ^ 32"
  defines "new \<equiv> \<lparr>mi_addr = a, mi_size = req + 32, mi_req_size = req\<rparr>"
  shows "major_ok (maj\<lparr>mj_minors := take k (mj_minors maj) @ new # drop k (mj_minors maj),
    mj_usage := (mj_usage maj + (req + 32) + sizeof_minor) mod 2 ^ 32\<rparr>)"
proof -
  let ?ms = "take k (mj_minors maj) @ new # drop k (mj_minors maj)"
  have ms: "minors_ok (mj_addr maj + sizeof_major) (mj_addr maj + mj_size maj) ?ms"
    using assms(1) by (simp add: minors_ok_append place_fits_def new_def liballoc_consts add.commute)
  let ?w = "\<lambda>m. mi_size m + sizeof_minor"
  have "sum_list (map ?w (take k (mj_minors maj))) + sum_list (map ?w (drop k (mj_minors maj))) = sum_list (map ?w (mj_minors maj))"
    by (metis append_take_drop_id map_append sum_list_append)
  then have u: "mj_usage maj + (req + 32) + sizeof_minor = sizeof_major + sum_list (map ?w ?ms)"
    using assms(2) unfolding major_ok_def by (simp add: new_def)
  moreover have "sizeof_major + sum_list (map ?w ?ms) < 2 ^ 32" using minors_ok_sum [OF ms] assms(3) by linarith
  ultimately have "(mj_usage maj + (req + 32) + sizeof_minor) mod 2 ^ 32 = sizeof_major + sum_list (map ?w ?ms)" by (metis mod_less)
  then show ?thesis using ms assms(2) unfolding major_ok_def by simp
qed

lemma mset_insert_minor:
  assumes "i < length ms"
  shows "mset (concat (map mj_minors (ms[i := maj\<lparr>mj_minors := take k (mj_minors (ms ! i)) @ m # drop k (mj_minors (ms ! i)), mj_usage := u\<rparr>]))) =
    add_mset m (mset (concat (map mj_minors ms)))" (is "?l = ?r")
proof -
  have t: "mset (take k xs) + mset (drop k xs) = mset xs" for xs :: "minor list" by (metis append_take_drop_id mset_append)
  have "?r = add_mset m (mset (concat (map mj_minors (take i ms))) + mset (mj_minors (ms ! i)) + mset (concat (map mj_minors (drop (Suc i) ms))))"
    by (subst split_nth [OF assms]) (simp add: ac_simps)
  moreover have "?l = add_mset m (mset (concat (map mj_minors (take i ms))) + (mset (take k (mj_minors (ms ! i))) + mset (drop k (mj_minors (ms ! i))))
      + mset (concat (map mj_minors (drop (Suc i) ms))))"
    by (subst upd_conv_take_nth_drop [OF assms]) (simp add: ac_simps)
  ultimately show ?thesis by (simp only: t)
qed

lemma map_update_same: "i < length xs \<Longrightarrow> f x = f (xs ! i) \<Longrightarrow> map f (xs[i := x]) = map f xs"
  by (simp add: map_update) (metis list_update_id nth_map)

lemma apart_all:
  assumes "sorted_wrt mi_apart (xs @ m # ys)" "n \<in> set (xs @ ys)"
  shows "mi_apart n m"
  using assms by (auto simp: sorted_wrt_append mi_apart_def)

text \<open>A change of the memory and the magic numbers inside one allocation leaves the tags of the others.\<close>

lemma tagged_frame:
  assumes "tagged s n" "mi_apart n m" "la_magic s' = (la_magic s)(mi_addr m := v)"
    "\<And>x. la_mem s' x = la_mem s x \<or> x = of_nat (user_ptr m - ALIGN_INFO)"
    "user_ptr m = mi_addr m + sizeof_minor + d" "16 \<le> d" "d < 32" "32 \<le> mi_size m" "mi_addr m + sizeof_minor + mi_size m < 2 ^ 64"
    "user_ptr n = mi_addr n + sizeof_minor + e" "16 \<le> e" "e < 32" "32 \<le> mi_size n" "mi_addr n + sizeof_minor + mi_size n < 2 ^ 64"
  shows "tagged s' n"
proof -
  have a: "mi_addr n \<noteq> mi_addr m" "user_ptr n - 16 \<noteq> user_ptr m - 16" using assms(2,5-14) unfolding mi_apart_def sizeof_minor_def by linarith+
  have b: "user_ptr n - 16 < 2 ^ 64" "user_ptr m - 16 < 2 ^ 64" using assms(5-14) by linarith+
  have "(of_nat (user_ptr n - 16) :: u64) \<noteq> of_nat (user_ptr m - 16)" using a(2) unat_of_nat_u64 [OF b(1)] unat_of_nat_u64 [OF b(2)] by metis
  then show ?thesis using assms(1,3) a(1) assms(4) [of "of_nat (user_ptr n - 16)"] by (auto simp: tagged_def ALIGN_INFO_def)
qed

lemma enter_minor_ok:
  assumes inv: "la_inv s" and i: "i < length (la_majors s)" and f: "place_fits (la_majors s ! i) place (req + 32)" and req: "req < 2 ^ 31"
  obtains p s' where "enter_minor s i place req (req + 32) = (p, s')" "la_inv s'" "gained s s' p req" "la_heap s' = la_heap s"
proof -
  obtain k a where pl: "place = (k, a)" by (cases place)
  define maj where "maj = la_majors s ! i"
  define m where "m = \<lparr>mi_addr = a, mi_size = req + 32, mi_req_size = req\<rparr>"
  define maj' where "maj' = maj\<lparr>mj_minors := take k (mj_minors maj) @ m # drop k (mj_minors maj), mj_usage := (mj_usage maj + (req + 32) + sizeof_minor) mod 2 ^ 32\<rparr>"
  have st: "la_struct s" and ms: "maj \<in> set (la_majors s)" using inv i by (simp_all add: la_inv_def maj_def)
  note mj = la_structD [OF st ms]
  have ok': "major_ok maj'" unfolding maj'_def m_def by (rule fits_major_ok) (use f pl mj in \<open>simp_all add: maj_def [symmetric]\<close>)
  have a: "a + 72 + req < 2 ^ 64" using f mj(3) minors_ok_le unfolding pl place_fits_def maj_def [symmetric] by (force simp: liballoc_consts)
  obtain d where d: "align_ptr (a + sizeof_minor) = (a + sizeof_minor + d, d)" "16 \<le> d" "d < 32"
    by (rule align_ptr_ok [of "a + sizeof_minor"]) (use a in \<open>simp add: sizeof_minor_def\<close>)
  define s' where "s' = s\<lparr>la_majors := (la_majors s)[i := maj'], la_magic := (la_magic s)(a := LIBALLOC_MAGIC),
     la_inuse := (la_inuse s + (req + 32)) mod 2 ^ 64, la_mem := (la_mem s)(of_nat (a + sizeof_minor + d - 16) := of_nat d)\<rparr>"
  have e: "enter_minor s i place req (req + 32) = (user_ptr m, s')"
    using a req d unfolding enter_minor_def pl s'_def maj'_def
    by (simp add: Let_def user_ptr_def m_def maj_def sub_exact liballoc_consts)
  have mi: "mset (allocs s') = add_mset m (mset (allocs s))"
    unfolding allocs_def s'_def maj'_def maj_def by (simp add: mset_insert_minor [OF i])
  have st': "la_struct s'"
  proof -
    have "map run_of (la_majors s') = map run_of (la_majors s)" using map_update_same [OF i, of run_of maj'] by (simp add: s'_def maj'_def maj_def)
    moreover have "map mj_addr (la_majors s') = map mj_addr (la_majors s)" using map_update_same [OF i, of mj_addr maj'] by (simp add: s'_def maj'_def maj_def)
    then have "mj_addr ` set (la_majors s') = mj_addr ` set (la_majors s)" by (metis list.set_map)
    moreover have "set (la_majors s') \<subseteq> insert maj' (set (la_majors s))" by (simp add: s'_def set_update_subset_insert)
    ultimately show ?thesis using st ok' unfolding la_struct_def by (auto simp: s'_def)
  qed
  obtain xs ys where xy: "allocs s' = xs @ m # ys" using mi by (metis mset_eq_setD set_mset_add_mset_insert set_mset_mset insertI1 split_list)
  then have se: "set (xs @ ys) = set (allocs s)" using mi by (metis add_mset_add_mset_same_iff mset.simps(2) mset_append mset_eq_setD union_mset_add_mset_right)
  have pm: "user_ptr m = mi_addr m + sizeof_minor + d" "mi_size m = req + 32" "mi_addr m = a" using d by (simp_all add: user_ptr_def m_def)
  have "tagged s' n" if n: "n \<in> set (allocs s)" for n
  proof -
    have "n \<in> set (allocs s')" using n mi by (metis mset_eq_setD insert_iff set_mset_add_mset_insert set_mset_mset)
    note nb = alloc_in_block [OF st' this]
    from alloc_bounds [OF st' \<open>n \<in> set (allocs s')\<close>] obtain e where b: "user_ptr n = mi_addr n + sizeof_minor + e" "16 \<le> e" "e < 32"
      "mi_req_size n + 32 \<le> mi_size n" by blast
    show ?thesis
    proof (rule tagged_frame [where d = d and e = e])
      show "tagged s n" using inv n by (simp add: la_inv_def)
      show "mi_apart n m" using apart_all [OF allocs_apart [OF st', unfolded xy]] n se by blast
      show "mi_addr n + sizeof_minor + mi_size n < 2 ^ 64" by (rule nb)
    qed (use b d a pm in \<open>auto simp: s'_def liballoc_consts\<close>)
  qed
  moreover have "tagged s' m" using pm by (simp add: tagged_def s'_def ALIGN_INFO_def)
  ultimately have "la_inv s'" using st' xy se by (auto simp: la_inv_def)
  moreover have "la_mem s' = (la_mem s)(of_nat (user_ptr m - ALIGN_INFO) := of_nat d)" by (simp add: s'_def pm ALIGN_INFO_def)
  ultimately show ?thesis using that [OF e] mi by (auto simp: gained_def m_def s'_def)
qed

section \<open>A new block\<close>

text \<open>The number of pages that is requested for an allocation of \<open>sz\<close> bytes.\<close>

definition pages_for :: "nat \<Rightarrow> nat" where
  "pages_for sz = max l_pageCount ((sz + sizeof_major + sizeof_minor + (l_pageSize - 1)) div l_pageSize)"

lemma round_up_pages: "(if n mod 4096 = 0 then n div 4096 else n div 4096 + 1) = (n + 4095) div (4096 :: nat)"
proof -
  define q r where "q = n div 4096" and "r = n mod 4096"
  then have n: "n = q * 4096 + r" "r < 4096" by simp_all
  then show ?thesis by (cases "r = 0") (auto intro!: div_nat_eqI [symmetric])
qed

lemma pages_for_enough: "sz + sizeof_major + sizeof_minor \<le> pages_for sz * l_pageSize"
  by (simp add: pages_for_def liballoc_consts)

lemma pages_for_code:
  "(let st = (if (sz + sizeof_major + sizeof_minor) mod l_pageSize = 0 then (sz + sizeof_major + sizeof_minor) div l_pageSize
              else (sz + sizeof_major + sizeof_minor) div l_pageSize + 1)
    in if st < l_pageCount then l_pageCount else st) = pages_for sz"
  unfolding l_pageSize_def round_up_pages Let_def by (simp add: pages_for_def l_pageSize_def max_def)

text \<open>There are frames for the pages and page tables of a new block, if the heap has room for it at all.\<close>

definition enough_frames :: "heap \<Rightarrow> nat \<Rightarrow> bool" where
  "enough_frames h n \<longleftrightarrow> ((\<exists>k. heap_run h n k) \<longrightarrow> 4 * n \<le> free_frames (vm_phys (hp_vm h)))"

lemma allocs_simps [simp]:
  "allocs (s\<lparr>la_heap := h\<rparr>) = allocs s" "allocs (s\<lparr>la_bestBet := b\<rparr>) = allocs s"
  "allocs (s\<lparr>la_allocated := n\<rparr>) = allocs s" "allocs (s\<lparr>la_warningCount := n\<rparr>) = allocs s"
  by (simp_all add: allocs_def)

lemma allocate_new_page_ok:
  assumes inv: "la_inv s" and sz: "sz < 2 ^ 31 + 32" and fr: "enough_frames (la_heap s) (pages_for sz)"
  shows "(\<exists>s'. allocate_new_page s sz = Inr (None, s') \<and> la_inv s' \<and> allocs s' = allocs s \<and> la_mem s' = la_mem s \<and>
      length (hp_pages (la_heap s')) = length (hp_pages (la_heap s)) \<and> (\<nexists>k. heap_run (la_heap s) (pages_for sz) k)) \<or>
    (\<exists>maj s'. allocate_new_page s sz = Inr (Some maj, s') \<and> la_inv (s'\<lparr>la_majors := la_majors s @ [maj]\<rparr>) \<and>
      la_majors s' = la_majors s \<and> mj_minors maj = [] \<and> mj_usage maj = sizeof_major \<and> sz + sizeof_major + sizeof_minor \<le> mj_size maj \<and>
      la_bestBet s' = la_bestBet s \<and> la_mem s' = la_mem s \<and> length (hp_pages (la_heap s')) = length (hp_pages (la_heap s)))"
proof -
  let ?n = "pages_for sz"
  have st: "la_struct s" and tg: "\<forall>m \<in> set (allocs s). tagged s m" using inv by (simp_all add: la_inv_def)
  have hi: "heap_inv (la_heap s)" and ho: "hp.holds (la_heap s) (map run_of (la_majors s))" using st by (simp_all add: la_struct_def)
  have n0: "0 < ?n" by (simp add: pages_for_def liballoc_consts)
  have "(sz mod 2 ^ 32 + sizeof_major + sizeof_minor) mod 2 ^ 32 = sz + sizeof_major + sizeof_minor" using sz by (simp add: liballoc_consts)
  then have def: "allocate_new_page s sz = bind_res (liballoc_alloc (la_heap s) ?n) (\<lambda>(a, h).
      let s = s\<lparr>la_heap := h\<rparr> in
      if a = 0 then Inr (None, s\<lparr>la_warningCount := la_warningCount s + 1\<rparr>)
      else let maj = \<lparr>mj_addr = unat a, mj_pages = ?n, mj_size = ?n * l_pageSize mod 2 ^ 32, mj_usage = sizeof_major, mj_minors = []\<rparr> in
           Inr (Some maj, s\<lparr>la_allocated := (la_allocated s + mj_size maj) mod 2 ^ 64\<rparr>))"
    unfolding allocate_new_page_def pages_for_code [of sz, symmetric] by (simp only: Let_def)
  obtain a h where a: "liballoc_alloc (la_heap s) ?n = Inr (a, h)" "heap_inv h"
    "length (hp_pages h) = length (hp_pages (la_heap s))"
    "if a = 0 then h = la_heap s \<and> (\<nexists>k. k + ?n \<le> length (hp_pages (la_heap s)) \<and> {k..<k + ?n} \<inter> heap_own (la_heap s) = {})
     else \<exists>k. a = heap_page k \<and> k + ?n \<le> length (hp_pages (la_heap s)) \<and> hp.holds h (map run_of (la_majors s) @ [(k, ?n)])"
    using hp.alloc_holds [OF hi ho n0] fr unfolding enough_frames_def heap_run_own by blast
  show ?thesis
  proof (cases "a = 0")
    case True
    then have "la_inv (s\<lparr>la_warningCount := la_warningCount s + 1\<rparr>)" using a st tg by (auto simp: la_inv_def la_struct_def tagged_def)
    then show ?thesis using True a by (auto simp: def heap_run_own)
  next
    case False
    then obtain k where k: "a = heap_page k" "k + ?n \<le> length (hp_pages (la_heap s))" "hp.holds h (map run_of (la_majors s) @ [(k, ?n)])"
      using a(4) by auto
    have kl: "k + ?n \<le> physicalPagesSize" using k(2) heap_invD(3) [OF hi] by simp
    then have u: "unat a = heap_base + k * l_pageSize" using n0 heap_page_unat [of k] k(1) by (simp add: liballoc_consts)
    have n32: "?n * l_pageSize < 2 ^ 32" using kl by (simp add: physicalPagesSize_def l_pageSize_def)
    define maj where "maj = \<lparr>mj_addr = unat a, mj_pages = ?n, mj_size = ?n * l_pageSize, mj_usage = sizeof_major, mj_minors = []\<rparr>"
    let ?s = "s\<lparr>la_heap := h, la_allocated := (la_allocated s + mj_size maj) mod 2 ^ 64\<rparr>"
    have run: "run_of maj = (k, ?n)" by (simp add: run_of_def maj_def u l_pageSize_def)
    have "allocate_new_page s sz = Inr (Some maj, ?s)" using False a(1) n32 by (simp add: def maj_def Let_def)
    moreover have "major_ok maj"
      unfolding major_ok_def run using u pages_for_enough [of sz] by (simp add: maj_def)
    then have "la_inv (?s\<lparr>la_majors := la_majors s @ [maj]\<rparr>)"
      using st tg a(2) k(3) run by (auto simp: la_inv_def la_struct_def tagged_def allocs_def maj_def)
    moreover have "mj_minors maj = []" "mj_usage maj = sizeof_major" "sz + sizeof_major + sizeof_minor \<le> mj_size maj"
      using pages_for_enough [of sz] by (simp_all add: maj_def)
    ultimately show ?thesis using a(3) by (intro disjI2 exI [of _ maj] exI [of _ ?s]) simp
  qed
qed

section \<open>The loop of malloc\<close>

definition malloc_post :: "liballoc \<Rightarrow> nat \<Rightarrow> (nat \<times> liballoc) res option \<Rightarrow> bool" where
  "malloc_post s req r \<longleftrightarrow> (\<exists>p s'. r = Some (Inr (p, s')) \<and> la_inv s' \<and> length (hp_pages (la_heap s')) = length (hp_pages (la_heap s)) \<and>
     (if p = 0 then allocs s' = allocs s \<and> la_mem s' = la_mem s \<and> (\<nexists>k. heap_run (la_heap s) (pages_for (req + 32)) k) else gained s s' p req))"

definition free_in :: "major \<Rightarrow> nat" where
  "free_in maj = mj_size maj - mj_usage maj"

definition bet :: "liballoc \<Rightarrow> major \<Rightarrow> nat \<Rightarrow> liballoc" where
  "bet s maj n = (if n < free_in maj then s\<lparr>la_bestBet := mj_addr maj\<rparr> else s)"

lemma bet_ok:
  assumes "la_inv s" "maj \<in> set (la_majors s)"
  shows "la_inv (bet s maj n)" "la_majors (bet s maj n) = la_majors s" "la_heap (bet s maj n) = la_heap s" "allocs (bet s maj n) = allocs s"
    "la_mem (bet s maj n) = la_mem s"
  using assms by (auto simp: bet_def la_inv_def la_struct_def tagged_def)

lemma usage_le:
  assumes "major_ok maj"
  shows "sizeof_major \<le> mj_usage maj" "mj_usage maj \<le> mj_size maj"
proof -
  show "sizeof_major \<le> mj_usage maj" using assms by (simp add: major_ok_def)
  show "mj_usage maj \<le> mj_size maj" using minors_ok_sum [OF major_ok_minors [OF assms]] assms unfolding major_ok_def by linarith
qed

lemma user_ptr_nonnull: "la_struct s \<Longrightarrow> m \<in> set (allocs s) \<Longrightarrow> user_ptr m \<noteq> 0"
  by (erule (1) alloc_bounds) simp

lemma malloc_post_enter:
  assumes "la_inv t" "i < length (la_majors t)" "place_fits (la_majors t ! i) place (req + 32)" "req < 2 ^ 31" "allocs t = allocs s" "la_mem t = la_mem s"
    "length (hp_pages (la_heap t)) = length (hp_pages (la_heap s))"
  shows "malloc_post s req (Some (Inr (enter_minor t i place req (req + 32))))"
proof -
  obtain p s' where p: "enter_minor t i place req (req + 32) = (p, s')" "la_inv s'" "gained t s' p req" "la_heap s' = la_heap t"
    using enter_minor_ok [OF assms(1-4)] by blast
  obtain m where m: "mset (allocs s') = add_mset m (mset (allocs t))" "user_ptr m = p" using p(3) by (auto simp: gained_def)
  have "m \<in> set (allocs s')" using m(1) by (metis insertI1 mset_eq_setD set_mset_add_mset_insert set_mset_mset)
  then have "p \<noteq> 0" using user_ptr_nonnull p(2) m(2) by (auto simp: la_inv_def)
  then show ?thesis using p assms(5-7) by (auto simp: malloc_post_def gained_def)
qed

lemma malloc_post_null:
  "la_inv s' \<Longrightarrow> allocs s' = allocs s \<Longrightarrow> la_mem s' = la_mem s \<Longrightarrow> length (hp_pages (la_heap s')) = length (hp_pages (la_heap s)) \<Longrightarrow>
    \<nexists>k. heap_run (la_heap s) (pages_for (req + 32)) k \<Longrightarrow> malloc_post s req (Some (Inr (0, s')))"
  by (simp add: malloc_post_def)

lemma malloc_loop_unfold:
  assumes "la_inv s" "i < length (la_majors s)" "sz < 2 ^ 31 + 32"
  defines "maj \<equiv> la_majors s ! i"
  shows "malloc_loop s req sz bs st i =
    (let t = bet s maj bs; bs = (if bs < free_in maj then free_in maj else bs) in
     if free_in maj < sz + sizeof_minor
     then if i + 1 < length (la_majors s) then malloc_loop t req sz bs st (i + 1)
          else if st then malloc_loop t req sz bs False 0
          else (case allocate_new_page t sz of Inl e \<Rightarrow> Some (Inl e)
                | Inr (None, s) \<Rightarrow> Some (Inr (0, s))
                | Inr (Some maj, s) \<Rightarrow>
                    let s = s\<lparr>la_majors := la_majors s @ [maj]\<rparr> in
                    Some (Inr (enter_minor s (i + 1) (0, (mj_addr maj + sizeof_major) mod 2 ^ 64) req sz)))
     else (case find_place maj sz of Some place \<Rightarrow> Some (Inr (enter_minor t i place req sz))
           | None \<Rightarrow>
               if i + 1 < length (la_majors s) then malloc_loop t req sz bs st (i + 1)
               else if st then malloc_loop t req sz bs False 0
               else (case allocate_new_page t sz of Inl e \<Rightarrow> Some (Inl e)
                     | Inr (None, s) \<Rightarrow> Some (Inr (0, s))
                     | Inr (Some maj, s) \<Rightarrow>
                         malloc_loop (s\<lparr>la_majors := la_majors s @ [maj]\<rparr>) req sz bs False (i + 1))))"
proof -
  have ms: "maj \<in> set (la_majors s)" and st: "la_struct s" using assms(1,2) by (simp_all add: maj_def la_inv_def)
  have d: "sub32 (mj_size maj) (mj_usage maj) = free_in maj"
    using usage_le(2) [OF la_structD(1) [OF st ms]] la_structD(4) [OF st ms] by (simp add: sub_exact free_in_def)
  have n: "(sz + sizeof_minor) mod 2 ^ 64 = sz + sizeof_minor" using assms(3) by (simp add: sizeof_minor_def)
  show ?thesis
    by (subst malloc_loop.simps, fold maj_def, unfold Let_def d n bet_def) (simp add: split: if_splits)
qed

lemma place_found:
  assumes inv: "la_inv s" and i: "i < length (la_majors s)" and req: "req < 2 ^ 31"
    and sp: "\<not> free_in (la_majors s ! i) < req + 32 + sizeof_minor" and f: "find_place (la_majors s ! i) (req + 32) = Some place"
    and al: "allocs s = allocs r" "la_mem s = la_mem r" "length (hp_pages (la_heap s)) = length (hp_pages (la_heap r))"
  shows "malloc_post r req (malloc_loop s req (req + 32) bs st i)"
proof -
  let ?maj = "la_majors s ! i"
  have ms: "?maj \<in> set (la_majors s)" and st: "la_struct s" using inv i by (simp_all add: la_inv_def)
  note mj = la_structD [OF st ms] and b = bet_ok [OF inv ms, of bs]
  have "sizeof_major + (req + 32) + sizeof_minor \<le> mj_size ?maj"
    using sp usage_le [OF mj(1)] unfolding free_in_def by linarith
  then have "place_fits ?maj place (req + 32)" by (rule find_place_fits [OF f mj(1) _ mj(3)])
  then have "malloc_post r req (Some (Inr (enter_minor (bet s ?maj bs) i place req (req + 32))))"
    using b i req al by (intro malloc_post_enter) simp_all
  then show ?thesis using sp f req by (subst malloc_loop_unfold [OF inv i]) (simp_all add: Let_def)
qed

lemma fresh_block_fits:
  assumes "mj_minors maj = []" "mj_usage maj = sizeof_major" "sz + sizeof_major + sizeof_minor \<le> mj_size maj" "mj_addr maj + mj_size maj < 2 ^ 64"
  shows "place_fits maj (0, (mj_addr maj + sizeof_major) mod 2 ^ 64) sz" "find_place maj sz = Some (0, (mj_addr maj + sizeof_major) mod 2 ^ 64)"
    "\<not> free_in maj < sz + sizeof_minor"
  using assms by (simp_all add: place_fits_def find_place_def free_in_def Let_def)

lemma malloc_loop_step:
  assumes inv: "la_inv s" and i: "i < length (la_majors s)" and req: "req < 2 ^ 31"
    and fr: "enough_frames (la_heap s) (pages_for (req + 32))"
  shows "malloc_post s req (malloc_loop s req (req + 32) bs st i) \<or>
    (\<exists>t bs'. la_inv t \<and> la_majors t = la_majors s \<and> la_heap t = la_heap s \<and> la_mem t = la_mem s \<and>
      (i + 1 < length (la_majors s) \<and> malloc_loop s req (req + 32) bs st i = malloc_loop t req (req + 32) bs' st (i + 1) \<or>
       st \<and> malloc_loop s req (req + 32) bs st i = malloc_loop t req (req + 32) bs' False 0))"
proof -
  let ?maj = "la_majors s ! i" and ?sz = "req + 32"
  define t where "t = bet s ?maj bs"
  define bs' where "bs' = (if bs < free_in ?maj then free_in ?maj else bs)"
  have sz: "?sz < 2 ^ 31 + 32" using req by simp
  have ms: "?maj \<in> set (la_majors s)" using i by simp
  note t = bet_ok [OF inv ms, of bs, folded t_def]
  note u = malloc_loop_unfold [OF inv i sz, of req bs st, folded t_def, unfolded Let_def, folded bs'_def]
  consider (found) place where "\<not> free_in ?maj < ?sz + sizeof_minor" "find_place ?maj ?sz = Some place"
    | (go) "free_in ?maj < ?sz + sizeof_minor \<or> find_place ?maj ?sz = None" "i + 1 < length (la_majors s) \<or> st"
    | (block) "free_in ?maj < ?sz + sizeof_minor \<or> find_place ?maj ?sz = None" "i + 1 = length (la_majors s)" "\<not> st"
    using i by fastforce
  then show ?thesis
  proof cases
    case found
    then show ?thesis using place_found [OF inv i req] by blast
  next
    case go
    then have "i + 1 < length (la_majors s) \<and> malloc_loop s req ?sz bs st i = malloc_loop t req ?sz bs' st (i + 1) \<or>
        st \<and> malloc_loop s req ?sz bs st i = malloc_loop t req ?sz bs' False 0"
      by (simp only: u) auto
    then show ?thesis using t by blast
  next
    case block
    have fr': "enough_frames (la_heap t) (pages_for ?sz)" using fr t(3) by simp
    show ?thesis
    proof (intro disjI1, rule disjE [OF allocate_new_page_ok [OF t(1) sz fr']], goal_cases)
      case 1
      then obtain s' where n: "allocate_new_page t ?sz = Inr (None, s')" "la_inv s'" "allocs s' = allocs s" "la_mem s' = la_mem s"
        "length (hp_pages (la_heap s')) = length (hp_pages (la_heap s))" "\<nexists>k. heap_run (la_heap s) (pages_for ?sz) k" unfolding t(3-5) by blast
      have "malloc_loop s req ?sz bs st i = Some (Inr (0, s'))" using block n(1) unfolding u by auto
      then show ?case using malloc_post_null [OF n(2-6)] by simp
    next
      case 2
      then obtain maj s' where new: "allocate_new_page t ?sz = Inr (Some maj, s')" "la_inv (s'\<lparr>la_majors := la_majors s @ [maj]\<rparr>)"
        "la_majors s' = la_majors s" "mj_minors maj = []" "mj_usage maj = sizeof_major" "?sz + sizeof_major + sizeof_minor \<le> mj_size maj"
        "la_mem s' = la_mem s" "length (hp_pages (la_heap s')) = length (hp_pages (la_heap s))" unfolding t(2,3,5) by blast
      let ?s = "s'\<lparr>la_majors := la_majors s @ [maj]\<rparr>"
      have l: "i + 1 < length (la_majors ?s)" "la_majors ?s ! (i + 1) = maj" using block(2) by (simp_all add: nth_append)
      have al: "allocs ?s = allocs s" "la_mem ?s = la_mem s" "length (hp_pages (la_heap ?s)) = length (hp_pages (la_heap s))"
        using new(4,7,8) by (simp_all add: allocs_def)
      have "maj \<in> set (la_majors ?s)" "la_struct ?s" using new(2) by (simp_all add: la_inv_def)
      note f = fresh_block_fits [OF new(4,5,6) la_structD(3) [OF this(2,1)]]
      have "malloc_post s req (Some (Inr (enter_minor ?s (i + 1) (0, (mj_addr maj + sizeof_major) mod 2 ^ 64) req ?sz)))"
        by (rule malloc_post_enter [OF new(2) l(1) _ req al]) (use f(1) l(2) in simp)
      moreover have "malloc_post s req (malloc_loop ?s req ?sz bs' False (i + 1))"
        by (rule place_found [OF new(2) l(1) req]) (use f l al in simp_all)
      ultimately show ?case using block new(1,3) unfolding u by (auto simp: Let_def split: option.splits)
    qed
  qed
qed

lemma malloc_post_cong: "malloc_post t req r \<Longrightarrow> allocs t = allocs s \<Longrightarrow> la_heap t = la_heap s \<Longrightarrow> la_mem t = la_mem s \<Longrightarrow> malloc_post s req r"
  by (simp only: malloc_post_def gained_def)

lemma malloc_loop_ok:
  assumes "la_inv s" "i < length (la_majors s)" "req < 2 ^ 31" "enough_frames (la_heap s) (pages_for (req + 32))"
  shows "malloc_post s req (malloc_loop s req (req + 32) bs st i)"
  using assms
proof (induction "(if st then length (la_majors s) + 1 else 0) + length (la_majors s) - i" arbitrary: s bs st i rule: less_induct)
  case less
  show ?case
  proof (rule disjE [OF malloc_loop_step [OF less.prems, of bs st]], goal_cases)
    case 2
    then obtain t bs' where t: "la_inv t" "la_majors t = la_majors s" "la_heap t = la_heap s" "la_mem t = la_mem s"
      "i + 1 < length (la_majors s) \<and> malloc_loop s req (req + 32) bs st i = malloc_loop t req (req + 32) bs' st (i + 1) \<or>
       st \<and> malloc_loop s req (req + 32) bs st i = malloc_loop t req (req + 32) bs' False 0" by blast
    have al: "allocs t = allocs s" using t(2) by (simp add: allocs_def)
    from t(5) show ?case
    proof (elim disjE conjE)
      assume n: "i + 1 < length (la_majors s)" "malloc_loop s req (req + 32) bs st i = malloc_loop t req (req + 32) bs' st (i + 1)"
      have "malloc_post t req (malloc_loop t req (req + 32) bs' st (i + 1))"
        by (rule less.hyps [OF _ t(1)]) (use t(2,3) n(1) less.prems in auto)
      then show ?thesis using malloc_post_cong [OF _ al t(3,4)] n(2) by simp
    next
      assume n: "st" "malloc_loop s req (req + 32) bs st i = malloc_loop t req (req + 32) bs' False 0"
      have "malloc_post t req (malloc_loop t req (req + 32) bs' False 0)"
        by (rule less.hyps [OF _ t(1)]) (use t(2,3) n(1) less.prems in auto)
      then show ?thesis using malloc_post_cong [OF _ al t(3,4)] n(2) by simp
    qed
  qed simp
qed

lemma major_at_Some: "a \<in> mj_addr ` set ms \<Longrightarrow> \<exists>b. major_at ms a = Some b \<and> b < length ms \<and> mj_addr (ms ! b) = a"
  by (induction ms) auto

lemma kmalloc_ok:
  assumes inv: "la_inv s" and req: "req < 2 ^ 31" and fr: "enough_frames (la_heap s) (pages_for (req + 32))"
  shows "malloc_post s req (kmalloc s req)"
proof -
  have k: "kmalloc s req = malloc_sized s req (req + 32)" using req by (simp add: kmalloc_def liballoc_consts add.commute)
  show ?thesis
  proof (cases "la_majors s = []")
    case False
    then have z: "0 < length (la_majors s)" by simp
    show ?thesis
    proof (cases "la_bestBet s = 0")
      case True
      then show ?thesis using False malloc_loop_ok [OF inv z req fr] by (simp add: k malloc_sized_def)
    next
      case b: False
      then have "la_bestBet s \<in> mj_addr ` set (la_majors s)" using inv by (simp add: la_inv_def la_struct_def)
      then obtain j where "major_at (la_majors s) (la_bestBet s) = Some j" "j < length (la_majors s)" using major_at_Some by blast
      then show ?thesis using False b malloc_loop_ok [OF inv _ req fr] by (auto simp: k malloc_sized_def Let_def)
    qed
  next
    case True
    have b: "la_bestBet s = 0" using inv True by (simp add: la_inv_def la_struct_def)
    have sz: "req + 32 < 2 ^ 31 + 32" using req by simp
    show ?thesis
    proof (rule disjE [OF allocate_new_page_ok [OF inv sz fr]], goal_cases)
      case 1
      then obtain s' where n: "allocate_new_page s (req + 32) = Inr (None, s')" "la_inv s'" "allocs s' = allocs s" "la_mem s' = la_mem s"
        "length (hp_pages (la_heap s')) = length (hp_pages (la_heap s))" "\<nexists>k. heap_run (la_heap s) (pages_for (req + 32)) k" by blast
      have "kmalloc s req = Some (Inr (0, s'))" using True n(1) by (simp add: k malloc_sized_def)
      then show ?case using malloc_post_null [OF n(2-6)] by simp
    next
      case 2
      then obtain maj s' where new: "allocate_new_page s (req + 32) = Inr (Some maj, s')" "la_inv (s'\<lparr>la_majors := [maj]\<rparr>)"
        "mj_minors maj = []" "mj_usage maj = sizeof_major" "req + 32 + sizeof_major + sizeof_minor \<le> mj_size maj"
        "la_bestBet s' = la_bestBet s" "la_mem s' = la_mem s" "length (hp_pages (la_heap s')) = length (hp_pages (la_heap s))" using True by auto
      let ?s = "s'\<lparr>la_majors := [maj]\<rparr>"
      have al: "allocs ?s = allocs s" "la_mem ?s = la_mem s" "length (hp_pages (la_heap ?s)) = length (hp_pages (la_heap s))"
        using new(3,7,8) True by (simp_all add: allocs_def)
      have "maj \<in> set (la_majors ?s)" "la_struct ?s" using new(2) by (simp_all add: la_inv_def)
      note f = fresh_block_fits [OF new(3-5) la_structD(3) [OF this(2,1)]]
      have "malloc_post s req (malloc_loop ?s req (req + 32) 0 False 0)"
        by (rule place_found [OF new(2) _ req]) (use f al in simp_all)
      then show ?case using True new(1,6) b by (simp add: k malloc_sized_def)
    qed
  qed
qed

section \<open>free\<close>

lemma block_page:
  assumes "k < physicalPagesSize" "heap_base + k * l_pageSize \<le> x" "x < heap_base + k * l_pageSize + l_pageSize"
  shows "same_page (heap_page k) (of_nat x)"
proof -
  have k: "k < 2 ^ 19" using assms(1) by (simp add: physicalPagesSize_def)
  then have x: "unat (of_nat x :: u64) = x" using assms(3) by (intro unat_of_nat_u64) (simp add: liballoc_consts)
  have "frame (heap_page k) = heap_base div 4096 + k" unfolding frame_def heap_page_unat [OF assms(1)] by (simp add: heap_base_def)
  moreover have "frame (of_nat x) = heap_base div 4096 + k"
    unfolding frame_def x using assms(2,3) by (intro div_nat_eqI) (simp_all add: liballoc_consts)
  ultimately have "drop_bit 12 (heap_page k) = drop_bit 12 (of_nat x :: u64)" by (simp only: word_unat_eq_iff unat_drop_12)
  then show ?thesis by (simp only: same_page_def)
qed

lemma block_page_of:
  assumes "heap_inv h" "hp.holds h (map run_of ms)" "maj \<in> set ms" "major_ok maj" "mj_addr maj \<le> x" "x < mj_addr maj + mj_size maj"
  obtains j where "j < mj_pages maj" "same_page (heap_page (fst (run_of maj) + j)) (of_nat x)" "fst (run_of maj) + j < length (hp_pages h)"
proof -
  define j where "j = (x - mj_addr maj) div 4096"
  have ok: "mj_addr maj = heap_base + fst (run_of maj) * l_pageSize" "mj_size maj = mj_pages maj * l_pageSize"
    using assms(4) unfolding major_ok_def by blast+
  have j: "j < mj_pages maj" using assms(5,6) ok(2) by (simp add: j_def l_pageSize_def less_mult_imp_div_less)
  have i: "(fst (run_of maj), mj_pages maj) \<in> set (map run_of ms)" using assms(3) by (force simp: run_of_def)
  note c = hp.holds_cap [OF assms(1,2) i]
  have "x - mj_addr maj = j * 4096 + (x - mj_addr maj) mod 4096" "(x - mj_addr maj) mod 4096 < 4096" by (simp_all add: j_def)
  then have "heap_base + (fst (run_of maj) + j) * l_pageSize \<le> x" "x < heap_base + (fst (run_of maj) + j) * l_pageSize + l_pageSize"
    using assms(5) ok(1) by (auto simp: l_pageSize_def algebra_simps)
  moreover have l: "fst (run_of maj) + j < length (hp_pages h)" "fst (run_of maj) + j < physicalPagesSize" using c j by simp_all
  ultimately show ?thesis using that [OF j _ l(1)] block_page [OF l(2)] by blast
qed

lemma block_readable:
  assumes "la_struct s" "maj \<in> set (la_majors s)" "mj_addr maj \<le> x" "x < mj_addr maj + mj_size maj"
  shows "readable (la_heap s) x"
proof -
  have h: "heap_inv (la_heap s)" "hp.holds (la_heap s) (map run_of (la_majors s))" using assms(1) by (simp_all add: la_struct_def)
  obtain j where j: "j < mj_pages maj" "same_page (heap_page (fst (run_of maj) + j)) (of_nat x)"
    using block_page_of [OF h assms(2) la_structD(1) [OF assms(1,2)] assms(3,4)] by blast
  have i: "(fst (run_of maj), mj_pages maj) \<in> set (map run_of (la_majors s))" using assms(2) by (force simp: run_of_def)
  show ?thesis using hp.holds_mapped [OF h i j] by (simp add: readable_def)
qed

lemma header_of_in:
  assumes st: "la_struct s" and b: "maj \<in> set (la_majors s)" "user_ptr m = mi_addr m + sizeof_minor + d" "16 \<le> d" "d < 32"
    "mj_addr maj + sizeof_major \<le> mi_addr m" "mi_addr m + sizeof_minor + mi_size m \<le> mj_addr maj + mj_size maj" "mi_req_size m + 32 \<le> mi_size m"
    and mem: "la_mem s (of_nat (user_ptr m - ALIGN_INFO)) = of_nat (user_ptr m - (mi_addr m + sizeof_minor))"
  shows "header_of s (user_ptr m) = Inr (mi_addr m)"
proof -
  have e: "mj_addr maj + mj_size maj < 2 ^ 64" using la_structD(3) [OF st b(1)] .
  have rd: "readable (la_heap s) x" if "mi_addr m \<le> x" "x < mi_addr m + sizeof_minor + mi_size m" for x
    by (rule block_readable [OF st b(1)]) (use that b(5,6) in linarith)+
  have un: "unalign_ptr (la_mem s) (user_ptr m) = mi_addr m + sizeof_minor"
    using unalign_ptr_ok [of "la_mem s" "user_ptr m" d] mem b e by (simp add: ALIGN_INFO_def)
  have "sub64 (user_ptr m) ALIGN_INFO = user_ptr m - 16" using b e by (simp add: sub_exact ALIGN_INFO_def)
  moreover have "readable (la_heap s) (user_ptr m - 16)" "readable (la_heap s) (mi_addr m + 24)" "readable (la_heap s) (mi_addr m + 27)"
    by (rule rd; use b in \<open>simp add: sizeof_minor_def\<close>)+
  moreover have "sub64 (mi_addr m + sizeof_minor) sizeof_minor = mi_addr m" using b e by (simp add: sub_exact)
  moreover have "(mi_addr m + 24) mod 2 ^ 64 = mi_addr m + 24" "(mi_addr m + 27) mod 2 ^ 64 = mi_addr m + 27"
    using b e by (simp_all add: sizeof_minor_def)
  ultimately show ?thesis by (simp add: header_of_def un Let_def del: power_numeral)
qed

lemma minor_in_Some: "a \<in> mi_addr ` set ms \<Longrightarrow> \<exists>k. minor_in ms a = Some k \<and> k < length ms \<and> mi_addr (ms ! k) = a"
  by (induction ms) auto

lemma minor_in_None: "a \<notin> mi_addr ` set ms \<Longrightarrow> minor_in ms a = None"
  by (induction ms) auto

lemma minor_at_Some:
  "a \<in> mi_addr ` set (concat (map mj_minors ms)) \<Longrightarrow>
    \<exists>i k. minor_at ms a = Some (i, k) \<and> i < length ms \<and> k < length (mj_minors (ms ! i)) \<and> mi_addr (mj_minors (ms ! i) ! k) = a"
proof (induction ms)
  case (Cons b bs)
  show ?case
  proof (cases "a \<in> mi_addr ` set (mj_minors b)")
    case True
    then obtain k where "minor_in (mj_minors b) a = Some k" "k < length (mj_minors b)" "mi_addr (mj_minors b ! k) = a" using minor_in_Some by blast
    then show ?thesis by (intro exI [of _ 0] exI [of _ k]) simp
  next
    case False
    then have "a \<in> mi_addr ` set (concat (map mj_minors bs))" using Cons.prems by auto
    then obtain i k where "minor_at bs a = Some (i, k)" "i < length bs" "k < length (mj_minors (bs ! i))" "mi_addr (mj_minors (bs ! i) ! k) = a"
      using Cons.IH by blast
    then show ?thesis using minor_in_None [OF False] by (intro exI [of _ "Suc i"] exI [of _ k]) simp
  qed
qed simp

lemma nth_allocs: "i < length (la_majors s) \<Longrightarrow> k < length (mj_minors (la_majors s ! i)) \<Longrightarrow> mj_minors (la_majors s ! i) ! k \<in> set (allocs s)"
  by (auto simp: allocs_def intro!: bexI [of _ "la_majors s ! i"])

lemma apart_inj: "sorted_wrt mi_apart xs \<Longrightarrow> m \<in> set xs \<Longrightarrow> n \<in> set xs \<Longrightarrow> mi_addr m = mi_addr n \<Longrightarrow> m = n"
  by (induction xs) (fastforce simp: mi_apart_def sizeof_minor_def)+

lemma drop_nth_major_ok:
  assumes ok: "major_ok maj" and k: "k < length (mj_minors maj)" and sz: "mj_size maj < 2 ^ 32"
  defines "m \<equiv> mj_minors maj ! k"
  shows "major_ok (maj\<lparr>mj_usage := sub32 (mj_usage maj) (mi_size m + sizeof_minor), mj_minors := drop_nth k (mj_minors maj)\<rparr>)"
proof -
  let ?w = "\<lambda>m. mi_size m + sizeof_minor"
  note sp = split_nth [OF k, folded m_def]
  have ms: "minors_ok (mj_addr maj + sizeof_major) (mj_addr maj + mj_size maj) (drop_nth k (mj_minors maj))"
    unfolding drop_nth_def
  proof (rule minors_ok_split)
    have i: "minors_ok (mj_addr maj + sizeof_major) (mj_addr maj + mj_size maj) (take k (mj_minors maj) @ m # drop (Suc k) (mj_minors maj))"
      using major_ok_minors [OF ok] sp by metis
    then show "minors_ok (mj_addr maj + sizeof_major) (mi_addr m) (take k (mj_minors maj))" by (simp add: minors_ok_append)
    show "minors_ok (mi_addr m) (mj_addr maj + mj_size maj) (drop (Suc k) (mj_minors maj))"
      using i by (auto simp: minors_ok_append intro: minors_ok_weaken)
  qed
  have "sum_list (map ?w (mj_minors maj)) = sum_list (map ?w (drop_nth k (mj_minors maj))) + ?w m"
    unfolding drop_nth_def by (subst sp) simp
  then have u: "mj_usage maj = sizeof_major + sum_list (map ?w (drop_nth k (mj_minors maj))) + ?w m" using ok unfolding major_ok_def by simp
  moreover have "mj_usage maj < 2 ^ 32" using usage_le(2) [OF ok] sz by simp
  ultimately have "sub32 (mj_usage maj) (?w m) = sizeof_major + sum_list (map ?w (drop_nth k (mj_minors maj)))" by (simp add: sub_exact)
  then show ?thesis using ms ok unfolding major_ok_def by simp
qed

lemma mset_drop_minor:
  assumes "i < length ms" "k < length (mj_minors (ms ! i))"
  shows "mset (concat (map mj_minors (ms[i := maj\<lparr>mj_usage := u, mj_minors := drop_nth k (mj_minors (ms ! i))\<rparr>]))) =
      mset (concat (map mj_minors ms)) - {#mj_minors (ms ! i) ! k#}"
    "drop_nth k (mj_minors (ms ! i)) = [] \<Longrightarrow> mset (concat (map mj_minors (drop_nth i ms))) =
      mset (concat (map mj_minors ms)) - {#mj_minors (ms ! i) ! k#}"
proof -
  let ?b = "mj_minors (ms ! i)"
  have "mset ?b = mset (take k ?b @ ?b ! k # drop (Suc k) ?b)" using split_nth [OF assms(2)] by metis
  then have b: "mset ?b = add_mset (?b ! k) (mset (drop_nth k ?b))" by (simp add: drop_nth_def)
  have "mset (concat (map mj_minors ms)) =
      mset (concat (map mj_minors (take i ms))) + mset ?b + mset (concat (map mj_minors (drop (Suc i) ms)))"
    by (subst split_nth [OF assms(1)]) simp
  then have all: "mset (concat (map mj_minors ms)) - {#?b ! k#} =
      mset (concat (map mj_minors (take i ms))) + mset (drop_nth k ?b) + mset (concat (map mj_minors (drop (Suc i) ms)))"
    by (simp add: b)
  show "mset (concat (map mj_minors (ms[i := maj\<lparr>mj_usage := u, mj_minors := drop_nth k (mj_minors (ms ! i))\<rparr>]))) =
      mset (concat (map mj_minors ms)) - {#mj_minors (ms ! i) ! k#}"
    unfolding all by (subst upd_conv_take_nth_drop [OF assms(1)]) simp
  show "mset (concat (map mj_minors (drop_nth i ms))) = mset (concat (map mj_minors ms)) - {#mj_minors (ms ! i) ! k#}"
    if "drop_nth k (mj_minors (ms ! i)) = []"
    unfolding all that by (simp add: drop_nth_def)
qed

text \<open>Dropping an allocation and marking its header dead keeps the tags of the others.\<close>

lemma tagged_drop:
  assumes inv: "la_inv s" and m: "m \<in> set (allocs s)" and al: "mset (allocs s') = mset (allocs s) - {#m#}"
    and mg: "la_magic s' = (la_magic s)(mi_addr m := v)" and mem: "la_mem s' = la_mem s"
  shows "\<forall>n \<in> set (allocs s'). tagged s' n"
proof
  fix n assume n: "n \<in> set (allocs s')"
  have st: "la_struct s" using inv by (simp add: la_inv_def)
  obtain xs ys where xy: "allocs s = xs @ m # ys" using m by (auto dest: split_list)
  then have "mset (allocs s') = mset (xs @ ys)" using al by simp
  then have n': "n \<in> set (xs @ ys)" using n by (metis mset_eq_setD)
  then have ns: "n \<in> set (allocs s)" using xy by auto
  from alloc_bounds [OF st m] obtain d where b: "user_ptr m = mi_addr m + sizeof_minor + d" "16 \<le> d" "d < 32" "mi_req_size m + 32 \<le> mi_size m" by blast
  from alloc_bounds [OF st ns] obtain e where c: "user_ptr n = mi_addr n + sizeof_minor + e" "16 \<le> e" "e < 32" "mi_req_size n + 32 \<le> mi_size n" by blast
  show "tagged s' n"
  proof (rule tagged_frame [where d = d and e = e])
    show "tagged s n" using inv ns by (simp add: la_inv_def)
    show "mi_apart n m" using apart_all [OF allocs_apart [OF st, unfolded xy]] n' by blast
    show "mi_addr m + sizeof_minor + mi_size m < 2 ^ 64" "mi_addr n + sizeof_minor + mi_size n < 2 ^ 64" using alloc_in_block [OF st] m ns by blast+
  qed (use b c mg mem in auto)
qed

lemma better_bet_ok:
  assumes "la_struct s" "maj \<in> set (la_majors s)"
  obtains b where "better_bet s maj = Inr (s\<lparr>la_bestBet := b\<rparr>)" "la_struct (s\<lparr>la_bestBet := b\<rparr>)"
proof (cases "la_bestBet s = 0")
  case True
  then have "better_bet s maj = Inr s" by (simp add: better_bet_def)
  moreover have "s = s\<lparr>la_bestBet := la_bestBet s\<rparr>" by simp
  ultimately show ?thesis using that assms(1) by metis
next
  case False
  then have "la_bestBet s \<in> mj_addr ` set (la_majors s)" using assms(1) by (simp add: la_struct_def)
  from major_at_Some [OF this] obtain j where "major_at (la_majors s) (la_bestBet s) = Some j" by blast
  then have "better_bet s maj = Inr (s\<lparr>la_bestBet := la_bestBet s\<rparr>) \<or> better_bet s maj = Inr (s\<lparr>la_bestBet := mj_addr maj\<rparr>)"
    using False by (simp add: better_bet_def Let_def)
  moreover have "la_struct (s\<lparr>la_bestBet := la_bestBet s\<rparr>)" "la_struct (s\<lparr>la_bestBet := mj_addr maj\<rparr>)"
    using assms by (simp_all add: la_struct_def)
  ultimately show ?thesis using that by blast
qed

text \<open>The state after the release of one allocation.\<close>

definition released :: "liballoc \<Rightarrow> minor \<Rightarrow> liballoc \<Rightarrow> bool" where
  "released s m s' \<longleftrightarrow> la_struct s' \<and> mset (allocs s') = mset (allocs s) - {#m#} \<and>
     la_magic s' = (la_magic s)(mi_addr m := LIBALLOC_DEAD) \<and> la_mem s' = la_mem s \<and>
     (if length (la_majors s') = length (la_majors s)
      then \<exists>maj \<in> set (la_majors s'). mj_addr maj + sizeof_major \<le> mi_addr m \<and> mi_addr m + sizeof_minor + mi_size m \<le> mj_addr maj + mj_size maj
      else \<not> readable (la_heap s') (user_ptr m - ALIGN_INFO))"

lemma kfree_released:
  assumes inv: "la_inv s" and m: "m \<in> set (allocs s)"
  shows "\<exists>s'. kfree s (user_ptr m) = Inr s' \<and> released s m s'"
proof -
  have st: "la_struct s" and tg: "tagged s m" using inv m by (simp_all add: la_inv_def)
  obtain i k where ik: "minor_at (la_majors s) (mi_addr m) = Some (i, k)" "i < length (la_majors s)" "k < length (mj_minors (la_majors s ! i))"
    "mi_addr (mj_minors (la_majors s ! i) ! k) = mi_addr m"
    using minor_at_Some [of "mi_addr m" "la_majors s"] m unfolding allocs_def by blast
  define maj where "maj = la_majors s ! i"
  have ms: "maj \<in> set (la_majors s)" using ik(2) by (simp add: maj_def)
  have "mj_minors maj ! k \<in> set (allocs s)" unfolding maj_def by (rule nth_allocs [OF ik(2,3)])
  then have mk: "mj_minors maj ! k = m" using apart_inj [OF allocs_apart [OF st] _ m] ik(4) by (simp add: maj_def)
  define maj' where "maj' = maj\<lparr>mj_usage := sub32 (mj_usage maj) (mi_size m + sizeof_minor), mj_minors := drop_nth k (mj_minors maj)\<rparr>"
  note mj = la_structD [OF st ms]
  have ok': "major_ok maj'" unfolding maj'_def mk [symmetric] by (rule drop_nth_major_ok [OF mj(1) _ mj(4)]) (use ik(3) in \<open>simp add: maj_def\<close>)
  define t where "t = s\<lparr>la_inuse := sub64 (la_inuse s) (mi_size m), la_magic := (la_magic s)(mi_addr m := LIBALLOC_DEAD)\<rparr>"
  have hd: "header_of s (user_ptr m) = Inr (mi_addr m)" using alloc_bounds [OF st m] header_of_in [OF st] tg unfolding tagged_def by metis
  have kf: "kfree s (user_ptr m) =
      (if mj_minors maj' = []
       then bind_res (liballoc_free (la_heap s) (of_nat (mj_addr maj)) (mj_pages maj)) (\<lambda>h.
            Inr (t\<lparr>la_majors := drop_nth i (la_majors s), la_bestBet := (if la_bestBet s = mj_addr maj then 0 else la_bestBet s),
                   la_allocated := sub64 (la_allocated s) (mj_size maj), la_heap := h\<rparr>))
       else better_bet (t\<lparr>la_majors := (la_majors s)[i := maj']\<rparr>) maj')"
    using user_ptr_nonnull [OF st m] tg hd ik(1) mk unfolding kfree_def tagged_def
    by (simp add: Let_def maj_def [symmetric] maj'_def t_def)
  have mb: "mj_addr maj + sizeof_major \<le> mi_addr m" "mi_addr m + sizeof_minor + mi_size m \<le> mj_addr maj + mj_size maj"
    using minors_ok_in(1,2) [OF major_ok_minors [OF mj(1)]] ik(3) mk by (metis maj_def nth_mem)+
  note dm = mset_drop_minor [OF ik(2,3), folded maj_def, unfolded mk]
  show ?thesis
  proof (cases "mj_minors maj' = []")
    case False
    define t2 where "t2 = t\<lparr>la_majors := (la_majors s)[i := maj']\<rparr>"
    have "map run_of (la_majors t2) = map run_of (la_majors s)" using map_update_same [OF ik(2), of run_of maj'] by (simp add: t2_def maj'_def maj_def)
    moreover have "map mj_addr (la_majors t2) = map mj_addr (la_majors s)" using map_update_same [OF ik(2), of mj_addr maj'] by (simp add: t2_def maj'_def maj_def)
    then have "mj_addr ` set (la_majors t2) = mj_addr ` set (la_majors s)" by (metis list.set_map)
    moreover have "set (la_majors t2) \<subseteq> insert maj' (set (la_majors s))" by (simp add: t2_def set_update_subset_insert)
    ultimately have st2: "la_struct t2" using st ok' unfolding la_struct_def by (auto simp: t2_def t_def)
    have m2: "maj' \<in> set (la_majors t2)" using ik(2) by (simp add: t2_def set_update_memI)
    obtain b where b: "better_bet t2 maj' = Inr (t2\<lparr>la_bestBet := b\<rparr>)" "la_struct (t2\<lparr>la_bestBet := b\<rparr>)" using better_bet_ok [OF st2 m2] .
    have "released s m (t2\<lparr>la_bestBet := b\<rparr>)"
    proof -
      have "mj_addr maj' = mj_addr maj" "mj_size maj' = mj_size maj" by (simp_all add: maj'_def)
      then have "\<exists>maj \<in> set (la_majors t2). mj_addr maj + sizeof_major \<le> mi_addr m \<and> mi_addr m + sizeof_minor + mi_size m \<le> mj_addr maj + mj_size maj"
        using mb m2 by (intro bexI [of _ maj']) simp_all
      moreover have "mset (allocs t2) = mset (allocs s) - {#m#}" using dm(1) by (simp add: allocs_def t2_def maj'_def)
      ultimately show ?thesis unfolding released_def using b(2) by (simp add: t2_def t_def)
    qed
    then show ?thesis using kf False b(1) by (simp add: t2_def)
  next
    case True
    let ?xs = "take i (la_majors s)" and ?ys = "drop (Suc i) (la_majors s)"
    have sp: "la_majors s = ?xs @ maj # ?ys" using split_nth [OF ik(2)] by (simp add: maj_def)
    have run: "run_of maj = (fst (run_of maj), mj_pages maj)" by (simp add: run_of_def)
    have hi: "heap_inv (la_heap s)" using st by (simp add: la_struct_def)
    have ho: "hp.holds (la_heap s) (map run_of ?xs @ (fst (run_of maj), mj_pages maj) # map run_of ?ys)"
      using st sp run unfolding la_struct_def by (metis list.simps(9) map_append)
    obtain h where h: "liballoc_free (la_heap s) (heap_page (fst (run_of maj))) (mj_pages maj) = Inr h" "heap_inv h"
      "hp.holds h (map run_of ?xs @ map run_of ?ys)" "{fst (run_of maj)..<fst (run_of maj) + mj_pages maj} \<inter> heap_own h = {}"
      "length (hp_pages h) = length (hp_pages (la_heap s))" using hp.release_holds [OF hi ho] by blast
    have ha: "(of_nat (mj_addr maj) :: u64) = heap_page (fst (run_of maj))"
    proof -
      have "mj_addr maj = heap_base + fst (run_of maj) * l_pageSize" using mj(1) unfolding major_ok_def by blast
      then show ?thesis by (simp only: of_nat_add) (simp add: heap_base_def heapAddress_def l_pageSize_def)
    qed
    define t2 where "t2 = t\<lparr>la_majors := drop_nth i (la_majors s), la_bestBet := (if la_bestBet s = mj_addr maj then 0 else la_bestBet s),
       la_allocated := sub64 (la_allocated s) (mj_size maj), la_heap := h\<rparr>"
    have kf2: "kfree s (user_ptr m) = Inr t2" using kf True h(1) by (simp only: ha t2_def) simp
    have mj2: "la_majors t2 = ?xs @ ?ys" by (simp add: t2_def drop_nth_def)
    have "la_bestBet t2 = 0 \<or> la_bestBet t2 \<in> mj_addr ` set (?xs @ ?ys)"
    proof -
      have "la_bestBet s = 0 \<or> la_bestBet s \<in> mj_addr ` set (la_majors s)" using st by (simp add: la_struct_def)
      moreover have "set (la_majors s) = insert maj (set (?xs @ ?ys))" by (subst sp) simp
      moreover have "la_bestBet t2 = (if la_bestBet s = mj_addr maj then 0 else la_bestBet s)" by (simp add: t2_def)
      ultimately show ?thesis by (metis image_insert insertE)
    qed
    moreover have "\<forall>b \<in> set (?xs @ ?ys). major_ok b" using la_structD(1) [OF st] by (auto dest: in_set_takeD in_set_dropD)
    moreover have "la_heap t2 = h" by (simp add: t2_def)
    ultimately have "la_struct t2" using h(2,3) unfolding la_struct_def mj2 by simp
    moreover have "mset (allocs t2) = mset (allocs s) - {#m#}"
      using dm(2) True by (simp add: allocs_def t2_def maj'_def)
    moreover have "length (la_majors t2) \<noteq> length (la_majors s)" using ik(2) unfolding mj2 by simp
    moreover have "\<not> readable h (user_ptr m - ALIGN_INFO)"
    proof -
      obtain d where d: "user_ptr m = mi_addr m + sizeof_minor + d" "16 \<le> d" "d < 32" "mi_req_size m + 32 \<le> mi_size m" using alloc_bounds [OF st m] by blast
      have "mj_addr maj \<le> user_ptr m - ALIGN_INFO" "user_ptr m - ALIGN_INFO < mj_addr maj + mj_size maj" using mb d by (simp_all add: liballoc_consts)
      then obtain j where j: "j < mj_pages maj" "same_page (heap_page (fst (run_of maj) + j)) (of_nat (user_ptr m - ALIGN_INFO))"
        "fst (run_of maj) + j < length (hp_pages (la_heap s))" using block_page_of [OF hi _ ms mj(1)] st unfolding la_struct_def by blast
      have "fst (run_of maj) + j \<notin> heap_own h" using h(4) j(1) by (metis IntI atLeastLessThan_iff empty_iff le_add1 nat_add_left_cancel_less)
      then show ?thesis using hp.mapped_own [OF h(2) _ j(2)] j(3) h(5) by (simp add: readable_def)
    qed
    ultimately have "released s m t2" unfolding released_def by (simp add: t2_def t_def)
    then show ?thesis using kf2 by blast
  qed
qed

lemma dead_magic: "bad_magic s LIBALLOC_DEAD = s\<lparr>la_errorCount := la_errorCount s + 1\<rparr>" "LIBALLOC_DEAD \<noteq> LIBALLOC_MAGIC"
  by (simp_all add: bad_magic_def LIBALLOC_DEAD_def LIBALLOC_MAGIC_def Let_def)

text \<open>
  \<open>C15\<close> \<open>free\<close> of a pointer that \<open>malloc\<close> returned always ends normally and gives back exactly this
  allocation: every other allocation stays and the invariant of the allocator holds again. A second
  \<open>free\<close> of the same pointer is recognised by the magic number, counted as an error and changes nothing
  else, unless the allocation was the last one of its block: the pages are unmapped by then and the
  second \<open>free\<close> faults.
\<close>

theorem kfree_correct:
  assumes "la_inv s" "m \<in> set (allocs s)"
  shows "\<exists>s'. kfree s (user_ptr m) = Inr s' \<and> la_inv s' \<and> mset (allocs s') = mset (allocs s) - {#m#} \<and>
    kfree s' (user_ptr m) = (if length (la_majors s') = length (la_majors s)
      then Inr (s'\<lparr>la_errorCount := la_errorCount s' + 1\<rparr>) else Inl BadAccess)"
proof -
  have st: "la_struct s" and tg: "tagged s m" using assms by (simp_all add: la_inv_def)
  obtain s' where s': "kfree s (user_ptr m) = Inr s'" "released s m s'" using kfree_released [OF assms] by blast
  note rel = s'(2) [unfolded released_def]
  have inv': "la_inv s'" unfolding la_inv_def using rel tagged_drop [OF assms, of s' LIBALLOC_DEAD] by blast
  have nn: "user_ptr m \<noteq> 0" by (rule user_ptr_nonnull [OF st assms(2)])
  have dead: "la_magic s' (mi_addr m) = LIBALLOC_DEAD" using rel by simp
  have "kfree s' (user_ptr m) = (if length (la_majors s') = length (la_majors s)
      then Inr (s'\<lparr>la_errorCount := la_errorCount s' + 1\<rparr>) else Inl BadAccess)"
  proof -
    obtain b d where b: "b \<in> set (la_majors s)" "user_ptr m = mi_addr m + sizeof_minor + d" "16 \<le> d" "d < 32" "mi_req_size m + 32 \<le> mi_size m"
      "mi_addr m + sizeof_minor + mi_size m \<le> mj_addr b + mj_size b" using alloc_bounds [OF st assms(2)] by blast
    have mem: "la_mem s' (of_nat (user_ptr m - ALIGN_INFO)) = of_nat (user_ptr m - (mi_addr m + sizeof_minor))"
      using rel tg by (simp add: tagged_def)
    show ?thesis
    proof (cases "length (la_majors s') = length (la_majors s)")
      case True
      then have "header_of s' (user_ptr m) = Inr (mi_addr m)" using header_of_in [OF _ _ b(2-4) _ _ b(5) mem] rel by auto
      then show ?thesis using True nn dead dead_magic by (simp add: kfree_def)
    next
      case False
      then have "\<not> readable (la_heap s') (user_ptr m - ALIGN_INFO)" using rel by simp
      moreover have "sub64 (user_ptr m) ALIGN_INFO = user_ptr m - ALIGN_INFO"
        using b la_structD(3) [OF st b(1)] by (intro sub_exact) (simp_all add: ALIGN_INFO_def)
      ultimately show ?thesis using False nn by (simp add: kfree_def header_of_def)
    qed
  qed
  then show ?thesis using s'(1) inv' rel by blast
qed

text \<open>
  \<open>C14\<close> The loop of \<open>malloc\<close> ends for every request below 2 GiB when enough frames are free. It returns null
  only when the heap has no run of unused pages that is long enough for a new block, and then nothing
  changes. Otherwise it returns a pointer that is a multiple of 16, to as many bytes as were requested;
  all of them are mapped, and they overlap neither the headers nor the bytes of any earlier
  allocation, all of which stay. The invariant of the allocator holds again.
\<close>

theorem kmalloc_correct:
  assumes "la_inv s" "req < 2 ^ 31" "enough_frames (la_heap s) (pages_for (req + 32))"
  shows "\<exists>p s'. kmalloc s req = Some (Inr (p, s')) \<and> la_inv s' \<and>
    (if p = 0 then allocs s' = allocs s \<and> la_mem s' = la_mem s \<and> (\<nexists>k. heap_run (la_heap s) (pages_for (req + 32)) k)
     else p mod 16 = 0 \<and> (\<forall>x \<in> {p..<p + req}. readable (la_heap s') x) \<and>
       (\<exists>m. mset (allocs s') = add_mset m (mset (allocs s)) \<and> user_ptr m = p \<and> mi_req_size m = req) \<and>
       (\<forall>n \<in> set (allocs s). {p..<p + req} \<inter> {mi_addr n..<mi_addr n + sizeof_minor + mi_size n} = {} \<and>
          user_ptr n + mi_req_size n \<le> mi_addr n + sizeof_minor + mi_size n) \<and>
       (\<forall>n \<in> set (allocs s). \<forall>x \<in> {mi_addr n..<mi_addr n + sizeof_minor + mi_size n}. la_mem s' (of_nat x) = la_mem s (of_nat x)))"
proof -
  obtain p s' where p: "kmalloc s req = Some (Inr (p, s'))" "la_inv s'"
    "if p = 0 then allocs s' = allocs s \<and> la_mem s' = la_mem s \<and> (\<nexists>k. heap_run (la_heap s) (pages_for (req + 32)) k) else gained s s' p req"
    using kmalloc_ok [OF assms] unfolding malloc_post_def by blast
  show ?thesis
  proof (cases "p = 0")
    case False
    then have g: "gained s s' p req" using p(3) by simp
    then obtain m v where m: "mset (allocs s') = add_mset m (mset (allocs s))" "user_ptr m = p" "mi_req_size m = req"
      and v: "la_mem s' = (la_mem s)(of_nat (p - ALIGN_INFO) := v)" unfolding gained_def by blast
    have st: "la_struct s'" and st0: "la_struct s" using p(2) assms(1) by (simp_all add: la_inv_def)
    have ms: "m \<in> set (allocs s')" using m(1) by (metis insertI1 mset_eq_setD set_mset_add_mset_insert set_mset_mset)
    obtain maj d where b: "maj \<in> set (la_majors s')" "m \<in> set (mj_minors maj)" "user_ptr m = mi_addr m + sizeof_minor + d"
      "align_ptr (mi_addr m + sizeof_minor) = (user_ptr m, d)" "16 \<le> d" "d < 32" "user_ptr m mod 16 = 0" "mj_addr maj + sizeof_major \<le> mi_addr m"
      "mi_addr m + sizeof_minor + mi_size m \<le> mj_addr maj + mj_size maj" "mi_req_size m + 32 \<le> mi_size m" by (rule alloc_bounds [OF st ms])
    have rd: "readable (la_heap s') x" if "x \<in> {p..<p + req}" for x
    proof (rule block_readable [OF st b(1)])
      have x: "p \<le> x" "x < p + req" using that by simp_all
      show "mj_addr maj \<le> x" using x(1) b(3,8) m(2) by linarith
      show "x < mj_addr maj + mj_size maj" using x(2) b(3,6,9,10) m(2,3) by linarith
    qed
    obtain xs ys where xy: "allocs s' = xs @ m # ys" using ms by (auto dest: split_list)
    then have se: "set (xs @ ys) = set (allocs s)" using m(1) by (metis add_mset_add_mset_same_iff mset.simps(2) mset_append mset_eq_setD union_mset_add_mset_right)
    have ap: "{p..<p + req} \<inter> {mi_addr n..<mi_addr n + sizeof_minor + mi_size n} = {} \<and> user_ptr n + mi_req_size n \<le> mi_addr n + sizeof_minor + mi_size n"
      if n: "n \<in> set (allocs s)" for n
    proof -
      have "mi_apart n m" using apart_all [OF allocs_apart [OF st, unfolded xy]] n se by blast
      moreover obtain e where "user_ptr n = mi_addr n + sizeof_minor + e" "e < 32" "mi_req_size n + 32 \<le> mi_size n"
        using alloc_bounds [OF st0 n] by blast
      ultimately show ?thesis using b(3,6,10) m(2,3) by (auto simp: mi_apart_def)
    qed
    have mem: "la_mem s' (of_nat x) = la_mem s (of_nat x)" if n: "n \<in> set (allocs s)" and x: "x \<in> {mi_addr n..<mi_addr n + sizeof_minor + mi_size n}" for n x
    proof -
      have "mi_apart n m" using apart_all [OF allocs_apart [OF st, unfolded xy]] n se by blast
      then have ne: "x \<noteq> p - 16" using x b(3,5,6,10) m(2) by (auto simp: mi_apart_def sizeof_minor_def)
      have "x < 2 ^ 64" "p - 16 < 2 ^ 64"
        using alloc_in_block [OF st0 n] x alloc_in_block [OF st ms] b(3,6,10) m(2) by auto
      then have "(of_nat x :: u64) \<noteq> of_nat (p - 16)" using ne unat_of_nat_u64 by metis
      then show ?thesis by (simp add: v ALIGN_INFO_def)
    qed
    have "p mod 16 = 0" using b(7) m(2) by simp
    then show ?thesis using p(1,2) False m rd ap mem by (intro exI [of _ p] exI [of _ s']) (simp only: if_False, blast)
  next
    case True
    then show ?thesis using p by (intro exI [of _ p] exI [of _ s']) simp
  qed
qed

section \<open>A small heap\<close>

definition sample_la :: liballoc where
  "sample_la = \<lparr>la_majors = [], la_bestBet = 0, la_allocated = 0, la_inuse = 0, la_warningCount = 0, la_errorCount = 0,
     la_possibleOverruns = 0, la_magic = (\<lambda>_. 0), la_mem = (\<lambda>_. 0),
     la_heap = \<lparr>hp_pages = replicate 16 0, hp_vm = sample_vm\<lparr>vm_phys := \<lparr>ph_bitmap = 0xE0 # replicate 9 0, ph_lock = False\<rparr>\<rparr>,
       hp_space = sample_space\<rparr>\<rparr>"

lemma sample_la_used: "used (0xE0 # replicate 9 0) i \<longleftrightarrow> i < 3"
proof (cases "i div 8 = 0")
  case True
  then have "used (0xE0 # replicate 9 0) i \<longleftrightarrow> ph_used sample_phys i" by (simp add: used_def sample_phys_def)
  then show ?thesis by (simp only: sample_phys_used)
next
  case False
  then have "3 \<le> i" by (auto simp: div_eq_0_iff)
  moreover from False have "i div 8 < 10 \<Longrightarrow> (0xE0 # replicate 9 0) ! (i div 8) = (0 :: u8)" by (simp add: nth_Cons')
  ultimately show ?thesis by (auto simp: used_def)
qed

lemma sample_la_facts: "la_inv sample_la" "64 \<le> free_frames (vm_phys (hp_vm (la_heap sample_la)))" "heap_run (la_heap sample_la) 16 0"
proof -
  let ?p = "\<lparr>ph_bitmap = 0xE0 # replicate 9 0, ph_lock = False\<rparr>"
  have "\<forall>f \<in> tabs sample_vm sample_space. ph_used ?p f"
    using tabs_used [OF sample_vm_facts(1)] by (auto simp: sample_la_used sample_vm_def sample_phys_used)
  moreover have "ph_limited (2 ^ 19) ?p" by (simp add: ph_limited_def ph_inv_def)
  ultimately have v: "vm_inv (sample_vm\<lparr>vm_phys := ?p\<rparr>) sample_space" "mmu (sample_vm\<lparr>vm_phys := ?p\<rparr>) sample_space x = None"
    "no_huge (sample_vm\<lparr>vm_phys := ?p\<rparr>) sample_space x" for x
    using vm_inv_phys [OF sample_vm_facts(1), of ?p] sample_vm_facts by simp_all
  have "heap_inv (la_heap sample_la)"
    using v sample_vm_facts(3) by (simp add: heap_inv_def place_ok_def sample_la_def physicalPagesSize_def sample_la_used)
  then show "la_inv sample_la" by (simp add: la_inv_def la_struct_def sample_la_def allocs_def hp.holds_def)
  have "{i. i < pages (0xE0 # replicate 9 0) \<and> \<not> used (0xE0 # replicate 9 0) i} = {3..<80}" unfolding sample_la_used by auto
  then show "64 \<le> free_frames (vm_phys (hp_vm (la_heap sample_la)))" by (simp add: free_frames_def sample_la_def)
  show "heap_run (la_heap sample_la) 16 0" by (simp add: heap_run_def sample_la_def)
qed

lemma sample_la_pages: "enough_frames (la_heap sample_la) (pages_for (100 + 32))" "pages_for (100 + 32) = 16"
  using sample_la_facts(2) by (simp_all add: pages_for_def liballoc_consts enough_frames_def)

text \<open>An allocation of 100 bytes fills the small heap with its first block.\<close>

lemma sample_la_malloc:
  obtains m s where "kmalloc sample_la 100 = Some (Inr (user_ptr m, s))" "la_inv s" "allocs s = [m]" "mi_req_size m = 100" "\<nexists>k. heap_run (la_heap s) 16 k"
proof -
  have "(100 :: nat) < 2 ^ 31" by simp
  from kmalloc_ok [OF sample_la_facts(1) this sample_la_pages(1)] obtain p s where
    p: "kmalloc sample_la 100 = Some (Inr (p, s))" "la_inv s" "p \<noteq> 0" "gained sample_la s p 100"
      "length (hp_pages (la_heap s)) = length (hp_pages (la_heap sample_la))"
    unfolding malloc_post_def sample_la_pages(2) using sample_la_facts(3) by metis
  have "allocs sample_la = []" by (simp add: allocs_def sample_la_def)
  then obtain m where m: "mset (allocs s) = {#m#}" "user_ptr m = p" "mi_req_size m = 100" using p(4) by (auto simp: gained_def)
  then have a: "allocs s = [m]" by (metis mset_single_iff)
  then obtain maj where maj: "maj \<in> set (la_majors s)" unfolding allocs_def by (metis concat.simps(1) list.distinct(1) list.map_disc_iff list.set_sel(1))
  have st: "heap_inv (la_heap s)" "hp.holds (la_heap s) (map run_of (la_majors s))" using p(2) by (simp_all add: la_inv_def la_struct_def)
  have i: "(fst (run_of maj), mj_pages maj) \<in> set (map run_of (la_majors s))" using maj by (force simp: run_of_def)
  have l: "length (hp_pages (la_heap s)) = 16" using p(5) by (simp add: sample_la_def)
  have "fst (run_of maj) \<in> heap_own (la_heap s)" "fst (run_of maj) < 16" using hp.holdsD [OF st(2) i] hp.holds_cap [OF st i] l by auto
  then have "\<not> heap_run (la_heap s) 16 k" for k using l by (auto simp: heap_run_own)
  then show ?thesis using that [of m s] p(1,2) a m(2,3) by blast
qed

theorem kmalloc_correct_witness:
  "\<exists>p s'. kmalloc sample_la 100 = Some (Inr (p, s')) \<and> p \<noteq> 0 \<and> p mod 16 = 0 \<and> length (allocs s') = 1"
proof -
  have "(100 :: nat) < 2 ^ 31" by simp
  from kmalloc_correct [OF sample_la_facts(1) this sample_la_pages(1)] obtain p s' where
    p: "kmalloc sample_la 100 = Some (Inr (p, s'))" "if p = 0 then \<nexists>k. heap_run (la_heap sample_la) (pages_for (100 + 32)) k
      else p mod 16 = 0 \<and> (\<exists>m. mset (allocs s') = add_mset m (mset (allocs sample_la)))" by (metis (no_types, lifting))
  then have n: "p \<noteq> 0" using sample_la_facts(3) unfolding sample_la_pages(2) by metis
  moreover have "allocs sample_la = []" by (simp add: allocs_def sample_la_def)
  ultimately show ?thesis using p by (metis One_nat_def add_mset_eq_single list.size(3) mset.simps(1) size_mset size_single)
qed

theorem kfree_correct_witness:
  "\<exists>m s s'. kmalloc sample_la 100 = Some (Inr (user_ptr m, s)) \<and> allocs s = [m] \<and> kfree s (user_ptr m) = Inr s' \<and> allocs s' = []"
proof -
  obtain m s where s: "kmalloc sample_la 100 = Some (Inr (user_ptr m, s))" "la_inv s" "allocs s = [m]" by (rule sample_la_malloc)
  then obtain s' where "kfree s (user_ptr m) = Inr s'" "mset (allocs s') = mset (allocs s) - {#m#}"
    using kfree_correct [OF s(2), of m] by auto
  then show ?thesis using s by auto
qed

section \<open>realloc\<close>

text \<open>The copy of bytes to a place that does not overlap them.\<close>

definition copied :: "kmem \<Rightarrow> kmem \<Rightarrow> u64 \<Rightarrow> u64 \<Rightarrow> nat \<Rightarrow> bool" where
  "copied mem mem' a b n \<longleftrightarrow> (\<forall>j < n. mem' (a + of_nat j) = mem (b + of_nat j)) \<and>
     (\<forall>x. (\<forall>j < n. x \<noteq> a + of_nat j) \<longrightarrow> mem' x = mem x)"

definition disjoint_bytes :: "u64 \<Rightarrow> u64 \<Rightarrow> nat \<Rightarrow> bool" where
  "disjoint_bytes a b n \<longleftrightarrow> n < 2 ^ 64 \<and> (\<forall>i < n. \<forall>j < n. a + of_nat i \<noteq> b + of_nat j)"

lemma copied_append:
  assumes c: "copied mem mem1 a b k" "copied mem1 mem2 (a + of_nat k) (b + of_nat k) n" and d: "disjoint_bytes a b (k + n)"
  shows "copied mem mem2 a b (k + n)"
proof -
  have inj: "a + of_nat i \<noteq> a + of_nat j" if "i < k + n" "j < k + n" "i \<noteq> j" for i j
    using that d unat_of_nat_u64 unfolding disjoint_bytes_def by (metis add_left_cancel order_less_trans)
  have "mem2 (a + of_nat j) = mem (b + of_nat j)" if j: "j < k + n" for j
  proof (cases "j < k")
    case True
    have "a + of_nat j \<noteq> a + of_nat k + of_nat i" if "i < n" for i using inj [of j "k + i"] True that by (simp add: add.assoc)
    then show ?thesis using c True unfolding copied_def by metis
  next
    case False
    then obtain i where i: "j = k + i" "i < n" using j by (metis add_less_cancel_left le_add_diff_inverse not_less)
    have "b + of_nat k + of_nat i \<noteq> a + of_nat l" if l: "l < k" for l
    proof -
      have "l < k + n" "k + i < k + n" using l i(2) by simp_all
      then have "a + of_nat l \<noteq> b + of_nat (k + i)" using d unfolding disjoint_bytes_def by blast
      then show ?thesis by (simp add: add.assoc)
    qed
    then have "mem1 (b + of_nat k + of_nat i) = mem (b + of_nat k + of_nat i)" using c(1) unfolding copied_def by metis
    then show ?thesis using c(2) i unfolding copied_def by (simp add: add.assoc)
  qed
  moreover have "mem2 x = mem x" if x: "\<forall>j < k + n. x \<noteq> a + of_nat j" for x
  proof -
    have "x \<noteq> a + of_nat k + of_nat j" if "j < n" for j
    proof -
      have "k + j < k + n" using that by simp
      then have "x \<noteq> a + of_nat (k + j)" using x by blast
      then show ?thesis by (simp add: add.assoc)
    qed
    moreover have "\<forall>j < k. x \<noteq> a + of_nat j" using x by (metis trans_less_add1)
    ultimately show ?thesis using c unfolding copied_def by metis
  qed
  ultimately show ?thesis by (simp add: copied_def)
qed

lemma disjoint_bytes_tail: "disjoint_bytes a b (k + n) \<Longrightarrow> disjoint_bytes (a + of_nat k) (b + of_nat k) n"
  unfolding disjoint_bytes_def
proof (elim conjE, intro conjI allI impI)
  fix i j assume d: "\<forall>i < k + n. \<forall>j < k + n. a + of_nat i \<noteq> b + of_nat j" and "i < n" "j < n"
  then have "k + i < k + n" "k + j < k + n" by simp_all
  then have "a + of_nat (k + i) \<noteq> b + of_nat (k + j)" using d by blast
  then show "a + of_nat k + of_nat i \<noteq> b + of_nat k + of_nat j" by (simp add: add.assoc)
qed simp

lemma la_memcpy_bytes_copied: "disjoint_bytes a b n \<Longrightarrow> copied mem (la_memcpy_bytes mem a b n) a b n"
proof (induction n arbitrary: mem a b)
  case (Suc n)
  have d: "disjoint_bytes a b (1 + n)" using Suc.prems by simp
  have "copied mem (mem(a := mem b)) a b 1" by (simp add: copied_def)
  moreover have "copied (mem(a := mem b)) (la_memcpy_bytes (mem(a := mem b)) (a + of_nat 1) (b + of_nat 1) n) (a + of_nat 1) (b + of_nat 1) n"
    by (rule Suc.IH [OF disjoint_bytes_tail [OF d]])
  ultimately have "copied mem (la_memcpy_bytes (mem(a := mem b)) (a + of_nat 1) (b + of_nat 1) n) a b (1 + n)" by (rule copied_append [OF _ _ d])
  then show ?case by simp
qed (simp add: copied_def)

lemma store_word_copied:
  shows "copied mem (store_bytes mem a (bytes_at mem b 4)) a b 4"
proof -
  have l: "length (bytes_at mem b 4) = 4" by (simp add: bytes_at_def)
  have "store_bytes mem a (bytes_at mem b 4) (a + of_nat j) = mem (b + of_nat j)" if "j < 4" for j
  proof -
    have "unat (a + of_nat j - a) = j" using that by (simp add: unat_of_nat_u64)
    then show ?thesis using that l by (simp add: store_bytes_def bytes_at_def del: upt_rec_numeral)
  qed
  moreover have "store_bytes mem a (bytes_at mem b 4) x = mem x" if "\<forall>j < 4. x \<noteq> a + of_nat j" for x
  proof -
    have "x = a + of_nat (unat (x - a))" by simp
    then have "\<not> unat (x - a) < 4" using that by metis
    then show ?thesis using l by (simp add: store_bytes_def)
  qed
  ultimately show ?thesis by (simp add: copied_def)
qed

lemma la_memcpy_words_copied: "disjoint_bytes a b n \<Longrightarrow> copied mem (la_memcpy_words mem a b n) a b n"
proof (induction n arbitrary: mem a b rule: less_induct)
  case (less n)
  show ?case
  proof (cases "n \<ge> 4")
    case True
    then have d: "disjoint_bytes a b (4 + (n - 4))" using less.prems by simp
    let ?m = "store_bytes mem a (bytes_at mem b 4)"
    have "copied ?m (la_memcpy_words ?m (a + of_nat 4) (b + of_nat 4) (n - 4)) (a + of_nat 4) (b + of_nat 4) (n - 4)"
      by (rule less.IH [OF _ disjoint_bytes_tail [OF d]]) (use True in simp)
    from copied_append [OF store_word_copied this d] show ?thesis using True by (subst la_memcpy_words.simps) simp
  next
    case False
    then show ?thesis using la_memcpy_bytes_copied [OF less.prems] by (subst la_memcpy_words.simps) simp
  qed
qed

text \<open>A store outside the bytes that mark the allocations keeps the invariant.\<close>

lemma la_inv_mem:
  assumes "la_inv s" "\<And>n. n \<in> set (allocs s) \<Longrightarrow> mem (of_nat (user_ptr n - ALIGN_INFO)) = la_mem s (of_nat (user_ptr n - ALIGN_INFO))"
  shows "la_inv (s\<lparr>la_mem := mem\<rparr>)"
  using assms by (auto simp: la_inv_def la_struct_def allocs_def tagged_def)

lemma mset_set_req:
  assumes "i < length ms" "k < length (mj_minors (ms ! i))"
  shows "mset (concat (map mj_minors (ms[i := maj\<lparr>mj_minors := (mj_minors (ms ! i))[k := m]\<rparr>]))) =
    add_mset m (mset (concat (map mj_minors ms)) - {#mj_minors (ms ! i) ! k#})"
proof -
  let ?b = "mj_minors (ms ! i)"
  have "mset (concat (map mj_minors ms)) =
      mset (concat (map mj_minors (take i ms))) + mset ?b + mset (concat (map mj_minors (drop (Suc i) ms)))"
    by (subst split_nth [OF assms(1)]) simp
  moreover have "mset (?b[k := m]) = add_mset m (mset ?b - {#?b ! k#})" by (rule mset_update [OF assms(2)])
  moreover have "?b ! k \<in># mset ?b" using assms(2) by simp
  ultimately show ?thesis by (subst upd_conv_take_nth_drop [OF assms(1)]) (simp add: assms(1) add.assoc)
qed

lemma set_req_ok:
  assumes inv: "la_inv s" and i: "i < length (la_majors s)" and k: "k < length (mj_minors (la_majors s ! i))"
    and m: "mj_minors (la_majors s ! i) ! k = m" and sz: "sz \<le> mi_req_size m" "sz < 2 ^ 32"
  shows "la_inv (set_req s (i, k) sz)" "mset (allocs (set_req s (i, k) sz)) = add_mset (m\<lparr>mi_req_size := sz\<rparr>) (mset (allocs s) - {#m#})"
    "la_mem (set_req s (i, k) sz) = la_mem s"
proof -
  let ?maj = "la_majors s ! i" and ?m = "m\<lparr>mi_req_size := sz\<rparr>" and ?s = "set_req s (i, k) sz"
  let ?maj' = "?maj\<lparr>mj_minors := (mj_minors ?maj)[k := ?m]\<rparr>"
  have s': "?s = s\<lparr>la_majors := (la_majors s)[i := ?maj']\<rparr>" using sz(2) m by (simp add: set_req_def Let_def)
  show al: "mset (allocs ?s) = add_mset ?m (mset (allocs s) - {#m#})" using mset_set_req [OF i k, where maj = ?maj and m = ?m] m by (simp add: allocs_def s')
  show "la_mem ?s = la_mem s" by (simp add: s')
  have st: "la_struct s" using inv by (simp add: la_inv_def)
  have ok: "major_ok ?maj" using la_structD(1) [OF st] i by simp
  have sp: "mj_minors ?maj = take k (mj_minors ?maj) @ m # drop (Suc k) (mj_minors ?maj)" using split_nth [OF k] m by simp
  have up: "(mj_minors ?maj)[k := ?m] = take k (mj_minors ?maj) @ ?m # drop (Suc k) (mj_minors ?maj)" by (rule upd_conv_take_nth_drop [OF k])
  have "major_ok ?maj'"
  proof -
    have "minors_ok (mj_addr ?maj + sizeof_major) (mj_addr ?maj + mj_size ?maj) (take k (mj_minors ?maj) @ m # drop (Suc k) (mj_minors ?maj))"
      using major_ok_minors [OF ok] sp by metis
    then have "minors_ok (mj_addr ?maj + sizeof_major) (mj_addr ?maj + mj_size ?maj) ((mj_minors ?maj)[k := ?m])"
      unfolding up minors_ok_append using sz(1) by simp
    moreover have "map (\<lambda>m. mi_size m + sizeof_minor) ((mj_minors ?maj)[k := ?m]) = map (\<lambda>m. mi_size m + sizeof_minor) (mj_minors ?maj)"
      by (rule map_update_same [OF k]) (simp add: m)
    moreover have "run_of ?maj' = run_of ?maj" by (simp add: run_of_def)
    ultimately show ?thesis using ok unfolding major_ok_def by simp
  qed
  moreover have "map run_of (la_majors ?s) = map run_of (la_majors s)" "map mj_addr (la_majors ?s) = map mj_addr (la_majors s)"
    using map_update_same [OF i, of run_of ?maj'] map_update_same [OF i, of mj_addr ?maj'] by (simp_all add: s' run_of_def)
  moreover from this(2) have "mj_addr ` set (la_majors ?s) = mj_addr ` set (la_majors s)" by (metis list.set_map)
  moreover have "set (la_majors ?s) \<subseteq> insert ?maj' (set (la_majors s))" by (simp add: s' set_update_subset_insert)
  ultimately have st': "la_struct ?s" using st unfolding la_struct_def by (auto simp: s')
  have "tagged ?s n" if "n \<in> set (allocs ?s)" for n
  proof -
    have "m \<in> set (allocs s)" using nth_allocs [OF i k] m by simp
    have "n = ?m \<or> n \<in> set (allocs s)" using that al by (metis in_diffD insert_iff set_mset_add_mset_insert set_mset_mset)
    then have "\<exists>l \<in> set (allocs s). mi_addr n = mi_addr l" using \<open>m \<in> set (allocs s)\<close> by (elim disjE) (auto intro: bexI [of _ m])
    then obtain l where l: "l \<in> set (allocs s)" "mi_addr n = mi_addr l" by blast
    then have "user_ptr n = user_ptr l" "tagged s l" using inv by (simp_all add: user_ptr_def la_inv_def)
    then show ?thesis using l(2) by (simp add: tagged_def s')
  qed
  then show "la_inv ?s" using st' by (simp add: la_inv_def)
qed

lemma of_nat_apart:
  assumes "x + n \<le> 2 ^ 64" "y + n \<le> 2 ^ 64" "x + n \<le> y \<or> y + n \<le> x" "0 < n"
  shows "disjoint_bytes (of_nat x) (of_nat y) n"
proof -
  have "(of_nat (x + i) :: u64) \<noteq> of_nat (y + j)" if "i < n" "j < n" for i j
  proof
    assume e: "(of_nat (x + i) :: u64) = of_nat (y + j)"
    have "x + i < 2 ^ 64" "y + j < 2 ^ 64" using that assms(1,2) by linarith+
    then have "x + i = y + j" using e unat_of_nat_u64 by metis
    then show False using that assms(3) by linarith
  qed
  moreover have "n < 2 ^ 64" using assms by linarith
  ultimately show ?thesis unfolding disjoint_bytes_def by (simp only: of_nat_add [symmetric]) blast
qed

text \<open>Copying the bytes of one allocation to the beginning of another one.\<close>

lemma la_memcpy_allocs:
  assumes inv: "la_inv s" and mn: "m \<in> set (allocs s)" "n \<in> set (allocs s)" "mi_apart m n" "mi_req_size m \<le> mi_req_size n" "0 < mi_req_size m"
  obtains mem where "liballoc_memcpy (la_mem s) (user_ptr n) (user_ptr m) (mi_req_size m) = Inr mem" "la_inv (s\<lparr>la_mem := mem\<rparr>)"
    "\<forall>j < mi_req_size m. mem (of_nat (user_ptr n + j)) = la_mem s (of_nat (user_ptr m + j))"
proof -
  have st: "la_struct s" using inv by (simp add: la_inv_def)
  define mem where "mem = la_memcpy_words (la_mem s) (of_nat (user_ptr n)) (of_nat (user_ptr m)) (mi_req_size m)"
  obtain d where m: "user_ptr m = mi_addr m + sizeof_minor + d" "16 \<le> d" "d < 32" "mi_req_size m + 32 \<le> mi_size m" using alloc_bounds [OF st mn(1)] by blast
  obtain e where n: "user_ptr n = mi_addr n + sizeof_minor + e" "16 \<le> e" "e < 32" "mi_req_size n + 32 \<le> mi_size n" using alloc_bounds [OF st mn(2)] by blast
  note b = alloc_in_block [OF st mn(1)] alloc_in_block [OF st mn(2)]
  have "disjoint_bytes (of_nat (user_ptr n)) (of_nat (user_ptr m)) (mi_req_size m)"
    by (rule of_nat_apart) (use m n b mn(3-5) in \<open>auto simp: mi_apart_def\<close>)
  from la_memcpy_words_copied [OF this, of "la_mem s"] have c: "copied (la_mem s) mem (of_nat (user_ptr n)) (of_nat (user_ptr m)) (mi_req_size m)"
    by (simp add: mem_def)
  have "mem (of_nat (user_ptr l - ALIGN_INFO)) = la_mem s (of_nat (user_ptr l - ALIGN_INFO))" if l: "l \<in> set (allocs s)" for l
  proof -
    obtain g where g: "user_ptr l = mi_addr l + sizeof_minor + g" "16 \<le> g" "g < 32" "mi_req_size l + 32 \<le> mi_size l" using alloc_bounds [OF st l] by blast
    have "user_ptr l - 16 \<noteq> user_ptr n + j" if "j < mi_req_size m" for j
    proof (cases "l = n")
      case True
      then show ?thesis using n(1,2) by simp
    next
      case False
      obtain xs ys where xy: "allocs s = xs @ n # ys" using mn(2) by (auto dest: split_list)
      then have "l \<in> set (xs @ ys)" using l False by auto
      then have "mi_apart l n" using apart_all [OF allocs_apart [OF st, unfolded xy]] by blast
      then show ?thesis using g n mn(4) that unfolding mi_apart_def by linarith
    qed
    moreover have "user_ptr l - 16 < 2 ^ 64" "user_ptr n + j < 2 ^ 64" if "j < mi_req_size m" for j
      using alloc_in_block [OF st l] g n b mn(4) that by linarith+
    ultimately have "\<forall>j < mi_req_size m. (of_nat (user_ptr l - 16) :: u64) \<noteq> of_nat (user_ptr n) + of_nat j"
      using unat_of_nat_u64 by (metis of_nat_add)
    then show ?thesis using c by (simp add: copied_def ALIGN_INFO_def)
  qed
  then have i: "la_inv (s\<lparr>la_mem := mem\<rparr>)" by (rule la_inv_mem [OF inv])
  have "liballoc_memcpy (la_mem s) (user_ptr n) (user_ptr m) (mi_req_size m) = Inr mem"
    using user_ptr_nonnull [OF st mn(2)] by (simp add: liballoc_memcpy_def mem_def)
  moreover have "\<forall>j < mi_req_size m. mem (of_nat (user_ptr n + j)) = la_mem s (of_nat (user_ptr m + j))" using c by (simp add: copied_def)
  ultimately show ?thesis using that i by blast
qed

lemma krealloc_found:
  assumes inv: "la_inv s" and m: "m \<in> set (allocs s)" and sz: "0 < sz"
  obtains i k where "i < length (la_majors s)" "k < length (mj_minors (la_majors s ! i))" "mj_minors (la_majors s ! i) ! k = m"
    "krealloc s (user_ptr m) sz =
       (if mi_req_size m \<ge> sz then Some (Inr (user_ptr m, set_req s (i, k) sz))
        else bind_opt (kmalloc s sz) (\<lambda>(ptr, s).
             bind_opt (Some (liballoc_memcpy (la_mem s) ptr (user_ptr m) (mi_req_size m))) (\<lambda>mem.
             bind_opt (Some (kfree (s\<lparr>la_mem := mem\<rparr>) (user_ptr m))) (\<lambda>s. Some (Inr (ptr, s))))))"
proof -
  have st: "la_struct s" and tg: "tagged s m" using inv m by (simp_all add: la_inv_def)
  obtain i k where ik: "minor_at (la_majors s) (mi_addr m) = Some (i, k)" "i < length (la_majors s)" "k < length (mj_minors (la_majors s ! i))"
    "mi_addr (mj_minors (la_majors s ! i) ! k) = mi_addr m"
    using minor_at_Some [of "mi_addr m" "la_majors s"] m unfolding allocs_def by blast
  have "mj_minors (la_majors s ! i) ! k \<in> set (allocs s)" by (rule nth_allocs [OF ik(2,3)])
  then have mk: "mj_minors (la_majors s ! i) ! k = m" using apart_inj [OF allocs_apart [OF st] _ m] ik(4) by simp
  have hd: "header_of s (user_ptr m) = Inr (mi_addr m)" using alloc_bounds [OF st m] header_of_in [OF st] tg unfolding tagged_def by metis
  have "krealloc s (user_ptr m) sz =
       (if mi_req_size m \<ge> sz then Some (Inr (user_ptr m, set_req s (i, k) sz))
        else bind_opt (kmalloc s sz) (\<lambda>(ptr, s).
             bind_opt (Some (liballoc_memcpy (la_mem s) ptr (user_ptr m) (mi_req_size m))) (\<lambda>mem.
             bind_opt (Some (kfree (s\<lparr>la_mem := mem\<rparr>) (user_ptr m))) (\<lambda>s. Some (Inr (ptr, s))))))"
    using user_ptr_nonnull [OF st m] tg hd ik(1) mk sz unfolding krealloc_def tagged_def by (simp add: Let_def)
  then show ?thesis using that ik(2,3) mk by blast
qed

text \<open>The three outcomes of growing an allocation.\<close>

definition grown :: "liballoc \<Rightarrow> minor \<Rightarrow> nat \<Rightarrow> (nat \<times> liballoc) res option \<Rightarrow> bool" where
  "grown s m sz r \<longleftrightarrow> (\<exists>n s'. r = Some (Inr (user_ptr n, s')) \<and> la_inv s' \<and> mset (allocs s') = add_mset n (mset (allocs s) - {#m#}) \<and>
     mi_req_size n = sz \<and> (\<forall>j < mi_req_size m. la_mem s' (of_nat (user_ptr n + j)) = la_mem s (of_nat (user_ptr m + j))))"

lemma krealloc_grows:
  assumes inv: "la_inv s" and m: "m \<in> set (allocs s)" and g: "gained s t (user_ptr n) sz" "user_ptr n \<noteq> 0" and it: "la_inv t"
    and n: "mset (allocs t) = add_mset n (mset (allocs s))" "mi_req_size n = sz" and sz: "0 < mi_req_size m" "mi_req_size m < sz"
  shows "grown s m sz (bind_opt (Some (liballoc_memcpy (la_mem t) (user_ptr n) (user_ptr m) (mi_req_size m))) (\<lambda>mem.
     bind_opt (Some (kfree (t\<lparr>la_mem := mem\<rparr>) (user_ptr m))) (\<lambda>s. Some (Inr (user_ptr n, s)))))"
proof -
  have st: "la_struct t" using it by (simp add: la_inv_def)
  have mt: "m \<in> set (allocs t)" "n \<in> set (allocs t)" using m n(1) by (metis insert_iff mset_eq_setD set_mset_add_mset_insert set_mset_mset)+
  obtain xs ys where xy: "allocs t = xs @ n # ys" using mt(2) by (auto dest: split_list)
  then have "set (xs @ ys) = set (allocs s)" using n(1) by (metis add_mset_add_mset_same_iff mset.simps(2) mset_append mset_eq_setD union_mset_add_mset_right)
  then have ap: "mi_apart m n" using apart_all [OF allocs_apart [OF st, unfolded xy]] m by blast
  obtain mem where mem: "liballoc_memcpy (la_mem t) (user_ptr n) (user_ptr m) (mi_req_size m) = Inr mem" "la_inv (t\<lparr>la_mem := mem\<rparr>)"
    "\<forall>j < mi_req_size m. mem (of_nat (user_ptr n + j)) = la_mem t (of_nat (user_ptr m + j))"
    using la_memcpy_allocs [OF it mt ap] sz n(2) by auto
  let ?t = "t\<lparr>la_mem := mem\<rparr>"
  have at: "allocs ?t = allocs t" by (simp add: allocs_def)
  then obtain s' where s': "kfree ?t (user_ptr m) = Inr s'" "released ?t m s'" using kfree_released [OF mem(2)] mt(1) by auto
  note rel = s'(2) [unfolded released_def]
  have "la_inv s'" unfolding la_inv_def using rel tagged_drop [OF mem(2), of m s' LIBALLOC_DEAD] mt(1) at by auto
  moreover have "mset (allocs s') = add_mset n (mset (allocs s) - {#m#})" using rel at n(1) m by simp
  moreover have "la_mem s' (of_nat (user_ptr n + j)) = la_mem s (of_nat (user_ptr m + j))" if j: "j < mi_req_size m" for j
  proof -
    obtain v where v: "la_mem t = (la_mem s)(of_nat (user_ptr n - 16) := v)" using g(1) by (auto simp: gained_def ALIGN_INFO_def)
    obtain d where d: "user_ptr m = mi_addr m + sizeof_minor + d" "d < 32" "mi_req_size m + 32 \<le> mi_size m" using alloc_bounds [OF st mt(1)] by blast
    obtain e where e: "user_ptr n = mi_addr n + sizeof_minor + e" "16 \<le> e" "e < 32" "mi_req_size n + 32 \<le> mi_size n" using alloc_bounds [OF st mt(2)] by blast
    have "user_ptr m + j \<noteq> user_ptr n - 16" "user_ptr m + j < 2 ^ 64" "user_ptr n - 16 < 2 ^ 64"
      using ap d e j alloc_in_block [OF st mt(1)] alloc_in_block [OF st mt(2)] unfolding mi_apart_def by linarith+
    then have "(of_nat (user_ptr m + j) :: u64) \<noteq> of_nat (user_ptr n - 16)" using unat_of_nat_u64 by metis
    then show ?thesis using rel mem(3) j v by (simp del: of_nat_add)
  qed
  ultimately show ?thesis using mem(1) s'(1) n(2) unfolding grown_def by auto
qed

text \<open>
  \<open>C16\<close> \<open>realloc\<close> of an allocation to a size that is not larger keeps the pointer and only records the size.
  To a larger size it moves the allocation: the new one holds the old contents, the old one is gone and
  all others stay. When \<open>malloc\<close> has no room it dereferences null, since its result is not tested.
\<close>

theorem krealloc_correct:
  assumes "la_inv s" "m \<in> set (allocs s)" "0 < mi_req_size m" "0 < sz" "sz < 2 ^ 31"
    "enough_frames (la_heap s) (pages_for (sz + 32))"
  shows "if sz \<le> mi_req_size m
    then \<exists>s'. krealloc s (user_ptr m) sz = Some (Inr (user_ptr m, s')) \<and> la_inv s' \<and> la_mem s' = la_mem s \<and>
      mset (allocs s') = add_mset (m\<lparr>mi_req_size := sz\<rparr>) (mset (allocs s) - {#m#})
    else grown s m sz (krealloc s (user_ptr m) sz) \<or>
      krealloc s (user_ptr m) sz = Some (Inl BadAccess) \<and> (\<nexists>k. heap_run (la_heap s) (pages_for (sz + 32)) k)"
proof -
  obtain i k where ik: "i < length (la_majors s)" "k < length (mj_minors (la_majors s ! i))" "mj_minors (la_majors s ! i) ! k = m"
    and re: "krealloc s (user_ptr m) sz =
       (if mi_req_size m \<ge> sz then Some (Inr (user_ptr m, set_req s (i, k) sz))
        else bind_opt (kmalloc s sz) (\<lambda>(ptr, s).
             bind_opt (Some (liballoc_memcpy (la_mem s) ptr (user_ptr m) (mi_req_size m))) (\<lambda>mem.
             bind_opt (Some (kfree (s\<lparr>la_mem := mem\<rparr>) (user_ptr m))) (\<lambda>s. Some (Inr (ptr, s))))))"
    using krealloc_found [OF assms(1,2,4)] by blast
  show ?thesis
  proof (cases "sz \<le> mi_req_size m")
    case True
    have "sz < 2 ^ 32" using assms(5) by simp
    then show ?thesis using True set_req_ok [OF assms(1) ik True] by (simp add: re)
  next
    case False
    obtain p t where p: "kmalloc s sz = Some (Inr (p, t))" "la_inv t"
      "if p = 0 then \<nexists>k. heap_run (la_heap s) (pages_for (sz + 32)) k else gained s t p sz"
      using kmalloc_ok [OF assms(1,5,6)] unfolding malloc_post_def by metis
    show ?thesis
    proof (cases "p = 0")
      case True
      then have "krealloc s (user_ptr m) sz = Some (Inl BadAccess)" using False p(1) assms(3) by (simp add: re liballoc_memcpy_def)
      then show ?thesis using False True p(3) by simp
    next
      case nz: False
      then obtain n where n: "mset (allocs t) = add_mset n (mset (allocs s))" "user_ptr n = p" "mi_req_size n = sz" using p(3) by (auto simp: gained_def)
      have "grown s m sz (krealloc s (user_ptr m) sz)"
        using krealloc_grows [OF assms(1,2) _ _ p(2) n(1,3) assms(3)] p(1,3) nz n(2) False by (simp add: re)
      then show ?thesis using False by simp
    qed
  qed
qed

theorem krealloc_correct_witness:
  "\<exists>m s. kmalloc sample_la 100 = Some (Inr (user_ptr m, s)) \<and> allocs s = [m] \<and>
    (grown s m 200 (krealloc s (user_ptr m) 200) \<or> krealloc s (user_ptr m) 200 = Some (Inl BadAccess)) \<and>
    (\<exists>s'. krealloc s (user_ptr m) 50 = Some (Inr (user_ptr m, s')) \<and> allocs s' = [m\<lparr>mi_req_size := 50\<rparr>])"
proof -
  obtain m s where s: "kmalloc sample_la 100 = Some (Inr (user_ptr m, s))" "la_inv s" "allocs s = [m]" "mi_req_size m = 100" "\<nexists>k. heap_run (la_heap s) 16 k"
    by (rule sample_la_malloc)
  have m: "m \<in> set (allocs s)" "0 < mi_req_size m" using s by simp_all
  have f: "enough_frames (la_heap s) (pages_for (200 + 32))" "enough_frames (la_heap s) (pages_for (50 + 32))"
    using s(5) by (simp_all add: enough_frames_def pages_for_def liballoc_consts)
  have "grown s m 200 (krealloc s (user_ptr m) 200) \<or> krealloc s (user_ptr m) 200 = Some (Inl BadAccess)"
    using krealloc_correct [OF s(2) m, of 200] f(1) s(4) by auto
  moreover obtain s' where "krealloc s (user_ptr m) 50 = Some (Inr (user_ptr m, s'))" "mset (allocs s') = add_mset (m\<lparr>mi_req_size := 50\<rparr>) (mset (allocs s) - {#m#})"
    using krealloc_correct [OF s(2) m, of 50] f(2) s(4) by auto
  moreover from this(2) have "allocs s' = [m\<lparr>mi_req_size := 50\<rparr>]" using s(3) by (metis mset_single_iff add_mset_remove_trivial mset.simps)
  ultimately show ?thesis using s(1,3) by blast
qed

end
