(* ===== verification/Lapic.thy ===== *)
theory Lapic
  imports Irq
begin

text \<open>
  \<open>kernel/devices/apic/lapic.cpp\<close> and \<open>kernel/devices/pit.cpp\<close>: the local interrupt controller and its timer,
  and the delay that calibrates it. The registers of the controllers are the last values written to
  their addresses. Where the code reads what the hardware has changed in the meantime, the values that
  it reads are an argument: the successive contents of a polled register, and the count of the timer.
  \<open>cpu\<close> is the address of the current processor's controller, when it has a \<open>CPU\<close> structure. A poll that
  never sees the awaited bit does not end.
\<close>

section \<open>Interval timer\<close>

text \<open>\<open>delay\<close>: the bytes it sends, with their ports. \<open>status\<close> is what the k-th read of the status gives.\<close>

partial_function (option) pit_poll :: "(nat \<Rightarrow> u8) \<Rightarrow> nat \<Rightarrow> (u16 \<times> u8) list \<Rightarrow> (u16 \<times> u8) list option" where
  "pit_poll status k out =
     (let out = out @ [(0x43, 0xE2)] in if status k AND 128 \<noteq> 0 then Some out else pit_poll status (Suc k) out)"

definition pit_delay :: "(nat \<Rightarrow> u8) \<Rightarrow> u32 \<Rightarrow> (u16 \<times> u8) list option" where
  "pit_delay status ms =
     (let v = (ucast (ms * 1193) :: u16) in
      pit_poll status 0 [(0x43, 0x30), (0x40, ucast v), (0x40, ucast (drop_bit 8 v))])"

section \<open>Local controller\<close>

record lapic =
  la_reg :: "u64 \<Rightarrow> u32"
  la_enable :: u8
  la_timerFrequency :: u64
  la_tickFems :: u64

definition REG_EOI :: u32 where "REG_EOI = 0xB0"
definition REG_SPURIOUS :: u32 where "REG_SPURIOUS = 0xF0"
definition REG_ICR :: u32 where "REG_ICR = 0x300"
definition REG_ICR_TARGET :: u32 where "REG_ICR_TARGET = 0x310"
definition REG_LVT_TIMER :: u32 where "REG_LVT_TIMER = 0x320"
definition REG_TIMER_INITIAL :: u32 where "REG_TIMER_INITIAL = 0x380"
definition REG_TIMER_DIVISOR :: u32 where "REG_TIMER_DIVISOR = 0x3E0"

definition writeLAPIC :: "lapic \<Rightarrow> u64 \<Rightarrow> u32 \<Rightarrow> u32 \<Rightarrow> lapic" where
  "writeLAPIC s base reg v = s\<lparr>la_reg := (la_reg s)(base + ucast reg := v)\<rparr>"

definition readLAPIC :: "lapic \<Rightarrow> u64 \<Rightarrow> u32 \<Rightarrow> u32" where
  "readLAPIC s base reg = la_reg s (base + ucast reg)"

partial_function (option) ipi_wait :: "(nat \<Rightarrow> u32) \<Rightarrow> nat \<Rightarrow> 's \<Rightarrow> 's option" where
  "ipi_wait icr k s = (if icr k AND push_bit 12 1 \<noteq> 0 then ipi_wait icr (Suc k) s else Some s)"

definition sendIPI :: "lapic \<Rightarrow> (nat \<Rightarrow> u32) \<Rightarrow> u64 \<Rightarrow> u8 \<Rightarrow> u32 \<Rightarrow> lapic option" where
  "sendIPI s icr base target v =
     (let s = writeLAPIC s base REG_ICR_TARGET (push_bit 24 (ucast target)) in
      ipi_wait icr 0 (writeLAPIC s base REG_ICR v))"

text \<open>\<open>edx\<close> is the feature word that \<open>cpuid\<close> returns.\<close>

definition lapic_isEnable :: "lapic \<Rightarrow> u32 \<Rightarrow> u64 option \<Rightarrow> (bool \<times> lapic) res" where
  "lapic_isEnable s edx cpu =
     (if la_enable s \<noteq> 2 then Inr (la_enable s \<noteq> 0, s)
      else if edx AND push_bit 9 1 = 0 then Inr (False, s\<lparr>la_enable := 0\<rparr>)
      else case cpu of None \<Rightarrow> Inl Panic
           | Some lApicAddress \<Rightarrow> if lApicAddress = 0 then Inr (False, s\<lparr>la_enable := 0\<rparr>)
                                  else Inr (True, s\<lparr>la_enable := 1\<rparr>))"

definition lapic_init :: "lapic \<Rightarrow> u64 option \<Rightarrow> lapic res" where
  "lapic_init s cpu = (case cpu of None \<Rightarrow> Inl Panic | Some base \<Rightarrow> Inr (writeLAPIC s base REG_SPURIOUS (0xFF OR 0x100)))"

definition lapic_sendEOI :: "lapic \<Rightarrow> u64 option \<Rightarrow> lapic res" where
  "lapic_sendEOI s cpu = (case cpu of None \<Rightarrow> Inl Panic | Some base \<Rightarrow> Inr (writeLAPIC s base REG_EOI 0))"

text \<open>\<open>current\<close> is the count that the timer has reached after the delay; \<open>Some (Inl e)\<close> is a fault after the delay.\<close>

definition calibrateTimer :: "lapic \<Rightarrow> u64 option \<Rightarrow> (nat \<Rightarrow> u8) \<Rightarrow> u32 \<Rightarrow> lapic res option" where
  "calibrateTimer s cpu status current =
     (case cpu of None \<Rightarrow> Some (Inl Panic)
      | Some base \<Rightarrow>
          let s = writeLAPIC s base REG_TIMER_DIVISOR 0b1011; s = writeLAPIC s base REG_TIMER_INITIAL 0xFFFFFFFF in
          Option.bind (pit_delay status 10) (\<lambda>out.
          let readValue = ucast current; elapsed = 0xFFFFFFFF - readValue; freq = elapsed * 100 in
          if freq = 0 then Some (Inl DivZero)
          else Some (Inr (s\<lparr>la_timerFrequency := freq, la_tickFems := 1000000000000000 div freq\<rparr>))))"

definition initTimer :: "lapic \<Rightarrow> u64 option \<Rightarrow> u8 \<Rightarrow> u8 \<Rightarrow> u64 \<Rightarrow> lapic res" where
  "initTimer s cpu vector mode ns = assert_res (la_tickFems s \<noteq> 0) (case cpu of None \<Rightarrow> Inl Panic
     | Some base \<Rightarrow>
         let s = writeLAPIC s base REG_LVT_TIMER (ucast vector OR push_bit 17 (ucast (mode AND 3)));
             v = (ns * 1000000) div la_tickFems s;
             (v, s) = (if v \<le> 0xFFFFFFFF then (v, writeLAPIC s base REG_TIMER_DIVISOR 0b1011)
                       else (v div 4, writeLAPIC s base REG_TIMER_DIVISOR 1)) in
         Inr (writeLAPIC s base REG_TIMER_INITIAL (ucast v)))"

section \<open>End of interrupt\<close>

definition intr_sendEOI :: "lapic \<times> irqs \<Rightarrow> u32 \<Rightarrow> u64 option \<Rightarrow> u8 \<Rightarrow> (lapic \<times> irqs) res" where
  "intr_sendEOI st edx cpu irq = (case st of (la, s) \<Rightarrow>
     bind_res (lapic_isEnable la edx cpu) (\<lambda>(on, la).
     if on then bind_res (lapic_sendEOI la cpu) (\<lambda>la. Inr (la, s))
     else bind_res (pic_sendEOI s irq) (\<lambda>s. Inr (la, s))))"

section \<open>Polling\<close>

lemma test_bit: "(x :: 'a :: len word) AND push_bit n 1 = 0 \<longleftrightarrow> \<not> bit x n"
  by (simp only: push_bit_of_1 and_exp_eq_0_iff_not_bit)

lemma ipi_wait_ends:
  assumes "\<not> bit (icr (k + n)) 12" "\<forall>j < n. bit (icr (k + j)) 12"
  shows "ipi_wait icr k s = Some s"
  using assms
proof (induction n arbitrary: k)
  case 0
  then show ?case by (subst ipi_wait.simps) (simp add: test_bit del: push_bit_of_1)
next
  case (Suc n)
  have "ipi_wait icr (Suc k) s = Some s" using Suc.IH [of "Suc k"] Suc.prems by (metis add_Suc add_Suc_right Suc_less_eq)
  moreover have "bit (icr k) 12" using Suc.prems(2) by (metis add_0_right zero_less_Suc)
  ultimately show ?case by (subst ipi_wait.simps) (simp add: test_bit del: push_bit_of_1)
qed

lemma ipi_wait_Some: "ipi_wait icr k s = Some s' \<Longrightarrow> \<exists>j. \<not> bit (icr j) 12"
  by (rule ipi_wait.raw_induct [of "\<lambda>icr k s s'. \<exists>j. \<not> bit (icr j) 12"])
    (auto simp: test_bit simp del: push_bit_of_1 split: if_splits)

lemma pit_poll_ends:
  assumes "bit (status (k + n)) 7" "\<forall>j < n. \<not> bit (status (k + j)) 7"
  shows "pit_poll status k out = Some (out @ replicate (Suc n) (0x43, 0xE2))"
proof -
  have t: "status k AND 128 = 0 \<longleftrightarrow> \<not> bit (status k) 7" for k using and_exp_eq_0_iff_not_bit [of "status k" 7] by simp
  show ?thesis using assms
  proof (induction n arbitrary: k out)
    case 0
    then show ?case by (subst pit_poll.simps) (simp add: t)
  next
    case (Suc n)
    have "pit_poll status (Suc k) (out @ [(0x43, 0xE2)]) = Some ((out @ [(0x43, 0xE2)]) @ replicate (Suc n) (0x43, 0xE2))"
      using Suc.IH [of "Suc k"] Suc.prems by (metis add_Suc add_Suc_right Suc_less_eq)
    moreover have "\<not> bit (status k) 7" using Suc.prems(2) by (metis add_0_right zero_less_Suc)
    ultimately show ?case by (subst pit_poll.simps) (simp add: t)
  qed
qed

text \<open>
  \<open>sendIPI\<close> ends exactly when the controller reports the delivery at some time; it has then written the
  target first and the command second, which starts the delivery, and no other register.
\<close>

theorem sendIPI_delivers:
  "(sendIPI s icr base target v \<noteq> None \<longleftrightarrow> (\<exists>k. \<not> bit (icr k) 12)) \<and>
   (\<forall>s'. sendIPI s icr base target v = Some s' \<longrightarrow>
      la_reg s' = (la_reg s)(base + 0x310 := push_bit 24 (ucast target), base + 0x300 := v))"
proof -
  define s1 where "s1 = writeLAPIC (writeLAPIC s base REG_ICR_TARGET (push_bit 24 (ucast target))) base REG_ICR v"
  have run: "sendIPI s icr base target v = ipi_wait icr 0 s1" by (simp add: sendIPI_def s1_def)
  have e: "ipi_wait icr 0 s1 = Some s1" if "\<exists>k. \<not> bit (icr k) 12"
  proof -
    define n where "n = (LEAST k. \<not> bit (icr k) 12)"
    have "\<not> bit (icr n) 12" unfolding n_def by (rule LeastI_ex [OF that])
    moreover have "\<forall>j < n. bit (icr j) 12" unfolding n_def using not_less_Least by blast
    ultimately show ?thesis using ipi_wait_ends [of icr 0 n s1] by simp
  qed
  have "la_reg s1 = (la_reg s)(base + 0x310 := push_bit 24 (ucast target), base + 0x300 := v)"
    by (simp add: s1_def writeLAPIC_def REG_ICR_def REG_ICR_TARGET_def)
  then show ?thesis unfolding run using e ipi_wait_Some [of icr 0 s1] by (cases "\<exists>k. \<not> bit (icr k) 12"; cases "ipi_wait icr 0 s1") auto
qed

definition sample_lapic :: lapic where
  "sample_lapic = \<lparr>la_reg = (\<lambda>_. 0), la_enable = 2, la_timerFrequency = 0, la_tickFems = 0\<rparr>"

theorem sendIPI_delivers_witness:
  "\<exists>s'. sendIPI sample_lapic (\<lambda>k. if k < 3 then 0x1000 else 0) 0xFEE00000 2 0x4500 = Some s' \<and>
     la_reg s' 0xFEE00310 = 0x2000000 \<and> la_reg s' 0xFEE00300 = 0x4500"
proof -
  let ?icr = "\<lambda>k :: nat. if k < 3 then 0x1000 else 0 :: u32"
  have "\<exists>k. \<not> bit (?icr k) 12" by (intro exI [of _ 3]) simp
  with sendIPI_delivers [of sample_lapic ?icr "0xFEE00000" 2 "0x4500"]
  obtain s' where "sendIPI sample_lapic ?icr 0xFEE00000 2 0x4500 = Some s'"
    "la_reg s' = (la_reg sample_lapic)(0xFEE00000 + 0x310 := push_bit 24 (ucast (2 :: u8)), 0xFEE00000 + 0x300 := 0x4500)" by blast
  then show ?thesis by simp
qed

section \<open>The interval of the timer\<close>

text \<open>The divider that a value of the divide configuration register means.\<close>

definition timer_divider :: "u32 \<Rightarrow> nat" where
  "timer_divider v = 2 ^ ((unat (v AND 3) + (if bit v 3 then 4 else 0) + 1) mod 8)"

text \<open>The length of a period of the timer, in femtoseconds, when a tick of the undivided clock takes \<open>t\<close>.\<close>

definition timer_period :: "lapic \<Rightarrow> u64 \<Rightarrow> nat \<Rightarrow> nat" where
  "timer_period s base t = unat (la_reg s (base + 0x380)) * timer_divider (la_reg s (base + 0x3E0)) * t"

lemma floor_bounds:
  fixes n t d :: nat
  assumes "0 < t" "0 < d" "c = n div t div d"
  shows "c * d * t \<le> n" "n < c * d * t + d * t"
proof -
  have c: "c = n div (d * t)" using assms(3) by (simp add: div_mult2_eq [symmetric] mult.commute)
  have "n = c * (d * t) + n mod (d * t)" unfolding c by (rule div_mult_mod_eq [symmetric])
  moreover have "n mod (d * t) < d * t" using assms(1,2) by simp
  ultimately show "c * d * t \<le> n" "n < c * d * t + d * t" by (simp_all add: mult.assoc)
qed

lemma unat_div_u64: "unat ((a :: u64) div b) = unat a div unat b"
  by (rule unat_div)

text \<open>
  \<open>initTimer\<close> programs the timer with the vector and mode given, and with a count and a divider whose period
  is at most the requested time and less than one divided tick shorter, as long as the number of ticks
  is below \<open>2 ^ 34\<close>; the divider is 4 instead of 1 exactly when the ticks do not fit into 32 bits.
\<close>

theorem initTimer_period:
  assumes "la_tickFems s \<noteq> 0" "unat ns * 1000000 < 2 ^ 64" "unat ns * 1000000 div unat (la_tickFems s) < 2 ^ 34"
  shows "\<exists>s'. initTimer s (Some base) vector mode ns = Inr s' \<and>
    la_reg s' (base + 0x320) = ucast vector OR push_bit 17 (ucast (mode AND 3)) \<and>
    timer_divider (la_reg s' (base + 0x3E0)) = (if unat ns * 1000000 div unat (la_tickFems s) < 2 ^ 32 then 1 else 4) \<and>
    timer_period s' base (unat (la_tickFems s)) \<le> unat ns * 1000000 \<and>
    unat ns * 1000000 < timer_period s' base (unat (la_tickFems s)) +
      timer_divider (la_reg s' (base + 0x3E0)) * unat (la_tickFems s)"
proof -
  let ?t = "unat (la_tickFems s)" and ?n = "unat ns * 1000000"
  define v where "v = (ns * 1000000) div la_tickFems s"
  have t: "0 < ?t" using assms(1) by (simp add: unat_eq_zero neq0_conv [symmetric] del: neq0_conv)
  have "unat (ns * 1000000) = ?n" using assms(2) by (simp only: unat_word_ariths(2)) simp
  then have v: "unat v = ?n div ?t" by (simp only: v_def unat_div_u64)
  define d :: nat where "d = (if unat v < 2 ^ 32 then 1 else 4)"
  define c where "c = (if v \<le> 0xFFFFFFFF then v else v div 4)"
  have le: "v \<le> 0xFFFFFFFF \<longleftrightarrow> unat v < 2 ^ 32" by (simp add: word_le_nat_alt) linarith
  have c: "unat c = unat v div d" by (simp add: c_def d_def le unat_div_u64)
  have "unat v div 4 < 2 ^ 32" using assms(3) v by (simp add: div_less_iff_less_mult)
  then have "unat c < 2 ^ 32" using c by (simp add: d_def split: if_splits)
  then have uc: "unat (ucast c :: u32) = unat c" by (simp add: unsigned_ucast_eq take_bit_nat_eq_self)
  define s' where "s' = writeLAPIC (writeLAPIC (writeLAPIC s base REG_LVT_TIMER (ucast vector OR push_bit 17 (ucast (mode AND 3)))) base
    REG_TIMER_DIVISOR (if v \<le> 0xFFFFFFFF then 0b1011 else 1)) base REG_TIMER_INITIAL (ucast c)"
  have "initTimer s (Some base) vector mode ns = Inr s'"
    using assms(1) by (simp add: initTimer_def s'_def c_def v_def Let_def writeLAPIC_def)
  moreover have "la_reg s' (base + 0x320) = ucast vector OR push_bit 17 (ucast (mode AND 3))" "la_reg s' (base + 0x380) = ucast c"
    "la_reg s' (base + 0x3E0) = (if v \<le> 0xFFFFFFFF then 0b1011 else 1)"
    by (simp_all add: s'_def writeLAPIC_def REG_LVT_TIMER_def REG_TIMER_DIVISOR_def REG_TIMER_INITIAL_def)
  moreover from this have dv: "timer_divider (la_reg s' (base + 0x3E0)) = d" by (simp add: timer_divider_def d_def le)
  moreover from calculation(3) have "timer_period s' base ?t = unat c * d * ?t" using dv uc by (simp add: timer_period_def)
  moreover have "0 < d" by (simp add: d_def)
  ultimately show ?thesis using floor_bounds [OF t _ c [unfolded v]] d_def v by (intro exI [of _ s']) simp
qed

theorem initTimer_period_witness:
  "\<exists>s'. initTimer (sample_lapic\<lparr>la_tickFems := 1000000\<rparr>) (Some 0xFEE00000) 32 1 10000000 = Inr s' \<and>
    la_reg s' 0xFEE00320 = 0x20020 \<and> timer_period s' 0xFEE00000 1000000 \<le> 10000000000000"
  using initTimer_period [of "sample_lapic\<lparr>la_tickFems := 1000000\<rparr>" 10000000 "0xFEE00000" 32 1] by (auto simp: sample_lapic_def)

end
