(* ===== verification/Keyboard.thy ===== *)
theory Keyboard
  imports Lapic Terminal KBytes
begin

text \<open>
  \<open>modules/ps2/main.cpp\<close>: the keyboard driver. The tables are those of the source, with the trailing places
  that the initialisers leave out filled with zero. What the status and data ports give is an argument of
  the interrupt handler; the static flag \<open>shifting\<close>, the console and the interrupt controllers are its state.
\<close>

section \<open>Tables\<close>

definition kbd_map :: "u8 list" where
  "kbd_map =
    [0, 27, 38, 101, 34, 39, 40, 45, 101, 95, 99, 97, 41, 61, 8, 9, 97, 122, 101, 114,
     116, 121, 117, 105, 111, 112, 94, 36, 10, 0, 113, 115, 100, 102, 103, 104, 106, 107, 108, 109,
     117, 0, 0, 42, 119, 120, 99, 118, 98, 110, 44, 59, 58, 33, 0, 42, 0, 32, 0, 0,
     0, 0, 0, 0, 0, 0, 0, 0, 0, 0, 0, 0, 0, 0, 45, 0, 0, 0, 43, 0,
     0, 0, 0, 0, 0, 0, 0, 0, 0, 0]
    @ replicate 38 0"

definition kbd_shiftMap :: "u8 list" where
  "kbd_shiftMap =
    [0, 27, 49, 50, 51, 52, 53, 54, 55, 56, 57, 48, 0, 43, 8, 9, 65, 90, 69, 82,
     84, 89, 85, 73, 79, 80, 0, 0, 10, 0, 81, 83, 68, 70, 71, 72, 74, 75, 76, 77,
     0, 0, 0, 0, 87, 88, 67, 86, 66, 78, 63, 46, 47, 0, 0, 0, 0, 32, 0, 0,
     0, 0, 0, 0, 0, 0, 0, 0, 0, 0, 0, 0, 0, 0, 45, 0, 0, 0, 43, 0,
     0, 0, 0, 0, 0, 0, 0, 0, 0, 0]
    @ replicate 38 0"

section \<open>Operations\<close>

record kbd =
  kb_shifting :: bool
  kb_console :: console
  kb_lapic :: lapic
  kb_irqs :: irqs

text \<open>The part of the handler behind the test of the status; a key code outside the table is a fault.\<close>

definition kbd_key :: "kbd \<Rightarrow> u8 \<Rightarrow> kbd res" where
  "kbd_key s keycode =
     (if keycode = 42 \<or> keycode = 54 then Inr (s\<lparr>kb_shifting := True\<rparr>)
      else if keycode = 170 \<or> keycode = 182 then Inr (s\<lparr>kb_shifting := False\<rparr>)
      else if keycode \<le> 128
      then let table = (if \<not> kb_shifting s then kbd_map else kbd_shiftMap) in
           if unat keycode < length table
           then let key = table ! unat keycode in
                if key \<noteq> 0 then bind_res (printChar (kb_console s) (byte_char key)) (\<lambda>t. Inr (s\<lparr>kb_console := t\<rparr>)) else Inr s
           else Inl BadAccess
      else Inr s)"

definition kbd_interruptHandler :: "kbd \<Rightarrow> u32 \<Rightarrow> u64 option \<Rightarrow> u8 \<Rightarrow> u8 \<Rightarrow> kbd res" where
  "kbd_interruptHandler s edx cpu status data =
     bind_res (if status AND 1 \<noteq> 0 then kbd_key s data else Inr s) (\<lambda>s.
     bind_res (intr_sendEOI (kb_lapic s, kb_irqs s) edx cpu 1) (\<lambda>(la, i). Inr (s\<lparr>kb_lapic := la, kb_irqs := i\<rparr>)))"

text \<open>\<open>init\<close> and \<open>unload\<close> of the module; \<open>handler\<close> is the address of the handler.\<close>

definition kbd_init :: "kbd \<Rightarrow> u8 \<Rightarrow> u64 \<Rightarrow> (int \<times> kbd) res" where
  "kbd_init s lApicID handler = bind_res (addEntry (kb_irqs s) lApicID 33 handler) (\<lambda>i. Inr (0, s\<lparr>kb_irqs := i\<rparr>))"

definition kbd_unload :: "kbd \<Rightarrow> kbd res" where
  "kbd_unload s = bind_res (removeEntry (kb_irqs s) 33) (\<lambda>i. Inr (s\<lparr>kb_irqs := i\<rparr>))"

section \<open>What is typed\<close>

text \<open>The text that a sequence of key codes means: presses and releases of the shift keys select the table, other releases mean nothing.\<close>

fun typed :: "bool \<Rightarrow> u8 list \<Rightarrow> string" where
  "typed shift [] = []"
| "typed shift (k # ks) =
     (if k = 42 \<or> k = 54 then typed True ks
      else if k = 170 \<or> k = 182 then typed False ks
      else if 128 \<le> k then typed shift ks
      else let key = (if shift then kbd_shiftMap else kbd_map) ! unat k in
           if key = 0 then typed shift ks else byte_char key # typed shift ks)"

definition kbd_run :: "u32 \<Rightarrow> u64 \<Rightarrow> kbd \<Rightarrow> u8 list \<Rightarrow> kbd res" where
  "kbd_run edx base s ks = for_each (\<lambda>s k. kbd_interruptHandler s edx (Some base) 1 k) ks s"

lemma kbd_tables: "length kbd_map = 128" "length kbd_shiftMap = 128"
  by (simp_all add: kbd_map_def kbd_shiftMap_def)

text \<open>With an enabled local controller the handler ends with the end of interrupt.\<close>

lemma kbd_handler_enabled:
  assumes "la_enable (kb_lapic s) = 1"
  shows "kbd_interruptHandler s edx (Some base) 1 k =
    bind_res (kbd_key s k) (\<lambda>s'. Inr (s'\<lparr>kb_lapic := writeLAPIC (kb_lapic s) base REG_EOI 0\<rparr>))"
proof -
  have "kb_lapic s' = kb_lapic s" if "kbd_key s k = Inr s'" for s'
    using that by (auto simp: kbd_key_def Let_def bind_res_eq_Inr split: if_splits)
  then show ?thesis using assms
    by (cases "kbd_key s k") (auto simp: kbd_interruptHandler_def intr_sendEOI_def lapic_isEnable_def lapic_sendEOI_def)
qed

lemma kbd_key_typed:
  assumes "k \<noteq> 128"
  shows "bind_res (kbd_key s k) (\<lambda>s'. printStr (kb_console s') (typed (kb_shifting s') ks)) =
    printStr (kb_console s) (typed (kb_shifting s) (k # ks))"
proof -
  have u: "unat k < 128 \<longleftrightarrow> \<not> 128 \<le> k" by (simp add: word_le_nat_alt not_le)
  have n: "k \<le> 128 \<longleftrightarrow> \<not> 128 \<le> k" using assms by auto
  define t where "t = (if kb_shifting s then kbd_shiftMap else kbd_map)"
  have t: "(if \<not> kb_shifting s then kbd_map else kbd_shiftMap) = t" "length t = 128" by (simp_all add: t_def kbd_tables)
  show ?thesis unfolding kbd_key_def t(1) typed.simps t_def [symmetric] Let_def n t(2) u
    by (simp add: bind_res_def split: sum.splits if_splits)
qed

text \<open>
  Running the keyboard handler on any sequence of key codes other than 128 prints exactly the text that the
  codes mean, character by character, and stops the kernel only where printing that text does. The code 128 is
  read behind the end of the table.
\<close>

theorem keyboard_types:
  assumes "la_enable (kb_lapic s) = 1" "128 \<notin> set ks"
  shows "bind_res (kbd_run edx base s ks) (\<lambda>s'. Inr (kb_console s')) = printStr (kb_console s) (typed (kb_shifting s) ks) \<and>
    kbd_run edx base s [128] = Inl BadAccess"
proof
  show "bind_res (kbd_run edx base s ks) (\<lambda>s'. Inr (kb_console s')) = printStr (kb_console s) (typed (kb_shifting s) ks)"
    using assms
  proof (induction ks arbitrary: s)
    case (Cons k ks)
    show ?case
    proof (cases "kbd_key s k")
      case (Inl e)
      then show ?thesis using kbd_key_typed [of k s ks] Cons.prems by (simp add: kbd_run_def kbd_handler_enabled)
    next
      case (Inr s1)
      let ?s = "s1\<lparr>kb_lapic := writeLAPIC (kb_lapic s) base REG_EOI 0\<rparr>"
      have "bind_res (kbd_run edx base ?s ks) (\<lambda>s'. Inr (kb_console s')) = printStr (kb_console s1) (typed (kb_shifting s1) ks)"
        using Cons.IH [of ?s] Cons.prems by (simp add: writeLAPIC_def)
      then show ?thesis using Inr kbd_key_typed [of k s ks] Cons.prems by (simp add: kbd_run_def kbd_handler_enabled)
    qed
  qed (simp add: kbd_run_def)
  show "kbd_run edx base s [128] = Inl BadAccess"
    using assms(1) by (simp add: kbd_run_def kbd_handler_enabled kbd_key_def Let_def kbd_tables)
qed

definition sample_kbd :: kbd where
  "sample_kbd = \<lparr>kb_shifting = False, kb_console = sample_console, kb_lapic = sample_lapic\<lparr>la_enable := 1\<rparr>, kb_irqs = sample_irqs\<rparr>"

text \<open>The codes of A, shift, A, release: the text is a small and a capital letter.\<close>

theorem keyboard_types_witness:
  "bind_res (kbd_run 0 0xFEE00000 sample_kbd [16, 144, 42, 16, 144, 170]) (\<lambda>s'. Inr (kb_console s')) =
    printStr sample_console ''aA''"
proof -
  have "byte_char 97 = CHR ''a''" "byte_char 65 = CHR ''A''"
    using byte_char_of_char [of "CHR ''a''"] byte_char_of_char [of "CHR ''A''"] by simp_all
  then have "typed False [16, 144, 42, 16, 144, 170] = ''aA''"
    by (simp add: kbd_map_def kbd_shiftMap_def nth_append)
  with keyboard_types [of sample_kbd "[16, 144, 42, 16, 144, 170]" 0 "0xFEE00000"] show ?thesis by (simp add: sample_kbd_def)
qed

end
