(* ===== verification/Modules.thy ===== *)
theory Modules
  imports Elf Symbols
begin

text \<open>
  The loader of kernel modules of \<open>kernel/scheduler/elf.cpp\<close>: it reads the tables of a relocatable object,
  places its sections in the module space, resolves its symbols against the kernel's, applies the
  relocations and calls the module's \<open>init\<close>. The tables are lists of records parsed from the bytes read;
  an index outside them is a fault. The module space is kernel memory, addressed by virtual addresses; a
  store there faults when the page tables do not map the address writable. What the module's code does
  is an argument, \<open>run\<close>. Messages of the log are left out.
\<close>

section \<open>Structures of the file\<close>

record elf_shdr =
  sh_name :: nat
  sh_type :: nat
  sh_flags :: nat
  sh_addr :: u64
  sh_offset :: nat
  sh_size :: nat
  sh_link :: nat
  sh_info :: nat
  sh_addralign :: nat
  sh_entsize :: nat

definition sizeof_Elf64_Shdr :: nat where "sizeof_Elf64_Shdr = 64"

definition parse_shdr :: "u8 list \<Rightarrow> nat \<Rightarrow> elf_shdr" where
  "parse_shdr bs o' = \<lparr>sh_name = u32_at bs o', sh_type = u32_at bs (o' + 4), sh_flags = u64_at bs (o' + 8),
     sh_addr = of_nat (u64_at bs (o' + 16)), sh_offset = u64_at bs (o' + 24), sh_size = u64_at bs (o' + 32),
     sh_link = u32_at bs (o' + 40), sh_info = u32_at bs (o' + 44), sh_addralign = u64_at bs (o' + 48),
     sh_entsize = u64_at bs (o' + 56)\<rparr>"

record elf_sym =
  st_name :: nat
  st_info :: nat
  st_other :: nat
  st_shndx :: nat
  st_value :: u64
  st_size :: nat

definition sizeof_Elf64_Sym :: nat where "sizeof_Elf64_Sym = 24"

definition parse_sym :: "u8 list \<Rightarrow> nat \<Rightarrow> elf_sym" where
  "parse_sym bs o' = \<lparr>st_name = u32_at bs o', st_info = u8_at bs (o' + 4), st_other = u8_at bs (o' + 5),
     st_shndx = u16_at bs (o' + 6), st_value = of_nat (u64_at bs (o' + 8)), st_size = u64_at bs (o' + 16)\<rparr>"

record elf_rela =
  r_offset :: u64
  r_info :: u64
  r_addend :: u64

definition sizeof_Elf64_Rela :: nat where "sizeof_Elf64_Rela = 24"

definition parse_rela :: "u8 list \<Rightarrow> nat \<Rightarrow> elf_rela" where
  "parse_rela bs o' = \<lparr>r_offset = of_nat (u64_at bs o'), r_info = of_nat (u64_at bs (o' + 8)), r_addend = of_nat (u64_at bs (o' + 16))\<rparr>"

definition SHT_PROGBITS :: nat where "SHT_PROGBITS = 1"
definition SHT_SYMTAB :: nat where "SHT_SYMTAB = 2"
definition SHT_STRTAB :: nat where "SHT_STRTAB = 3"
definition SHT_RELA :: nat where "SHT_RELA = 4"
definition SHT_NOBITS :: nat where "SHT_NOBITS = 8"
definition SHF_ALLOC :: nat where "SHF_ALLOC = 2"
definition SHN_UNDEF :: nat where "SHN_UNDEF = 0"
definition SHN_LOPROC :: nat where "SHN_LOPROC = 0xFF00"
definition R_X86_64_64 :: u64 where "R_X86_64_64 = 1"

definition ELF64_R_SYM :: "u64 \<Rightarrow> nat" where "ELF64_R_SYM i = unat (drop_bit 32 i)"
definition ELF64_R_TYPE :: "u64 \<Rightarrow> u64" where "ELF64_R_TYPE i = i AND 0xFFFFFFFF"

text \<open>The complete entries of a table in a buffer, and access by index.\<close>

definition table :: "(u8 list \<Rightarrow> nat \<Rightarrow> 'a) \<Rightarrow> nat \<Rightarrow> u8 list \<Rightarrow> 'a list" where
  "table parse sz bs = map (\<lambda>i. parse bs (i * sz)) [0..<length bs div sz]"

definition nth_res :: "'a list \<Rightarrow> nat \<Rightarrow> 'a res" where
  "nth_res xs i = (if i < length xs then Inr (xs ! i) else Inl BadAccess)"

section \<open>State\<close>

record module_entry =
  me_data :: u64
  me_address :: u64
  me_size :: u32

record modules =
  md_vm :: vmem
  md_space :: aspace
  md_cur :: u64
  md_mem :: kmem
  md_map :: "(string, module_entry) hashMap"

definition modules_init :: "modules \<Rightarrow> modules" where
  "modules_init s = s\<lparr>md_map := hm_new_sized 10\<rparr>"

text \<open>Stores of the kernel at virtual addresses.\<close>

definition writable :: "vmem \<Rightarrow> aspace \<Rightarrow> u64 \<Rightarrow> nat \<Rightarrow> bool" where
  "writable m space va n = list_all (\<lambda>k. case mmu m space (va + of_nat k) of None \<Rightarrow> False | Some e \<Rightarrow> pml_writable e) [0..<n]"

definition vstore :: "vmem \<Rightarrow> aspace \<Rightarrow> kmem \<Rightarrow> u64 \<Rightarrow> u8 list \<Rightarrow> kmem res" where
  "vstore m space mem va bs = (if writable m space va (length bs) then Inr (store_bytes mem va bs) else Inl BadAccess)"

section \<open>Loading a module\<close>

text \<open>The contents of a section, read into a buffer of its size.\<close>

definition read_section :: "junk \<Rightarrow> device \<Rightarrow> elf_shdr \<Rightarrow> u8 list res" where
  "read_section junk file s =
     bind_res (dev_into file (sh_offset s) (sh_size s) (fresh_buf junk (sh_size s))) (\<lambda>(r, data). assert_res (r > 0) (Inr data))"

text \<open>The string tables: that of the section names, and the others with their section numbers.\<close>

definition load_strtabs :: "junk \<Rightarrow> device \<Rightarrow> elf_header \<Rightarrow> elf_shdr list \<Rightarrow> (u8 list option \<times> (nat \<times> u8 list) list) res" where
  "load_strtabs junk file h secs =
     for_each (\<lambda>(names, tabs) i. bind_res (nth_res secs i) (\<lambda>s.
       if sh_type s \<noteq> SHT_STRTAB then Inr (names, tabs)
       else bind_res (read_section junk file s) (\<lambda>data.
            if i = e_shstrndx h then assert_res (names = None) (Inr (Some data, tabs)) else Inr (names, tabs @ [(i, data)]))))
       [0..<e_shnum h] (None, [])"

fun find_symtab :: "junk \<Rightarrow> device \<Rightarrow> elf_shdr list \<Rightarrow> nat list \<Rightarrow> (nat \<times> elf_sym list) option res" where
  "find_symtab junk file secs [] = Inr None"
| "find_symtab junk file secs (i # is') = bind_res (nth_res secs i) (\<lambda>s.
     if sh_type s \<noteq> SHT_SYMTAB then find_symtab junk file secs is'
     else bind_res (read_section junk file s) (\<lambda>data. Inr (Some (i, table parse_sym sizeof_Elf64_Sym data))))"

definition module_size :: "elf_header \<Rightarrow> elf_shdr list \<Rightarrow> u32 res" where
  "module_size h secs = for_each (\<lambda>sz i. bind_res (nth_res secs i) (\<lambda>s.
     Inr (if sh_flags s AND SHF_ALLOC \<noteq> 0 then sz + of_nat (sh_size s) else sz))) [0..<e_shnum h] 0"

text \<open>Placing a section: its contents or zeros are stored at the current address, which becomes the section's.\<close>

definition place_section :: "device \<Rightarrow> vmem \<Rightarrow> aspace \<Rightarrow> elf_shdr list \<times> kmem \<times> u64 \<Rightarrow> nat \<Rightarrow> (elf_shdr list \<times> kmem \<times> u64) res" where
  "place_section file m space st i = (case st of (secs, mem, cur) \<Rightarrow>
     bind_res (nth_res secs i) (\<lambda>s.
     if sh_type s = SHT_PROGBITS
     then let (r, bs) = file (of_nat (sh_offset s)) (of_nat (sh_size s)) in
          bind_res (vstore m space mem cur bs) (\<lambda>mem. assert_res (r > 0) (
          Inr (secs[i := s\<lparr>sh_addr := cur\<rparr>], mem, cur + of_nat (sh_size s))))
     else if sh_type s = SHT_NOBITS
     then bind_res (vstore m space mem cur (replicate (sh_size s) 0)) (\<lambda>mem.
          Inr (secs[i := s\<lparr>sh_addr := cur\<rparr>], mem, cur + of_nat (sh_size s)))
     else Inr (secs, mem, cur)))"

definition place_sections :: "device \<Rightarrow> vmem \<Rightarrow> aspace \<Rightarrow> elf_header \<Rightarrow> elf_shdr list \<Rightarrow> kmem \<Rightarrow> u64 \<Rightarrow> (elf_shdr list \<times> kmem \<times> u64) res" where
  "place_sections file m space h secs mem loadAddress = for_each (place_section file m space) [0..<e_shnum h] (secs, mem, loadAddress)"

text \<open>The value of one symbol: from the kernel's table when it is undefined and has a name, relative to its section otherwise.\<close>

definition symbol_value :: "symtab \<Rightarrow> elf_shdr list \<Rightarrow> u8 list \<Rightarrow> elf_sym \<Rightarrow> u64 res option" where
  "symbol_value ksyms secs strs y =
     (if st_shndx y = SHN_UNDEF
      then if st_name y \<noteq> 0
           then bind_opt (Some (cstr_in strs (st_name y))) (\<lambda>name. bind_opt (symbols_get ksyms name) (\<lambda>v.
                Some (assert_res (v \<noteq> 0) (Inr v))))
           else Some (Inr (st_value y))
      else if st_shndx y < SHN_LOPROC
      then Some (bind_res (nth_res secs (st_shndx y)) (\<lambda>s. Inr (sh_addr s + st_value y)))
      else Some (Inr (st_value y)))"

fun resolve_symbols :: "symtab \<Rightarrow> elf_shdr list \<Rightarrow> u8 list \<Rightarrow> nat list \<Rightarrow> elf_sym list \<times> u64 \<Rightarrow> (elf_sym list \<times> u64) res option" where
  "resolve_symbols ksyms secs strs [] st = Some (Inr st)"
| "resolve_symbols ksyms secs strs (i # is') (syms, module) =
     bind_opt (Some (nth_res syms i)) (\<lambda>y.
     bind_opt (symbol_value ksyms secs strs y) (\<lambda>v.
     bind_opt (Some (cstr_in strs (st_name y))) (\<lambda>name.
     resolve_symbols ksyms secs strs is' (syms[i := y\<lparr>st_value := v\<rparr>], if name = ''__module'' then v else module))))"

text \<open>One relocation of a section.\<close>

definition relocate :: "vmem \<Rightarrow> aspace \<Rightarrow> elf_sym list \<Rightarrow> elf_shdr res \<Rightarrow> kmem \<Rightarrow> elf_rela \<Rightarrow> kmem res" where
  "relocate m space syms section mem rel =
     bind_res section (\<lambda>sec.
     let target = r_offset rel + sh_addr sec in
     if ELF64_R_TYPE (r_info rel) = R_X86_64_64
     then bind_res (nth_res syms (ELF64_R_SYM (r_info rel))) (\<lambda>sym.
          vstore m space mem target (le_bytes 8 (unat (st_value sym + r_addend rel))))
     else Inl Panic)"

definition relocate_section :: "junk \<Rightarrow> device \<Rightarrow> vmem \<Rightarrow> aspace \<Rightarrow> elf_shdr list \<Rightarrow> elf_sym list \<Rightarrow> kmem \<Rightarrow> nat \<Rightarrow> kmem res" where
  "relocate_section junk file m space secs syms mem i = bind_res (nth_res secs i) (\<lambda>s.
     if sh_type s \<noteq> SHT_RELA then Inr mem
     else bind_res (read_section junk file s) (\<lambda>data.
          let rela = table parse_rela sizeof_Elf64_Rela data in
          if sh_entsize s = 0 then Inl DivZero
          else for_each (\<lambda>mem k. bind_res (nth_res rela k) (relocate m space syms (nth_res secs (sh_info s)) mem))
                 [0..<sh_size s div sh_entsize s] mem))"

definition header_ok :: "elf_header \<Rightarrow> bool" where
  "header_ok h \<longleftrightarrow> take 4 (e_ident h) = ELFMAG \<and> e_ident h ! 4 = ELFCLASS64 \<and> e_ident h ! 5 = ELFDATA2LSB \<and> e_type h = ET_REL"

definition loadModule :: "junk \<Rightarrow> (kmem \<Rightarrow> u64 \<Rightarrow> kmem \<times> int) \<Rightarrow> symtab \<Rightarrow> device \<Rightarrow> modules \<Rightarrow> (bool \<times> modules) res option" where
  "loadModule junk run ksyms file st =
     bind_opt (Some (dev_into file 0 sizeof_Elf64_Header (fresh_buf junk sizeof_Elf64_Header))) (\<lambda>(r, hb).
     let h = parse_header hb in
     bind_opt (Some (assert_res (r > 0) (Inr ()))) (\<lambda>_.
     if \<not> header_ok h then Some (Inr (False, st))
     else
     let sz = e_shnum h * e_shentsize h in
     bind_opt (Some (dev_into file (e_shoff h) sz (fresh_buf junk sz))) (\<lambda>(r, sb).
     let secs = table parse_shdr sizeof_Elf64_Shdr sb in
     bind_opt (Some (assert_res (r > 0) (load_strtabs junk file h secs))) (\<lambda>(names, tabs).
     bind_opt (Some (assert_res (names \<noteq> None) (find_symtab junk file secs [0..<e_shnum h]))) (\<lambda>found.
     case found of None \<Rightarrow> Some (Inl Panic)
     | Some (symIndex, syms) \<Rightarrow>
     bind_opt (Some (module_size h secs)) (\<lambda>size.
     bind_opt (Some (allocModuleSpace (md_vm st) (md_space st) (md_cur st) (ucast size))) (\<lambda>(load, m, space, cur).
     let loadAddress = (case load of None \<Rightarrow> 0 | Some a \<Rightarrow> a) in
     bind_opt (Some (place_sections file m space h secs (md_mem st) loadAddress)) (\<lambda>(secs, mem, _).
     bind_opt (Some (nth_res secs symIndex)) (\<lambda>symsec.
     case map_of tabs (sh_link symsec) of None \<Rightarrow> Some (Inl Panic)
     | Some strs \<Rightarrow>
     bind_opt (Some (if sh_entsize symsec = 0 then Inl DivZero else Inr (sh_size symsec div sh_entsize symsec))) (\<lambda>n.
     bind_opt (resolve_symbols ksyms secs strs [0..<n] (syms, 0)) (\<lambda>(syms, module).
     bind_opt (Some (assert_res (module \<noteq> 0) (for_each (relocate_section junk file m space secs syms) [0..<e_shnum h] mem))) (\<lambda>mem.
     case run mem module of (mem, r) \<Rightarrow>
     let st = st\<lparr>md_vm := m, md_space := space, md_cur := cur, md_mem := mem\<rparr> in
     if r \<noteq> 0 then Some (Inr (False, st))
     else bind_opt (case cstr_at mem (load64 mem module) of None \<Rightarrow> None | Some name \<Rightarrow> Some (Inr name)) (\<lambda>name.
          bind_opt (Some (hm_set hash_string (md_map st) name \<lparr>me_data = module, me_address = loadAddress, me_size = size\<rparr>)) (\<lambda>mp.
          Some (Inr (True, st\<lparr>md_map := mp\<rparr>))))))))))))))))"

section \<open>Placing the sections\<close>

definition loaded :: "elf_shdr \<Rightarrow> bool" where
  "loaded s \<longleftrightarrow> sh_type s = SHT_PROGBITS \<or> sh_type s = SHT_NOBITS"

definition contents :: "device \<Rightarrow> elf_shdr \<Rightarrow> u8 list" where
  "contents file s = (if sh_type s = SHT_PROGBITS then snd (file (of_nat (sh_offset s)) (of_nat (sh_size s))) else replicate (sh_size s) 0)"

text \<open>The place of a section: behind the loaded sections before it.\<close>

definition place_of :: "elf_shdr list \<Rightarrow> nat \<Rightarrow> nat" where
  "place_of secs k = sum_list (map (\<lambda>s. if loaded s then sh_size s else 0) (take k secs))"

text \<open>A section whose contents the file gives completely, and that has contents.\<close>

definition section_ok :: "device \<Rightarrow> elf_shdr \<Rightarrow> bool" where
  "section_ok file s \<longleftrightarrow> (sh_type s = SHT_PROGBITS \<longrightarrow> 0 < sh_size s \<and>
     (\<exists>bs. file (of_nat (sh_offset s)) (of_nat (sh_size s)) = (int (sh_size s), bs) \<and> length bs = sh_size s))"

lemma place_of_Suc:
  "k < length secs \<Longrightarrow> place_of secs (Suc k) = place_of secs k + (if loaded (secs ! k) then sh_size (secs ! k) else 0)"
  by (simp add: place_of_def take_Suc_conv_app_nth)

lemma place_of_mono: "k \<le> n \<Longrightarrow> place_of secs k \<le> place_of secs n"
proof -
  assume "k \<le> n"
  then have "take n secs = take k secs @ take (n - k) (drop k secs)" by (metis le_add_diff_inverse take_add)
  then show ?thesis by (simp add: place_of_def)
qed

lemma length_contents: "section_ok file s \<Longrightarrow> loaded s \<Longrightarrow> length (contents file s) = sh_size s"
  by (auto simp: section_ok_def loaded_def contents_def)

text \<open>Stores and what they leave alone, at offsets from an address.\<close>

lemma store_bytes_offset:
  assumes "o' + length bs \<le> 2 ^ 64" "i < 2 ^ 64"
  shows "store_bytes mem (a + of_nat o') bs (a + of_nat i) =
    (if o' \<le> i \<and> i < o' + length bs then bs ! (i - o') else mem (a + of_nat i))"
proof -
  have d: "(a + of_nat i) - (a + of_nat o') = (of_nat i - of_nat o' :: u64)" by simp
  show ?thesis
  proof (cases "o' \<le> i")
    case True
    then have "(of_nat i - of_nat o' :: u64) = of_nat (i - o')" by (simp add: of_nat_diff)
    moreover have "unat (of_nat (i - o') :: u64) = i - o'" using assms(2) by (intro unat_of_nat_u64) simp
    ultimately show ?thesis unfolding store_bytes_def d using True by auto
  next
    case False
    then have o: "o' < 2 ^ 64 \<or> length bs = 0" using assms(1) by linarith
    show ?thesis
    proof (cases "length bs = 0")
      case False
      then have o64: "o' < 2 ^ 64" using o by blast
      have "(of_nat i - of_nat o' :: u64) = of_nat (2 ^ 64 - (o' - i))"
      proof -
        have "i + 2 ^ 64 - o' = 2 ^ 64 - (o' - i)" using \<open>\<not> o' \<le> i\<close> o64 by linarith
        moreover have "(of_nat (i + 2 ^ 64 - o') :: u64) = of_nat i + of_nat (2 ^ 64) - of_nat o'" using o64 by (subst of_nat_diff) (simp_all del: of_nat_power)
        moreover have "(of_nat (2 ^ 64) :: u64) = 0" by (simp add: word_unat_eq_iff unsigned_of_nat take_bit_eq_mod)
        ultimately show ?thesis by simp
      qed
      moreover have "unat (of_nat (2 ^ 64 - (o' - i)) :: u64) = 2 ^ 64 - (o' - i)" using \<open>\<not> o' \<le> i\<close> by (intro unat_of_nat_u64) simp
      moreover have "length bs \<le> 2 ^ 64 - (o' - i)" using assms(1) \<open>\<not> o' \<le> i\<close> by linarith
      ultimately have "length bs \<le> unat (of_nat i - of_nat o' :: u64)" by (simp only:)
      then show ?thesis unfolding store_bytes_def d using \<open>\<not> o' \<le> i\<close> by simp
    qed (use \<open>\<not> o' \<le> i\<close> in \<open>simp add: store_bytes_def\<close>)
  qed
qed

lemma writable_part:
  assumes "writable m space a n" "o' + k \<le> n"
  shows "writable m space (a + of_nat o') k"
proof -
  have "case mmu m space (a + of_nat o' + of_nat i) of None \<Rightarrow> False | Some e \<Rightarrow> pml_writable e" if "i < k" for i
  proof -
    have "case mmu m space (a + of_nat (o' + i)) of None \<Rightarrow> False | Some e \<Rightarrow> pml_writable e"
      using assms that by (simp add: writable_def list_all_iff del: of_nat_add)
    then show ?thesis by (simp add: add.assoc)
  qed
  then show ?thesis by (simp add: writable_def list_all_iff)
qed

text \<open>The state after the first \<open>k\<close> sections.\<close>

definition placed :: "device \<Rightarrow> elf_shdr list \<Rightarrow> kmem \<Rightarrow> u64 \<Rightarrow> nat \<Rightarrow> elf_shdr list \<times> kmem \<times> u64 \<Rightarrow> bool" where
  "placed file secs mem a k st \<longleftrightarrow> (case st of (secs', mem', cur) \<Rightarrow> cur = a + of_nat (place_of secs k) \<and> length secs' = length secs \<and>
     (\<forall>j < length secs. secs' ! j = (if j < k \<and> loaded (secs ! j) then (secs ! j)\<lparr>sh_addr := a + of_nat (place_of secs j)\<rparr> else secs ! j)) \<and>
     (\<forall>j < k. loaded (secs ! j) \<longrightarrow> (\<forall>i < sh_size (secs ! j). mem' (a + of_nat (place_of secs j + i)) = contents file (secs ! j) ! i)) \<and>
     (\<forall>i. place_of secs k \<le> i \<and> i < 2 ^ 64 \<longrightarrow> mem' (a + of_nat i) = mem (a + of_nat i)))"

text \<open>One loaded section.\<close>

lemma place_section_loaded:
  assumes "loaded (secs' ! k)" "k < length secs'" "section_ok file (secs' ! k)" "writable m space cur (sh_size (secs' ! k))"
  shows "place_section file m space (secs', mem', cur) k = Inr (secs'[k := (secs' ! k)\<lparr>sh_addr := cur\<rparr>],
    store_bytes mem' cur (contents file (secs' ! k)), cur + of_nat (sh_size (secs' ! k)))"
proof -
  have l: "length (contents file (secs' ! k)) = sh_size (secs' ! k)" using length_contents assms(1,3) by blast
  show ?thesis
  proof (cases "sh_type (secs' ! k) = SHT_PROGBITS")
    case True
    then obtain bs where bs: "file (of_nat (sh_offset (secs' ! k))) (of_nat (sh_size (secs' ! k))) = (int (sh_size (secs' ! k)), bs)"
      "0 < sh_size (secs' ! k)" using assms(3) by (auto simp: section_ok_def)
    then have "contents file (secs' ! k) = bs" using True by (simp add: contents_def)
    then show ?thesis using True bs l assms(2,4) by (simp add: place_section_def nth_res_def vstore_def)
  next
    case False
    then have "contents file (secs' ! k) = replicate (sh_size (secs' ! k)) 0" "sh_type (secs' ! k) = SHT_NOBITS"
      using assms(1) by (simp_all add: contents_def loaded_def)
    then show ?thesis using False assms(2,4) by (simp add: place_section_def nth_res_def vstore_def)
  qed
qed

lemma place_step:
  assumes p: "placed file secs mem a k (secs', mem', cur)" and k: "k < length secs" and ok: "section_ok file (secs ! k)"
    and w: "writable m space a (place_of secs (length secs))" and n: "place_of secs (length secs) < 2 ^ 64"
  shows "\<exists>st. place_section file m space (secs', mem', cur) k = Inr st \<and> placed file secs mem a (Suc k) st"
proof -
  have cur: "cur = a + of_nat (place_of secs k)" and len: "length secs' = length secs" and sk: "secs' ! k = secs ! k"
    using p k by (simp_all add: placed_def)
  have le: "place_of secs (Suc k) \<le> place_of secs (length secs)" using k by (intro place_of_mono) simp
  show ?thesis
  proof (cases "loaded (secs ! k)")
    case True
    let ?c = "contents file (secs ! k)"
    have s: "place_of secs (Suc k) = place_of secs k + sh_size (secs ! k)" using place_of_Suc [OF k] True by simp
    have lc: "length ?c = sh_size (secs ! k)" using length_contents [OF ok True] .
    have "writable m space cur (sh_size (secs ! k))" unfolding cur using writable_part [OF w] le s by simp
    then have run: "place_section file m space (secs', mem', cur) k = Inr (secs'[k := (secs ! k)\<lparr>sh_addr := cur\<rparr>],
        store_bytes mem' cur ?c, cur + of_nat (sh_size (secs ! k)))"
      using place_section_loaded [of secs' k "file" m space cur mem'] True ok k len sk by simp
    have st: "store_bytes mem' cur ?c (a + of_nat i) =
        (if place_of secs k \<le> i \<and> i < place_of secs (Suc k) then ?c ! (i - place_of secs k) else mem' (a + of_nat i))"
      if "i < 2 ^ 64" for i
    proof -
      have "place_of secs k + length ?c \<le> 2 ^ 64" using le s n lc by linarith
      from store_bytes_offset [OF this that, of mem' a] show ?thesis by (simp only: cur s lc)
    qed
    have b: "store_bytes mem' cur ?c (a + of_nat (place_of secs j + i)) = contents file (secs ! j) ! i"
      if j: "j < Suc k" "loaded (secs ! j)" "i < sh_size (secs ! j)" for i j
    proof -
      have e: "place_of secs j + i < place_of secs (Suc j)" using place_of_Suc [of j secs] j k by simp
      moreover have "place_of secs (Suc j) \<le> place_of secs (Suc k)" using j(1) by (intro place_of_mono) simp
      ultimately have lt: "place_of secs j + i < 2 ^ 64" using le n by linarith
      show ?thesis
      proof (cases "j = k")
        case True
        then show ?thesis using st [OF lt] e by simp
      next
        case False
        then have "place_of secs (Suc j) \<le> place_of secs k" using j(1) by (intro place_of_mono) simp
        then have "\<not> place_of secs k \<le> place_of secs j + i" using e by simp
        then show ?thesis using st [OF lt] p j False by (simp add: placed_def)
      qed
    qed
    have o: "store_bytes mem' cur ?c (a + of_nat i) = mem (a + of_nat i)" if "place_of secs (Suc k) \<le> i" "i < 2 ^ 64" for i
      using st [OF that(2)] p that s by (simp add: placed_def)
    have "cur + of_nat (sh_size (secs ! k)) = a + of_nat (place_of secs (Suc k))" by (simp add: cur s)
    then show ?thesis unfolding run using p b o len cur True k
      by (intro exI conjI refl) (auto simp: placed_def nth_list_update less_Suc_eq)
  next
    case False
    then have "place_section file m space (secs', mem', cur) k = Inr (secs', mem', cur)"
      using k len sk by (simp add: place_section_def nth_res_def loaded_def)
    moreover have "place_of secs (Suc k) = place_of secs k" using place_of_Suc [OF k] False by simp
    ultimately show ?thesis using p False by (auto simp: placed_def less_Suc_eq)
  qed
qed

text \<open>
  \<open>C11\<close> The sections of a module whose contents the file gives are placed one behind the other in the module space:
  each gets the address behind the loaded sections before it, the memory there holds its contents or
  zeros, and no byte outside the space changes.
\<close>

theorem place_sections_image:
  assumes "e_shnum h = length secs" "\<forall>s \<in> set secs. section_ok file s"
    "writable m space a (place_of secs (length secs))" "place_of secs (length secs) < 2 ^ 64"
  shows "\<exists>st. place_sections file m space h secs mem a = Inr st \<and> placed file secs mem a (length secs) st"
proof -
  have "\<exists>st. for_each (place_section file m space) [0..<k] (secs, mem, a) = Inr st \<and> placed file secs mem a k st"
    if "k \<le> length secs" for k
    using that
  proof (induction k)
    case (Suc k)
    then obtain st where st: "for_each (place_section file m space) [0..<k] (secs, mem, a) = Inr st" "placed file secs mem a k st" by auto
    obtain secs' mem' cur where e: "st = (secs', mem', cur)" by (cases st)
    have "section_ok file (secs ! k)" using assms(2) Suc.prems by simp
    then obtain st' where "place_section file m space st k = Inr st'" "placed file secs mem a (Suc k) st'"
      using place_step [of "file" secs mem a k secs' mem' cur m space] st(2) Suc.prems assms(3,4) unfolding e by auto
    then show ?case using st(1) by (simp add: push_all_append)
  qed (simp add: placed_def place_of_def)
  then show ?thesis using assms(1) by (simp add: place_sections_def)
qed

text \<open>An object with a section of three bytes and one of two zero bytes.\<close>

definition sample_shdr :: "nat \<Rightarrow> nat \<Rightarrow> elf_shdr" where
  "sample_shdr ty sz = \<lparr>sh_name = 0, sh_type = ty, sh_flags = 2, sh_addr = 0, sh_offset = 64, sh_size = sz, sh_link = 0,
     sh_info = 0, sh_addralign = 1, sh_entsize = 0\<rparr>"

definition sample_object :: device where
  "sample_object o' n = (int (unat n), replicate (unat n) 7)"

lemma sample_writable:
  "\<exists>m. writable m sample_space 0x400000 16"
proof -
  obtain m where m: "\<forall>x. mmu m sample_space x = (if same_page 0x400000 x then Some 0x7007 else None)"
    using sample_mapped by blast
  have "pml_writable 0x7007" by (simp add: pml_writable_def)
  moreover have "mmu m sample_space (0x400000 + of_nat k) = Some 0x7007" if "k < 16" for k
  proof -
    have u: "unat (of_nat k :: u64) = k" using that by (intro unat_of_nat_u64) simp
    then have "unat (0x400000 + of_nat k :: u64) = 0x400000 + k" using that by (simp add: unat_word_ariths(1))
    then have "0x400000 \<le> (0x400000 + of_nat k :: u64) \<and> (0x400000 + of_nat k :: u64) \<le> 0x40000F"
      using that by (simp add: word_le_nat_alt)
    then show ?thesis using sample_page_low m by simp
  qed
  ultimately have "writable m sample_space 0x400000 16" by (simp add: writable_def list_all_iff del: upt_rec_numeral)
  then show ?thesis by blast
qed

theorem place_sections_image_witness:
  "\<exists>m secs' mem' cur. place_sections sample_object m sample_space (parse_header []\<lparr>e_shnum := 3\<rparr>)
      [sample_shdr 0 0, sample_shdr SHT_PROGBITS 3, sample_shdr SHT_NOBITS 2] (\<lambda>_. 0xFF) 0x400000 = Inr (secs', mem', cur) \<and>
    cur = 0x400005 \<and> sh_addr (secs' ! 2) = 0x400003 \<and> mem' 0x400002 = 7 \<and> mem' 0x400004 = 0 \<and> mem' 0x400005 = 0xFF"
proof -
  let ?secs = "[sample_shdr 0 0, sample_shdr SHT_PROGBITS 3, sample_shdr SHT_NOBITS 2]"
  note sec = sample_shdr_def SHT_PROGBITS_def SHT_NOBITS_def loaded_def
  obtain m where m: "writable m sample_space 0x400000 16" using sample_writable by blast
  have t: "place_of ?secs 0 = 0" "place_of ?secs 1 = 0" "place_of ?secs 2 = 3" "place_of ?secs 3 = 5"
    by (simp_all add: place_of_def sec numeral_eq_Suc)
  have ok: "\<forall>s \<in> set ?secs. section_ok sample_object s" by (simp add: section_ok_def sample_object_def sec)
  have "writable m sample_space 0x400000 5" using writable_part [OF m, of 0 5] by simp
  then obtain secs' mem' cur where st: "place_sections sample_object m sample_space (parse_header []\<lparr>e_shnum := 3\<rparr>) ?secs (\<lambda>_. 0xFF) 0x400000 =
      Inr (secs', mem', cur)" and p: "placed sample_object ?secs (\<lambda>_. 0xFF) 0x400000 3 (secs', mem', cur)"
    using place_sections_image [of "parse_header []\<lparr>e_shnum := 3\<rparr>" ?secs sample_object m sample_space "0x400000" "\<lambda>_. 0xFF"] ok t
    by (auto simp: numeral_3_eq_3 [symmetric])
  have l: "loaded (sample_shdr SHT_PROGBITS 3)" "loaded (sample_shdr SHT_NOBITS 2)" by (simp_all add: sec)
  have "cur = 0x400005" using p t by (simp add: placed_def)
  moreover have "sh_addr (secs' ! 2) = 0x400003" using p t l by (simp add: placed_def)
  moreover have "\<forall>j < 3. loaded (?secs ! j) \<longrightarrow> (\<forall>i < sh_size (?secs ! j). mem' (0x400000 + of_nat (place_of ?secs j + i)) =
      contents sample_object (?secs ! j) ! i)" using p by (simp add: placed_def)
  from this [rule_format, of 1 2] this [rule_format, of 2 1] have "mem' 0x400002 = 7" "mem' 0x400004 = 0"
    using t l by (simp_all add: contents_def sample_object_def sec)
  moreover have "mem' 0x400005 = 0xFF" using p t by (auto simp: placed_def dest: spec [of _ 5])
  ultimately show ?thesis using st by blast
qed

section \<open>Relocations\<close>

definition rel_target :: "elf_shdr \<Rightarrow> elf_rela \<Rightarrow> u64" where
  "rel_target sec rel = r_offset rel + sh_addr sec"

definition rel_value :: "elf_sym list \<Rightarrow> elf_rela \<Rightarrow> u64" where
  "rel_value syms rel = st_value (syms ! ELF64_R_SYM (r_info rel)) + r_addend rel"

text \<open>A relocation that the loader supports, of a place it may write.\<close>

definition rel_ok :: "vmem \<Rightarrow> aspace \<Rightarrow> elf_sym list \<Rightarrow> elf_shdr \<Rightarrow> elf_rela \<Rightarrow> bool" where
  "rel_ok m space syms sec rel \<longleftrightarrow> ELF64_R_TYPE (r_info rel) = R_X86_64_64 \<and> ELF64_R_SYM (r_info rel) < length syms \<and>
     writable m space (rel_target sec rel) 8"

text \<open>Places of eight bytes that do not overlap.\<close>

definition apart :: "u64 \<Rightarrow> u64 \<Rightarrow> bool" where
  "apart a b \<longleftrightarrow> 8 \<le> unat (a - b) \<and> 8 \<le> unat (b - a)"

lemma load64_other:
  assumes "apart b a" "length bs = 8"
  shows "load64 (store_bytes mem a bs) b = load64 mem b"
proof -
  have "store_bytes mem a bs (b + of_nat k) = mem (b + of_nat k)" if "k < 8" for k
  proof (rule store_bytes_other)
    have d: "b + of_nat k - a = (b - a) + of_nat k" by simp
    have n: "unat (b - a) \<le> 2 ^ 64 - 8"
    proof -
      have "(b - a) + (a - b) = 0" by simp
      moreover have "unat ((b - a) + (a - b)) = (unat (b - a) + unat (a - b)) mod 2 ^ 64" by (simp only: unat_word_ariths(1)) simp
      ultimately have "(unat (b - a) + unat (a - b)) mod 2 ^ 64 = 0" by simp
      then obtain q where q: "unat (b - a) + unat (a - b) = 2 ^ 64 * q" by (metis mod_0_imp_dvd dvdE)
      then have "q < 2" using unat_lt_2p64 [of "b - a"] unat_lt_2p64 [of "a - b"] by simp
      moreover have "q \<noteq> 0" using q assms(1) by (intro notI) (simp add: apart_def)
      ultimately have "q = 1" by linarith
      then show ?thesis using q assms(1) by (simp add: apart_def)
    qed
    have "unat (of_nat k :: u64) = k" using that by (intro unat_of_nat_u64) simp
    then have "unat ((b - a) + of_nat k) = unat (b - a) + k" using n that by (simp only: unat_word_ariths(1)) simp
    then show "length bs \<le> unat (b + of_nat k - a)" unfolding d using assms by (simp add: apart_def)
  qed
  then have "bytes_at (store_bytes mem a bs) b 8 = bytes_at mem b 8" by (simp add: bytes_at_def del: upt_rec_numeral)
  then show ?thesis by (simp only: load64_def)
qed

lemma relocate_ok:
  assumes "rel_ok m space syms sec rel"
  shows "relocate m space syms (Inr sec) mem rel = Inr (store64 mem (rel_target sec rel) (rel_value syms rel))"
  using assms by (simp add: relocate_def rel_ok_def rel_target_def rel_value_def nth_res_def vstore_def store64_def Let_def)

lemma relocate_all:
  assumes "\<forall>rel \<in> set rels. rel_ok m space syms sec rel"
    "\<forall>i < length rels. \<forall>j < i. apart (rel_target sec (rels ! i)) (rel_target sec (rels ! j))"
  shows "\<exists>mem'. for_each (relocate m space syms (Inr sec)) rels mem = Inr mem' \<and>
    (\<forall>i < length rels. load64 mem' (rel_target sec (rels ! i)) = rel_value syms (rels ! i)) \<and>
    (\<forall>x. (\<forall>i < length rels. 8 \<le> unat (x - rel_target sec (rels ! i))) \<longrightarrow> mem' x = mem x)"
  using assms
proof (induction rels rule: rev_induct)
  case (snoc rel rels)
  have "\<forall>i < length rels. \<forall>j < i. apart (rel_target sec (rels ! i)) (rel_target sec (rels ! j))"
  proof (intro allI impI)
    fix i j assume "i < length rels" "j < i"
    then show "apart (rel_target sec (rels ! i)) (rel_target sec (rels ! j))"
      using snoc.prems(2) [rule_format, of i j] by (simp add: nth_append)
  qed
  then obtain mem1 where m1: "for_each (relocate m space syms (Inr sec)) rels mem = Inr mem1"
    "\<forall>i < length rels. load64 mem1 (rel_target sec (rels ! i)) = rel_value syms (rels ! i)"
    "\<forall>x. (\<forall>i < length rels. 8 \<le> unat (x - rel_target sec (rels ! i))) \<longrightarrow> mem1 x = mem x"
    using snoc by auto
  let ?t = "rel_target sec rel" and ?m = "store64 mem1 (rel_target sec rel) (rel_value syms rel)"
  have run: "for_each (relocate m space syms (Inr sec)) (rels @ [rel]) mem = Inr ?m"
    using m1(1) relocate_ok [of m space syms sec rel mem1] snoc.prems(1) by (simp add: push_all_append)
  have "load64 ?m (rel_target sec ((rels @ [rel]) ! i)) = rel_value syms ((rels @ [rel]) ! i)" if "i < length (rels @ [rel])" for i
  proof (cases "i = length rels")
    case True
    then show ?thesis by (simp add: load64_store64)
  next
    case False
    then have i: "i < length rels" using that by simp
    then have "apart (rel_target sec (rels ! i)) ?t"
      using snoc.prems(2) [rule_format, of "length rels" i] by (simp add: nth_append apart_def)
    then show ?thesis using m1(2) i load64_other [of "rel_target sec (rels ! i)" ?t] by (simp add: nth_append store64_def)
  qed
  moreover have "?m x = mem x" if h: "\<forall>i < length (rels @ [rel]). 8 \<le> unat (x - rel_target sec ((rels @ [rel]) ! i))" for x
  proof -
    have "8 \<le> unat (x - rel_target sec (rels ! i))" if "i < length rels" for i
      using h [rule_format, of i] that by (simp add: nth_append)
    moreover have "8 \<le> unat (x - ?t)" using h [rule_format, of "length rels"] by simp
    ultimately show ?thesis using m1(3) by (simp add: store64_other)
  qed
  ultimately show ?case using run by blast
qed simp

text \<open>
  \<open>C12\<close> Relocating a section whose entries are all of the supported type, name symbols of the table and lie apart in
  writable memory succeeds: every place then holds the value of its symbol plus the addend, and no other
  byte of memory changes.
\<close>

theorem relocate_section_values:
  assumes s: "i < length secs" "secs ! i = s" "sh_type s = SHT_RELA" "sh_info s < length secs" "sec = secs ! sh_info s"
    and rd: "read_section junk file s = Inr data" "rels = table parse_rela sizeof_Elf64_Rela data"
      "sh_entsize s = sizeof_Elf64_Rela" "length rels = sh_size s div sizeof_Elf64_Rela"
    and ok: "\<forall>rel \<in> set rels. rel_ok m space syms sec rel"
      "\<forall>i < length rels. \<forall>j < i. apart (rel_target sec (rels ! i)) (rel_target sec (rels ! j))"
  shows "\<exists>mem'. relocate_section junk file m space secs syms mem i = Inr mem' \<and>
    (\<forall>i < length rels. load64 mem' (rel_target sec (rels ! i)) = rel_value syms (rels ! i)) \<and>
    (\<forall>x. (\<forall>i < length rels. 8 \<le> unat (x - rel_target sec (rels ! i))) \<longrightarrow> mem' x = mem x)"
proof -
  have e: "for_each (\<lambda>mem k. bind_res (nth_res rels k) (f mem)) [0..<n] mem = for_each f (take n rels) mem"
    if "n \<le> length rels" for n and f :: "kmem \<Rightarrow> elf_rela \<Rightarrow> kmem res" and mem
    using that
  proof (induction n)
    case (Suc n)
    then show ?case by (simp add: push_all_append take_Suc_conv_app_nth nth_res_def)
  qed simp
  have "relocate_section junk file m space secs syms mem i = for_each (relocate m space syms (Inr sec)) rels mem"
    using s rd e [OF order_refl] by (simp add: relocate_section_def nth_res_def Let_def sizeof_Elf64_Rela_def)
  then show ?thesis using relocate_all [OF ok, of mem] by simp
qed

text \<open>A section of relocations with one entry, for the second symbol.\<close>

definition sample_rela_data :: "u8 list" where
  "sample_rela_data = le_bytes 8 4 @ le_bytes 8 0x100000001 @ le_bytes 8 0x10"

definition sample_rela :: elf_rela where
  "sample_rela = \<lparr>r_offset = 4, r_info = 0x100000001, r_addend = 0x10\<rparr>"

definition sample_sym :: elf_sym where
  "sample_sym = \<lparr>st_name = 0, st_info = 0, st_other = 0, st_shndx = 1, st_value = 0x1234, st_size = 0\<rparr>"

lemma sample_rela_table: "table parse_rela sizeof_Elf64_Rela sample_rela_data = [sample_rela]"
proof -
  have v: "le_nat (le_bytes 8 4) = 4" "le_nat (le_bytes 8 0x100000001) = 0x100000001" "le_nat (le_bytes 8 0x10) = 0x10"
    by (simp_all add: le_nat_le_bytes del: le_bytes.simps)
  have "[0..<length sample_rela_data div sizeof_Elf64_Rela] = [0]" by (simp add: sample_rela_data_def sizeof_Elf64_Rela_def)
  then show ?thesis using v
    by (simp add: table_def parse_rela_def u64_at_def sample_rela_data_def sample_rela_def)
qed

theorem relocate_section_values_witness:
  "\<exists>m mem'. relocate_section (\<lambda>_. 0) (\<lambda>o' n. (24, sample_rela_data)) m sample_space
      [sample_shdr SHT_PROGBITS 16\<lparr>sh_addr := 0x400000\<rparr>, sample_shdr SHT_RELA 24\<lparr>sh_entsize := 24\<rparr>]
      [sample_sym, sample_sym] (\<lambda>_. 0) 1 = Inr mem' \<and> load64 mem' 0x400004 = 0x1244"
proof -
  let ?sec = "sample_shdr SHT_PROGBITS 16\<lparr>sh_addr := 0x400000\<rparr>" and ?s = "sample_shdr SHT_RELA 24\<lparr>sh_entsize := 24\<rparr>"
  obtain m where m: "writable m sample_space 0x400000 16" using sample_writable by blast
  have t: "rel_target ?sec sample_rela = 0x400004" by (simp add: rel_target_def sample_rela_def)
  have w: "writable m sample_space 0x400004 8" using writable_part [OF m, of 4 8] by simp
  have l: "length sample_rela_data = 24" by (simp add: sample_rela_data_def)
  have "ELF64_R_TYPE 0x100000001 = 1" "ELF64_R_SYM 0x100000001 = 1" by (simp_all add: ELF64_R_TYPE_def ELF64_R_SYM_def)
  then have ok: "rel_ok m sample_space [sample_sym, sample_sym] ?sec sample_rela"
    using t w by (simp add: rel_ok_def sample_rela_def R_X86_64_64_def)
  have v: "rel_value [sample_sym, sample_sym] sample_rela = 0x1244"
    by (simp add: rel_value_def sample_rela_def sample_sym_def ELF64_R_SYM_def)
  have rd: "read_section (\<lambda>_. 0) (\<lambda>o' n. (24, sample_rela_data)) ?s = Inr sample_rela_data"
    by (simp add: read_section_def dev_into_def put_buf_def fresh_buf_def l sample_shdr_def)
  show ?thesis
    using relocate_section_values [of 1 "[?sec, ?s]" ?s ?sec "\<lambda>_. 0" "\<lambda>o' n. (24, sample_rela_data)" sample_rela_data "[sample_rela]"
        m sample_space "[sample_sym, sample_sym]" "\<lambda>_. 0"] rd ok t v sample_rela_table
    by (auto simp: sample_shdr_def sizeof_Elf64_Rela_def)
qed

end
