(* ===== verification/KLog.thy ===== *)
theory KLog
  imports Terminal Spinlock KBytes
begin

text \<open>
  \<open>kernel/devices/serial.cpp\<close> and \<open>kernel/log.cpp\<close>: the serial port and the log that is written to it. The
  state is the bytes that were sent to ports, the number of times that the line status was read, and
  the lock of the string output. \<open>lsr\<close> is what the k-th read of the line status gives; waiting for a
  transmitter that never becomes ready does not end (\<open>None\<close>). A C string is the characters in front of its
  terminator, so printing a \<open>String\<close> stops at a zero character inside it.
\<close>

section \<open>Serial port\<close>

record serial =
  sr_out :: "(u16 \<times> u8) list"
  sr_polls :: nat
  sr_lock :: bool

definition PORT :: u16 where "PORT = 0x3F8"

definition serial_init :: "serial \<Rightarrow> serial" where
  "serial_init s = s\<lparr>sr_out := sr_out s @
     [(PORT + 1, 0x00), (PORT + 3, 0x80), (PORT + 0, 0x01), (PORT + 1, 0x00), (PORT + 3, 0x03), (PORT + 2, 0xC7), (PORT + 4, 0x03)]\<rparr>"

partial_function (option) serial_wait :: "(nat \<Rightarrow> u8) \<Rightarrow> nat \<Rightarrow> nat option" where
  "serial_wait lsr k = (if lsr k AND 0x20 = 0 then serial_wait lsr (Suc k) else Some (Suc k))"

definition serial_putc :: "(nat \<Rightarrow> u8) \<Rightarrow> serial \<Rightarrow> char \<Rightarrow> serial res option" where
  "serial_putc lsr s c =
     (case serial_wait lsr (sr_polls s) of None \<Rightarrow> None
      | Some k \<Rightarrow> Some (Inr (s\<lparr>sr_polls := k, sr_out := sr_out s @ [(PORT, of_char c)]\<rparr>)))"

fun serial_chars :: "(nat \<Rightarrow> u8) \<Rightarrow> serial \<Rightarrow> string \<Rightarrow> serial res option" where
  "serial_chars lsr s [] = Some (Inr s)"
| "serial_chars lsr s (c # cs) = bind_opt (serial_putc lsr s c) (\<lambda>s. serial_chars lsr s cs)"

definition serial_print :: "(nat \<Rightarrow> u8) \<Rightarrow> serial \<Rightarrow> string \<Rightarrow> serial res option" where
  "serial_print lsr s str =
     bind_opt (Some (spin_lock (sr_lock s))) (\<lambda>l.
     bind_opt (serial_chars lsr (s\<lparr>sr_lock := l\<rparr>) str) (\<lambda>s. Some (Inr (s\<lparr>sr_lock := spin_unlock (sr_lock s)\<rparr>))))"

definition serial_printString :: "(nat \<Rightarrow> u8) \<Rightarrow> serial \<Rightarrow> string \<Rightarrow> serial res option" where
  "serial_printString lsr s str = serial_print lsr s (takeWhile (\<lambda>c. c \<noteq> CHR 0x00) str)"

section \<open>Log\<close>

datatype DebugLevel = LError | LWarn | LInfo | LDebug

fun level_value :: "DebugLevel \<Rightarrow> nat" where
  "level_value LError = 1"
| "level_value LWarn = 2"
| "level_value LInfo = 3"
| "level_value LDebug = 4"

definition actualDebugLevel :: DebugLevel where "actualDebugLevel = LDebug"

definition log_debug :: "(nat \<Rightarrow> u8) \<Rightarrow> serial \<Rightarrow> string \<Rightarrow> arg list \<Rightarrow> serial res option" where
  "log_debug lsr s fmt va =
     (if level_value actualDebugLevel \<ge> level_value LDebug
      then bind_opt (Some (sprintf [] fmt va)) (\<lambda>str. serial_printString lsr s (str @ [CHR 0x0A]))
      else Some (Inr s))"

definition log_warn :: "(nat \<Rightarrow> u8) \<Rightarrow> serial \<Rightarrow> string \<Rightarrow> arg list \<Rightarrow> serial res option" where
  "log_warn lsr s fmt va =
     (if level_value actualDebugLevel \<ge> level_value LWarn
      then bind_opt (Some (sprintf ''Warn: '' fmt va)) (\<lambda>str. serial_printString lsr s (str @ [CHR 0x0A]))
      else Some (Inr s))"

definition log_info :: "(nat \<Rightarrow> u8) \<Rightarrow> serial \<Rightarrow> string \<Rightarrow> arg list \<Rightarrow> serial res option" where
  "log_info lsr s fmt va =
     (if level_value actualDebugLevel \<ge> level_value LInfo
      then bind_opt (Some (sprintf ''Info: '' fmt va)) (\<lambda>str. serial_printString lsr s (str @ [CHR 0x0A]))
      else Some (Inr s))"

definition log_raw :: "(nat \<Rightarrow> u8) \<Rightarrow> serial \<Rightarrow> string \<Rightarrow> serial res option" where
  "log_raw lsr s str = serial_print lsr s str"

text \<open>The functions in \<open>Log::safe\<close> neither allocate nor lock.\<close>

definition log_safe_print :: "(nat \<Rightarrow> u8) \<Rightarrow> serial \<Rightarrow> string \<Rightarrow> serial res option" where
  "log_safe_print lsr s str = serial_chars lsr s str"

definition log_safe_println :: "(nat \<Rightarrow> u8) \<Rightarrow> serial \<Rightarrow> string \<Rightarrow> serial res option" where
  "log_safe_println lsr s str = bind_opt (log_safe_print lsr s str) (\<lambda>s. serial_putc lsr s (CHR 0x0A))"

function log_safe_printHex_digits :: "(nat \<Rightarrow> u8) \<Rightarrow> serial \<Rightarrow> nat \<Rightarrow> serial res option" where
  "log_safe_printHex_digits lsr s v =
     (if v < 16 then serial_putc lsr s (hex_digit v)
      else bind_opt (log_safe_printHex_digits lsr s (v div 16)) (\<lambda>s. serial_putc lsr s (hex_digit (v mod 16))))"
  by pat_completeness auto
termination
  by (relation "measure (\<lambda>(lsr, s, v). v)") auto

definition log_safe_printHex :: "(nat \<Rightarrow> u8) \<Rightarrow> serial \<Rightarrow> nat \<Rightarrow> serial res option" where
  "log_safe_printHex lsr s v = bind_opt (log_safe_print lsr s ''0x'') (\<lambda>s. log_safe_printHex_digits lsr s v)"

function log_safe_printInt :: "(nat \<Rightarrow> u8) \<Rightarrow> serial \<Rightarrow> nat \<Rightarrow> serial res option" where
  "log_safe_printInt lsr s v =
     (if v < 10 then serial_putc lsr s (char_of (48 + v))
      else bind_opt (log_safe_printInt lsr s (v div 10)) (\<lambda>s. serial_putc lsr s (char_of (48 + v mod 10))))"
  by pat_completeness auto
termination
  by (relation "measure (\<lambda>(lsr, s, v). v)") auto

declare log_safe_printHex_digits.simps [simp del] log_safe_printInt.simps [simp del]

section \<open>Sending\<close>

text \<open>The transmitter becomes ready again and again.\<close>

definition lsr_ready :: "(nat \<Rightarrow> u8) \<Rightarrow> bool" where
  "lsr_ready lsr \<longleftrightarrow> (\<forall>n. \<exists>k \<ge> n. lsr k AND 0x20 \<noteq> 0)"

text \<open>The characters that were sent between two states.\<close>

definition sent :: "serial \<Rightarrow> string \<Rightarrow> serial \<Rightarrow> bool" where
  "sent s cs s' \<longleftrightarrow> sr_out s' = sr_out s @ map (\<lambda>c. (PORT, of_char c)) cs \<and> sr_lock s' = sr_lock s"

lemma serial_wait_ready:
  assumes "lsr (n + d) AND 0x20 \<noteq> 0"
  shows "\<exists>k. serial_wait lsr n = Some k"
  using assms
proof (induction d arbitrary: n)
  case (Suc d)
  then show ?case by (subst serial_wait.simps) (use Suc.IH [of "Suc n"] in auto)
qed (subst serial_wait.simps, simp)

lemma serial_putc_sent:
  assumes "lsr_ready lsr"
  shows "\<exists>s'. serial_putc lsr s c = Some (Inr s') \<and> sent s [c] s'"
proof -
  obtain k where "k \<ge> sr_polls s" "lsr k AND 0x20 \<noteq> 0" using assms unfolding lsr_ready_def by blast
  then obtain n where "serial_wait lsr (sr_polls s) = Some n" using serial_wait_ready [of lsr "sr_polls s" "k - sr_polls s"] by auto
  then show ?thesis by (simp add: serial_putc_def sent_def)
qed

lemma sent_append: "sent s xs s1 \<Longrightarrow> sent s1 ys s2 \<Longrightarrow> sent s (xs @ ys) s2"
  by (simp add: sent_def)

lemma serial_chars_sent: "lsr_ready lsr \<Longrightarrow> \<exists>s'. serial_chars lsr s cs = Some (Inr s') \<and> sent s cs s'"
proof (induction cs arbitrary: s)
  case (Cons c cs)
  obtain s1 where s1: "serial_putc lsr s c = Some (Inr s1)" "sent s [c] s1" using serial_putc_sent [OF Cons.prems] by blast
  obtain s2 where s2: "serial_chars lsr s1 cs = Some (Inr s2)" "sent s1 cs s2" using Cons.IH [OF Cons.prems] by blast
  show ?case using s1 s2 sent_append [OF s1(2) s2(2)] by simp
qed (simp add: sent_def)

lemma serial_print_sent:
  assumes "lsr_ready lsr" "\<not> sr_lock s"
  shows "\<exists>s'. serial_print lsr s cs = Some (Inr s') \<and> sent s cs s'"
proof -
  have l: "spin_lock (sr_lock s) = Inr True" using assms(2) by (simp add: spin_lock_def spin_tryLock_def cas_def)
  obtain s' where "serial_chars lsr (s\<lparr>sr_lock := True\<rparr>) cs = Some (Inr s')" "sent (s\<lparr>sr_lock := True\<rparr>) cs s'"
    using serial_chars_sent [OF assms(1)] by blast
  then show ?thesis using l assms(2) by (auto simp: serial_print_def sent_def spin_unlock_def)
qed

lemma serial_chars_append: "serial_chars lsr s (xs @ ys) = bind_opt (serial_chars lsr s xs) (\<lambda>s. serial_chars lsr s ys)"
  by (induction lsr s xs rule: serial_chars.induct) (auto simp: bind_opt_def split: option.splits sum.splits)

lemma bind_opt_return: "bind_opt r (\<lambda>x. Some (Inr x)) = r"
  by (auto simp: bind_opt_def split: option.splits sum.splits)

lemma log_safe_printHex_eq: "log_safe_printHex_digits lsr s v = serial_chars lsr s (printHex [] v)"
proof (induction lsr s v rule: log_safe_printHex_digits.induct)
  case (1 lsr s v)
  then show ?case by (subst log_safe_printHex_digits.simps, subst printHex.simps) (simp add: serial_chars_append bind_opt_return)
qed

lemma log_safe_printInt_eq: "log_safe_printInt lsr s v = serial_chars lsr s (printInt [] v)"
proof (induction lsr s v rule: log_safe_printInt.induct)
  case (1 lsr s v)
  then show ?case by (subst log_safe_printInt.simps, subst printInt.simps) (simp add: serial_chars_append bind_opt_return)
qed

section \<open>Lines of the log\<close>

text \<open>Formats and string arguments are C strings: they contain no zero character.\<close>

fun no_zero :: "piece \<Rightarrow> bool" where
  "no_zero (PLit c) \<longleftrightarrow> c \<noteq> CHR 0x00"
| "no_zero (PStr v) \<longleftrightarrow> CHR 0x00 \<notin> set v"
| "no_zero _ \<longleftrightarrow> True"

lemma denotes_no_zero: "denotes p cs \<Longrightarrow> no_zero p \<Longrightarrow> CHR 0x00 \<notin> set cs"
  by (cases p) (auto simp: decimal_def hexadecimal_def)

lemma texts_no_zero: "list_all2 denotes ps texts \<Longrightarrow> list_all no_zero ps \<Longrightarrow> CHR 0x00 \<notin> set (concat texts)"
proof (induction rule: list_all2_induct)
  case (Cons p ps t ts)
  then show ?case using denotes_no_zero by auto
qed simp

text \<open>A line with the text of a format after a prefix.\<close>

definition logged :: "serial \<Rightarrow> string \<Rightarrow> piece list \<Rightarrow> serial res option \<Rightarrow> bool" where
  "logged s prefix ps r \<longleftrightarrow>
     (\<exists>s' texts. r = Some (Inr s') \<and> list_all2 denotes ps texts \<and> sent s (prefix @ concat texts @ [CHR 0x0A]) s')"

lemma log_body:
  assumes "lsr_ready lsr" "\<not> sr_lock s" "PLit (CHR ''%'') \<notin> set ps" "list_all no_zero ps" "CHR 0x00 \<notin> set prefix"
  shows "logged s prefix ps (bind_opt (Some (sprintf prefix (concat (map fmt_of ps)) (concat (map args_of ps))))
    (\<lambda>str. serial_printString lsr s (str @ [CHR 0x0A])))"
proof -
  obtain texts where t: "\<And>fmt va. sprintf_from prefix (concat (map fmt_of ps) @ fmt) (concat (map args_of ps) @ va)
      = sprintf_from (prefix @ concat texts) fmt va" "list_all2 denotes ps texts"
    using sprintf_from_pieces [OF assms(3)] by blast
  have f: "sprintf prefix (concat (map fmt_of ps)) (concat (map args_of ps)) = Inr (prefix @ concat texts)"
    using t(1) [of "[]" "[]"] by (simp add: sprintf_def)
  let ?str = "prefix @ concat texts @ [CHR 0x0A]"
  have "CHR 0x00 \<notin> set ?str" using texts_no_zero [OF t(2) assms(4)] assms(5) by simp
  then have w: "takeWhile (\<lambda>c. c \<noteq> CHR 0x00) ?str = ?str" unfolding takeWhile_eq_all_conv by blast
  obtain s' where s': "serial_print lsr s ?str = Some (Inr s')" "sent s ?str s'" using serial_print_sent [OF assms(1,2)] by blast
  have "serial_printString lsr s ((prefix @ concat texts) @ [CHR 0x0A]) = Some (Inr s')"
    unfolding serial_printString_def append_assoc w by (rule s'(1))
  then show ?thesis using f t(2) s'(2) unfolding logged_def by (simp del: append_assoc) blast
qed

lemma lock_held_spins: "sr_lock s \<Longrightarrow> serial_print lsr s cs = Some (Inl Spin)"
  by (simp add: serial_print_def spin_lock_def cas_def)

text \<open>
  \<open>C30\<close> When the transmitter keeps becoming ready and the lock of the port is free, every call of the log
  ends, having sent one line: the prefix of its level and the text of the format with its arguments.
  The lock is free again afterwards; a processor that finds it taken waits. The functions that are safe
  in a panic do not take it: they send the text also then, and a number as digits that denote it.
\<close>

theorem log_lines:
  assumes "lsr_ready lsr" "PLit (CHR ''%'') \<notin> set ps" "list_all no_zero ps"
  shows "(if sr_lock s then log_raw lsr s str = Some (Inl Spin)
     else logged s ''Info: '' ps (log_info lsr s (concat (map fmt_of ps)) (concat (map args_of ps))) \<and>
       logged s ''Warn: '' ps (log_warn lsr s (concat (map fmt_of ps)) (concat (map args_of ps))) \<and>
       logged s [] ps (log_debug lsr s (concat (map fmt_of ps)) (concat (map args_of ps)))) \<and>
    (\<exists>s'. log_safe_println lsr s str = Some (Inr s') \<and> sent s (str @ [CHR 0x0A]) s') \<and>
    (\<exists>s' ds. log_safe_printHex lsr s v = Some (Inr s') \<and> sent s (''0x'' @ ds) s' \<and> hexadecimal ds \<and> hex_value 0 ds = v) \<and>
    (\<exists>s' ds. log_safe_printInt lsr s v = Some (Inr s') \<and> sent s ds s' \<and> decimal ds \<and> dec_value 0 ds = v)"
proof (intro conjI)
  show "if sr_lock s then log_raw lsr s str = Some (Inl Spin)
     else logged s ''Info: '' ps (log_info lsr s (concat (map fmt_of ps)) (concat (map args_of ps))) \<and>
       logged s ''Warn: '' ps (log_warn lsr s (concat (map fmt_of ps)) (concat (map args_of ps))) \<and>
       logged s [] ps (log_debug lsr s (concat (map fmt_of ps)) (concat (map args_of ps)))"
    using log_body [OF assms(1) _ assms(2,3), of s]
    by (auto simp: log_info_def log_warn_def log_debug_def actualDebugLevel_def log_raw_def lock_held_spins)
  have "log_safe_println lsr s str = serial_chars lsr s (str @ [CHR 0x0A])"
    by (simp add: log_safe_println_def log_safe_print_def serial_chars_append bind_opt_return)
  then show "\<exists>s'. log_safe_println lsr s str = Some (Inr s') \<and> sent s (str @ [CHR 0x0A]) s'" using serial_chars_sent [OF assms(1)] by simp
  have "log_safe_printHex lsr s v = serial_chars lsr s (''0x'' @ printHex [] v)"
    by (simp only: log_safe_printHex_def log_safe_print_def serial_chars_append log_safe_printHex_eq)
  then show "\<exists>s' ds. log_safe_printHex lsr s v = Some (Inr s') \<and> sent s (''0x'' @ ds) s' \<and> hexadecimal ds \<and> hex_value 0 ds = v"
    using serial_chars_sent [OF assms(1)] printHex_hexadecimal hex_value_printHex by metis
  show "\<exists>s' ds. log_safe_printInt lsr s v = Some (Inr s') \<and> sent s ds s' \<and> decimal ds \<and> dec_value 0 ds = v"
    using serial_chars_sent [OF assms(1)] printInt_decimal dec_value_printInt unfolding log_safe_printInt_eq by metis
qed

theorem log_lines_witness:
  "\<exists>s'. log_info (\<lambda>n. if even n then 0 else 0x60) \<lparr>sr_out = [], sr_polls = 0, sr_lock = False\<rparr> ''n%s'' [AStr ''!''] = Some (Inr s') \<and>
    sr_out s' = map (\<lambda>c. (0x3F8, of_char c)) (''Info: n!'' @ [CHR 0x0A])"
proof -
  have "lsr_ready (\<lambda>n. if even n then 0 else 0x60)" unfolding lsr_ready_def
  proof
    fix n :: nat
    show "\<exists>k \<ge> n. (if even k then 0 else 0x60 :: u8) AND 0x20 \<noteq> 0" by (intro exI [of _ "2 * n + 1"]) simp
  qed
  from log_lines [OF this, of "[PLit CHR ''n'', PStr ''!'']" "\<lparr>sr_out = [], sr_polls = 0, sr_lock = False\<rparr>" "[]" 0, THEN conjunct1]
  obtain s' texts where "log_info (\<lambda>n. if even n then 0 else 0x60) \<lparr>sr_out = [], sr_polls = 0, sr_lock = False\<rparr> ''n%s'' [AStr ''!''] = Some (Inr s')"
    "list_all2 denotes [PLit CHR ''n'', PStr ''!''] texts" "sent \<lparr>sr_out = [], sr_polls = 0, sr_lock = False\<rparr> (''Info: '' @ concat texts @ [CHR 0x0A]) s'"
    by (auto simp: logged_def)
  moreover from this(2) have "texts = [''n'', ''!'']" by (auto simp: list_all2_Cons1)
  ultimately show ?thesis by (simp add: sent_def PORT_def)
qed

end
