(* ===== verification/Exceptions.thy ===== *)
theory Exceptions
  imports KLog Irq
begin

text \<open>
  \<open>kernel/interrupts/exceptions.cpp\<close> and \<open>include/panic.h\<close>: the handlers of the processor's exceptions and
  \<open>panic\<close>. A handler never returns; its result is the screen and the serial port as they are when the
  processor halts. The name that the compiler gives the source file is an argument, and so is the
  register \<open>cr2\<close> with the address of a page fault.
\<close>

section \<open>State\<close>

record int_state =
  x_r15 :: u64
  x_r14 :: u64
  x_r13 :: u64
  x_r12 :: u64
  x_r11 :: u64
  x_r10 :: u64
  x_r9 :: u64
  x_r8 :: u64
  x_rbp :: u64
  x_rdi :: u64
  x_rsi :: u64
  x_rdx :: u64
  x_rcx :: u64
  x_rbx :: u64
  x_rax :: u64
  x_err :: u64
  x_rip :: u64
  x_cs :: u64
  x_rflags :: u64
  x_rsp :: u64
  x_ss :: u64

section \<open>Panic\<close>

definition kpanic :: "(nat \<Rightarrow> u8) \<Rightarrow> console \<times> serial \<Rightarrow> string \<Rightarrow> u32 \<Rightarrow> string \<Rightarrow> (console \<times> serial) res option" where
  "kpanic lsr st str line file_name = (case st of (t, l) \<Rightarrow>
     bind_opt (Some (printStr t ''Kernel panic: '')) (\<lambda>t.
     bind_opt (Some (term_println t str)) (\<lambda>t.
     bind_opt (Some (printStr t file_name)) (\<lambda>t.
     bind_opt (Some (printStr t '' line '')) (\<lambda>t.
     bind_opt (Some (safe_printInt t (unat line))) (\<lambda>t.
     bind_opt (Some (printStr t [CHR 0x0A])) (\<lambda>t.
     bind_opt (log_raw lsr l ''Panic: '') (\<lambda>l.
     bind_opt (log_safe_println lsr l str) (\<lambda>l. Some (Inr (t, l)))))))))))"

section \<open>Handlers\<close>

definition dump_reg :: "console \<Rightarrow> string \<times> u64 \<Rightarrow> console res" where
  "dump_reg t nv = (case nv of (name, v) \<Rightarrow>
     bind_res (printStr t (name @ '': '')) (\<lambda>t. bind_res (safe_printHex t (unat v)) (\<lambda>t. printStr t [CHR 0x0A])))"

definition dumped :: "int_state \<Rightarrow> (string \<times> u64) list" where
  "dumped st =
     [(''rip'', x_rip st), (''cs'', x_cs st), (''rflags'', x_rflags st), (''rsp'', x_rsp st), (''ss'', x_ss st),
      (''r15'', x_r15 st), (''r14'', x_r14 st), (''r13'', x_r13 st), (''r12'', x_r12 st), (''r11'', x_r11 st), (''r10'', x_r10 st),
      (''r9'', x_r9 st), (''r8'', x_r8 st), (''rbp'', x_rbp st), (''rdi'', x_rdi st), (''rsi'', x_rsi st), (''rdx'', x_rdx st),
      (''rcx'', x_rcx st), (''rbx'', x_rbx st), (''rax'', x_rax st)]"

definition exc_dump :: "console \<Rightarrow> int_state \<Rightarrow> console res" where
  "exc_dump t st = bind_res (term_println t ([CHR 0x0A] @ ''Dump:'')) (\<lambda>t. for_each dump_reg (dumped st) t)"

text \<open>The handlers of the vectors 0 to 12, with the line of the call of \<open>panic\<close>.\<close>

definition exc_messages :: "(string \<times> u32) list" where
  "exc_messages =
     [(''Divide by zero'', 49), (''Debug'', 54), (''Non-maskable Interrupt'', 59), (''Breakpoint'', 64), (''Overflow'', 69),
      (''Bound Range Exceeded'', 75), (''Invalid Opcode'', 81), (''Device not Available'', 86), (''Double Fault'', 91),
      (''Coprocessor Segment Overrun'', 96), (''Invalid TSS'', 101), (''Segment Not Present'', 106), (''Stack-Segment Fault'', 111)]"

definition exc_plain :: "(nat \<Rightarrow> u8) \<Rightarrow> string \<Rightarrow> nat \<Rightarrow> console \<times> serial \<Rightarrow> int_state \<Rightarrow> (console \<times> serial) res option" where
  "exc_plain lsr file_name v s st = (case (s, exc_messages ! v) of ((t, l), (msg, line)) \<Rightarrow>
     bind_opt (Some (exc_dump t st)) (\<lambda>t. kpanic lsr (t, l) msg line file_name))"

definition exc_13 :: "(nat \<Rightarrow> u8) \<Rightarrow> string \<Rightarrow> console \<times> serial \<Rightarrow> int_state \<Rightarrow> (console \<times> serial) res option" where
  "exc_13 lsr file_name s st = (case s of (t, l) \<Rightarrow>
     bind_opt (Some (printStr t (if x_err st AND 1 \<noteq> 0 then ''external '' else ''internal ''))) (\<lambda>t.
     let tbl = (ucast (drop_bit 1 (x_err st)) :: u8) AND 0b11 in
     bind_opt (Some (if tbl = 0 then printStr t ''GTD ''
                     else if tbl = 1 \<or> tbl = 3 then printStr t ''IDT ''
                     else if tbl = 2 then printStr t ''LDT ''
                     else bind_res (printStr t ''Invalid tbl value ('') (\<lambda>t.
                          bind_res (safe_printInt t (unat tbl)) (\<lambda>t. printStr t '') '')))) (\<lambda>t.
     bind_opt (Some (printStr t ''Index: '')) (\<lambda>t.
     bind_opt (Some (safe_printInt t (unat (ucast (drop_bit 3 (x_err st)) :: u16)))) (\<lambda>t.
     bind_opt (Some (printStr t [CHR 0x0A])) (\<lambda>t.
     bind_opt (Some (exc_dump t st)) (\<lambda>t.
     kpanic lsr (t, l) ''General Protection Fault'' 138 file_name)))))))"

definition exc_14 :: "(nat \<Rightarrow> u8) \<Rightarrow> string \<Rightarrow> u64 \<Rightarrow> console \<times> serial \<Rightarrow> int_state \<Rightarrow> (console \<times> serial) res option" where
  "exc_14 lsr file_name cr2 s st = (case s of (t, l) \<Rightarrow>
     bind_opt (Some (printStr t ''Page fault! ( '')) (\<lambda>t.
     bind_opt (Some (if x_err st AND 0x01 \<noteq> 0
                     then for_each (\<lambda>t (mask, name). if x_err st AND mask \<noteq> 0 then printStr t name else Inr t)
                       [(0x2, ''read-only ''), (0x4, ''user-mode ''), (0x8, ''reserved ''), (0x20, ''instruction-fetch ''),
                        (0x40, ''protection-key-violation ''), (0x80, ''shadow-stack-access'')] t
                     else printStr t ''not present '')) (\<lambda>t.
     bind_opt (Some (printStr t '') at '')) (\<lambda>t.
     bind_opt (Some (safe_printHex t (unat cr2))) (\<lambda>t.
     bind_opt (Some (printStr t [CHR 0x0A])) (\<lambda>t.
     kpanic lsr (t, l) ''Page fault'' 183 file_name))))))"

text \<open>The handler that is installed for a vector, by the vector.\<close>

definition exc_handler :: "(nat \<Rightarrow> u8) \<Rightarrow> string \<Rightarrow> u64 \<Rightarrow> nat \<Rightarrow> console \<times> serial \<Rightarrow> int_state \<Rightarrow> (console \<times> serial) res option" where
  "exc_handler lsr file_name cr2 v s st =
     (if v = 14 then exc_14 lsr file_name cr2 s st else if v = 13 then exc_13 lsr file_name s st else exc_plain lsr file_name v s st)"

text \<open>\<open>Exceptions::init\<close>; \<open>handler\<close> gives the addresses of the functions.\<close>

definition exc_init :: "irqs \<Rightarrow> u8 \<Rightarrow> (nat \<Rightarrow> u64) \<Rightarrow> irqs res" where
  "exc_init s lApicID handler = for_each (\<lambda>s v. addEntry s lApicID (of_nat v) (handler v)) [0..<15] (pic_init s)"

section \<open>The report on the screen\<close>

text \<open>The text that a handler prints, put together from the error code and the registers.\<close>

definition panic_text :: "string \<Rightarrow> u32 \<Rightarrow> string \<Rightarrow> string" where
  "panic_text msg line file_name = ''Kernel panic: '' @ msg @ [CHR 0x0A] @ file_name @ '' line '' @ printInt [] (unat line) @ [CHR 0x0A]"

definition dump_text :: "int_state \<Rightarrow> string" where
  "dump_text st = [CHR 0x0A] @ ''Dump:'' @ [CHR 0x0A] @ concat (map (\<lambda>(n, v). n @ '': 0x'' @ printHex [] (unat v) @ [CHR 0x0A]) (dumped st))"

definition selector_text :: "u64 \<Rightarrow> string" where
  "selector_text err = (if bit err 0 then ''external '' else ''internal '') @
     (if bit err 1 then ''IDT '' else if bit err 2 then ''LDT '' else ''GTD '') @
     ''Index: '' @ printInt [] (unat (take_bit 16 (drop_bit 3 err))) @ [CHR 0x0A]"

definition fault_text :: "u64 \<Rightarrow> u64 \<Rightarrow> string" where
  "fault_text err cr2 = ''Page fault! ( '' @
     (if bit err 0
      then (if bit err 1 then ''read-only '' else []) @ (if bit err 2 then ''user-mode '' else []) @ (if bit err 3 then ''reserved '' else []) @
           (if bit err 5 then ''instruction-fetch '' else []) @ (if bit err 6 then ''protection-key-violation '' else []) @
           (if bit err 7 then ''shadow-stack-access'' else [])
      else ''not present '') @
     '') at 0x'' @ printHex [] (unat cr2) @ [CHR 0x0A]"

definition exc_message :: "nat \<Rightarrow> string \<times> u32" where
  "exc_message v = (if v = 14 then (''Page fault'', 183) else if v = 13 then (''General Protection Fault'', 138) else exc_messages ! v)"

definition exc_text :: "nat \<Rightarrow> int_state \<Rightarrow> u64 \<Rightarrow> string" where
  "exc_text v st cr2 = (if v = 14 then fault_text (x_err st) cr2 else if v = 13 then selector_text (x_err st) @ dump_text st else dump_text st)"

lemma term_println_eq: "term_println t cs = printStr t (cs @ [CHR 0x0A])"
  by (simp add: term_println_def printStr_append)

lemma safe_printHex_str: "safe_printHex t v = printStr t (''0x'' @ printHex [] v)"
  by (simp only: safe_printHex_def printStr_append safe_printHex_eq)

lemma dump_reg_eq: "dump_reg t (n, v) = printStr t (n @ '': 0x'' @ printHex [] (unat v) @ [CHR 0x0A])"
proof -
  have "dump_reg t (n, v) = bind_res (printStr t (n @ '': '')) (\<lambda>t. bind_res (printStr t (''0x'' @ printHex [] (unat v))) (\<lambda>t. printStr t [CHR 0x0A]))"
    by (simp only: dump_reg_def safe_printHex_str prod.case)
  also have "\<dots> = printStr t ((n @ '': '') @ (''0x'' @ printHex [] (unat v)) @ [CHR 0x0A])" by (simp only: printStr_append)
  finally show ?thesis by simp
qed

lemma for_each_dump:
  "for_each dump_reg nvs t = printStr t (concat (map (\<lambda>(n, v). n @ '': 0x'' @ printHex [] (unat v) @ [CHR 0x0A]) nvs))"
proof (induction nvs arbitrary: t)
  case (Cons nv nvs)
  obtain n v where nv: "nv = (n, v)" by (cases nv)
  show ?case using Cons.IH by (simp only: push_all.simps nv dump_reg_eq list.map concat.simps printStr_append prod.case)
qed simp

lemma exc_dump_eq: "exc_dump t st = printStr t (dump_text st)"
  by (simp only: exc_dump_def term_println_eq for_each_dump dump_text_def printStr_append append_assoc [symmetric])

text \<open>Printing one text after the other is printing both.\<close>

lemma print_fuse: "bind_opt (Some (printStr t a)) (\<lambda>t. bind_opt (Some (printStr t b)) k) = bind_opt (Some (printStr t (a @ b))) k"
  by (cases "printStr t a") (simp_all add: printStr_append)

lemma kpanic_eq:
  "kpanic lsr (t, l) msg line file_name = bind_opt (Some (printStr t (panic_text msg line file_name))) (\<lambda>t.
     bind_opt (log_raw lsr l ''Panic: '') (\<lambda>l. bind_opt (log_safe_println lsr l msg) (\<lambda>l. Some (Inr (t, l)))))"
  unfolding kpanic_def prod.case term_println_eq safe_printInt_eq print_fuse panic_text_def by (simp only: append_assoc)

lemma and_bits: "w AND 1 = 0 \<longleftrightarrow> \<not> bit w 0" "w AND 2 = 0 \<longleftrightarrow> \<not> bit w 1" "w AND 4 = 0 \<longleftrightarrow> \<not> bit w 2" "w AND 8 = 0 \<longleftrightarrow> \<not> bit w 3"
  "w AND 32 = 0 \<longleftrightarrow> \<not> bit w 5" "w AND 64 = 0 \<longleftrightarrow> \<not> bit w 6" "w AND 128 = 0 \<longleftrightarrow> \<not> bit w 7" for w :: u64
  using and_exp_eq_0_iff_not_bit [of w 0] and_exp_eq_0_iff_not_bit [of w 1] and_exp_eq_0_iff_not_bit [of w 2] and_exp_eq_0_iff_not_bit [of w 3]
    and_exp_eq_0_iff_not_bit [of w 5] and_exp_eq_0_iff_not_bit [of w 6] and_exp_eq_0_iff_not_bit [of w 7] by simp_all

lemma selector_table:
  "(ucast (drop_bit 1 err) :: u8) AND 0b11 = (if bit err 1 then 1 else 0) OR (if bit err 2 then 2 else 0)" for err :: u64
proof (rule bit_word_eqI)
  fix n assume "n < LENGTH(8)"
  then consider "n = 0" | "n = 1" | "2 \<le> n" "n < 8" by fastforce
  then show "bit ((ucast (drop_bit 1 err) :: u8) AND 0b11) n \<longleftrightarrow> bit ((if bit err 1 then 1 else 0) OR (if bit err 2 then 2 else 0) :: u8) n"
  proof cases
    case 3
    have "\<not> bit (3 :: u8) n" "\<not> bit (2 :: u8) n" "\<not> bit (1 :: u8) n"
    proof -
      have "n = 2 \<or> n = 3 \<or> n = 4 \<or> n = 5 \<or> n = 6 \<or> n = 7" using 3 by arith
      then show "\<not> bit (3 :: u8) n" "\<not> bit (2 :: u8) n" "\<not> bit (1 :: u8) n" by (elim disjE; simp)+
    qed
    then show ?thesis using 3 by (simp add: bit_simps)
  qed (auto simp: bit_simps numeral_2_eq_2)
qed

lemma exc_13_eq:
  "exc_13 lsr file_name (t, l) st = bind_opt (Some (printStr t (selector_text (x_err st) @ dump_text st))) (\<lambda>t.
     kpanic lsr (t, l) ''General Protection Fault'' 138 file_name)"
proof -
  let ?tbl = "(ucast (drop_bit 1 (x_err st)) :: u8) AND 0b11"
  have tb: "(if ?tbl = 0 then printStr t ''GTD ''
       else if ?tbl = 1 \<or> ?tbl = 3 then printStr t ''IDT ''
       else if ?tbl = 2 then printStr t ''LDT ''
       else bind_res (printStr t ''Invalid tbl value ('') (\<lambda>t. bind_res (safe_printInt t (unat ?tbl)) (\<lambda>t. printStr t '') ''))) =
     printStr t (if bit (x_err st) 1 then ''IDT '' else if bit (x_err st) 2 then ''LDT '' else ''GTD '')" for t
    unfolding selector_table by simp
  have ix: "unat (ucast (drop_bit 3 (x_err st)) :: u16) = unat (take_bit 16 (drop_bit 3 (x_err st)))"
    by (simp add: unsigned_ucast_eq unsigned_take_bit_eq)
  have b0: "(if x_err st AND 1 \<noteq> 0 then ''external '' else ''internal '') = (if bit (x_err st) 0 then ''external '' else ''internal '')"
    by (simp only: and_bits not_not)
  show ?thesis unfolding exc_13_def prod.case Let_def tb b0 unfolding exc_dump_eq safe_printInt_eq print_fuse ix selector_text_def by (simp only: append_assoc)
qed

lemma for_each_flags:
  "for_each (\<lambda>t (mask, name). if P mask then printStr t name else Inr t) mns t = printStr t (concat (map (\<lambda>(mask, name). if P mask then name else []) mns))"
proof (induction mns arbitrary: t)
  case (Cons mn mns)
  obtain m n where mn: "mn = (m, n)" by (cases mn)
  show ?case using Cons.IH by (cases "P m") (simp_all add: mn printStr_append)
qed simp

lemma exc_14_eq:
  "exc_14 lsr file_name cr2 (t, l) st = bind_opt (Some (printStr t (fault_text (x_err st) cr2))) (\<lambda>t.
     kpanic lsr (t, l) ''Page fault'' 183 file_name)"
proof -
  let ?e = "x_err st"
  have fl: "(if ?e AND 0x01 \<noteq> 0
       then for_each (\<lambda>t (mask, name). if ?e AND mask \<noteq> 0 then printStr t name else Inr t)
         [(0x2, ''read-only ''), (0x4, ''user-mode ''), (0x8, ''reserved ''), (0x20, ''instruction-fetch ''),
          (0x40, ''protection-key-violation ''), (0x80, ''shadow-stack-access'')] t
       else printStr t ''not present '') =
     printStr t (if bit ?e 0
      then (if bit ?e 1 then ''read-only '' else []) @ (if bit ?e 2 then ''user-mode '' else []) @ (if bit ?e 3 then ''reserved '' else []) @
           (if bit ?e 5 then ''instruction-fetch '' else []) @ (if bit ?e 6 then ''protection-key-violation '' else []) @
           (if bit ?e 7 then ''shadow-stack-access'' else [])
      else ''not present '')" for t
    unfolding for_each_flags [of "\<lambda>mask. ?e AND mask \<noteq> 0"] by (simp only: list.map concat.simps prod.case and_bits not_not append_Nil2) simp
  show ?thesis unfolding exc_14_def prod.case fl safe_printHex_str print_fuse fault_text_def by (simp only: append_assoc append_Cons append_Nil)
qed

section \<open>Reports\<close>

lemma print_no_backspace: "CHR 0x08 \<notin> set (printInt [] v)" "CHR 0x08 \<notin> set (printHex [] v)"
  using printInt_decimal [of v] printHex_hexadecimal [of v] by (auto simp: decimal_def hexadecimal_def)

lemma text_no_backspace:
  assumes "CHR 0x08 \<notin> set file_name" "v < 15"
  shows "CHR 0x08 \<notin> set (exc_text v st cr2 @ panic_text (fst (exc_message v)) (snd (exc_message v)) file_name)"
proof -
  have d: "CHR 0x08 \<notin> set (dump_text st)" by (simp add: dump_text_def dumped_def print_no_backspace)
  have "CHR 0x08 \<notin> set (fst (exc_message v))"
  proof -
    have "list_all (\<lambda>v. CHR 0x08 \<notin> set (fst (exc_message v))) [0..<15]" by (simp add: exc_message_def exc_messages_def upt_rec)
    then show ?thesis using assms(2) by (simp add: list_all_iff)
  qed
  then show ?thesis using d assms(1) by (simp add: exc_text_def panic_text_def fault_text_def selector_text_def print_no_backspace)
qed

lemma exc_handler_eq:
  assumes "v < 15"
  shows "exc_handler lsr file_name cr2 v (t, l) st =
    bind_opt (Some (printStr t (exc_text v st cr2 @ panic_text (fst (exc_message v)) (snd (exc_message v)) file_name))) (\<lambda>t.
     bind_opt (log_raw lsr l ''Panic: '') (\<lambda>l. bind_opt (log_safe_println lsr l (fst (exc_message v))) (\<lambda>l. Some (Inr (t, l)))))"
proof -
  consider "v = 14" | "v = 13" | "v < 13" using assms by linarith
  then show ?thesis
  proof cases
    case 3
    obtain msg line where m: "exc_messages ! v = (msg, line)" by (cases "exc_messages ! v")
    show ?thesis using 3 unfolding exc_handler_def exc_plain_def exc_message_def exc_text_def m
      by (simp add: m exc_dump_eq kpanic_eq print_fuse del: bind_opt_simps)
  qed (simp_all add: exc_handler_def exc_14_eq exc_13_eq kpanic_eq print_fuse exc_message_def exc_text_def del: bind_opt_simps)
qed

text \<open>
  \<open>C26\<close> Every exception handler stops the processor with a report: on a well-formed console it never faults
  itself, and what it prints is one text, built from the bits of the error code, the fault address and
  all registers, followed by the message and the place of the panic; the message goes to the serial
  port too. But \<open>panic\<close> takes the lock of the port: an exception in the middle of a log message, with the
  lock held, spins for ever after the report is on the screen.
\<close>

theorem exception_report:
  assumes "con_inv t" "lsr_ready lsr" "v < 15" "CHR 0x08 \<notin> set file_name"
  shows "\<exists>t'. printStr t (exc_text v st cr2 @ panic_text (fst (exc_message v)) (snd (exc_message v)) file_name) = Inr t' \<and> con_inv t' \<and>
    (if sr_lock l then exc_handler lsr file_name cr2 v (t, l) st = Some (Inl Spin)
     else \<exists>l'. exc_handler lsr file_name cr2 v (t, l) st = Some (Inr (t', l')) \<and>
       sent l (''Panic: '' @ fst (exc_message v) @ [CHR 0x0A]) l')"
proof -
  let ?msg = "fst (exc_message v)"
  obtain t' where t': "printStr t (exc_text v st cr2 @ panic_text ?msg (snd (exc_message v)) file_name) = Inr t'" "con_inv t'"
    using printStr_ok [OF assms(1) text_no_backspace [OF assms(4,3)]] by blast
  show ?thesis
  proof (cases "sr_lock l")
    case True
    then have "exc_handler lsr file_name cr2 v (t, l) st = Some (Inl Spin)"
      by (simp add: exc_handler_eq [OF assms(3)] t'(1) log_raw_def lock_held_spins)
    then show ?thesis using t' True by auto
  next
    case False
    obtain l1 where l1: "log_raw lsr l ''Panic: '' = Some (Inr l1)" "sent l ''Panic: '' l1"
      using serial_print_sent [OF assms(2) False] unfolding log_raw_def by blast
    have "log_safe_println lsr l1 ?msg = serial_chars lsr l1 (?msg @ [CHR 0x0A])"
      by (simp add: log_safe_println_def log_safe_print_def serial_chars_append bind_opt_return)
    then obtain l2 where l2: "log_safe_println lsr l1 ?msg = Some (Inr l2)" "sent l1 (?msg @ [CHR 0x0A]) l2"
      using serial_chars_sent [OF assms(2)] by metis
    have "exc_handler lsr file_name cr2 v (t, l) st = Some (Inr (t', l2))" by (simp add: exc_handler_eq [OF assms(3)] t'(1) l1(1) l2(1))
    then show ?thesis using t' False sent_append [OF l1(2) l2(2)] by auto
  qed
qed

definition sample_istate :: int_state where
  "sample_istate = \<lparr>x_r15 = 0, x_r14 = 0, x_r13 = 0, x_r12 = 0, x_r11 = 0, x_r10 = 0, x_r9 = 0, x_r8 = 0, x_rbp = 0, x_rdi = 0, x_rsi = 0,
     x_rdx = 0, x_rcx = 0, x_rbx = 0, x_rax = 0, x_err = 6, x_rip = 0x400000, x_cs = 0x2B, x_rflags = 0x202, x_rsp = 0, x_ss = 0x23\<rparr>"

theorem exception_report_witness:
  "\<exists>t' l'. exc_handler (\<lambda>_. 0x20) ''exceptions.cpp'' 0x1000 14 (sample_console, \<lparr>sr_out = [], sr_polls = 0, sr_lock = False\<rparr>) sample_istate = Some (Inr (t', l')) \<and>
     con_inv t' \<and> sr_out l' = map (\<lambda>c. (0x3F8, of_char c)) (''Panic: Page fault'' @ [CHR 0x0A])"
proof -
  have "con_inv sample_console" "lsr_ready (\<lambda>_. 0x20)" by (auto simp: con_inv_def sample_console_def lsr_ready_def)
  from exception_report [OF this, of 14 "''exceptions.cpp''" sample_istate "0x1000" "\<lparr>sr_out = [], sr_polls = 0, sr_lock = False\<rparr>"]
  show ?thesis by (auto simp: sent_def PORT_def exc_message_def)
qed

section \<open>Installation\<close>

text \<open>
  After \<open>Exceptions::init\<close> the vectors 0 to 14 lead to their handlers, every other entry of the table is as
  it was, and all lines of the 8259 controllers are masked.
\<close>

lemma exc_init_dispatch:
  "\<exists>s'. exc_init s lApicID handler = Inr s' \<and>
    (\<forall>v. iq_entries s' v = (if unat v < 15 then handler (unat v) else iq_entries s v)) \<and> iq_port s' 0x21 = 0xFF \<and> iq_port s' 0xA1 = 0xFF"
proof -
  have low: "addEntry s lApicID (of_nat v) e = Inr (s\<lparr>iq_entries := (iq_entries s)(of_nat v := e)\<rparr>)" if "v < 15" for s v e
  proof -
    have "\<not> (of_nat v :: u8) \<ge> 32" using that by (simp add: word_le_nat_alt unat_of_nat)
    then show ?thesis by (simp add: addEntry_def)
  qed
  have "\<exists>s'. for_each (\<lambda>s v. addEntry s lApicID (of_nat v) (handler v)) [0..<n] s = Inr s' \<and>
      (\<forall>v. iq_entries s' v = (if unat v < n then handler (unat v) else iq_entries s v)) \<and> iq_port s' = iq_port s" if "n \<le> 15" for n s
    using that
  proof (induction n)
    case (Suc n)
    obtain s1 where s1: "for_each (\<lambda>s v. addEntry s lApicID (of_nat v) (handler v)) [0..<n] s = Inr s1"
      "\<forall>v. iq_entries s1 v = (if unat v < n then handler (unat v) else iq_entries s v)" "iq_port s1 = iq_port s" using Suc by auto
    have e: "v = of_nat n \<longleftrightarrow> unat v = n" for v :: u8
    proof -
      have "unat (of_nat n :: u8) = n" using Suc.prems by (simp add: unat_of_nat)
      then show ?thesis by (metis of_nat_unat ucast_id)
    qed
    let ?s2 = "s1\<lparr>iq_entries := (iq_entries s1)(of_nat n := handler n)\<rparr>"
    have "for_each (\<lambda>s v. addEntry s lApicID (of_nat v) (handler v)) [0..<Suc n] s = Inr ?s2"
      using s1(1) low [of n s1] Suc.prems by (simp add: push_all_append)
    moreover have "iq_entries ?s2 v = (if unat v < Suc n then handler (unat v) else iq_entries s v)" for v using s1(2) e [of v] by auto
    ultimately show ?case using s1(3) by auto
  qed simp
  from this [of 15 "pic_init s"] obtain s' where s': "exc_init s lApicID handler = Inr s'"
    "\<forall>v. iq_entries s' v = (if unat v < 15 then handler (unat v) else iq_entries (pic_init s) v)" "iq_port s' = iq_port (pic_init s)"
    unfolding exc_init_def by auto
  have "iq_entries (pic_init s) = iq_entries s" "iq_port (pic_init s) 0x21 = 0xFF" "iq_port (pic_init s) 0xA1 = 0xFF"
    by (simp_all add: pic_init_def pic_disable_def outb_def)
  then show ?thesis using s' by auto
qed

end
