(* ===== verification/Gdt.thy ===== *)
theory Gdt
  imports Process Irq KLog Sched
begin

text \<open>
  \<open>kernel/gdt.cpp\<close>, \<open>kernel/msr.cpp\<close> and \<open>kernel/syscalls/syscalls.cpp\<close>: the segment descriptors of a processor,
  its task state segment, and the registers that set up the system call instruction. The descriptor
  table is a list of descriptors in front of the long descriptor of the task state; the model-specific
  registers are a map. The last sections read the tables the way the processor does: a selector names a
  descriptor by its upper bits, and its kind and privilege are fields of the access byte. They show
  that the selectors the rest of the kernel uses (threads, interrupt gates, system calls) all
  name descriptors of the type that is needed there.
\<close>

section \<open>Data\<close>

type_synonym u4 = "4 word"

record GdtPtr =
  gp_limit :: u16
  gp_base :: u64

record SegmentDescriptor =
  sd_limitLow :: u16
  sd_baseLow :: u16
  sd_baseMid :: u8
  sd_accessByte :: u8
  sd_limitHigh :: u4
  sd_flags :: u4
  sd_baseHigh :: u8

record LongSegmentDescriptor = SegmentDescriptor +
  sd_baseVeryHigh :: u32
  sd_reserved :: u32

record TSS =
  tss_reserved :: u32
  tss_RSP0 :: u64
  tss_RSP1 :: u64
  tss_RSP2 :: u64
  tss_reserved1 :: u64
  tss_IST1 :: u64
  tss_IST2 :: u64
  tss_IST3 :: u64
  tss_IST4 :: u64
  tss_IST5 :: u64
  tss_IST6 :: u64
  tss_IST7 :: u64
  tss_reserved2 :: u64
  tss_reserved3 :: u16
  tss_IOPB :: u16

text \<open>The sizes of the packed structures.\<close>

definition sizeof_SegmentDescriptor :: nat where "sizeof_SegmentDescriptor = 8"
definition sizeof_LongSegmentDescriptor :: nat where "sizeof_LongSegmentDescriptor = 16"
definition sizeof_TSS :: nat where "sizeof_TSS = 104"

definition PRESENT :: u8 where "PRESENT = push_bit 7 1"
definition NOT_SYS :: u8 where "NOT_SYS = push_bit 4 1"
definition EXEC :: u8 where "EXEC = push_bit 3 1"
definition RW :: u8 where "RW = push_bit 1 1"
definition GRAN :: u4 where "GRAN = push_bit 3 1"
definition SIZE :: u4 where "SIZE = push_bit 2 1"
definition LONG :: u4 where "LONG = push_bit 1 1"

lemmas gdt_flags = PRESENT_def NOT_SYS_def EXEC_def RW_def GRAN_def SIZE_def LONG_def

definition zero_desc :: SegmentDescriptor where
  "zero_desc = \<lparr>sd_limitLow = 0, sd_baseLow = 0, sd_baseMid = 0, sd_accessByte = 0, sd_limitHigh = 0, sd_flags = 0, sd_baseHigh = 0\<rparr>"

definition zero_long :: LongSegmentDescriptor where
  "zero_long = \<lparr>sd_limitLow = 0, sd_baseLow = 0, sd_baseMid = 0, sd_accessByte = 0, sd_limitHigh = 0, sd_flags = 0, sd_baseHigh = 0,
     sd_baseVeryHigh = 0, sd_reserved = 0\<rparr>"

section \<open>Installing the table\<close>

text \<open>What a processor's \<open>CPU\<close> keeps of it, and the registers that \<open>lgdt\<close> and \<open>ltr\<close> load.\<close>

record cpu_tables =
  ct_gdt :: GdtPtr
  ct_TSS :: TSS
  ct_gdtr :: GdtPtr
  ct_tr :: u16

definition flat :: "u8 \<Rightarrow> u4 \<Rightarrow> SegmentDescriptor \<Rightarrow> SegmentDescriptor" where
  "flat access flags d = d\<lparr>sd_limitLow := 0xFFFF, sd_accessByte := access, sd_flags := flags, sd_limitHigh := 0xF\<rparr>"

definition set_seg :: "SegmentDescriptor list \<Rightarrow> nat \<Rightarrow> u8 \<Rightarrow> u4 \<Rightarrow> SegmentDescriptor list" where
  "set_seg g i access flags = g[i := flat access flags (g ! i)]"

definition tss_descriptor :: "u64 \<Rightarrow> LongSegmentDescriptor \<Rightarrow> LongSegmentDescriptor" where
  "tss_descriptor TSSAddress d =
     d\<lparr>sd_limitLow := of_nat sizeof_TSS, sd_baseLow := ucast TSSAddress, sd_baseMid := ucast (drop_bit 16 TSSAddress),
       sd_baseHigh := ucast (drop_bit 24 TSSAddress), sd_baseVeryHigh := ucast (drop_bit 32 TSSAddress),
       sd_accessByte := 0x89, sd_flags := LONG\<rparr>"

text \<open>
  \<open>install\<close>: \<open>gdt\<close> and \<open>stack\<close> are the results of the two calls of \<open>kmalloc\<close> and \<open>TSSAddress\<close> the address of the
  current processor's task state. Clearing a table at address null is a bad access. \<open>cpu\<close> is \<open>None\<close> when
  the processor has no \<open>CPU\<close> yet.
\<close>

definition gdt_install :: "cpu_tables option \<Rightarrow> u64 \<Rightarrow> u64 \<Rightarrow> u64 \<Rightarrow> (SegmentDescriptor list \<times> LongSegmentDescriptor \<times> cpu_tables) res" where
  "gdt_install cpu gdt TSSAddress stack =
     (if gdt = 0 then Inl BadAccess else
      let g = replicate 6 zero_desc;
          g = set_seg g 1 (PRESENT OR NOT_SYS OR EXEC OR RW) (GRAN OR LONG);
          g = set_seg g 2 (PRESENT OR NOT_SYS OR RW) (GRAN OR SIZE);
          g = set_seg g 4 (PRESENT OR NOT_SYS OR RW OR 0x60) (GRAN OR SIZE);
          g = set_seg g 5 (PRESENT OR NOT_SYS OR EXEC OR RW OR 0x60) (GRAN OR LONG) in
      case cpu of None \<Rightarrow> Inl Panic
      | Some c \<Rightarrow>
          let tss = tss_descriptor TSSAddress zero_long;
              ptr = \<lparr>gp_limit = of_nat (6 * sizeof_SegmentDescriptor + sizeof_LongSegmentDescriptor - 1), gp_base = gdt\<rparr>;
              c = c\<lparr>ct_gdt := ptr\<rparr>;
              c = c\<lparr>ct_gdtr := ct_gdt c\<rparr>;
              c = c\<lparr>ct_tr := 6 * 8\<rparr> in
          Inr (g, tss, c\<lparr>ct_TSS := (ct_TSS c)\<lparr>tss_IST1 := stack\<rparr>\<rparr>))"

section \<open>Model-specific registers and system calls\<close>

type_synonym msrs = "u32 \<Rightarrow> u64"

text \<open>The instructions: the value is held in the pair \<open>edx:eax\<close>.\<close>

definition wrmsr :: "msrs \<Rightarrow> u32 \<Rightarrow> u32 \<Rightarrow> u32 \<Rightarrow> msrs" where
  "wrmsr ms ecx eax edx = ms(ecx := push_bit 32 (ucast edx) OR ucast eax)"

definition rdmsr :: "msrs \<Rightarrow> u32 \<Rightarrow> u32 \<times> u32" where
  "rdmsr ms ecx = (ucast (ms ecx), ucast (drop_bit 32 (ms ecx)))"

definition writeMSR :: "msrs \<Rightarrow> u32 \<Rightarrow> u64 \<Rightarrow> msrs" where
  "writeMSR ms msr value = wrmsr ms msr (ucast value) (ucast (drop_bit 32 value))"

definition readMSR :: "msrs \<Rightarrow> u32 \<Rightarrow> u64" where
  "readMSR ms msr = (let (lo, hi) = rdmsr ms msr in ucast lo OR push_bit 32 (ucast hi))"

definition MSR_EFER :: u32 where "MSR_EFER = 0xC0000080"
definition MSR_STAR :: u32 where "MSR_STAR = 0xC0000081"
definition MSR_LSTAR :: u32 where "MSR_LSTAR = 0xC0000082"
definition MSR_SF_MASK :: u32 where "MSR_SF_MASK = 0xC0000084"

lemmas msr_numbers = MSR_EFER_def MSR_STAR_def MSR_LSTAR_def MSR_SF_MASK_def

text \<open>\<open>syscall_entry\<close> is the address of the entry point in \<open>kernel/syscalls/syscall.asm\<close>.\<close>

definition initSyscalls :: "(nat \<Rightarrow> u8) \<Rightarrow> u64 \<Rightarrow> msrs \<Rightarrow> serial \<Rightarrow> (msrs \<times> serial) res option" where
  "initSyscalls lsr syscall_entry ms s =
     (let ms = writeMSR ms MSR_EFER (readMSR ms MSR_EFER OR 0x1);
          star = push_bit 32 8 OR push_bit 48 0x1B;
          ms = writeMSR ms MSR_STAR star;
          ms = writeMSR ms MSR_LSTAR syscall_entry;
          ms = writeMSR ms MSR_SF_MASK 0x600 in
      bind_opt (log_info lsr s ''Syscalls initialized'' []) (\<lambda>s. Some (Inr (ms, s))))"

definition sysExit :: "sched \<Rightarrow> nat \<Rightarrow> int \<Rightarrow> (sched \<times> u64 \<times> nat option) res option" where
  "sysExit s c status = sched_exit s c"

section \<open>How the processor reads selectors\<close>

definition sel_index :: "u16 \<Rightarrow> nat" where "sel_index sel = unat (drop_bit 3 sel)"
definition sel_rpl :: "u16 \<Rightarrow> u8" where "sel_rpl sel = ucast (sel AND 3)"
definition desc_dpl :: "SegmentDescriptor \<Rightarrow> u8" where "desc_dpl d = drop_bit 5 (sd_accessByte d) AND 3"

definition desc_present :: "SegmentDescriptor \<Rightarrow> bool" where
  "desc_present d \<longleftrightarrow> bit (sd_accessByte d) 7 \<and> bit (sd_accessByte d) 4"

text \<open>
  A code selector of privilege \<open>dpl\<close> names a present, executable, not conforming descriptor of 64-bit
  code; a data selector names a present, writable one. Both carry the privilege of the descriptor,
  and name the global table.
\<close>

definition code_sel :: "SegmentDescriptor list \<Rightarrow> u8 \<Rightarrow> u16 \<Rightarrow> bool" where
  "code_sel g dpl sel \<longleftrightarrow> sel_index sel < length g \<and> \<not> bit sel 2 \<and> sel_rpl sel = dpl \<and>
     (let d = g ! sel_index sel in desc_present d \<and> desc_dpl d = dpl \<and> bit (sd_accessByte d) 3 \<and> \<not> bit (sd_accessByte d) 2 \<and>
        bit (sd_flags d) 1 \<and> \<not> bit (sd_flags d) 2)"

definition data_sel :: "SegmentDescriptor list \<Rightarrow> u8 \<Rightarrow> u16 \<Rightarrow> bool" where
  "data_sel g dpl sel \<longleftrightarrow> sel_index sel < length g \<and> \<not> bit sel 2 \<and> sel_rpl sel = dpl \<and>
     (let d = g ! sel_index sel in desc_present d \<and> desc_dpl d = dpl \<and> \<not> bit (sd_accessByte d) 3 \<and> bit (sd_accessByte d) 1)"

definition tss_base :: "LongSegmentDescriptor \<Rightarrow> u64" where
  "tss_base d = ucast (sd_baseLow d) OR push_bit 16 (ucast (sd_baseMid d)) OR push_bit 24 (ucast (sd_baseHigh d)) OR
     push_bit 32 (ucast (sd_baseVeryHigh d))"

text \<open>The selectors that \<open>syscall\<close> and 64-bit \<open>sysret\<close> load, from the register \<open>STAR\<close>.\<close>

definition syscall_cs :: "msrs \<Rightarrow> u16" where "syscall_cs ms = ucast (drop_bit 32 (ms MSR_STAR)) AND 0xFFFC"
definition syscall_ss :: "msrs \<Rightarrow> u16" where "syscall_ss ms = ucast (drop_bit 32 (ms MSR_STAR)) + 8"
definition sysret_cs :: "msrs \<Rightarrow> u16" where "sysret_cs ms = (ucast (drop_bit 48 (ms MSR_STAR)) + 16) OR 3"
definition sysret_ss :: "msrs \<Rightarrow> u16" where "sysret_ss ms = (ucast (drop_bit 48 (ms MSR_STAR)) + 8) OR 3"

lemmas selector_defs = sel_index_def sel_rpl_def desc_dpl_def desc_present_def code_sel_def data_sel_def Let_def
lemmas star_defs = syscall_cs_def syscall_ss_def sysret_cs_def sysret_ss_def

section \<open>The table\<close>

definition the_gdt :: "SegmentDescriptor list" where
  "the_gdt = [zero_desc, flat 0x9A 0xA zero_desc, flat 0x92 0xC zero_desc, zero_desc, flat 0xF2 0xC zero_desc, flat 0xFA 0xA zero_desc]"

lemma gdt_install_table:
  assumes "gdt \<noteq> 0"
  shows "gdt_install (Some c) gdt TSSAddress stack = Inr (the_gdt, tss_descriptor TSSAddress zero_long,
    c\<lparr>ct_gdt := \<lparr>gp_limit = 63, gp_base = gdt\<rparr>, ct_gdtr := \<lparr>gp_limit = 63, gp_base = gdt\<rparr>, ct_tr := 0x30,
      ct_TSS := (ct_TSS c)\<lparr>tss_IST1 := stack\<rparr>\<rparr>)"
  using assms by (simp add: gdt_install_def set_seg_def the_gdt_def gdt_flags numeral_eq_Suc sizeof_SegmentDescriptor_def
    sizeof_LongSegmentDescriptor_def Let_def)

lemma tss_base_join: "tss_base (tss_descriptor a d) = a"
proof (rule bit_eqI)
  fix n
  assume "possible_bit TYPE(64 word) n"
  then have n: "n < 64" by simp
  consider "n < 16" | "16 \<le> n" "n < 24" | "24 \<le> n" "n < 32" | "32 \<le> n" by linarith
  then show "bit (tss_base (tss_descriptor a d)) n = bit a n"
    using n by cases (simp_all add: tss_base_def tss_descriptor_def bit_simps, linarith+)
qed

lemma the_gdt_typed:
  "code_sel the_gdt 0 8" "data_sel the_gdt 0 0x10" "data_sel the_gdt 3 0x23" "code_sel the_gdt 3 0x2b"
  by (simp_all add: the_gdt_def selector_defs flat_def bit_simps)

section \<open>Model-specific registers\<close>

lemma msr_join:
  fixes v :: u64
  shows "push_bit 32 (ucast (ucast (drop_bit 32 v) :: u32)) OR ucast (ucast v :: u32) = v"
proof (rule bit_eqI)
  fix n
  assume "possible_bit TYPE(64 word) n"
  then have "n < 64" by simp
  then show "bit (push_bit 32 (ucast (ucast (drop_bit 32 v) :: u32)) OR ucast (ucast v :: u32) :: u64) n = bit v n"
    by (cases "n < 32") (simp_all add: bit_simps, linarith)
qed

lemma writeMSR_eq: "writeMSR ms msr v = ms(msr := v)"
  by (simp add: writeMSR_def wrmsr_def msr_join)

lemma readMSR_eq: "readMSR ms msr = ms msr"
  using msr_join [of "ms msr"] by (simp add: readMSR_def rdmsr_def or.commute)

lemma initSyscalls_msrs:
  assumes "lsr_ready lsr" "\<not> sr_lock s"
  shows "\<exists>s'. initSyscalls lsr entry ms s = Some (Inr (ms(MSR_EFER := ms MSR_EFER OR 1, MSR_STAR := push_bit 32 8 OR push_bit 48 0x1B,
    MSR_LSTAR := entry, MSR_SF_MASK := 0x600), s')) \<and> sent s (''Info: Syscalls initialized'' @ [CHR 0x0A]) s'"
proof -
  obtain s' where "serial_print lsr s (''Info: Syscalls initialized'' @ [CHR 0x0A]) = Some (Inr s')"
    "sent s (''Info: Syscalls initialized'' @ [CHR 0x0A]) s'"
    using serial_print_sent [OF assms] by blast
  then show ?thesis
    by (simp add: initSyscalls_def log_info_def actualDebugLevel_def sprintf_def serial_printString_def writeMSR_eq readMSR_eq)
qed

section \<open>Types of the selectors\<close>

definition ring0_gates :: "gate list \<Rightarrow> bool" where
  "ring0_gates idt \<longleftrightarrow> (\<forall>g \<in> set idt. g_present g \<longrightarrow> g_segmentSelector g = 8)"

lemma setEntry_ring0: "ring0_gates idt \<Longrightarrow> setEntry idt v isr ist = Inr idt' \<Longrightarrow> ring0_gates idt'"
  by (auto simp: ring0_gates_def setEntry_def Let_def assert_res_eq_Inr dest!: set_update_subset_insert [THEN subsetD])

lemma entries_ring0:
  "ring0_gates idt \<Longrightarrow> for_each (\<lambda>idt i. setEntry idt (v i) (isr i) ist) xs idt = Inr idt' \<Longrightarrow> ring0_gates idt'"
proof (induction xs arbitrary: idt)
  case (Cons x xs)
  then show ?case by (auto simp: bind_res_eq_Inr intro: setEntry_ring0)
qed simp

lemma idt_ring0:
  assumes "idt_init isr irq = Inr idt"
  shows "ring0_gates idt"
proof -
  have "ring0_gates (replicate maxEntries zero_gate)" by (simp add: ring0_gates_def zero_gate_def)
  moreover obtain i1 where "for_each (\<lambda>idt i. setEntry idt (of_nat i) (isr i) 1) [0..<32] (replicate maxEntries zero_gate) = Inr i1"
    "for_each (\<lambda>idt i. setEntry idt (of_nat (32 + i)) (irq i) 0) [0..<16] i1 = Inr idt"
    using assms unfolding idt_init_def bind_res_eq_Inr by blast
  ultimately show ?thesis
    using entries_ring0 [of _ of_nat isr] entries_ring0 [of i1 "\<lambda>i. of_nat (32 + i)" irq 0 "[0..<16]" idt] by blast
qed

lemma createThread_selectors:
  assumes "createThread m pa p t entry userThread = Inr (th, st, p', m')"
  shows "is_cs st = (if userThread then 0x2b else 0x8) \<and> is_ss st = (if userThread then 0x23 else 0x10)"
  using assms by (auto simp: createThread_def Let_def bind_res_eq_Inr split: if_splits)

text \<open>A thread's interrupt state is typed when its selectors are code and data of its privilege.\<close>

definition istate_typed :: "SegmentDescriptor list \<Rightarrow> u8 \<Rightarrow> istate \<Rightarrow> bool" where
  "istate_typed g dpl st \<longleftrightarrow> code_sel g dpl (ucast (is_cs st)) \<and> data_sel g dpl (ucast (is_ss st))"

lemma createThread_typed:
  "createThread m pa p t entry userThread = Inr (th, st, p', m') \<Longrightarrow> istate_typed the_gdt (if userThread then 3 else 0) st"
  using createThread_selectors [of m pa p t entry userThread th st p' m'] the_gdt_typed by (auto simp: istate_typed_def)

definition syscalls_typed :: "SegmentDescriptor list \<Rightarrow> msrs \<Rightarrow> bool" where
  "syscalls_typed g ms \<longleftrightarrow> code_sel g 0 (syscall_cs ms) \<and> data_sel g 0 (syscall_ss ms) \<and> code_sel g 3 (sysret_cs ms) \<and>
     data_sel g 3 (sysret_ss ms)"

lemma star_typed: "ms MSR_STAR = push_bit 32 8 OR push_bit 48 0x1B \<Longrightarrow> syscalls_typed the_gdt ms"
proof -
  assume s: "ms MSR_STAR = push_bit 32 8 OR push_bit 48 0x1B"
  have "syscall_cs ms = 8" "syscall_ss ms = 0x10" "sysret_cs ms = 0x2b" "sysret_ss ms = 0x23" by (simp_all add: s star_defs)
  then show ?thesis using the_gdt_typed by (simp add: syscalls_typed_def)
qed

text \<open>
  \<open>C9\<close> The tables of a processor fit together. After \<open>install\<close>, \<open>IDT::init\<close> and \<open>initSyscalls\<close>, every selector that
  the kernel loads names a present descriptor of the kind and privilege needed: each present
  interrupt gate and the system call instruction lead to 64-bit kernel code (and kernel data), the
  return from a system call to user code and data, and the interrupt state with which a thread is
  created has user or kernel selectors as the thread is one. The task register names the long
  descriptor, whose scattered base is the address of the processor's task state; the system call
  leads to its entry point with interrupts and the direction flag cleared, and the other bits of \<open>EFER\<close> are kept.
\<close>

theorem selectors_typed:
  assumes "gdt \<noteq> 0" "lsr_ready lsr" "\<not> sr_lock s"
  shows "\<exists>g tss c' idt ms' s'. gdt_install (Some c) gdt TSSAddress stack = Inr (g, tss, c') \<and> idt_init isr irq = Inr idt \<and>
    initSyscalls lsr entry ms s = Some (Inr (ms', s')) \<and>
    (\<forall>v < 256. g_present (idt ! v) \<longrightarrow> code_sel g 0 (g_segmentSelector (idt ! v))) \<and> syscalls_typed g ms' \<and>
    (case createThread m pa p t ip userThread of Inl _ \<Rightarrow> True
     | Inr (th, st, p', m') \<Rightarrow> istate_typed g (if userThread then 3 else 0) st) \<and>
    sel_index (ct_tr c') = length g \<and> sd_accessByte tss = 0x89 \<and> tss_base tss = TSSAddress \<and> gp_base (ct_gdtr c') = gdt \<and>
    tss_IST1 (ct_TSS c') = stack \<and> readMSR ms' MSR_LSTAR = entry \<and> readMSR ms' MSR_SF_MASK = 0x600 \<and>
    readMSR ms' MSR_EFER = (readMSR ms MSR_EFER OR 1)"
proof -
  obtain idt where idt: "idt_init isr irq = Inr idt" "length idt = 256" using idt_init_gates by blast
  obtain ms' s' where ms: "initSyscalls lsr entry ms s = Some (Inr (ms', s'))"
    "ms' = ms(MSR_EFER := ms MSR_EFER OR 1, MSR_STAR := push_bit 32 8 OR push_bit 48 0x1B, MSR_LSTAR := entry, MSR_SF_MASK := 0x600)"
    using initSyscalls_msrs [OF assms(2,3)] by blast
  have "syscalls_typed the_gdt ms'" by (rule star_typed) (simp add: ms(2) msr_numbers)
  moreover have "code_sel the_gdt 0 (g_segmentSelector (idt ! v))" if "v < 256" "g_present (idt ! v)" for v
    using idt_ring0 [OF idt(1)] idt(2) that the_gdt_typed(1) by (simp add: ring0_gates_def)
  moreover have "case createThread m pa p t ip userThread of Inl _ \<Rightarrow> True
     | Inr (th, st, p', m') \<Rightarrow> istate_typed the_gdt (if userThread then 3 else 0) st"
    using createThread_typed [of m pa p t ip userThread] by (cases "createThread m pa p t ip userThread") (auto simp del: if_split)
  moreover have "sel_index 0x30 = length the_gdt" by (simp add: sel_index_def the_gdt_def)
  ultimately show ?thesis
    unfolding gdt_install_table [OF assms(1)] using idt(1) ms(1)
    by (simp add: tss_base_join ms(2) readMSR_eq msr_numbers) (simp add: tss_descriptor_def)
qed

text \<open>A processor whose task state lies at \<open>0xFFFFFFFF80123450\<close>, with the table at \<open>0x2000\<close>.\<close>

definition sample_tables :: cpu_tables where
  "sample_tables = \<lparr>ct_gdt = \<lparr>gp_limit = 0, gp_base = 0\<rparr>, ct_TSS = \<lparr>tss_reserved = 0, tss_RSP0 = 0x7000, tss_RSP1 = 0, tss_RSP2 = 0,
     tss_reserved1 = 0, tss_IST1 = 0, tss_IST2 = 0, tss_IST3 = 0, tss_IST4 = 0, tss_IST5 = 0, tss_IST6 = 0, tss_IST7 = 0,
     tss_reserved2 = 0, tss_reserved3 = 0, tss_IOPB = 0\<rparr>, ct_gdtr = \<lparr>gp_limit = 0, gp_base = 0\<rparr>, ct_tr = 0\<rparr>"

theorem selectors_typed_witness:
  "\<exists>g tss c' ms' s'. gdt_install (Some sample_tables) 0x2000 0xFFFFFFFF80123450 0x9000 = Inr (g, tss, c') \<and>
    tss_base tss = 0xFFFFFFFF80123450 \<and> tss_IST1 (ct_TSS c') = 0x9000 \<and> sel_index (ct_tr c') = length g \<and>
    initSyscalls (\<lambda>_. 0x20) 0xFFFFFFFF80200000 (\<lambda>_. 0x500) \<lparr>sr_out = [], sr_polls = 0, sr_lock = False\<rparr> = Some (Inr (ms', s')) \<and>
    readMSR ms' MSR_EFER = 0x501 \<and> syscalls_typed g ms'"
proof -
  have "lsr_ready (\<lambda>_. 0x20)" by (auto simp: lsr_ready_def)
  moreover have "(0x2000 :: u64) \<noteq> 0" "\<not> sr_lock \<lparr>sr_out = [], sr_polls = 0, sr_lock = False\<rparr>" by simp_all
  moreover have "readMSR (\<lambda>_. 0x500) MSR_EFER OR 1 = 0x501" by (simp add: readMSR_eq)
  ultimately show ?thesis
    using selectors_typed [of "0x2000" "\<lambda>_. 0x20" "\<lparr>sr_out = [], sr_polls = 0, sr_lock = False\<rparr>" sample_tables
        "0xFFFFFFFF80123450" "0x9000" of_nat of_nat "0xFFFFFFFF80200000" "\<lambda>_. 0x500"] by force
qed

end
