(* ===== verification/Drivers.thy ===== *)
theory Drivers
  imports Vfs Spinlock
begin

text \<open>
  \<open>kernel/fs/drivers.cpp\<close>, \<open>fs::mount\<close> of \<open>kernel/fs/fs.cpp\<close> and \<open>kernel/fs/devfs.cpp\<close>. The list of drivers holds
  pointers; the virtual methods of the driver at an address are the fields of \<open>fs_driver\<close>, and work on
  the state \<open>'s\<close> of the file systems. A pointer to a node is a value of \<open>'n\<close>, a parameter that may be
  null is an option. The file \<open>/dev\<close> is the node \<open>DevFs\<close>; the nodes of the other file systems keep their operations.
\<close>

section \<open>Drivers\<close>

record ('n, 's) fs_driver =
  fd_identify :: "'s \<Rightarrow> 'n \<Rightarrow> (bool \<times> 's) res option"
  fd_mount :: "'s \<Rightarrow> 'n \<Rightarrow> string \<Rightarrow> ('n \<times> 's) res option"

text \<open>\<open>Synchronized<Vector<T>>\<close>.\<close>

record 'a sync_vec =
  sv_vec :: "'a vector"
  sv_lock :: bool

definition sync_new :: "'a sync_vec" where
  "sync_new = \<lparr>sv_vec = vec_new, sv_lock = False\<rparr>"

definition locked_op :: "('a vector \<Rightarrow> 'a vector res) \<Rightarrow> 'a sync_vec \<Rightarrow> 'a sync_vec res" where
  "locked_op f v =
     bind_res (spin_lock (sv_lock v)) (\<lambda>l. bind_res (f (sv_vec v)) (\<lambda>w. Inr \<lparr>sv_vec = w, sv_lock = spin_unlock l\<rparr>))"

definition initDrivers :: "nat sync_vec" where
  "initDrivers = sync_new"

text \<open>The list before \<open>initDrivers\<close>, which nothing calls: a zeroed global.\<close>

definition zeroed_drivers :: "nat sync_vec" where
  "zeroed_drivers = \<lparr>sv_vec = vec_null, sv_lock = False\<rparr>"

definition registerFsDriver :: "nat sync_vec \<Rightarrow> nat \<Rightarrow> nat sync_vec res" where
  "registerFsDriver drivers driver = locked_op (\<lambda>v. vec_push v driver) drivers"

definition unregisterFsDriver :: "nat sync_vec \<Rightarrow> nat \<Rightarrow> nat sync_vec res" where
  "unregisterFsDriver drivers driver = locked_op (\<lambda>v. vec_remove v driver) drivers"

function driver_find_from :: "(nat \<Rightarrow> ('n, 's) fs_driver) \<Rightarrow> nat vector \<Rightarrow> 's \<Rightarrow> 'n \<Rightarrow> nat \<Rightarrow> (nat option \<times> 's) res option" where
  "driver_find_from drv v s device i =
     (if i < vsize v
      then bind_opt (Some (vec_at v i)) (\<lambda>d. bind_opt (fd_identify (drv d) s device) (\<lambda>(b, s).
           if b then Some (Inr (Some i, s)) else driver_find_from drv v s device (Suc i)))
      else Some (Inr (None, s)))"
  by pat_completeness auto
termination
  by (relation "measure (\<lambda>(drv, v, s, device, i). vsize v - i)") auto

declare driver_find_from.simps [simp del]

definition findFsDriver :: "(nat \<Rightarrow> ('n, 's) fs_driver) \<Rightarrow> nat sync_vec \<Rightarrow> 's \<Rightarrow> 'n option \<Rightarrow> (nat option \<times> 's) res option" where
  "findFsDriver drv drivers s device =
     (case device of None \<Rightarrow> Some (Inl Panic)
      | Some dev \<Rightarrow> bind_opt (driver_find_from drv (sv_vec drivers) s dev 0) (\<lambda>(ptr, s).
          case ptr of None \<Rightarrow> Some (Inr (None, s))
          | Some i \<Rightarrow> bind_opt (Some (vec_at (sv_vec drivers) i)) (\<lambda>d. Some (Inr (Some d, s)))))"

text \<open>The signed result of \<open>findLastIndex\<close> is cut to the 32 bits of the parameter of \<open>slice\<close>.\<close>

definition fs_mount :: "(nat \<Rightarrow> ('n, 's) fs_driver) \<Rightarrow> nat sync_vec \<Rightarrow> 'n mounts \<Rightarrow> 's \<Rightarrow> kstr \<Rightarrow> 'n option \<Rightarrow> (int \<times> 'n mounts \<times> 's) res option" where
  "fs_mount drv drivers mt s path device =
     (case device of None \<Rightarrow> Some (Inr (- ENODEV, mt, s))
      | Some dev \<Rightarrow> bind_opt (findFsDriver drv drivers s device) (\<lambda>(driver, s).
          case driver of None \<Rightarrow> Some (Inr (- ENODEV, mt, s))
          | Some d \<Rightarrow> bind_opt (str_findLastIndex path (CHR ''/'')) (\<lambda>i.
              bind_opt (Some (str_slice path (unat (word_of_int i :: u32)) (vsize path))) (\<lambda>name.
              bind_opt (fd_mount (drv d) s dev (vec_list name)) (\<lambda>(n, s).
              Some (Inr (0, mountNode mt (vec_list path) n, s)))))))"

section \<open>Devices\<close>

datatype 'n dnode = DevFs | Dev 'n

text \<open>
  The method table of \<open>DevFs\<close>: its \<open>findEntry\<close> has one parameter and so does not override the virtual method of
  the base class, and no other method is overridden.
\<close>

definition devfs_ops :: "('n, 's) node_ops \<Rightarrow> ('n dnode, 's) node_ops" where
  "devfs_ops ops = \<lparr>
     no_type = (\<lambda>s n. case n of DevFs \<Rightarrow> Inr DIRECTORY_TYPE | Dev d \<Rightarrow> no_type ops s d),
     no_open = (\<lambda>s n. case n of DevFs \<Rightarrow> base_open s n | Dev d \<Rightarrow> no_open ops s d),
     no_close = (\<lambda>s n. case n of DevFs \<Rightarrow> base_close s n | Dev d \<Rightarrow> no_close ops s d),
     no_read = (\<lambda>s n. case n of DevFs \<Rightarrow> base_read s n | Dev d \<Rightarrow> no_read ops s d),
     no_write = (\<lambda>s n. case n of DevFs \<Rightarrow> base_write s n | Dev d \<Rightarrow> no_write ops s d),
     no_findEntry = (\<lambda>s n name. case n of DevFs \<Rightarrow> base_findEntry s n name
       | Dev d \<Rightarrow> bind_opt (no_findEntry ops s d name) (\<lambda>(r, s). Some (Inr (map_sum id Dev r, s)))),
     no_size = (\<lambda>s n. case n of DevFs \<Rightarrow> base_size s n | Dev d \<Rightarrow> no_size ops s d)\<rparr>"

text \<open>Its own \<open>findEntry\<close>, which nothing calls; a search without result is dereferenced as null.\<close>

definition devfs_findEntry :: "('n \<Rightarrow> string) \<Rightarrow> 'n sync_vec \<Rightarrow> string \<Rightarrow> 'n res" where
  "devfs_findEntry node_name devices name =
     bind_res (vec_find (\<lambda>d. node_name d = name) (sv_vec devices)) (\<lambda>r.
     case r of None \<Rightarrow> Inl BadAccess | Some i \<Rightarrow> vec_at (sv_vec devices) i)"

definition devfs_init :: "'n dnode mounts \<Rightarrow> 'n sync_vec \<times> 'n dnode mounts" where
  "devfs_init mt = (sync_new, mountNode mt ''/dev'' DevFs)"

definition registerDevice :: "'n sync_vec \<Rightarrow> 'n \<Rightarrow> 'n sync_vec res" where
  "registerDevice devices n = locked_op (\<lambda>v. vec_push v n) devices"

section \<open>Registration\<close>

definition sync_inv :: "'a sync_vec \<Rightarrow> bool" where
  "sync_inv v \<longleftrightarrow> vec_inv (sv_vec v) \<and> \<not> sv_lock v"

definition sync_list :: "'a sync_vec \<Rightarrow> 'a list" where
  "sync_list v = vec_list (sv_vec v)"

lemma sync_new_inv: "sync_inv (sync_new :: 'a sync_vec) \<and> sync_list (sync_new :: 'a sync_vec) = []"
  using vec_new_inv by (simp add: sync_inv_def sync_list_def sync_new_def)

lemma locked_op_ok:
  assumes "sync_inv v" "\<exists>w. f (sv_vec v) = Inr w \<and> vec_inv w \<and> vec_list w = ys"
  shows "\<exists>v'. locked_op f v = Inr v' \<and> sync_inv v' \<and> sync_list v' = ys"
  using assms by (auto simp: locked_op_def sync_inv_def sync_list_def)

lemma registerDevice_ok: "sync_inv v \<Longrightarrow> \<exists>v'. registerDevice v n = Inr v' \<and> sync_inv v' \<and> sync_list v' = sync_list v @ [n]"
  unfolding registerDevice_def sync_list_def by (rule locked_op_ok [unfolded sync_list_def]) (auto simp: sync_inv_def vec_push_ok)

interpretation devices: growable sync_inv sync_list registerDevice "\<lambda>_. True"
  by unfold_locales (use registerDevice_ok in auto)

text \<open>What a sequence of registrations leaves registered, in order.\<close>

datatype drv_op = Reg nat | Unreg nat

fun drv_step :: "nat sync_vec \<Rightarrow> drv_op \<Rightarrow> nat sync_vec res" where
  "drv_step v (Reg d) = registerFsDriver v d"
| "drv_step v (Unreg d) = unregisterFsDriver v d"

fun registered :: "nat list \<Rightarrow> drv_op list \<Rightarrow> nat list" where
  "registered ds [] = ds"
| "registered ds (Reg d # os) = registered (ds @ [d]) os"
| "registered ds (Unreg d # os) = registered (removeAll d ds) os"

lemma drv_step_ok:
  assumes "sync_inv v"
  shows "\<exists>v'. drv_step v x = Inr v' \<and> sync_inv v' \<and> registered (sync_list v) (x # os) = registered (sync_list v') os"
proof (cases x)
  case (Reg d)
  have "\<exists>v'. registerFsDriver v d = Inr v' \<and> sync_inv v' \<and> sync_list v' = sync_list v @ [d]"
    unfolding registerFsDriver_def sync_list_def
    by (rule locked_op_ok [OF assms, unfolded sync_list_def]) (use assms in \<open>auto simp: sync_inv_def vec_push_ok\<close>)
  then show ?thesis using Reg by auto
next
  case (Unreg d)
  have "\<exists>v'. unregisterFsDriver v d = Inr v' \<and> sync_inv v' \<and> sync_list v' = removeAll d (sync_list v)"
    unfolding unregisterFsDriver_def sync_list_def
    by (rule locked_op_ok [OF assms, unfolded sync_list_def])
      (use assms vec_remove_from_ok [of "sv_vec v" 0 d] in \<open>auto simp: sync_inv_def vec_remove_def\<close>)
  then show ?thesis using Unreg by auto
qed

lemma drv_steps_ok:
  "sync_inv v \<Longrightarrow> \<exists>v'. push_all drv_step v os = Inr v' \<and> sync_inv v' \<and> sync_list v' = registered (sync_list v) os"
proof (induction os arbitrary: v)
  case (Cons x os)
  obtain v1 where v1: "drv_step v x = Inr v1" "sync_inv v1" "registered (sync_list v) (x # os) = registered (sync_list v1) os"
    using drv_step_ok [OF Cons.prems] by blast
  then show ?case using Cons.IH [OF v1(2)] by auto
qed simp

section \<open>Finding the driver\<close>

lemma driver_find_from_ok:
  assumes v: "vec_inv v" and id: "\<forall>d \<in> set (vec_list v). fd_identify (drv d) s dev = Some (Inr (ident d, s))"
  shows "i \<le> vsize v \<Longrightarrow> \<exists>r. driver_find_from drv v s dev i = Some (Inr (r, s)) \<and>
    map_option (\<lambda>k. vec_list v ! k) r = find ident (drop i (vec_list v)) \<and> (\<forall>k. r = Some k \<longrightarrow> k < vsize v)"
proof (induction "vsize v - i" arbitrary: i)
  case 0
  then show ?case using vec_list_length [OF v] by (subst driver_find_from.simps) simp
next
  case (Suc n)
  then have lt: "i < vsize v" by simp
  have d: "drop i (vec_list v) = vec_list v ! i # drop (Suc i) (vec_list v)"
    using lt vec_list_length [OF v] by (simp add: Cons_nth_drop_Suc)
  have "fd_identify (drv (vec_list v ! i)) s dev = Some (Inr (ident (vec_list v ! i), s))"
    using id lt vec_list_length [OF v] by simp
  then have "driver_find_from drv v s dev i =
      (if ident (vec_list v ! i) then Some (Inr (Some i, s)) else driver_find_from drv v s dev (Suc i))"
    using lt vec_at_list [OF v lt] by (subst driver_find_from.simps) simp
  then show ?case using Suc.hyps(1) [of "Suc i"] Suc.hyps(2) lt d by auto
qed

lemma findFsDriver_ok:
  assumes "sync_inv l" "\<forall>d \<in> set (sync_list l). fd_identify (drv d) s dev = Some (Inr (ident d, s))"
  shows "findFsDriver drv l s (Some dev) = Some (Inr (find ident (sync_list l), s))"
proof -
  obtain r where r: "driver_find_from drv (sv_vec l) s dev 0 = Some (Inr (r, s))"
    "map_option (\<lambda>k. vec_list (sv_vec l) ! k) r = find ident (sync_list l)" "\<forall>k. r = Some k \<longrightarrow> k < vsize (sv_vec l)"
    using driver_find_from_ok [of "sv_vec l" drv s dev ident 0] assms by (auto simp: sync_inv_def sync_list_def)
  then show ?thesis using vec_at_list [of "sv_vec l"] assms(1)
    by (cases r) (auto simp: findFsDriver_def sync_inv_def)
qed

section \<open>Mounting\<close>

lemma last_slash:
  assumes "vec_inv path" "vdataSize path < 2 ^ 32" "vec_list path = pre @ CHR ''/'' # name" "CHR ''/'' \<notin> set name"
  shows "str_findLastIndex path (CHR ''/'') = Some (Inr (int (length pre)))"
proof -
  have l: "vsize path = length pre + 1 + length name" using vec_list_length [OF assms(1)] assms(3) by simp
  have "(GREATEST j. j < vsize path \<and> vec_list path ! j = CHR ''/'') = length pre"
  proof (rule Greatest_equality)
    fix j
    assume j: "j < vsize path \<and> vec_list path ! j = CHR ''/''"
    show "j \<le> length pre"
    proof (rule ccontr)
      assume "\<not> j \<le> length pre"
      then have "vec_list path ! j = name ! (j - length pre - 1)" "j - length pre - 1 < length name"
        using assms(3) j l by (simp_all add: nth_append nth_Cons') linarith
      then show False using j assms(4) by (metis nth_mem)
    qed
  qed (use assms(3) l in simp)
  then show ?thesis using str_findLastIndex_correct [OF assms(1,2), of "CHR ''/''"] assms(3) by simp
qed

lemma slice_last:
  assumes "vec_inv path" "vec_list path = pre @ CHR ''/'' # name"
  shows "\<exists>v. str_slice path (length pre) (vsize path) = Inr v \<and> vec_list v = CHR ''/'' # name"
proof -
  have l: "vsize path = length pre + 1 + length name" using vec_list_length [OF assms(1)] assms(2) by simp
  then obtain v where "str_sub path (length pre) (vsize path - length pre) = Inr v"
    "vec_list v = take (vsize path - length pre) (drop (length pre) (vec_list path))"
    using str_sub_ok [OF assms(1), of "length pre" "vsize path - length pre"] by auto
  then show ?thesis using l assms(2) by (simp add: str_slice_def)
qed

text \<open>A path resolves to the node mounted on it when no other mount point on the way has as long a path.\<close>

lemma resolve_mounted:
  assumes "hd path = CHR ''/''" "path \<noteq> []" "\<forall>mp \<in> set (mt_points mt). candidate (components path) mp \<longrightarrow> length (mp_path mp) < length path"
  shows "resolvePath ops s (mountNode mt path n) path = Some (Inr (Inr n, s))"
proof -
  let ?mp = "\<lparr>mp_node = n, mp_path = path\<rparr>"
  have pts: "mt_points (mountNode mt path n) = mt_points mt @ [?mp]" by (simp add: mountNode_def Let_def)
  have "candidate (components path) ?mp" using assms(2) by (simp add: candidate_def)
  then obtain mp where mp: "findMountPoint (mountNode mt path n) (components path) = Some mp" "candidate (components path) mp"
    "mp \<in> set (mt_points mt) \<or> mp = ?mp" "length path \<le> length (mp_path mp)"
    using best_mount_spec [where best = None and bm = 0 and comps = "components path" and mps = "mt_points mt @ [?mp]"]
    unfolding findMountPoint_search pts by (auto split: option.splits)
  then have "mp = ?mp" using assms(3) by (meson not_less)
  then show ?thesis using mp(1) assms(1,2) by (simp add: resolvePath_def slice_def components_def)
qed

text \<open>
  \<open>C27\<close> After any sequence of registrations and removals of drivers, in the zeroed list or one that
  \<open>initDrivers\<close> made, \<open>fs::mount\<close> asks the registered drivers in
  order and mounts the node that the first one makes of the device, under the name that starts with
  the last slash of the path; the mount point is appended and 0 returned. Without a driver for
  the device the result is \<open>-ENODEV\<close> and nothing changes. The path then resolves to the mounted
  node, unless an older mount point that covers it has a path that is at least as long.
\<close>

theorem fs_mount_first_driver:
  assumes "vec_inv path" "vdataSize path < 2 ^ 32" "vec_list path = pre @ CHR ''/'' # name" "CHR ''/'' \<notin> set name"
    and "\<forall>d \<in> set (registered [] os). fd_identify (drv d) s dev = Some (Inr (ident d, s))"
    and "drivers0 = initDrivers \<or> drivers0 = zeroed_drivers"
  shows "\<exists>drivers. push_all drv_step drivers0 os = Inr drivers \<and>
    fs_mount drv drivers mt s path (Some dev) = (case find ident (registered [] os) of
      None \<Rightarrow> Some (Inr (- ENODEV, mt, s))
    | Some d \<Rightarrow> bind_opt (fd_mount (drv d) s dev (CHR ''/'' # name)) (\<lambda>(n, s'). Some (Inr (0, mountNode mt (vec_list path) n, s')))) \<and>
    fs_mount drv drivers mt s path None = Some (Inr (- ENODEV, mt, s)) \<and>
    (\<forall>n s'. hd (vec_list path) = CHR ''/'' \<longrightarrow>
       (\<forall>mp \<in> set (mt_points mt). candidate (components (vec_list path)) mp \<longrightarrow> length (mp_path mp) < vsize path) \<longrightarrow>
       resolvePath ops s' (mountNode mt (vec_list path) n) (vec_list path) = Some (Inr (Inr n, s')))"
proof -
  have "sync_inv drivers0" "sync_list drivers0 = []"
    using assms(6) by (auto simp: initDrivers_def zeroed_drivers_def sync_new_def vec_new_inv sync_inv_def sync_list_def vec_null_inv)
  then obtain l where l: "push_all drv_step drivers0 os = Inr l" "sync_inv l" "sync_list l = registered [] os"
    using drv_steps_ok [of drivers0 os] by metis
  have f: "findFsDriver drv l s (Some dev) = Some (Inr (find ident (registered [] os), s))"
    using findFsDriver_ok [OF l(2)] assms(5) l(3) by simp
  obtain v where v: "str_slice path (length pre) (vsize path) = Inr v" "vec_list v = CHR ''/'' # name"
    using slice_last [OF assms(1,3)] by blast
  have "length pre < 2 ^ 32" using vec_list_length [OF assms(1)] assms(1,2,3) by (simp add: vec_inv_def)
  then have u: "unat (word_of_int (int (length pre)) :: u32) = length pre" by (simp add: unsigned_of_nat take_bit_nat_eq_self)
  have "resolvePath ops s' (mountNode mt (vec_list path) n) (vec_list path) = Some (Inr (Inr n, s'))"
    if "hd (vec_list path) = CHR ''/''"
      "\<forall>mp \<in> set (mt_points mt). candidate (components (vec_list path)) mp \<longrightarrow> length (mp_path mp) < vsize path" for n s'
    by (rule resolve_mounted [OF that(1)]) (use that(2) assms(3) vec_list_length [OF assms(1)] in auto)
  then show ?thesis using l(1) f v u last_slash [OF assms(1-4)]
    by (intro exI [of _ l]) (auto simp: fs_mount_def split: option.splits)
qed

text \<open>Two drivers, of which the second knows the device 7; the first was registered and removed again.\<close>

definition sample_driver :: "nat \<Rightarrow> (nat, unit) fs_driver" where
  "sample_driver d = \<lparr>fd_identify = (\<lambda>s dev. Some (Inr (dev = 7 \<and> d \<noteq> 1, s))), fd_mount = (\<lambda>s dev name. Some (Inr (dev + length name, s)))\<rparr>"

definition sample_regs :: "drv_op list" where
  "sample_regs = [Reg 1, Reg 2, Unreg 1, Reg 3]"

lemma sample_driver_eq:
  "fd_identify (sample_driver d) s dev = Some (Inr (dev = 7 \<and> d \<noteq> 1, s))"
  "fd_mount (sample_driver d) s dev name = Some (Inr (dev + length name, s))"
  by (simp_all add: sample_driver_def)

lemma of_cstr_list: "vec_inv (str_of_cstr cs) \<and> vec_list (str_of_cstr cs) = cs \<and> vdataSize (str_of_cstr cs) = length cs"
  by (simp add: str_of_cstr_def vec_realloc_def Let_def vec_inv_def vec_list_def)

theorem fs_mount_first_driver_witness:
  "\<exists>drivers mt. push_all drv_step zeroed_drivers sample_regs = Inr drivers \<and>
    fs_mount sample_driver drivers example_mounts () (str_of_cstr ''/initrd/mnt'') (Some 7) = Some (Inr (0, mt, ())) \<and>
    resolvePath example_ops () mt ''/initrd/mnt'' = Some (Inr (Inr 11, ())) \<and>
    fs_mount sample_driver drivers example_mounts () (str_of_cstr ''/initrd/mnt'') (Some 6) = Some (Inr (- ENODEV, example_mounts, ()))"
proof -
  have p: "vec_inv (str_of_cstr ''/initrd/mnt'')" "vdataSize (str_of_cstr ''/initrd/mnt'') < 2 ^ 32"
    "vec_list (str_of_cstr ''/initrd/mnt'') = ''/initrd'' @ CHR ''/'' # ''mnt''" "CHR ''/'' \<notin> set ''mnt''" using of_cstr_list by auto
  have l: "vsize (str_of_cstr ''/initrd/mnt'') = 11" using vec_list_length [OF p(1)] p(3) by simp
  have c: "\<forall>mp \<in> set (mt_points example_mounts). candidate (components (vec_list (str_of_cstr ''/initrd/mnt''))) mp \<longrightarrow>
      length (mp_path mp) < vsize (str_of_cstr ''/initrd/mnt'')" unfolding l by (simp add: path_eval)
  have find: "find (\<lambda>d. dev = (7 :: nat) \<and> d \<noteq> 1) (registered [] sample_regs) = (if dev = 7 then Some 2 else None)" for dev
    by (simp add: sample_regs_def)
  have id: "\<forall>d \<in> set (registered [] sample_regs). fd_identify (sample_driver d) () dev = Some (Inr (dev = 7 \<and> d \<noteq> 1, ()))" for dev
    by (simp add: sample_driver_eq)
  note t = fs_mount_first_driver [OF p id disjI2 [OF refl], where mt = example_mounts and ops = example_ops, unfolded find sample_driver_eq]
  have "length (CHR ''/'' # ''mnt'') = 4" by simp
  then obtain drivers where d: "push_all drv_step zeroed_drivers sample_regs = Inr drivers"
    "fs_mount sample_driver drivers example_mounts () (str_of_cstr ''/initrd/mnt'') (Some 7) =
      Some (Inr (0, mountNode example_mounts ''/initrd/mnt'' 11, ()))"
    "resolvePath example_ops () (mountNode example_mounts ''/initrd/mnt'' 11) ''/initrd/mnt'' = Some (Inr (Inr 11, ()))"
    using t [of 7] c p(3) by auto
  moreover have "fs_mount sample_driver drivers example_mounts () (str_of_cstr ''/initrd/mnt'') (Some 6) =
      Some (Inr (- ENODEV, example_mounts, ()))"
    using t [of 6] d(1) by auto
  ultimately show ?thesis by blast
qed

section \<open>Looking up devices\<close>

lemma find_first:
  assumes "\<exists>x \<in> set xs. P x"
  shows "find P xs = Some (xs ! (LEAST j. j < length xs \<and> P (xs ! j))) \<and> (LEAST j. j < length xs \<and> P (xs ! j)) < length xs"
proof -
  let ?P = "\<lambda>j. j < length xs \<and> P (xs ! j)"
  have "\<exists>j. ?P j" using assms by (auto simp: in_set_conv_nth)
  then have "?P (LEAST j. ?P j)" by (rule LeastI_ex)
  moreover have "\<not> ?P k" if "k < (LEAST j. ?P j)" for k using not_less_Least [OF that] by blast
  ultimately show ?thesis unfolding find_Some_iff by (metis order.strict_trans)
qed

lemma devfs_findEntry_ok:
  assumes "sync_inv v"
  shows "devfs_findEntry nm v name = (case find (\<lambda>d. nm d = name) (sync_list v) of None \<Rightarrow> Inl BadAccess | Some d \<Rightarrow> Inr d)"
proof -
  let ?P = "\<lambda>d. nm d = name"
  have v: "vec_inv (sv_vec v)" using assms by (simp add: sync_inv_def)
  note vec_find_from_spec [OF v, of 0 ?P]
  moreover note vec_list_length [OF v]
  moreover have "find ?P (sync_list v) = None" if "\<not> (\<exists>x \<in> set (sync_list v). ?P x)" using that by (auto simp: find_None_iff)
  ultimately show ?thesis using find_first [of "sync_list v" ?P] vec_at_list [OF v]
    by (auto simp: devfs_findEntry_def vec_find_def sync_list_def)
qed

lemma walk_devfs: "walk (devfs_ops ops) s DevFs (c # cs) = Some (Inr (Inl (- EINVAL), s))"
  by (simp add: devfs_ops_def mode_defs base_open_def base_findEntry_def)

text \<open>
  No device can be opened. After \<open>init\<close> and any registrations, the lookup that \<open>DevFs\<close> itself defines gives the first
  device of the name (and faults when there is none), but the path of the device below \<open>/dev\<close> resolves
  to \<open>-EINVAL\<close>, because the walk calls the virtual method, which \<open>DevFs\<close> does not override.
\<close>

theorem devfs_lookup:
  assumes "path_names (c # cs)"
    and "\<forall>mp \<in> set (mt_points mt). candidate (''dev'' # c # cs) mp \<longrightarrow> length (mp_path mp) < 4"
  shows "\<exists>v mt'. devfs_init mt = (sync_new, mt') \<and> push_all registerDevice sync_new ds = Inr v \<and>
    devfs_findEntry nm v c = (case find (\<lambda>d. nm d = c) ds of None \<Rightarrow> Inl BadAccess | Some d \<Rightarrow> Inr d) \<and>
    resolvePath (devfs_ops ops) s mt' (abs_path (''dev'' # c # cs)) = Some (Inr (Inl (- EINVAL), s))"
proof -
  obtain v where v: "push_all registerDevice sync_new ds = Inr v" "sync_inv v" "sync_list v = ds"
    using devices.push_all_ok [of sync_new ds] by (auto simp: sync_new_inv)
  let ?mp = "\<lparr>mp_node = DevFs, mp_path = ''/dev''\<rparr>"
  let ?mt = "mountNode mt ''/dev'' DevFs"
  have names: "path_names ([''dev''] @ c # cs)" using assms(1) by (simp add: path_names_def)
  have pts: "mt_points ?mt = mt_points mt @ [?mp]" by (simp add: mountNode_def Let_def)
  have "candidate (''dev'' # c # cs) ?mp" by (simp add: candidate_def components_def)
  then obtain mp where mp: "best_mount (''dev'' # c # cs) (mt_points ?mt) None 0 = Some mp" "candidate (''dev'' # c # cs) mp"
    "mp \<in> set (mt_points mt) \<or> mp = ?mp" "length ''/dev'' \<le> length (mp_path mp)"
    using best_mount_spec [where best = None and bm = 0 and comps = "''dev'' # c # cs" and mps = "mt_points mt @ [?mp]"]
    unfolding pts by (auto split: option.splits)
  have "length (mp_path mp) < 4" if "mp \<in> set (mt_points mt)" using assms(2) mp(2) that by blast
  then have "mp = ?mp" using mp(3,4) by auto
  then have "findMountPoint ?mt ([''dev''] @ c # cs) = Some ?mp" using mp(1) by (simp add: findMountPoint_def)
  from resolve_canonical [OF this _ names, of "devfs_ops ops" s]
  have "resolvePath (devfs_ops ops) s ?mt (abs_path (''dev'' # c # cs)) = Some (Inr (Inl (- EINVAL), s))"
    by (simp add: abs_path_def join_path_def walk_devfs del: walk.simps)
  then show ?thesis using v devfs_findEntry_ok [OF v(2), of nm c] by (simp add: devfs_init_def)
qed

theorem devfs_lookup_witness:
  "\<exists>v mt'. devfs_init (mountNode (fs_init DevFs) ''/'' (Dev 1)) = (sync_new, mt') \<and> push_all registerDevice sync_new [4, 5 :: nat] = Inr v \<and>
    devfs_findEntry (\<lambda>d. if d = 5 then ''tty'' else ''null'') v ''tty'' = Inr 5 \<and>
    resolvePath (devfs_ops example_ops) () mt' ''/dev/tty'' = Some (Inr (Inl (- EINVAL), ()))"
proof -
  have "path_names [''tty'']" "\<forall>mp \<in> set (mt_points (mountNode (fs_init DevFs) ''/'' (Dev (1 :: nat)))).
      candidate [''dev'', ''tty''] mp \<longrightarrow> length (mp_path mp) < 4" by (simp_all add: path_names_def path_eval)
  from devfs_lookup [OF this, of "[4, 5 :: nat]" "\<lambda>d. if d = 5 then ''tty'' else ''null''" example_ops "()"]
  show ?thesis by (simp add: abs_path_def join_path_def)
qed

end
