(* ===== verification/Operators.thy ===== *)
theory Operators
  imports Liballoc
begin

text \<open>
  \<open>kernel/operators.cpp\<close>: the operators \<open>new\<close> and \<open>delete\<close>, and the table of destructors that a C++ program runs at
  its end. A destructor is known by its address; the calls that \<open>__cxa_finalize\<close> makes are the list of
  their functions and arguments, in order. A destructor that registers another one is not represented.
\<close>

section \<open>Allocation\<close>

definition operator_new where "operator_new = kmalloc"
definition operator_delete where "operator_delete = kfree"

definition placement_new :: "u64 \<Rightarrow> u64 \<Rightarrow> u64" where
  "placement_new n ptr = ptr"

definition cxa_pure_virtual :: "'a res" where
  "cxa_pure_virtual = Inl Panic"

section \<open>Destructors\<close>

record atexit_func_entry =
  ae_destructor_func :: u64
  ae_obj_ptr :: u64
  ae_dso_handle :: u64

record exits =
  ex_funcs :: "atexit_func_entry list"
  ex_count :: nat

definition exits_zero :: exits where
  "exits_zero = \<lparr>ex_funcs = replicate 128 \<lparr>ae_destructor_func = 0, ae_obj_ptr = 0, ae_dso_handle = 0\<rparr>, ex_count = 0\<rparr>"

definition cxa_atexit :: "exits \<Rightarrow> u64 \<Rightarrow> u64 \<Rightarrow> u64 \<Rightarrow> int \<times> exits" where
  "cxa_atexit s f objptr dso =
     (if ex_count s \<ge> 128 then (- 1, s)
      else (0, s\<lparr>ex_funcs := (ex_funcs s)[ex_count s := \<lparr>ae_destructor_func = f, ae_obj_ptr = objptr, ae_dso_handle = dso\<rparr>],
                 ex_count := ex_count s + 1\<rparr>))"

fun finalize_all :: "atexit_func_entry list \<Rightarrow> nat \<Rightarrow> (u64 \<times> u64) list" where
  "finalize_all t 0 = []"
| "finalize_all t (Suc i) =
     (if ae_destructor_func (t ! i) \<noteq> 0 then (ae_destructor_func (t ! i), ae_obj_ptr (t ! i)) # finalize_all t i
      else finalize_all t i)"

fun finalize_one :: "u64 \<Rightarrow> atexit_func_entry list \<Rightarrow> nat \<Rightarrow> atexit_func_entry list \<times> (u64 \<times> u64) list" where
  "finalize_one f t 0 = (t, [])"
| "finalize_one f t (Suc i) =
     (if ae_destructor_func (t ! i) = f
      then let (t', calls) = finalize_one f (t[i := (t ! i)\<lparr>ae_destructor_func := 0\<rparr>]) i in
           (t', (f, ae_obj_ptr (t ! i)) # calls)
      else finalize_one f t i)"

definition cxa_finalize :: "exits \<Rightarrow> u64 \<Rightarrow> exits \<times> (u64 \<times> u64) list" where
  "cxa_finalize s f =
     (let i = ex_count s in
      if f = 0 then (s, finalize_all (ex_funcs s) i)
      else let (t, calls) = finalize_one f (ex_funcs s) i in (s\<lparr>ex_funcs := t\<rparr>, calls))"

section \<open>The calls\<close>

text \<open>A sequence of registrations, with the result of each.\<close>

fun atexits :: "exits \<Rightarrow> (u64 \<times> u64 \<times> u64) list \<Rightarrow> int list \<times> exits" where
  "atexits s [] = ([], s)"
| "atexits s ((f, p, d) # rs) = (let (r, s) = cxa_atexit s f p d; (xs, s) = atexits s rs in (r # xs, s))"

definition entry_of :: "u64 \<times> u64 \<times> u64 \<Rightarrow> atexit_func_entry" where
  "entry_of = (\<lambda>(f, p, d). \<lparr>ae_destructor_func = f, ae_obj_ptr = p, ae_dso_handle = d\<rparr>)"

definition calls_of :: "atexit_func_entry list \<Rightarrow> (u64 \<times> u64) list" where
  "calls_of es = rev (filter (\<lambda>(f, p). f \<noteq> 0) (map (\<lambda>e. (ae_destructor_func e, ae_obj_ptr e)) es))"

definition without :: "u64 \<Rightarrow> atexit_func_entry list \<Rightarrow> atexit_func_entry list" where
  "without f = map (\<lambda>e. if ae_destructor_func e = f then e\<lparr>ae_destructor_func := 0\<rparr> else e)"

definition live :: "exits \<Rightarrow> atexit_func_entry list" where
  "live s = take (ex_count s) (ex_funcs s)"

definition exits_ok :: "exits \<Rightarrow> bool" where
  "exits_ok s \<longleftrightarrow> length (ex_funcs s) = 128 \<and> ex_count s \<le> 128"

lemma exits_zero_ok: "exits_ok exits_zero" "live exits_zero = []"
  by (simp_all add: exits_ok_def live_def exits_zero_def)

lemma live_length: "exits_ok s \<Longrightarrow> length (live s) = ex_count s"
  by (simp add: exits_ok_def live_def)

lemma cxa_atexit_ok:
  assumes "exits_ok s" "cxa_atexit s f p d = (r, s')"
  shows "exits_ok s' \<and> live s' = take 128 (live s @ [entry_of (f, p, d)]) \<and> r = (if length (live s) < 128 then 0 else - 1)"
  using assms live_length [OF assms(1)]
  by (auto simp: exits_ok_def live_def cxa_atexit_def entry_of_def take_Suc_conv_app_nth split: if_splits)

lemma atexits_ok:
  "exits_ok s \<Longrightarrow> atexits s rs = (xs, s') \<Longrightarrow> exits_ok s' \<and> live s' = take 128 (live s @ map entry_of rs) \<and>
    xs = map (\<lambda>i. if length (live s) + i < 128 then 0 else - 1) [0..<length rs]"
proof (induction rs arbitrary: s xs)
  case Nil
  then show ?case using live_length [of s] by (auto simp: exits_ok_def)
next
  case (Cons x rs)
  obtain f p d where x: "x = (f, p, d)" by (cases x) auto
  obtain r s1 where s1: "cxa_atexit s f p d = (r, s1)" by fastforce
  obtain ys where ys: "atexits s1 rs = (ys, s')" "xs = r # ys" using Cons.prems(2) s1 by (auto simp: x split: prod.splits)
  note a = cxa_atexit_ok [OF Cons.prems(1) s1]
  note b = Cons.IH [OF a [THEN conjunct1] ys(1)]
  have l: "length (live s) \<le> 128" using live_length [OF Cons.prems(1)] Cons.prems(1) by (simp add: exits_ok_def)
  have "map (\<lambda>i. if length (live s1) + i < 128 then 0 else - 1 :: int) [0..<length rs] =
      map (\<lambda>i. if length (live s) + Suc i < 128 then 0 else - 1) [0..<length rs]"
    using a l by auto
  then have "xs = map (\<lambda>i. if length (live s) + i < 128 then 0 else - 1) [0..<length (x # rs)]"
    using a b ys(2) by (simp add: map_upt_Suc del: upt_Suc)
  moreover have "live s' = take 128 (live s @ map entry_of (x # rs))"
    using a b l by (auto simp: x min_def take_Cons' split: if_splits)
  ultimately show ?case using b by blast
qed

lemma finalize_all_eq: "i \<le> length t \<Longrightarrow> finalize_all t i = calls_of (take i t)"
  by (induction i) (auto simp: calls_of_def take_Suc_conv_app_nth)

lemma finalize_one_eq:
  "i \<le> length t \<Longrightarrow> f \<noteq> 0 \<Longrightarrow> finalize_one f t i =
    (without f (take i t) @ drop i t, filter (\<lambda>(g, p). g = f) (calls_of (take i t)))"
proof (induction i arbitrary: t)
  case (Suc i)
  then show ?case
    by (auto simp: take_Suc_conv_app_nth without_def calls_of_def Cons_nth_drop_Suc [symmetric] drop_update_cancel upd_conv_take_nth_drop)
qed (simp add: without_def calls_of_def)

lemma live_finalize:
  assumes "exits_ok s" "f \<noteq> 0" "cxa_finalize s f = (s', calls)"
  shows "exits_ok s' \<and> live s' = without f (live s) \<and> calls = filter (\<lambda>(g, p). g = f) (calls_of (live s))"
  using assms finalize_one_eq [of "ex_count s" "ex_funcs s" f]
  by (auto simp: cxa_finalize_def Let_def exits_ok_def live_def without_def)

lemma finalize_null: "exits_ok s \<Longrightarrow> cxa_finalize s 0 = (s, calls_of (live s))"
  by (simp add: cxa_finalize_def Let_def finalize_all_eq exits_ok_def live_def)

lemma calls_without:
  assumes "f \<noteq> 0"
  shows "calls_of (without f es) = filter (\<lambda>(g, p). g \<noteq> f) (calls_of es)"
proof -
  have "filter (\<lambda>(g, p). g \<noteq> 0) (map (\<lambda>e. (ae_destructor_func e, ae_obj_ptr e)) (without f es)) =
      filter (\<lambda>(g, p). g \<noteq> f) (filter (\<lambda>(g, p). g \<noteq> 0) (map (\<lambda>e. (ae_destructor_func e, ae_obj_ptr e)) es))"
    by (induction es) (auto simp: without_def)
  then show ?thesis by (simp add: calls_of_def rev_filter)
qed

text \<open>
  Of a sequence of registrations the first 128 succeed and every later one returns \<open>-1\<close> and is not kept.
  \<open>__cxa_finalize(0)\<close> calls the registered destructors with their objects in the reverse order, and calls
  them again when it is called again. \<open>__cxa_finalize(f)\<close> calls those whose function is \<open>f\<close>, in reverse order,
  exactly once: they are gone afterwards, and all others are still called in order.
\<close>

theorem finalize_reverse_order:
  assumes "f \<noteq> 0" "kept = take 128 (map entry_of rs)"
  shows "\<exists>s s'. atexits exits_zero rs = (map (\<lambda>i. if i < 128 then 0 else - 1) [0..<length rs], s) \<and>
    cxa_finalize s 0 = (s, calls_of kept) \<and>
    cxa_finalize s f = (s', filter (\<lambda>(g, p). g = f) (calls_of kept)) \<and>
    snd (cxa_finalize s' f) = [] \<and> snd (cxa_finalize s' 0) = filter (\<lambda>(g, p). g \<noteq> f) (calls_of kept)"
proof -
  obtain xs s where s: "atexits exits_zero rs = (xs, s)" by fastforce
  note a = atexits_ok [OF exits_zero_ok(1) s, unfolded exits_zero_ok(2)]
  have ok: "exits_ok s" and k: "live s = kept" using a assms(2) by simp_all
  obtain s' cs where s': "cxa_finalize s f = (s', cs)" by fastforce
  note b = live_finalize [OF ok assms(1) s']
  have w: "calls_of (live s') = filter (\<lambda>(g, p). g \<noteq> f) (calls_of kept)" using b k calls_without [OF assms(1)] by simp
  obtain s2 cs2 where s2: "cxa_finalize s' f = (s2, cs2)" by fastforce
  have "filter (\<lambda>(g, p). g = f) (filter (\<lambda>(g, p). g \<noteq> f) cs) = []" for cs :: "(u64 \<times> u64) list"
    by (induction cs) auto
  then have "cs2 = []" using live_finalize [OF b [THEN conjunct1] assms(1) s2] w by simp
  then show ?thesis using s a finalize_null [OF ok] k s' b s2 finalize_null [OF b [THEN conjunct1]] w by auto
qed

theorem finalize_reverse_order_witness:
  "\<exists>s s'. atexits exits_zero [(0x10, 1, 0), (0x20, 2, 0), (0x10, 3, 0)] = ([0, 0, 0], s) \<and>
    cxa_finalize s 0 = (s, [(0x10, 3), (0x20, 2), (0x10, 1)]) \<and> cxa_finalize s 0x10 = (s', [(0x10, 3), (0x10, 1)]) \<and>
    snd (cxa_finalize s' 0) = [(0x20, 2)]"
  using finalize_reverse_order [of "0x10" _ "[(0x10, 1, 0), (0x20, 2, 0), (0x10, 3, 0)]", OF _ refl]
  by (simp add: entry_of_def calls_of_def upt_rec) blast

end
