(* ===== verification/Reaper.thy ===== *)
theory Reaper
  imports Process Heap
begin

text \<open>
  The end of a thread: \<open>destroyThread\<close> of \<open>kernel/scheduler/thread.cpp\<close>, and \<open>threadDestroyerOfThreads\<close> of
  \<open>kernel/scheduler/scheduler.cpp\<close>, the thread that takes the killed threads of its processor from their
  queue. The first part shows what giving back the pages of a stack does to the page tables and the allocator,
  the second what is left of a thread, the third that the loop over the queue ends.
\<close>

section \<open>Giving back pages\<close>

text \<open>An entry that is still present was there before.\<close>

definition entries_cleared :: "(nat \<Rightarrow> nat \<Rightarrow> u64) \<Rightarrow> (nat \<Rightarrow> nat \<Rightarrow> u64) \<Rightarrow> bool" where
  "entries_cleared t t' \<longleftrightarrow> (\<forall>f i. pml_present (t' f i) \<longrightarrow> t' f i = t f i)"

lemma below_mono: "entries_cleared t t' \<Longrightarrow> below d t' f n \<subseteq> below d t f n"
proof (induction d arbitrary: f n)
  case (Suc d)
  have "insert (pml_frame (t' f i)) (below d t' (pml_frame (t' f i)) 512) \<subseteq>
      insert (pml_frame (t f i)) (below d t (pml_frame (t f i)) 512) \<and> pml_present (t f i)" if "pml_present (t' f i)" for i
  proof -
    have "t' f i = t f i" using that Suc.prems by (simp add: entries_cleared_def)
    then show ?thesis using that Suc.IH [OF Suc.prems] by (metis insert_mono)
  qed
  then show ?case by fastforce
qed simp

lemma unmapPage_cleared:
  assumes "vm_inv m space" "no_huge m space va" "\<not> as_lock space" "unmapPage m space va = Inr (a, m', space')"
  shows "entries_cleared (vm_tab m) (vm_tab m')"
proof -
  have tl: "take_lock True space = Inr (space\<lparr>as_lock := True\<rparr>)" "pml4 (space\<lparr>as_lock := True\<rparr>) = pml4 space"
    using take_lock_free [OF assms(3), of True] by simp_all
  obtain f where "m' = tab_write m f (table_index va) (vm_tab m f (table_index va) AND NOT 1)"
    using assms(4) by (cases "node (vm_tab m) (pml4 space) (upper va)")
      (auto simp: unmapPage_def tl pml_walk_down [OF assms(1,2)] Let_def res_elims)
  then show ?thesis using clear_present(1) by (auto simp: entries_cleared_def tab_write_def)
qed

text \<open>
  The pages \<open>V\<close> of an address space and the frames \<open>F\<close> behind them are given back: no other translation and
  no other frame changes, and the tables stay where they are.
\<close>

definition gone :: "u64 set \<Rightarrow> nat set \<Rightarrow> aspace \<Rightarrow> vmem \<Rightarrow> vmem \<Rightarrow> bool" where
  "gone V F space m m' \<longleftrightarrow> vm_inv m' space \<and> tabs m' space = tabs m space \<and> clears F (vm_phys m) (vm_phys m') \<and>
     entries_cleared (vm_tab m) (vm_tab m') \<and> (\<forall>x. no_huge m' space x = no_huge m space x) \<and>
     (\<forall>x. mmu m' space x = (if \<exists>v \<in> V. same_page v x then None else mmu m space x))"

lemma gone_trans: "gone V F space m m1 \<Longrightarrow> gone W G space m1 m2 \<Longrightarrow> gone (V \<union> W) (F \<union> G) space m m2"
  unfolding gone_def by (auto simp: entries_cleared_def intro: clears_trans)

definition page_frame :: "vmem \<Rightarrow> aspace \<Rightarrow> u64 \<Rightarrow> nat" where
  "page_frame m space va = pml_frame (the (mmu m space va))"

text \<open>Mapped pages whose frames are used, are no page tables, and differ from one another.\<close>

definition owned :: "vmem \<Rightarrow> aspace \<Rightarrow> u64 \<Rightarrow> bool" where
  "owned m space va \<longleftrightarrow> no_huge m space va \<and> mmu m space va \<noteq> None \<and> ph_used (vm_phys m) (page_frame m space va) \<and>
     page_frame m space va \<notin> tabs m space"

definition pages_owned :: "vmem \<Rightarrow> aspace \<Rightarrow> u64 list \<Rightarrow> bool" where
  "pages_owned m space vs \<longleftrightarrow> list_all (owned m space) vs \<and> distinct (map (page_frame m space) vs)"

abbreviation release_page :: "vmem \<times> aspace \<Rightarrow> u64 \<Rightarrow> (vmem \<times> aspace) res" where
  "release_page \<equiv> (\<lambda>(m, space) va. bind_res (unmapPage m space va) (\<lambda>(pa, m, space).
     bind_res (ph_freePages (vm_phys m) pa 1) (\<lambda>p. Inr (m\<lparr>vm_phys := p\<rparr>, space))))"

lemma release_page_ok:
  assumes inv: "vm_inv m space" and l: "\<not> as_lock space" and o: "owned m space va"
  shows "\<exists>m'. release_page (m, space) va = Inr (m', space) \<and> gone {va} {page_frame m space va} space m m'"
proof -
  let ?f = "page_frame m space va"
  obtain e where e: "mmu m space va = Some e" "?f = pml_frame e" and nh: "no_huge m space va"
    using o by (auto simp: owned_def page_frame_def)
  have us: "ph_used (vm_phys m) ?f" "?f \<notin> tabs m space" using o by (simp_all add: owned_def)
  have lim: "ph_inv (vm_phys m)" "pages (ph_bitmap (vm_phys m)) \<le> 2 ^ 19" using inv by (simp_all add: vm_inv_def ph_limited_def)
  have lt: "?f < pages (ph_bitmap (vm_phys m))" using us(1) by (auto simp: used_def div_less_iff_less_mult)
  have "pml_frame e < 2 ^ 19" using lt lim(2) e(2) by simp
  note a = pml_table_eq(2) [OF this]
  obtain m1 where m1: "unmapPage m space va = Inr (pml_unshift e, m1, space)" "vm_inv m1 space" "vm_phys m1 = vm_phys m"
    "\<forall>x. no_huge m1 space x = no_huge m space x" "\<forall>x. mmu m1 space x = (if same_page va x then None else mmu m space x)"
    using unmapPage_ok [OF inv nh l] e(1) by auto
  obtain p where p: "ph_freePages (vm_phys m1) (pml_unshift e) 1 = Inr p" "clears {?f} (vm_phys m) p"
    using ph_freePages_clears [OF a] lt lim(2) e(2) m1(3) by auto
  have tb: "tabs m1 space = tabs m space" by (rule unmapPage_tabs [OF inv nh l m1(1)])
  have pl: "ph_limited (2 ^ 19) p" using p(2) lim by (simp add: clears_def ph_limited_def ph_inv_def)
  have "\<forall>f \<in> tabs m1 space. ph_used p f" using tabs_used [OF inv] us(2) p(2) by (auto simp: tb clears_def)
  note v = vm_inv_phys [OF m1(2) pl this]
  have "gone {va} {?f} space m (m1\<lparr>vm_phys := p\<rparr>)"
    unfolding gone_def using v p(2) tb m1(4,5) unmapPage_cleared [OF inv nh l m1(1)] by simp
  then show ?thesis using m1(1) p(1) by (intro exI [of _ "m1\<lparr>vm_phys := p\<rparr>"]) simp
qed

lemma owned_gone:
  assumes "pages_owned m space (v # vs)" "gone {v} {page_frame m space v} space m m1"
  shows "pages_owned m1 space vs \<and> map (page_frame m1 space) vs = map (page_frame m space) vs"
proof -
  have s: "mmu m1 space w = mmu m space w \<and> page_frame m space w \<noteq> page_frame m space v" if "w \<in> set vs" for w
  proof -
    have d: "page_frame m space w \<noteq> page_frame m space v" using assms(1) that by (auto simp: pages_owned_def dest: image_eqI)
    then have "\<not> same_page v w" using mmu_same_page [of v w m space] by (auto simp: page_frame_def)
    then show ?thesis using assms(2) d by (simp add: gone_def)
  qed
  then have f: "map (page_frame m1 space) vs = map (page_frame m space) vs" by (simp add: page_frame_def)
  have "owned m1 space w" if w: "w \<in> set vs" for w
  proof -
    have o: "owned m space w" using assms(1) w by (simp add: pages_owned_def list_all_iff)
    have "page_frame m1 space w = page_frame m space w" using s [OF w] by (simp add: page_frame_def)
    then show ?thesis using o s [OF w] assms(2) by (simp add: owned_def gone_def clears_def)
  qed
  then show ?thesis using assms(1) unfolding pages_owned_def f by (simp add: list_all_iff)
qed

lemma release_pages_ok:
  assumes "vm_inv m space" "\<not> as_lock space" "pages_owned m space vs"
  shows "\<exists>m'. for_each release_page vs (m, space) = Inr (m', space) \<and> gone (set vs) (page_frame m space ` set vs) space m m'"
  using assms
proof (induction vs arbitrary: m)
  case Nil
  then show ?case by (simp add: gone_def entries_cleared_def clears_def)
next
  case (Cons v vs)
  have "owned m space v" using Cons.prems(3) by (simp add: pages_owned_def)
  then obtain m1 where m1: "release_page (m, space) v = Inr (m1, space)" "gone {v} {page_frame m space v} space m m1"
    using release_page_ok [OF Cons.prems(1,2)] by blast
  note o = owned_gone [OF Cons.prems(3) m1(2)]
  have "vm_inv m1 space" using m1(2) by (simp add: gone_def)
  then obtain m2 where m2: "for_each release_page vs (m1, space) = Inr (m2, space)"
    "gone (set vs) (page_frame m1 space ` set vs) space m1 m2" using Cons.IH Cons.prems(2) o by blast
  have "page_frame m1 space ` set vs = page_frame m space ` set vs" using o by (metis list.set_map)
  then show ?case using m1(1) m2 gone_trans [OF m1(2)] by auto
qed

lemma releasePages_run: "releasePages m space address n = for_each release_page (map (\<lambda>i. address + of_nat (i * 4096)) [0..<n]) (m, space)"
  unfolding releasePages_def for_each_map [symmetric] by (simp add: case_prod_unfold)

section \<open>Destroying a thread\<close>

text \<open>The pages that \<open>destroyThread\<close> gives back: one of the kernel stack, and the user stack of a user thread.\<close>

definition thread_pages :: "nat \<Rightarrow> thread \<Rightarrow> u64 list" where
  "thread_pages kp th = th_kernelStackBase th #
     (if th_process th = kp then [] else map (\<lambda>i. th_userStackBase th + of_nat (i * 4096)) [0..<16])"

lemma destroyThread_ok:
  assumes "t \<noteq> 0" "t \<noteq> curt" "vec_inv (pr_threads p)" "vm_inv m (pr_space p)" "\<not> as_lock (pr_space p)"
    "pages_owned m (pr_space p) (thread_pages kp th)" "th_process th = kp \<or> th_userStackBase th \<noteq> 0"
    "final = (removeAll t (vec_list (pr_threads p)) = [])"
    "final \<Longrightarrow> th_process th \<noteq> 0 \<and> th_process th \<noteq> curp \<and> unat (as_cr3 (pr_space p)) = pml4 (pr_space p) * 4096 \<and>
      insert (pml4 (pr_space p)) (below 4 (vm_tab m) (pml4 (pr_space p)) 256) \<subseteq> {..<pages (ph_bitmap (vm_phys m))}"
  shows "\<exists>p' m1 m'. destroyThread m p t th curt curp kp = Inr (p', final, m') \<and>
    vec_inv (pr_threads p') \<and> vec_list (pr_threads p') = removeAll t (vec_list (pr_threads p)) \<and> pr_space p' = pr_space p \<and>
    gone (set (thread_pages kp th)) (page_frame m (pr_space p) ` set (thread_pages kp th)) (pr_space p) m m1 \<and>
    (if final then \<forall>f. ph_used (vm_phys m') f \<longleftrightarrow>
         ph_used (vm_phys m1) f \<and> f \<noteq> pml4 (pr_space p) \<and> f \<notin> below 4 (vm_tab m1) (pml4 (pr_space p)) 256
     else m' = m1)"
proof -
  let ?s = "pr_space p" and ?vs = "map (\<lambda>i. th_userStackBase th + of_nat (i * 4096)) [0..<16]"
  obtain m1 where m1: "for_each release_page (thread_pages kp th) (m, ?s) = Inr (m1, ?s)"
    "gone (set (thread_pages kp th)) (page_frame m ?s ` set (thread_pages kp th)) ?s m m1"
    using release_pages_ok [OF assms(4,5,6)] by blast
  have sz: "KERNEL_STACK_SIZE div 4096 = 1" "USER_STACK_SIZE div 4096 = 16" by (simp_all add: KERNEL_STACK_SIZE_def USER_STACK_SIZE_def)
  have k: "releasePages m ?s (th_kernelStackBase th) 1 = release_page (m, ?s) (th_kernelStackBase th)"
    by (simp add: releasePages_run)
  obtain m0 s0 where m0: "release_page (m, ?s) (th_kernelStackBase th) = Inr (m0, s0)"
    "(if th_process th = kp then Inr (m0, s0) else releasePages m0 s0 (th_userStackBase th) 16) = Inr (m1, ?s)"
    using m1(1) by (auto simp: thread_pages_def bind_res_eq_Inr releasePages_run split: if_splits)
  obtain ts where ts: "vec_remove (pr_threads p) t = Inr ts" "vec_inv ts" "vec_list ts = removeAll t (vec_list (pr_threads p))"
    using vec_remove_from_ok [OF assms(3), of 0 t] by (auto simp: vec_remove_def)
  have e: "vec_empty ts = final" using vec_list_length [OF ts(2)] ts(3) assms(8) by (auto simp: vec_empty_def)
  define p' where "p' = (set_space p ?s)\<lparr>pr_threads := ts\<rparr>"
  have run: "destroyThread m p t th curt curp kp =
      (if final then bind_res (destroyProcess m1 (th_process th) p' curp) (\<lambda>m3. Inr (p', True, m3)) else Inr (p', False, m1))"
    using assms(1,2,7) m0 unfolding destroyThread_def sz k by (auto simp: ts(1) e p'_def Let_def)
  have p': "vec_inv (pr_threads p')" "vec_list (pr_threads p') = removeAll t (vec_list (pr_threads p))" "pr_space p' = ?s"
    "vec_empty (pr_threads p') = final" using ts e by (simp_all add: p'_def set_space_def)
  show ?thesis
  proof (cases final)
    case True
    have pg: "pages (ph_bitmap (vm_phys m1)) = pages (ph_bitmap (vm_phys m))" using m1(2) by (simp add: gone_def clears_def)
    have "below 4 (vm_tab m1) (pml4 ?s) 256 \<subseteq> below 4 (vm_tab m) (pml4 ?s) 256" using m1(2) by (intro below_mono) (simp add: gone_def)
    then have b: "below 4 (vm_tab m1) (pml4 ?s) 256 \<subseteq> {..<pages (ph_bitmap (vm_phys m1))}" "pml4 ?s < pages (ph_bitmap (vm_phys m1))"
      using assms(9) [OF True] pg by auto
    have lim: "pages (ph_bitmap (vm_phys m1)) \<le> 2 ^ 19" using assms(4) pg by (simp add: vm_inv_def ph_limited_def)
    obtain m3 where m3: "destroyAddressSpace m1 ?s = Inr m3"
      "\<forall>i. ph_used (vm_phys m3) i \<longleftrightarrow> ph_used (vm_phys m1) i \<and> i \<noteq> pml4 ?s \<and> i \<notin> below 4 (vm_tab m1) (pml4 ?s) 256"
      using destroyAddressSpace_ok [OF b(1) lim _ b(2)] assms(9) [OF True] by blast
    then show ?thesis using run p' True assms(9) m1(2) by (intro exI [of _ p'] exI [of _ m1] exI [of _ m3]) (simp add: destroyProcess_def)
  qed (use run p' m1(2) in \<open>intro exI [of _ p'] exI [of _ m1], simp\<close>)
qed


definition sample_kthread :: thread where
  "sample_kthread = \<lparr>th_process = 9, th_id = 0, th_kernelStack = 0x400F58, th_kernelStackBase = 0x400000, th_userStackBase = 0,
     th_state = Killed\<rparr>"

definition sample_process :: "nat process" where
  "sample_process = \<lparr>pr_name = ''kernel'', pr_id = 0, pr_threadIdCounter = 2, pr_entryPoint = 0, pr_space = sample_space,
     pr_threads = \<lparr>vdata = [Some 5, Some 6], vsize = 2, vdataSize = 2\<rparr>, pr_fds = vec_new\<rparr>"

lemma sample_stack:
  "\<exists>m. mapPage sample_vm sample_space 0x2000 0x400000 2 True = Inr (m, sample_space) \<and> vm_inv m sample_space \<and>
    pages_owned m sample_space (thread_pages 9 sample_kthread) \<and> page_frame m sample_space 0x400000 = 2 \<and> ph_used (vm_phys m) 2"
proof -
  have "\<not> as_lock sample_space \<or> \<not> True" "3 + 2 \<le> free_frames (vm_phys sample_vm)" by (simp_all add: sample_vm_facts)
  from mapPage_ok [OF sample_vm_facts(1) sample_vm_facts(2) [where va = "0x400000"] this, where pa = "0x2000" and flags = 2]
  obtain m1 where m1: "mapPage sample_vm sample_space 0x2000 0x400000 2 True = Inr (m1, sample_space)"
    "vm_inv m1 sample_space" "no_huge m1 sample_space 0x400000" "mmu m1 sample_space 0x400000 = Some 0x2003"
    using sample_vm_facts(2) by (auto simp: same_page_def)
  have f: "page_frame m1 sample_space 0x400000 = 2" by (simp add: page_frame_def m1(4) pml_frame_def)
  have u: "ph_used (vm_phys sample_vm) 2" by (simp add: sample_vm_def sample_phys_used)
  have z: "node (\<lambda>_ _. 0) f q = (if q = [] then Some f else None)" for f q by (cases q) (simp_all add: pml_present_def)
  have "2 \<notin> tabs sample_vm sample_space"
    by (simp add: tabs_def z sample_vm_def sample_space_def pml4_def frame_def)
  then have "2 \<notin> tabs m1 sample_space" "ph_used (vm_phys m1) 2"
    using mapPage_tabs [OF sample_vm_facts(1) sample_vm_facts(2) m1(1)] u by auto
  then have "owned m1 sample_space 0x400000" using f m1(3,4) by (simp add: owned_def)
  then show ?thesis using m1 f \<open>ph_used (vm_phys m1) 2\<close> by (simp add: pages_owned_def thread_pages_def sample_kthread_def)
qed


section \<open>The loop over the killed threads\<close>

text \<open>
  The state the loop works on. \<open>killedThread\<close> is a thread that is always killed; the run queue gets its
  address, \<open>mark\<close>, in place of a dead thread, because the ring buffer cannot remove an element.
\<close>

record 'n world =
  w_sched :: sched
  w_mem :: vmem
  w_procs :: "nat \<Rightarrow> 'n process option"

text \<open>The thread and its address on processor \<open>c\<close>; \<open>kfree(thread)\<close> ends its life, the process object is never freed.\<close>

definition reap_thread :: "nat \<Rightarrow> nat \<Rightarrow> 'n world \<Rightarrow> nat \<Rightarrow> 'n world res" where
  "reap_thread kp c w t =
     bind_res (thread_at (w_sched w) t) (\<lambda>th.
     case w_procs w (th_process th) of None \<Rightarrow> Inl BadAccess
     | Some p \<Rightarrow>
         let cpu = sc_cpus (w_sched w) ! c in
         bind_res (destroyThread (w_mem w) p t th (cpu_current cpu) (cpu_process cpu) kp) (\<lambda>(p', destroyed, m).
         Inr (w\<lparr>w_sched := (w_sched w)\<lparr>sc_thread := (sc_thread (w_sched w))(t := None)\<rparr>, w_mem := m,
                w_procs := (w_procs w)(th_process th \<mapsto> p')\<rparr>)))"

lemma bind_opt_cong [fundef_cong]:
  "r = r' \<Longrightarrow> (\<And>x. r' = Some (Inr x) \<Longrightarrow> f x = f' x) \<Longrightarrow> bind_opt r f = bind_opt r' f'"
  by (auto simp: bind_opt_def split: option.splits sum.splits)

lemma reap_thread_cpus:
  "reap_thread kp c w t = Inr w' \<Longrightarrow> sc_cpus (w_sched w') = sc_cpus (w_sched w)"
  by (auto simp: reap_thread_def bind_res_eq_Inr Let_def split: option.splits)

function reap_all :: "nat \<Rightarrow> nat \<Rightarrow> nat \<Rightarrow> 'n world \<Rightarrow> 'n world res option" where
  "reap_all kp mark c w =
     (if length (sc_cpus (w_sched w)) \<le> c then Some (Inl BadAccess)
      else if q_empty (cpu_destroy (sc_cpus (w_sched w) ! c)) then Some (Inr w)
      else bind_opt (Some (q_pop (cpu_destroy (sc_cpus (w_sched w) ! c)))) (\<lambda>(t, q).
           let s = on_cpu (w_sched w) c (\<lambda>cpu. cpu\<lparr>cpu_destroy := q\<rparr>) in
           bind_opt (Some (bind_res (thread_at s t) (\<lambda>th. assert_res (th_state th = Killed) (spin_lock (cpu_tlock (sc_cpus s ! c)))))) (\<lambda>l.
           bind_opt (q_replaceAll (cpu_threads (sc_cpus s ! c)) t mark) (\<lambda>r.
           let s = on_cpu s c (\<lambda>cpu. cpu\<lparr>cpu_threads := r, cpu_tlock := spin_unlock l\<rparr>) in
           bind_opt (Some (reap_thread kp c (w\<lparr>w_sched := s\<rparr>) t)) (\<lambda>w. reap_all kp mark c w)))))"
  by pat_completeness auto
termination
proof (relation "measure (\<lambda>(kp, mark, c, w). qsize (cpu_destroy (sc_cpus (w_sched w) ! c)))", goal_cases)
  case (2 kp mark c w x t q s l r s' w')
  then have "sc_cpus (w_sched w') = sc_cpus s'" "qsize q < qsize (cpu_destroy (sc_cpus (w_sched w) ! c))"
    by (auto simp: q_pop_def q_empty_def bind_res_eq_Inr dest: reap_thread_cpus)
  then show ?case using 2 by (simp add: on_cpu_def)
qed simp

declare reap_all.simps [simp del]

text \<open>One round of the destroyer: the loop, then \<open>yield\<close>, whose handler is that of the tick without the end of interrupt.\<close>

definition destroyer_round :: "nat \<Rightarrow> nat \<Rightarrow> nat \<Rightarrow> 'n world \<Rightarrow> u64 \<Rightarrow> ('n world \<times> u64 \<times> nat option) res option" where
  "destroyer_round kp mark c w rsp =
     bind_opt (reap_all kp mark c w) (\<lambda>w.
     bind_opt (tickHandler (w_sched w) c rsp) (\<lambda>(s, rsp', cr3). Some (Inr (w\<lparr>w_sched := s\<rparr>, rsp', cr3))))"

definition upd_cpu :: "nat \<Rightarrow> (cpu \<Rightarrow> cpu) \<Rightarrow> 'n world \<Rightarrow> 'n world" where
  "upd_cpu c f w = w\<lparr>w_sched := on_cpu (w_sched w) c f\<rparr>"

lemma upd_cpu_simps:
  "upd_cpu c g (upd_cpu c f w) = upd_cpu c (g \<circ> f) w" if "c < length (sc_cpus (w_sched w))"
  using that by (simp add: upd_cpu_def on_cpu_def)

lemma upd_cpu_id: "c < length (sc_cpus (w_sched w)) \<Longrightarrow> f (sc_cpus (w_sched w) ! c) = sc_cpus (w_sched w) ! c \<Longrightarrow> upd_cpu c f w = w"
  by (simp add: upd_cpu_def on_cpu_def)

text \<open>Destroying threads does not look at the queues.\<close>

definition queues_only :: "(cpu \<Rightarrow> cpu) \<Rightarrow> bool" where
  "queues_only f \<longleftrightarrow> (\<forall>cpu. cpu_current (f cpu) = cpu_current cpu \<and> cpu_process (f cpu) = cpu_process cpu)"

lemma reap_thread_queues:
  assumes "queues_only f" "c < length (sc_cpus (w_sched w))"
  shows "reap_thread kp c (upd_cpu c f w) t = map_sum id (upd_cpu c f) (reap_thread kp c w t)"
  using assms by (cases "sc_thread (w_sched w) t"; cases "w_procs w (th_process (the (sc_thread (w_sched w) t)))")
    (auto simp: reap_thread_def upd_cpu_def on_cpu_def thread_at_def queues_only_def Let_def bind_res_def split: sum.splits)

lemma reap_threads_queues:
  assumes "queues_only f" "c < length (sc_cpus (w_sched w))"
  shows "for_each (reap_thread kp c) ts (upd_cpu c f w) = map_sum id (upd_cpu c f) (for_each (reap_thread kp c) ts w)"
  using assms(2)
proof (induction ts arbitrary: w)
  case (Cons t ts)
  show ?case
  proof (cases "reap_thread kp c w t")
    case (Inr w')
    then have "c < length (sc_cpus (w_sched w'))" using Cons.prems by (simp add: reap_thread_cpus)
    then show ?thesis using Inr reap_thread_queues [OF assms(1) Cons.prems, of kp t] Cons.IH by simp
  qed (use reap_thread_queues [OF assms(1) Cons.prems, of kp t] in simp)
qed simp

text \<open>Replacing in a queue that has room changes its cells only.\<close>

definition marked :: "nat set \<Rightarrow> nat \<Rightarrow> nat list \<Rightarrow> nat list" where
  "marked T mark = map (\<lambda>x. if x \<in> T then mark else x)"

definition queue_ready :: "nat kqueue \<Rightarrow> bool" where
  "queue_ready q \<longleftrightarrow> q_inv q \<and> qdataSize q < 2 ^ 32 \<and> q_room q"

lemma replace_ready:
  assumes "queue_ready q"
  shows "\<exists>r. q_replaceAll q t mark = Some (Inr r) \<and> queue_ready r \<and> q_view r = marked {t} mark (q_view q)"
proof -
  have q: "q_inv q" "qdataSize q < 2 ^ 32" "qsize q < qdataSize q \<or> qlastRead q = 0" using assms by (auto simp: queue_ready_def q_room_def)
  obtain d where d: "q_replaceAll q t mark = Some (Inr (q\<lparr>qdata := d\<rparr>))" using q_replaceAll_cells [OF q(1,2)] by blast
  then have "q_inv (q\<lparr>qdata := d\<rparr>) \<and> q_view (q\<lparr>qdata := d\<rparr>) = map (\<lambda>x. if x = t then mark else x) (q_view q)"
    using q_replaceAll_correct [OF q(1,2), of t mark] q(3) by auto
  then show ?thesis using d q by (auto simp: queue_ready_def q_room_def marked_def)
qed

definition all_killed :: "sched \<Rightarrow> nat list \<Rightarrow> bool" where
  "all_killed s ts \<longleftrightarrow> distinct ts \<and> (\<forall>t \<in> set ts. killed (sc_thread s) t)"

definition emptied :: "nat kqueue \<Rightarrow> nat kqueue \<Rightarrow> cpu \<Rightarrow> cpu" where
  "emptied q r cpu = cpu\<lparr>cpu_destroy := q, cpu_threads := r, cpu_tlock := False\<rparr>"

lemma emptied_queues: "queues_only (emptied q r)"
  by (simp add: queues_only_def emptied_def)

lemma reap_step:
  assumes c: "c < length (sc_cpus (w_sched w))" and q: "q_inv (cpu_destroy (sc_cpus (w_sched w) ! c))"
    "q_view (cpu_destroy (sc_cpus (w_sched w) ! c)) = t # ts" and r: "queue_ready (cpu_threads (sc_cpus (w_sched w) ! c))"
    and l: "\<not> cpu_tlock (sc_cpus (w_sched w) ! c)" and k: "killed (sc_thread (w_sched w)) t"
  shows "\<exists>q' r'. q_inv q' \<and> q_view q' = ts \<and> queue_ready r' \<and>
    q_view r' = marked {t} mark (q_view (cpu_threads (sc_cpus (w_sched w) ! c))) \<and>
    reap_all kp mark c w = bind_opt (Some (map_sum id (upd_cpu c (emptied q' r')) (reap_thread kp c w t))) (reap_all kp mark c)"
proof -
  obtain q' where q': "q_pop (cpu_destroy (sc_cpus (w_sched w) ! c)) = Inr (t, q')" "q_inv q'" "q_view q' = ts"
    using q_pop_ok [OF q] by blast
  obtain r' where r': "q_replaceAll (cpu_threads (sc_cpus (w_sched w) ! c)) t mark = Some (Inr r')" "queue_ready r'"
    "q_view r' = marked {t} mark (q_view (cpu_threads (sc_cpus (w_sched w) ! c)))"
    using replace_ready [OF r] by blast
  have ne: "\<not> q_empty (cpu_destroy (sc_cpus (w_sched w) ! c))"
    using q(2) q_view_length [of "cpu_destroy (sc_cpus (w_sched w) ! c)"] by (auto simp: q_empty_def)
  obtain th where th: "sc_thread (w_sched w) t = Some th" "th_state th = Killed" using k by (auto simp: killed_def split: option.splits)
  have "reap_all kp mark c w = bind_opt (Some (reap_thread kp c (upd_cpu c (emptied q' r') w) t)) (reap_all kp mark c)"
    using c ne q'(1) r'(1) l th
    by (subst reap_all.simps) (simp add: Let_def thread_at_def on_cpu_def upd_cpu_def emptied_def)
  then show ?thesis unfolding reap_thread_queues [OF emptied_queues c] using q' r' by blast
qed

lemma reap_thread_store:
  "reap_thread kp c w t = Inr w' \<Longrightarrow> sc_thread (w_sched w') = (sc_thread (w_sched w))(t := None)"
  by (auto simp: reap_thread_def bind_res_eq_Inr Let_def split: option.splits)

lemma reap_threads_store:
  "for_each (reap_thread kp c) ts w = Inr w' \<Longrightarrow>
    sc_thread (w_sched w') x = (if x \<in> set ts then None else sc_thread (w_sched w) x)"
  by (induction ts arbitrary: w) (auto simp: bind_res_eq_Inr dest: reap_thread_store)

lemma marked_twice: "t \<notin> T \<Longrightarrow> mark \<notin> T \<Longrightarrow> marked T mark (marked {t} mark xs) = marked (insert t T) mark xs"
  by (auto simp: marked_def)

lemma emptied_emptied: "upd_cpu c (emptied q r) (upd_cpu c (emptied q' r') w) = upd_cpu c (emptied q r) w"
  by (cases "c < length (sc_cpus (w_sched w))") (simp_all add: upd_cpu_def on_cpu_def emptied_def list_update_beyond)

text \<open>
  \<open>C10\<close> The loop of the destroyer ends. When all queued threads are killed and the run queue has room, it destroys
  the queued threads one after the other, in order: it fails where \<open>destroyThread\<close> fails, and otherwise
  leaves the queue of killed threads empty, no trace of a dead thread in the thread store or the run
  queue, where the address of \<open>killedThread\<close> stands in its place, and everything else as the destructions left it.
\<close>

theorem reap_all_destroys:
  assumes "c < length (sc_cpus (w_sched w))" "q_inv (cpu_destroy (sc_cpus (w_sched w) ! c))"
    "q_view (cpu_destroy (sc_cpus (w_sched w) ! c)) = ts" "queue_ready (cpu_threads (sc_cpus (w_sched w) ! c))"
    "\<not> cpu_tlock (sc_cpus (w_sched w) ! c)" "all_killed (w_sched w) ts" "mark \<notin> set ts"
  shows "case for_each (reap_thread kp c) ts w of Inl e \<Rightarrow> reap_all kp mark c w = Some (Inl e)
    | Inr w1 \<Rightarrow> \<exists>q r. reap_all kp mark c w = Some (Inr (upd_cpu c (emptied q r) w1)) \<and> q_view q = [] \<and> q_inv q \<and> queue_ready r \<and>
        q_view r = marked (set ts) mark (q_view (cpu_threads (sc_cpus (w_sched w) ! c))) \<and> set (q_view r) \<inter> set ts = {} \<and>
        (\<forall>x. sc_thread (w_sched w1) x = (if x \<in> set ts then None else sc_thread (w_sched w) x))"
  using assms
proof (induction ts arbitrary: w)
  case Nil
  let ?cpu = "sc_cpus (w_sched w) ! c"
  have "q_empty (cpu_destroy ?cpu)" using Nil q_view_length [of "cpu_destroy ?cpu"] by (simp add: q_empty_def)
  then have run: "reap_all kp mark c w = Some (Inr w)" using Nil(1) by (subst reap_all.simps) simp
  have "upd_cpu c (emptied (cpu_destroy ?cpu) (cpu_threads ?cpu)) w = w"
    using Nil by (intro upd_cpu_id) (simp_all add: emptied_def)
  then have "reap_all kp mark c w = Some (Inr (upd_cpu c (emptied (cpu_destroy ?cpu) (cpu_threads ?cpu)) w))" using run by simp
  moreover have "marked {} mark xs = xs" for xs by (simp add: marked_def)
  ultimately show ?case using Nil(2,3,4) unfolding push_all.simps sum.case by (intro exI conjI) auto
next
  case (Cons t ts)
  let ?cpu = "sc_cpus (w_sched w) ! c"
  have kt: "killed (sc_thread (w_sched w)) t" "t \<notin> set ts" using Cons.prems(6) by (simp_all add: all_killed_def)
  obtain q' r' where s: "q_inv q'" "q_view q' = ts" "queue_ready r'" "q_view r' = marked {t} mark (q_view (cpu_threads ?cpu))"
    "reap_all kp mark c w = bind_opt (Some (map_sum id (upd_cpu c (emptied q' r')) (reap_thread kp c w t))) (reap_all kp mark c)"
    using reap_step [OF Cons.prems(1,2,3,4,5) kt(1)] by blast
  show ?case
  proof (cases "reap_thread kp c w t")
    case (Inl e)
    then show ?thesis using s(5) by simp
  next
    case (Inr w1)
    let ?w = "upd_cpu c (emptied q' r') w1"
    have c1: "c < length (sc_cpus (w_sched w1))" using Cons.prems(1) reap_thread_cpus [OF Inr] by simp
    have cpu: "sc_cpus (w_sched ?w) ! c = emptied q' r' (sc_cpus (w_sched w1) ! c)" "length (sc_cpus (w_sched ?w)) = length (sc_cpus (w_sched w1))"
      "sc_thread (w_sched ?w) = (sc_thread (w_sched w))(t := None)" using c1 reap_thread_store [OF Inr] by (simp_all add: upd_cpu_def)
    have k: "all_killed (w_sched ?w) ts" using Cons.prems(6) cpu(3) kt(2) by (auto simp: all_killed_def killed_def)
    have m: "mark \<notin> set ts" "mark \<noteq> t" using Cons.prems(7) by auto
    have f: "c < length (sc_cpus (w_sched ?w))" "cpu_destroy (sc_cpus (w_sched ?w) ! c) = q'"
      "cpu_threads (sc_cpus (w_sched ?w) ! c) = r'" "\<not> cpu_tlock (sc_cpus (w_sched ?w) ! c)"
      using c1 unfolding cpu(1,2) by (simp_all add: emptied_def)
    have IH: "case for_each (reap_thread kp c) ts ?w of Inl e \<Rightarrow> reap_all kp mark c ?w = Some (Inl e)
      | Inr w1 \<Rightarrow> \<exists>q r. reap_all kp mark c ?w = Some (Inr (upd_cpu c (emptied q r) w1)) \<and> q_view q = [] \<and> q_inv q \<and> queue_ready r \<and>
        q_view r = marked (set ts) mark (q_view r') \<and> set (q_view r) \<inter> set ts = {} \<and>
        (\<forall>x. sc_thread (w_sched w1) x = (if x \<in> set ts then None else sc_thread (w_sched ?w) x))"
      using Cons.IH [of ?w] s(1-3) k m(1) f unfolding f(2,3) by blast
    have all: "for_each (reap_thread kp c) ts ?w = map_sum id (upd_cpu c (emptied q' r')) (for_each (reap_thread kp c) ts w1)"
      by (rule reap_threads_queues [OF emptied_queues c1])
    have run: "reap_all kp mark c w = reap_all kp mark c ?w" "for_each (reap_thread kp c) (t # ts) w = for_each (reap_thread kp c) ts w1"
      using s(5) Inr by simp_all
    show ?thesis
    proof (cases "for_each (reap_thread kp c) ts w1")
      case (Inr w2)
      then obtain q r where qr: "reap_all kp mark c ?w = Some (Inr (upd_cpu c (emptied q r) w2))" "q_view q = []" "q_inv q" "queue_ready r"
        "q_view r = marked (set ts) mark (q_view r')" using IH all by (auto simp: emptied_emptied)
      have v: "q_view r = marked (set (t # ts)) mark (q_view (cpu_threads ?cpu))"
        using qr(5) s(4) marked_twice [OF kt(2) m(1)] by simp
      then have "set (q_view r) \<inter> set (t # ts) = {}" using Cons.prems(7) by (auto simp: marked_def)
      moreover have "sc_thread (w_sched w2) x = (if x \<in> set (t # ts) then None else sc_thread (w_sched w) x)" for x
        using reap_threads_store [where ts = "t # ts" and w = w and w' = w2 and kp = kp and c = c] run(2) Inr by simp
      ultimately show ?thesis unfolding run Inr sum.case using qr v by blast
    qed (use IH all run in simp)
  qed
qed

text \<open>A processor that runs the thread 6 and has the killed kernel thread 5 in both queues.\<close>

definition sample_world :: "vmem \<Rightarrow> nat world" where
  "sample_world m = \<lparr>w_sched = \<lparr>sc_thread = [5 \<mapsto> sample_kthread], sc_cpus = [\<lparr>cpu_lockLevel = 0, cpu_RSP0 = 0, cpu_ID = 0,
     cpu_threads = ring3 [Some 5, None, None] 1 0 1, cpu_tlock = False, cpu_destroy = ring3 [Some 5, None, None] 1 0 1,
     cpu_dlock = False, cpu_idle = 1, cpu_current = 6, cpu_process = 9\<rparr>], sc_tick = 0, sc_balancing = False\<rparr>,
     w_mem = m, w_procs = [9 \<mapsto> sample_process]\<rparr>"

theorem reap_all_destroys_witness:
  "\<exists>m w'. mapPage sample_vm sample_space 0x2000 0x400000 2 True = Inr (m, sample_space) \<and>
    reap_all 9 3 0 (sample_world m) = Some (Inr w') \<and> sc_thread (w_sched w') 5 = None \<and>
    ph_used (vm_phys m) 2 \<and> \<not> ph_used (vm_phys (w_mem w')) 2 \<and>
    q_view (cpu_threads (sc_cpus (w_sched w') ! 0)) = [3] \<and> q_view (cpu_destroy (sc_cpus (w_sched w') ! 0)) = []"
proof -
  obtain m where m: "mapPage sample_vm sample_space 0x2000 0x400000 2 True = Inr (m, sample_space)" "vm_inv m sample_space"
    "pages_owned m sample_space (thread_pages 9 sample_kthread)" "page_frame m sample_space 0x400000 = 2" "ph_used (vm_phys m) 2"
    using sample_stack by blast
  have p: "pr_space sample_process = sample_space" "vec_inv (pr_threads sample_process)" "vec_list (pr_threads sample_process) = [5, 6]"
    by (simp_all add: sample_process_def vec_inv_def vec_list_def)
  have k: "th_process sample_kthread = 9" "set (thread_pages 9 sample_kthread) = {0x400000}"
    by (simp_all add: sample_kthread_def thread_pages_def)
  obtain p' m1 m' where d: "destroyThread m sample_process 5 sample_kthread 6 9 9 = Inr (p', False, m')"
    "gone {0x400000} {2} sample_space m m1" "m' = m1"
    using destroyThread_ok [of 5 6 sample_process m 9 sample_kthread False 9] p m k sample_vm_facts(3) by auto
  let ?w = "sample_world m"
  obtain w1 where w1: "for_each (reap_thread 9 0) [5] ?w = Inr w1" "w_mem w1 = m'" "sc_cpus (w_sched w1) = sc_cpus (w_sched ?w)"
    using d(1) by (simp add: reap_thread_def sample_world_def thread_at_def k(1) Let_def)
  have q: "q_inv (ring3 [Some 5, None, None] 1 0 1)" "q_view (ring3 [Some 5, None, None] 1 0 1) = [5]"
    "queue_ready (ring3 [Some 5, None, None] 1 0 1)"
    by (simp_all add: ring3_def q_inv_def q_view_def q_idx_def q_room_def queue_ready_def)
  have c: "0 < length (sc_cpus (w_sched ?w))" "cpu_destroy (sc_cpus (w_sched ?w) ! 0) = ring3 [Some 5, None, None] 1 0 1"
    "cpu_threads (sc_cpus (w_sched ?w) ! 0) = ring3 [Some 5, None, None] 1 0 1" "\<not> cpu_tlock (sc_cpus (w_sched ?w) ! 0)"
    "all_killed (w_sched ?w) [5]" by (simp_all add: sample_world_def all_killed_def killed_def sample_kthread_def)
  obtain qq r where r: "reap_all 9 3 0 ?w = Some (Inr (upd_cpu 0 (emptied qq r) w1))" "q_view qq = []" "q_view r = marked {5} 3 [5]"
    "sc_thread (w_sched w1) 5 = None"
    using reap_all_destroys [of 0 ?w "[5]" 3 9] c q w1(1) by auto
  have "\<not> ph_used (vm_phys m1) 2" using d(2) by (simp add: gone_def clears_def)
  then show ?thesis using m(1,5) r w1(2,3) d(3) c(1)
    by (intro exI [of _ m] exI [of _ "upd_cpu 0 (emptied qq r) w1"]) (simp add: upd_cpu_def emptied_def marked_def)
qed

end
