(* ===== verification/Smp.thy ===== *)
theory Smp
  imports Prelude
begin

text \<open>
  \<open>kernel/scheduler/smp.cpp\<close>: the start of the other processors, as steps that the boot processor (\<open>startSMP\<close>)
  and the started ones (\<open>kernel/apBoot.asm\<close> and \<open>apEntry\<close>) make in any order. They share three variables:
  the stack for the next processor, its index in the vector of processors, and the flag \<open>started\<close>. \<open>stack i\<close> is
  the top of the stack that \<open>kmalloc\<close> gave in the i-th round. What a processor does between reading its index
  and setting the flag (its queues, descriptor tables and timer) touches none of them.
\<close>

section \<open>Steps\<close>

text \<open>
  The boot processor chooses the next processor, sends it INIT after preparing the variables, then the start-up
  interrupt, waits for the flag and clears it. A started processor loads its stack, then its index, then sets the flag.
\<close>

datatype bsp_pc = Choose | Prepared | Waiting | Seen | Finished

datatype ap_pc = Off | Booting | Stacked u64 | Entered u64 nat | Up u64 nat

record smp =
  sm_i :: nat
  sm_bsp :: bsp_pc
  sm_started :: bool
  sm_apStack :: u64
  sm_apCoreIndex :: u8
  sm_ap :: "nat \<Rightarrow> ap_pc"

definition smp_start :: smp where
  "smp_start = \<lparr>sm_i = 0, sm_bsp = Choose, sm_started = False, sm_apStack = 0, sm_apCoreIndex = 0, sm_ap = (\<lambda>_. Off)\<rparr>"

text \<open>\<open>n\<close> is the number of processors, \<open>self\<close> the index of the one whose \<open>lApicID\<close> is that of the boot processor.\<close>

inductive smp_step :: "nat \<Rightarrow> nat \<Rightarrow> (nat \<Rightarrow> u64) \<Rightarrow> smp \<Rightarrow> smp \<Rightarrow> bool" for n self stack where
  skip: "sm_bsp s = Choose \<Longrightarrow> sm_i s < n \<Longrightarrow> sm_i s = self \<Longrightarrow> smp_step n self stack s (s\<lparr>sm_i := sm_i s + 1\<rparr>)"
| prepare: "sm_bsp s = Choose \<Longrightarrow> sm_i s < n \<Longrightarrow> sm_i s \<noteq> self \<Longrightarrow>
    smp_step n self stack s (s\<lparr>sm_apStack := stack (sm_i s), sm_apCoreIndex := of_nat (sm_i s), sm_bsp := Prepared\<rparr>)"
| send: "sm_bsp s = Prepared \<Longrightarrow>
    smp_step n self stack s (s\<lparr>sm_ap := (sm_ap s)(sm_i s := Booting), sm_bsp := Waiting\<rparr>)"
| see: "sm_bsp s = Waiting \<Longrightarrow> sm_started s \<Longrightarrow> smp_step n self stack s (s\<lparr>sm_bsp := Seen\<rparr>)"
| clear: "sm_bsp s = Seen \<Longrightarrow> smp_step n self stack s (s\<lparr>sm_started := False, sm_i := sm_i s + 1, sm_bsp := Choose\<rparr>)"
| finish: "sm_bsp s = Choose \<Longrightarrow> \<not> sm_i s < n \<Longrightarrow> smp_step n self stack s (s\<lparr>sm_bsp := Finished\<rparr>)"
| ap_stack: "sm_ap s k = Booting \<Longrightarrow> smp_step n self stack s (s\<lparr>sm_ap := (sm_ap s)(k := Stacked (sm_apStack s))\<rparr>)"
| ap_index: "sm_ap s k = Stacked a \<Longrightarrow> smp_step n self stack s (s\<lparr>sm_ap := (sm_ap s)(k := Entered a (unat (sm_apCoreIndex s)))\<rparr>)"
| ap_flag: "sm_ap s k = Entered a j \<Longrightarrow> smp_step n self stack s (s\<lparr>sm_ap := (sm_ap s)(k := Up a j), sm_started := True\<rparr>)"

inductive smp_reach :: "nat \<Rightarrow> nat \<Rightarrow> (nat \<Rightarrow> u64) \<Rightarrow> smp \<Rightarrow> bool" for n self stack where
  init: "smp_reach n self stack smp_start"
| step: "smp_reach n self stack s \<Longrightarrow> smp_step n self stack s s' \<Longrightarrow> smp_reach n self stack s'"

inductive_cases smp_stepE: "smp_step n self stack s s'"

section \<open>Invariant\<close>

text \<open>Processors in front of the current round are up with their own stack and index, those behind are off.\<close>

definition ap_done :: "nat \<Rightarrow> (nat \<Rightarrow> u64) \<Rightarrow> nat \<Rightarrow> ap_pc" where
  "ap_done self stack k = (if k = self then Off else Up (stack k) k)"

definition round_ok :: "nat \<Rightarrow> (nat \<Rightarrow> u64) \<Rightarrow> smp \<Rightarrow> bool" where
  "round_ok self stack s \<longleftrightarrow> (case sm_bsp s of
     Waiting \<Rightarrow> sm_ap s (sm_i s) \<in> (if sm_started s then {Up (stack (sm_i s)) (sm_i s)}
        else {Booting, Stacked (stack (sm_i s)), Entered (stack (sm_i s)) (sm_i s)})
   | Seen \<Rightarrow> sm_ap s (sm_i s) = Up (stack (sm_i s)) (sm_i s)
   | _ \<Rightarrow> sm_ap s (sm_i s) = Off \<and> \<not> sm_started s)"

definition smp_inv :: "nat \<Rightarrow> nat \<Rightarrow> (nat \<Rightarrow> u64) \<Rightarrow> smp \<Rightarrow> bool" where
  "smp_inv n self stack s \<longleftrightarrow> sm_i s \<le> n \<and> (\<forall>k < sm_i s. sm_ap s k = ap_done self stack k) \<and> (\<forall>k > sm_i s. sm_ap s k = Off) \<and>
     round_ok self stack s \<and> (sm_bsp s = Finished \<longrightarrow> sm_i s = n) \<and>
     (sm_bsp s \<in> {Prepared, Waiting, Seen} \<longrightarrow> sm_i s < n \<and> sm_i s \<noteq> self \<and> sm_apStack s = stack (sm_i s) \<and> sm_apCoreIndex s = of_nat (sm_i s))"

text \<open>The steps that a started processor has left until it sets the flag.\<close>

fun ap_left :: "ap_pc \<Rightarrow> nat" where
  "ap_left Booting = 3" | "ap_left (Stacked a) = 2" | "ap_left (Entered a j) = 1" | "ap_left _ = 0"

lemma booting_current:
  assumes inv: "smp_inv n self stack s" and p: "ap_left (sm_ap s k) \<noteq> 0"
  shows "k = sm_i s \<and> sm_bsp s = Waiting \<and> \<not> sm_started s \<and> sm_i s < n \<and> sm_i s \<noteq> self \<and> sm_apStack s = stack k \<and>
    sm_apCoreIndex s = of_nat k \<and> sm_ap s k \<in> {Booting, Stacked (stack k), Entered (stack k) k}"
proof -
  have k: "k = sm_i s"
  proof (rule ccontr)
    assume "k \<noteq> sm_i s"
    then have "sm_ap s k = ap_done self stack k \<or> sm_ap s k = Off" using inv unfolding smp_inv_def by (meson nat_neq_iff)
    then show False using p by (auto simp: ap_done_def split: if_splits)
  qed
  show ?thesis using inv p unfolding k by (cases "sm_bsp s") (auto simp: smp_inv_def round_ok_def split: if_splits)
qed

lemma smp_inv_step:
  assumes "n \<le> 256" "smp_inv n self stack s" "smp_step n self stack s s'"
  shows "smp_inv n self stack s'"
  using assms(3)
proof (cases rule: smp_step.cases)
  case (ap_stack k)
  then show ?thesis using booting_current [OF assms(2), of k] assms(2) by (auto simp: smp_inv_def round_ok_def)
next
  case (ap_index k a)
  have "k < 256" using ap_index(2) booting_current [OF assms(2), of k] assms(1) by auto
  then have "unat (of_nat k :: u8) = k" by (simp add: unsigned_of_nat take_bit_nat_eq_self)
  then show ?thesis using ap_index booting_current [OF assms(2), of k] assms(2) by (auto simp: smp_inv_def round_ok_def)
next
  case (ap_flag k a j)
  then show ?thesis using booting_current [OF assms(2), of k] assms(2) by (auto simp: smp_inv_def round_ok_def)
next
  case clear
  then show ?thesis using assms(2) by (auto simp: smp_inv_def round_ok_def ap_done_def less_Suc_eq)
qed (use assms(2) in \<open>auto simp: smp_inv_def round_ok_def ap_done_def less_Suc_eq split: if_splits\<close>)

lemma smp_reach_inv:
  assumes "smp_reach n self stack s" "n \<le> 256"
  shows "smp_inv n self stack s"
  using assms(1)
proof (induction rule: smp_reach.induct)
  case init
  then show ?case by (simp add: smp_inv_def smp_start_def round_ok_def)
qed (rule smp_inv_step [OF assms(2)])

section \<open>Progress\<close>

text \<open>How many steps are left.\<close>

fun bsp_left :: "bsp_pc \<Rightarrow> nat" where
  "bsp_left Choose = 8" | "bsp_left Prepared = 7" | "bsp_left Waiting = 2" | "bsp_left Seen = 1" | "bsp_left Finished = 0"

definition smp_left :: "nat \<Rightarrow> smp \<Rightarrow> nat" where
  "smp_left n s = 8 * (n - sm_i s) + bsp_left (sm_bsp s) + ap_left (sm_ap s (sm_i s))"

lemma smp_step_left:
  assumes "smp_inv n self stack s" "smp_step n self stack s s'"
  shows "smp_left n s' < smp_left n s"
  using assms(2)
proof (cases rule: smp_step.cases)
  case (ap_stack k)
  then show ?thesis using booting_current [OF assms(1), of k] by (auto simp: smp_left_def)
next
  case (ap_index k a)
  then show ?thesis using booting_current [OF assms(1), of k] by (auto simp: smp_left_def)
next
  case (ap_flag k a j)
  then show ?thesis using booting_current [OF assms(1), of k] by (auto simp: smp_left_def)
qed (use assms(1) in \<open>auto simp: smp_left_def smp_inv_def round_ok_def\<close>)

lemma smp_progress:
  assumes "smp_inv n self stack s" "sm_bsp s \<noteq> Finished"
  shows "\<exists>s'. smp_step n self stack s s'"
proof (cases "sm_bsp s")
  case Choose
  then show ?thesis using smp_step.skip [of s n self stack] smp_step.prepare [of s n self stack] smp_step.finish [of s n self stack] by blast
next
  case Waiting
  then show ?thesis using assms(1) by (auto simp: smp_inv_def round_ok_def split: if_splits intro: smp_step.intros)
qed (use assms(2) in \<open>auto intro: smp_step.intros\<close>)

text \<open>
  \<open>C8\<close> With at most 256 processors, in every order of the steps: a processor that has passed \<open>apEntry\<close> has the stack and the index of its
  own round, so no two of them share a stack; at most one is between its start-up interrupt and the flag, so
  their initialisations do not overlap; as long as \<open>startSMP\<close> has not returned some processor can go on,
  every step brings the end nearer, and when it returns every other processor has been started.
\<close>

theorem smp_boot:
  assumes "smp_reach n self stack s" "n \<le> 256"
  shows "(\<forall>k a j. sm_ap s k = Entered a j \<or> sm_ap s k = Up a j \<longrightarrow> a = stack k \<and> j = k) \<and>
    (\<forall>k k'. ap_left (sm_ap s k) \<noteq> 0 \<and> ap_left (sm_ap s k') \<noteq> 0 \<longrightarrow> k = k') \<and>
    (if sm_bsp s = Finished then \<forall>k < n. k \<noteq> self \<longrightarrow> sm_ap s k = Up (stack k) k else \<exists>s'. smp_step n self stack s s') \<and>
    (\<forall>s'. smp_step n self stack s s' \<longrightarrow> smp_left n s' < smp_left n s)"
proof -
  note inv = smp_reach_inv [OF assms]
  have b: "k = sm_i s" if "ap_left (sm_ap s k) \<noteq> 0" for k
    using booting_current [OF inv that] by blast
  have o: "a = stack k \<and> j = k" if u: "sm_ap s k = Up a j" for k a j
  proof (cases "k = sm_i s")
    case True
    then show ?thesis using inv u by (cases "sm_bsp s") (auto simp: smp_inv_def round_ok_def split: if_splits)
  next
    case False
    then have "sm_ap s k = ap_done self stack k \<or> sm_ap s k = Off" using inv unfolding smp_inv_def by (meson nat_neq_iff)
    then show ?thesis using u by (auto simp: ap_done_def split: if_splits)
  qed
  have e: "a = stack k \<and> j = k" if u: "sm_ap s k = Entered a j" for k a j
    using booting_current [OF inv, of k] u by auto
  have f: "\<forall>k < n. k \<noteq> self \<longrightarrow> sm_ap s k = Up (stack k) k" if "sm_bsp s = Finished"
    using inv that by (simp add: smp_inv_def ap_done_def)
  have k: "k = k'" if "ap_left (sm_ap s k) \<noteq> 0" "ap_left (sm_ap s k') \<noteq> 0" for k k'
    using b [OF that(1)] b [OF that(2)] by simp
  show ?thesis
  proof (intro conjI)
    show "\<forall>k a j. sm_ap s k = Entered a j \<or> sm_ap s k = Up a j \<longrightarrow> a = stack k \<and> j = k" using o e by blast
    show "\<forall>k k'. ap_left (sm_ap s k) \<noteq> 0 \<and> ap_left (sm_ap s k') \<noteq> 0 \<longrightarrow> k = k'" using k by blast
    show "if sm_bsp s = Finished then \<forall>k < n. k \<noteq> self \<longrightarrow> sm_ap s k = Up (stack k) k else \<exists>s'. smp_step n self stack s s'"
      using f smp_progress [OF inv] by simp
    show "\<forall>s'. smp_step n self stack s s' \<longrightarrow> smp_left n s' < smp_left n s" using smp_step_left [OF inv] by blast
  qed
qed

text \<open>Two processors, of which the first starts the second.\<close>

theorem smp_boot_witness:
  "\<exists>s. smp_reach 2 0 (\<lambda>i. of_nat (i * 16384)) s \<and> sm_bsp s = Finished \<and> sm_ap s 1 = Up 16384 1"
proof -
  let ?S = "\<lambda>i :: nat. of_nat (i * 16384) :: u64"
  define s1 where "s1 = smp_start\<lparr>sm_i := 1\<rparr>"
  define s2 where "s2 = s1\<lparr>sm_apStack := ?S 1, sm_apCoreIndex := 1, sm_bsp := Prepared\<rparr>"
  define s3 where "s3 = s2\<lparr>sm_ap := (sm_ap s2)(1 := Booting), sm_bsp := Waiting\<rparr>"
  define s4 where "s4 = s3\<lparr>sm_ap := (sm_ap s3)(1 := Stacked (sm_apStack s3))\<rparr>"
  define s5 where "s5 = s4\<lparr>sm_ap := (sm_ap s4)(1 := Entered (sm_apStack s3) (unat (sm_apCoreIndex s4)))\<rparr>"
  define s6 where "s6 = s5\<lparr>sm_ap := (sm_ap s5)(1 := Up (sm_apStack s3) (unat (sm_apCoreIndex s4))), sm_started := True\<rparr>"
  define s7 where "s7 = s6\<lparr>sm_bsp := Seen\<rparr>"
  define s8 where "s8 = s7\<lparr>sm_started := False, sm_i := Suc 1, sm_bsp := Choose\<rparr>"
  note defs = s1_def s2_def s3_def s4_def s5_def s6_def s7_def s8_def smp_start_def
  have "smp_reach 2 0 ?S smp_start" by (rule smp_reach.init)
  then have "smp_reach 2 0 ?S s1" using smp_step.skip [of smp_start 2 0 ?S] by (auto simp: smp_start_def s1_def intro: smp_reach.step)
  then have "smp_reach 2 0 ?S s2" using smp_step.prepare [of s1 2 0 ?S] by (auto simp: s1_def smp_start_def s2_def intro: smp_reach.step)
  then have "smp_reach 2 0 ?S s3" using smp_step.send [of s2 2 0 ?S] by (auto simp: defs intro: smp_reach.step)
  then have "smp_reach 2 0 ?S s4" using smp_step.ap_stack [of s3 1 2 0 ?S] by (auto simp: defs intro: smp_reach.step)
  then have "smp_reach 2 0 ?S s5" using smp_step.ap_index [of s4 1 _ 2 0 ?S] by (auto simp: defs intro: smp_reach.step)
  then have "smp_reach 2 0 ?S s6" using smp_step.ap_flag [of s5 1 _ _ 2 0 ?S] by (auto simp: defs intro: smp_reach.step)
  then have "smp_reach 2 0 ?S s7" using smp_step.see [of s6 2 0 ?S] by (auto simp: defs intro: smp_reach.step)
  then have "smp_reach 2 0 ?S s8" using smp_step.clear [of s7 2 0 ?S] by (auto simp: defs intro: smp_reach.step)
  then have "smp_reach 2 0 ?S (s8\<lparr>sm_bsp := Finished\<rparr>)"
    using smp_step.finish [of s8 2 0 ?S] by (auto simp: defs intro: smp_reach.step)
  then have r: "smp_reach 2 0 ?S (s8\<lparr>sm_bsp := Finished\<rparr>)" "(2 :: nat) \<le> 256" by simp_all
  have "sm_bsp (s8\<lparr>sm_bsp := Finished\<rparr>) = Finished" by simp
  then have "sm_ap (s8\<lparr>sm_bsp := Finished\<rparr>) 1 = Up (?S 1) 1" using smp_boot [OF r] by simp
  then show ?thesis using r(1) by (intro exI [of _ "s8\<lparr>sm_bsp := Finished\<rparr>"]) simp
qed

end
