(* ===== verification/Boot.thy ===== *)
theory Boot
  imports Reaper Gdt Elf Vfs Lapic Acpi
begin

text \<open>
  The start of the scheduler (\<open>kernel/scheduler/scheduler.cpp\<close>), of interrupts (\<open>kernel/interrupts/interrupts.cpp\<close>,
  \<open>include/interrupts.h\<close>), of memory (\<open>include/memory.h\<close>) and of the first program (\<open>loadProcess\<close> of
  \<open>kernel/scheduler/process.cpp\<close>). Addresses of objects that \<open>kmalloc\<close> makes are arguments, as are those of the code that threads and interrupt gates lead to.
\<close>

section \<open>Interrupts\<close>

text \<open>\<open>edx\<close> is the feature word of \<open>cpuid\<close>, \<open>cpu\<close> the address of the current processor's local controller.\<close>

definition interrupts_init :: "(nat \<Rightarrow> u8) \<Rightarrow> irqs \<Rightarrow> u32 \<Rightarrow> u64 option \<Rightarrow> lapic \<times> serial \<Rightarrow> (lapic \<times> serial) res option" where
  "interrupts_init lsr s edx cpu st = (case st of (la, sr) \<Rightarrow>
     bind_opt (if \<not> ioapic_isEnable s then log_warn lsr sr ''No IOAPIC: using PIC'' [] else Some (Inr sr)) (\<lambda>sr.
     bind_opt (Some (lapic_isEnable la edx cpu)) (\<lambda>(on, la).
     bind_opt (Some (if on then lapic_init la cpu else Inr la)) (\<lambda>la. Some (Inr (la, sr))))))"

definition intr_maskIRQ :: "irqs \<Rightarrow> u8 \<Rightarrow> irqs res" where
  "intr_maskIRQ s irq = (if ioapic_isEnable s then ioapic_maskIRQ s irq else Inr (pic_maskIRQ s irq))"

definition intr_unmaskIRQ :: "irqs \<Rightarrow> u8 \<Rightarrow> irqs res" where
  "intr_unmaskIRQ s irq = (if ioapic_isEnable s then ioapic_unmaskIRQ s irq else pic_unmaskIRQ s irq)"

section \<open>Scheduler\<close>

datatype SchedulerState = Unitialised | KernelProcessInit | Started

fun state_value :: "SchedulerState \<Rightarrow> nat" where
  "state_value Unitialised = 0"
| "state_value KernelProcessInit = 1"
| "state_value Started = 2"

record 'n boot = "'n world" +
  bo_state :: SchedulerState
  bo_idt :: "gate list"

text \<open>\<open>kp\<close> is the address of the global \<open>kernelProcess\<close>.\<close>

definition sched_preinit :: "nat \<Rightarrow> u64 \<Rightarrow> 'n boot \<Rightarrow> 'n boot res" where
  "sched_preinit kp cr3 b = (case w_procs b kp of None \<Rightarrow> Inl BadAccess
     | Some p \<Rightarrow> Inr (b\<lparr>w_procs := (w_procs b)(kp \<mapsto> p\<lparr>pr_id := 0, pr_name := ''kernel'', pr_space := (pr_space p)\<lparr>as_cr3 := cr3\<rparr>\<rparr>),
                        bo_state := KernelProcessInit\<rparr>))"

definition getKernelProcess :: "nat \<Rightarrow> 'n boot \<Rightarrow> nat res" where
  "getKernelProcess kp b = assert_res (state_value (bo_state b) \<ge> state_value KernelProcessInit) (Inr kp)"

text \<open>Null is zero; \<open>c\<close> is the current processor.\<close>

definition getCurrentProcess :: "nat \<Rightarrow> nat \<Rightarrow> 'n boot \<Rightarrow> nat" where
  "getCurrentProcess kp c b =
     (if bo_state b = Started then cpu_process (sc_cpus (w_sched b) ! c)
      else if state_value (bo_state b) \<ge> state_value KernelProcessInit then kp
      else 0)"

text \<open>\<open>createThread\<close> of the thread at \<open>t\<close> in the process at \<open>pa\<close>.\<close>

definition spawn :: "nat \<Rightarrow> nat \<Rightarrow> u64 \<Rightarrow> bool \<Rightarrow> 'n boot \<Rightarrow> 'n boot res" where
  "spawn pa t entry userThread b = (case w_procs b pa of None \<Rightarrow> Inl BadAccess
     | Some p \<Rightarrow> bind_res (createThread (w_mem b) pa p t entry userThread) (\<lambda>(th, st, p, m).
         Inr (b\<lparr>w_mem := m, w_procs := (w_procs b)(pa \<mapsto> p),
                w_sched := (w_sched b)\<lparr>sc_thread := (sc_thread (w_sched b))(t \<mapsto> th)\<rparr>\<rparr>)))"

definition empty_queues :: "cpu \<Rightarrow> cpu" where
  "empty_queues cpu = cpu\<lparr>cpu_threads := q_realloc q_new 1024, cpu_tlock := False, cpu_destroy := q_realloc q_new 512, cpu_dlock := False\<rparr>"

text \<open>The part of \<open>init\<close> that only the boot processor does; the second \<open>clear\<close> is of \<open>threads\<close> again.\<close>

definition init_bsp :: "nat \<Rightarrow> u64 \<Rightarrow> 'n boot \<Rightarrow> 'n boot res" where
  "init_bsp kp yieldHandler b =
     bind_res (setEntry (bo_idt b) 0xF0 yieldHandler 0) (\<lambda>idt.
     case w_procs b kp of None \<Rightarrow> Inl BadAccess
     | Some p \<Rightarrow> Inr (b\<lparr>bo_idt := idt, w_procs := (w_procs b)(kp \<mapsto> p\<lparr>pr_threads := vec_clear 8 0 (vec_clear 8 0 (vec_new_sized 10)),
                        pr_fds := vec_new_sized 10\<rparr>)\<rparr>))"

definition sched_init :: "nat \<Rightarrow> nat \<Rightarrow> bool \<Rightarrow> u64 \<Rightarrow> u64 \<Rightarrow> u64 \<Rightarrow> nat \<Rightarrow> nat \<Rightarrow> 'n boot \<Rightarrow> 'n boot res" where
  "sched_init kp c isBsp yieldHandler idleTask destroyer t1 t2 b =
     assert_res (state_value (bo_state b) \<ge> state_value KernelProcessInit) (
     let b = b\<lparr>bo_state := Started\<rparr>; b = b\<lparr>w_sched := on_cpu (w_sched b) c empty_queues\<rparr> in
     bind_res (if isBsp then init_bsp kp yieldHandler b else Inr b) (\<lambda>b.
     bind_res (spawn kp t1 idleTask False b) (\<lambda>b.
     let b = b\<lparr>w_sched := on_cpu (w_sched b) c (\<lambda>cpu. cpu\<lparr>cpu_idle := t1\<rparr>)\<rparr>;
         b = b\<lparr>w_sched := on_cpu (w_sched b) c (\<lambda>cpu. cpu\<lparr>cpu_current := cpu_idle cpu\<rparr>)\<rparr> in
     bind_res (spawn kp t2 destroyer False b) (\<lambda>b.
     bind_res (q_push (cpu_threads (sc_cpus (w_sched b) ! c)) t2) (\<lambda>q.
     Inr (b\<lparr>w_sched := on_cpu (w_sched b) c (\<lambda>cpu. cpu\<lparr>cpu_threads := q\<rparr>)\<rparr>))))))"

definition TIMER_PERIODIC :: u8 where "TIMER_PERIODIC = 1"

definition sched_start :: "nat \<Rightarrow> u64 \<Rightarrow> u64 option \<Rightarrow> 'n boot \<times> lapic \<Rightarrow> (('n boot \<times> lapic) \<times> u64 \<times> nat option) res option" where
  "sched_start c tickHandlerEntry cpu st = (case st of (b, la) \<Rightarrow>
     bind_opt (Some (setEntry (bo_idt b) 32 tickHandlerEntry 0)) (\<lambda>idt.
     bind_opt (Some (initTimer la cpu 32 TIMER_PERIODIC 10000000)) (\<lambda>la.
     bind_opt (switchNext (w_sched b) c) (\<lambda>(s, rsp, cr3).
     Some (Inr ((b\<lparr>bo_idt := idt, w_sched := s\<rparr>, la), rsp, cr3))))))"

section \<open>A started processor\<close>

definition MSR_GS_BASE :: u32 where "MSR_GS_BASE = 0xC0000101"

text \<open>\<open>initCPU\<close> of the processor \<open>c\<close>, whose \<open>CPU\<close> is at the address \<open>cpu\<close>.\<close>

definition initCPU :: "nat \<Rightarrow> u64 \<Rightarrow> nat \<Rightarrow> msrs \<times> 'n boot \<Rightarrow> msrs \<times> 'n boot" where
  "initCPU kp cpu c st = (case st of (ms, b) \<Rightarrow>
     (writeMSR ms MSR_GS_BASE cpu, b\<lparr>w_sched := on_cpu (w_sched b) c (\<lambda>cpu. cpu\<lparr>cpu_process := kp\<rparr>)\<rparr>))"

definition isCPUInitialized :: "msrs \<Rightarrow> bool" where
  "isCPUInitialized ms \<longleftrightarrow> readMSR ms MSR_GS_BASE \<noteq> 0"

text \<open>What \<open>apEntry\<close> finds: addresses, answers of the hardware, and the results of its allocations.\<close>

record ap_env =
  ev_kp :: nat
  ev_cpu :: u64
  ev_tss :: u64
  ev_lapic :: "u64 option"
  ev_yield :: u64
  ev_idle :: u64
  ev_destroyer :: u64
  ev_tick :: u64
  ev_syscall :: u64
  ev_threads :: "nat \<times> nat"
  ev_gdt :: u64
  ev_ist :: u64
  ev_edx :: u32
  ev_lsr :: "nat \<Rightarrow> u8"
  ev_pit :: "nat \<Rightarrow> u8"
  ev_count :: u32
  ev_irqs :: irqs

record 'n ap_state =
  as_boot :: "'n boot"
  as_tables :: cpu_tables
  as_msrs :: msrs
  as_lapic :: lapic
  as_serial :: serial
  as_started :: bool

text \<open>\<open>initAp\<close> only loads the register of the interrupt table that the boot processor made.\<close>

definition apEntry :: "ap_env \<Rightarrow> nat \<Rightarrow> 'n ap_state \<Rightarrow> ('n ap_state \<times> u64 \<times> nat option) res option" where
  "apEntry ev c st =
     (let (ms, b) = initCPU (ev_kp ev) (ev_cpu ev) c (as_msrs st, as_boot st) in
      bind_opt (Some (sched_init (ev_kp ev) c False (ev_yield ev) (ev_idle ev) (ev_destroyer ev) (fst (ev_threads ev)) (snd (ev_threads ev)) b)) (\<lambda>b.
      bind_opt (Some (gdt_install (Some (as_tables st)) (ev_gdt ev) (ev_tss ev) (ev_ist ev))) (\<lambda>(_, _, tables).
      bind_opt (interrupts_init (ev_lsr ev) (ev_irqs ev) (ev_edx ev) (ev_lapic ev) (as_lapic st, as_serial st)) (\<lambda>(la, sr).
      bind_opt (calibrateTimer la (ev_lapic ev) (ev_pit ev) (ev_count ev)) (\<lambda>la.
      bind_opt (initSyscalls (ev_lsr ev) (ev_syscall ev) ms sr) (\<lambda>(ms, sr).
      bind_opt (sched_start c (ev_tick ev) (ev_lapic ev) (b, la)) (\<lambda>((b, la), rsp, cr3).
      Some (Inr (\<lparr>as_boot = b, as_tables = tables, as_msrs = ms, as_lapic = la, as_serial = sr, as_started = True\<rparr>, rsp, cr3)))))))))"

section \<open>Starting the other processors\<close>

text \<open>
  \<open>startSMP\<close> as the boot processor runs it; the theory of its interleaving with the started processors is \<open>Smp\<close>. The
  answers of the hardware in one round are those of the two interrupts' command register, of the PIT's
  status port, and the values that \<open>started\<close> has when it is read. The stacks are allocated outside this model.
\<close>

record round_env =
  rv_icr1 :: "nat \<Rightarrow> u32"
  rv_pit :: "nat \<Rightarrow> u8"
  rv_icr2 :: "nat \<Rightarrow> u32"
  rv_started :: "nat \<Rightarrow> bool"

partial_function (option) started_wait :: "(nat \<Rightarrow> bool) \<Rightarrow> nat \<Rightarrow> nat option" where
  "started_wait flag k = (if \<not> flag k then started_wait flag (Suc k) else Some k)"

definition start_core :: "round_env \<Rightarrow> u64 \<Rightarrow> u8 \<Rightarrow> lapic \<Rightarrow> lapic option" where
  "start_core ev base target la =
     Option.bind (sendIPI la (rv_icr1 ev) base target 0x4500) (\<lambda>la.
     Option.bind (pit_delay (rv_pit ev) 50) (\<lambda>_.
     Option.bind (sendIPI la (rv_icr2 ev) base target 0x4601) (\<lambda>la.
     Option.bind (started_wait (rv_started ev) 0) (\<lambda>_. Some la))))"

fun start_cores :: "(nat \<Rightarrow> round_env) \<Rightarrow> u64 \<Rightarrow> u8 \<Rightarrow> cpu_info list \<Rightarrow> nat \<Rightarrow> lapic \<Rightarrow> lapic option" where
  "start_cores ev base self [] i la = Some la"
| "start_cores ev base self (core # cores) i la =
     (if ci_lApicID core = self then start_cores ev base self cores (Suc i) la
      else Option.bind (start_core (ev i) base (ci_lApicID core) la) (\<lambda>la. start_cores ev base self cores (Suc i) la))"

text \<open>\<open>apBootStart\<close> is an address below 1 MiB, which is mapped to itself meanwhile; \<open>cur\<close> is the boot processor.\<close>

definition startSMP :: "(nat \<Rightarrow> u8) \<Rightarrow> u32 \<Rightarrow> (nat \<Rightarrow> round_env) \<Rightarrow> cpu_info list \<Rightarrow> cpu_info \<Rightarrow> u64 \<Rightarrow>
    vmem \<times> aspace \<times> lapic \<times> serial \<times> intr \<Rightarrow> (vmem \<times> aspace \<times> lapic \<times> serial \<times> intr) res option" where
  "startSMP lsr edx ev cores cur apBootStart st = (case st of (m, space, la, sr, ir) \<Rightarrow>
     if length cores \<le> 1 then Some (Inr st) else
     bind_opt (Some (lapic_isEnable la edx (Some (ci_lApicAddress cur)))) (\<lambda>(on, la).
     if \<not> on then bind_opt (log_warn lsr sr ''Warn: no LAPIC: cannot start SMP'' []) (\<lambda>sr. Some (Inr (m, space, la, sr, ir)))
     else
     let ir = intr_disable ir in
     bind_opt (Some (mapPage m space apBootStart apBootStart 2 True)) (\<lambda>(m, space).
     Option.bind (start_cores ev (ci_lApicAddress cur) (ci_lApicID cur) cores 0 la) (\<lambda>la.
     bind_opt (Some (unmapPage m space apBootStart)) (\<lambda>(_, m, space).
     bind_opt (Some (intr_enable ir)) (\<lambda>ir. Some (Inr (m, space, la, sr, ir))))))))"

lemma started_wait_ends:
  assumes "flag (k + d)"
  shows "\<exists>j. started_wait flag k = Some j"
  using assms
proof (induction d arbitrary: k)
  case (Suc d)
  then show ?case by (subst started_wait.simps) (use Suc.IH [of "Suc k"] in auto)
qed (subst started_wait.simps, simp)

text \<open>The hardware answers in the end, and the started processor sets the flag.\<close>

definition answers :: "round_env \<Rightarrow> bool" where
  "answers ev \<longleftrightarrow> (\<exists>k. \<not> bit (rv_icr1 ev k) 12) \<and> (\<exists>k. bit (rv_pit ev k) 7) \<and> (\<exists>k. \<not> bit (rv_icr2 ev k) 12) \<and> (\<exists>k. rv_started ev k)"

lemma sendIPI_ends:
  assumes "\<exists>k. \<not> bit (icr k) 12"
  shows "\<exists>la'. sendIPI la icr base target v = Some la'"
proof -
  define n where "n = (LEAST k. \<not> bit (icr k) 12)"
  have "\<not> bit (icr (0 + n)) 12" unfolding n_def add_0 by (rule LeastI_ex [OF assms])
  moreover have "\<forall>j < n. bit (icr (0 + j)) 12" unfolding n_def add_0 using not_less_Least by blast
  ultimately show ?thesis by (simp add: sendIPI_def ipi_wait_ends [of icr 0 n])
qed

lemma pit_delay_ends:
  assumes "\<exists>k. bit (status k) 7"
  shows "\<exists>out. pit_delay status ms = Some out"
proof -
  define n where "n = (LEAST k. bit (status k) 7)"
  have "bit (status (0 + n)) 7" unfolding n_def add_0 by (rule LeastI_ex [OF assms])
  moreover have "\<forall>j < n. \<not> bit (status (0 + j)) 7" unfolding n_def add_0 using not_less_Least by blast
  ultimately show ?thesis using pit_poll_ends by (auto simp: pit_delay_def Let_def)
qed

lemma start_core_ends:
  assumes "answers ev"
  shows "\<exists>la'. start_core ev base target la = Some la'"
proof -
  obtain la1 where "sendIPI la (rv_icr1 ev) base target 0x4500 = Some la1" using sendIPI_ends assms unfolding answers_def by blast
  moreover obtain out where "pit_delay (rv_pit ev) 50 = Some out" using pit_delay_ends assms unfolding answers_def by blast
  moreover obtain la2 where "sendIPI la1 (rv_icr2 ev) base target 0x4601 = Some la2" using sendIPI_ends assms unfolding answers_def by blast
  moreover obtain j where "started_wait (rv_started ev) 0 = Some j"
    using started_wait_ends [of "rv_started ev" 0] assms unfolding answers_def by auto
  ultimately show ?thesis by (simp add: start_core_def)
qed

lemma start_cores_ends: "\<forall>i. answers (ev i) \<Longrightarrow> \<exists>la'. start_cores ev base self cores i la = Some la'"
proof (induction cores arbitrary: i la)
  case (Cons core cores)
  obtain la1 where "start_core (ev i) base (ci_lApicID core) la = Some la1" using start_core_ends Cons.prems by blast
  then show ?case using Cons.IH [OF Cons.prems] by auto
qed simp



section \<open>Programs\<close>

text \<open>
  \<open>loadProcess\<close>: \<open>dev\<close> is the content of a node as its \<open>read\<close> gives it, \<open>pid\<close> the counter of process identifiers,
  \<open>pa\<close> and \<open>t\<close> the addresses of the new process and thread.
\<close>

definition loadProcess :: "('n, 's) node_ops \<Rightarrow> ('n \<Rightarrow> device) \<Rightarrow> junk \<Rightarrow> nat \<Rightarrow> nat \<Rightarrow> nat \<Rightarrow> u64 \<Rightarrow> 's \<Rightarrow> 'n mounts \<Rightarrow> u32 \<Rightarrow>
    kmem \<Rightarrow> nat \<Rightarrow> string \<Rightarrow> 'n boot \<Rightarrow> ('s \<times> u32 \<times> kmem \<times> 'n boot) res option" where
  "loadProcess ops dev junk kp pa t epJunk fs mt pid mem c path b =
     bind_opt (resolvePath ops fs mt path) (\<lambda>(r, fs).
     case r of Inl e \<Rightarrow> Some (Inl Panic)
     | Inr file \<Rightarrow>
         bind_opt (Some (no_type ops fs file)) (\<lambda>ty.
         if ty AND FILE_TYPE = 0 then Some (Inl Panic) else
         bind_opt (Some (bind_res (getKernelProcess kp b) (\<lambda>k. case w_procs b k of None \<Rightarrow> Inl BadAccess | Some p \<Rightarrow> Inr (pr_space p)))) (\<lambda>kspace.
         bind_opt (Some (createProcess (w_mem b) kspace pid epJunk path)) (\<lambda>(p, pid, m).
         bind_opt (Some (loadExecutable junk (dev file) m mem p)) (\<lambda>(m, mem, p).
         if vsize (pr_threads p) \<noteq> 0 then Some (Inl Panic) else
         bind_opt (Some (spawn pa t 0 True (b\<lparr>w_mem := m, w_procs := (w_procs b)(pa \<mapsto> p)\<rparr>))) (\<lambda>b.
         bind_opt (Some (addThread (w_sched b) c t)) (\<lambda>s.
         Some (Inr (fs, pid, mem, b\<lparr>w_sched := s\<rparr>)))))))))"

section \<open>Memory\<close>

text \<open>\<open>Memory::init\<close>; the page tables in use, \<open>tab\<close>, are those of the assembly start.\<close>

definition memory_init :: "boot_info \<Rightarrow> (nat \<Rightarrow> nat \<Rightarrow> u64) \<Rightarrow> aspace \<Rightarrow> heap res" where
  "memory_init b tab space = bind_res (ph_init b) (\<lambda>p. heap_init \<lparr>vm_phys = p, vm_tab = tab\<rparr> space)"

text \<open>The heap starts empty, its array of pages in 1024 pages of its own, when the end of the memory is free.\<close>

lemma memory_init_ok:
  assumes p: "ph_init b = Inr p" "tail_free (1024 + k) p" "ph_used p 0"
    and vm: "vm_inv \<lparr>vm_phys = p, vm_tab = tab\<rparr> space" "\<not> as_lock space"
    and heap: "\<forall>i < physicalPagesSize. no_huge \<lparr>vm_phys = p, vm_tab = tab\<rparr> space (heap_page i) \<and>
      mmu \<lparr>vm_phys = p, vm_tab = tab\<rparr> space (heap_page i) = None"
  shows "\<exists>h. memory_init b tab space = Inr h \<and> heap_inv h \<and> (\<forall>i < length (hp_pages h). hp_pages h ! i = 0) \<and>
    tail_free k (vm_phys (hp_vm h))"
proof -
  have lim: "ph_limited (2 ^ 19) p" and t: "tables_ok p tab (pml4 space)" using vm(1) by (simp_all add: vm_inv_def)
  obtain s p' where a: "ph_getFreePages p 1024 4096 = Inr (of_nat (s * 4096), p')" "ph_limited (2 ^ 19) p'" "tail_free k p'"
    "\<forall>i. ph_used p' i \<longleftrightarrow> ph_used p i \<or> s \<le> i \<and> i < s + 1024"
    using tail_alloc [OF lim _ p(2)] by auto
  have "tables_ok p' tab (pml4 space)" using t a(4) by (auto simp: tables_ok_def)
  then have "heap_inv \<lparr>hp_pages = replicate physicalPagesSize 0, hp_vm = \<lparr>vm_phys = p', vm_tab = tab\<rparr>, hp_space = space\<rparr>"
    using a(2,4) p(3) vm(2) heap by (simp add: heap_inv_def vm_inv_def place_ok_def no_huge_def mmu_def)
  then show ?thesis using p(1) a(1,3) by (simp add: memory_init_def heap_init_def physicalPagesSize_def)
qed

section \<open>Test module\<close>

definition testModule_init :: "console \<Rightarrow> (int \<times> console) res" where
  "testModule_init t = bind_res (kprintf t (''Hello from module'' @ [CHR 0x0A]) []) (\<lambda>t. Inr (0, t))"

definition testModule_unload :: "console \<Rightarrow> console res" where
  "testModule_unload t = kprintf t (''unload'' @ [CHR 0x0A]) []"

lemma testModule_ok:
  assumes "con_inv t"
  shows "\<exists>t'. testModule_init t = Inr (0, t') \<and> con_inv t'" "\<exists>t'. testModule_unload t = Inr t' \<and> con_inv t'"
  using printStr_ok [OF assms, of "''Hello from module'' @ [CHR 0x0A]"] printStr_ok [OF assms, of "''unload'' @ [CHR 0x0A]"]
  by (auto simp: testModule_init_def testModule_unload_def kprintf_def sprintf_def)

section \<open>What the start leaves\<close>

lemma spawn_sched:
  assumes "spawn pa t entry u b = Inr b'"
  shows "sc_cpus (w_sched b') = sc_cpus (w_sched b)" "bo_state b' = bo_state b" "bo_idt b' = bo_idt b"
    "\<exists>th. sc_thread (w_sched b') = (sc_thread (w_sched b))(t \<mapsto> th) \<and> th_process th = pa \<and> th_state th = Stopped"
  using assms by (auto simp: spawn_def createThread_def Let_def bind_res_eq_Inr split: option.splits if_splits)

text \<open>
  When \<open>init\<close> returns, the processor's run queue holds the destroyer alone, no thread waits for its destruction, and
  the idle thread is the current one; both belong to the kernel's process and are stopped.
\<close>

lemma sched_init_post:
  assumes "sched_init kp c isBsp yieldHandler idleTask destroyer t1 t2 b = Inr b'" "c < length (sc_cpus (w_sched b))" "t1 \<noteq> t2"
  shows "bo_state b' = Started \<and> (let cpu = sc_cpus (w_sched b') ! c in
      q_view (cpu_threads cpu) = [t2] \<and> q_view (cpu_destroy cpu) = [] \<and> cpu_idle cpu = t1 \<and> cpu_current cpu = t1 \<and>
      \<not> cpu_tlock cpu \<and> \<not> cpu_dlock cpu) \<and>
    (\<forall>t \<in> {t1, t2}. \<exists>th. sc_thread (w_sched b') t = Some th \<and> th_process th = kp \<and> th_state th = Stopped)"
proof -
  define b0 where "b0 = b\<lparr>bo_state := Started, w_sched := on_cpu (w_sched (b\<lparr>bo_state := Started\<rparr>)) c empty_queues\<rparr>"
  let ?i = "\<lambda>b. b\<lparr>w_sched := on_cpu (w_sched b) c (\<lambda>cpu. cpu\<lparr>cpu_idle := t1\<rparr>)\<rparr>"
    and ?c = "\<lambda>b. b\<lparr>w_sched := on_cpu (w_sched b) c (\<lambda>cpu. cpu\<lparr>cpu_current := cpu_idle cpu\<rparr>)\<rparr>"
  obtain b1 b2 b3 q where b1: "(if isBsp then init_bsp kp yieldHandler b0 else Inr b0) = Inr b1"
    and b2: "spawn kp t1 idleTask False b1 = Inr b2" and b3: "spawn kp t2 destroyer False (?c (?i b2)) = Inr b3"
    "q_push (cpu_threads (sc_cpus (w_sched b3) ! c)) t2 = Inr q"
    "b' = b3\<lparr>w_sched := on_cpu (w_sched b3) c (\<lambda>cpu. cpu\<lparr>cpu_threads := q\<rparr>)\<rparr>"
    using assms(1) unfolding sched_init_def Let_def bind_res_eq_Inr assert_res_eq_Inr b0_def sum.inject by blast
  have s1: "w_sched b1 = w_sched b0" "bo_state b1 = Started"
    using b1 by (auto simp: init_bsp_def bind_res_eq_Inr b0_def split: if_splits option.splits)
  note s2 = spawn_sched [OF b2] and s3 = spawn_sched [OF b3(1)]
  have e: "q_inv (q_realloc q_new n :: nat kqueue)" "q_view (q_realloc q_new n :: nat kqueue) = []" if "n \<ge> 10" for n
    using that by (simp_all add: q_realloc_def q_new_def q_new_sized_def q_inv_def q_view_def)
  have cpu: "sc_cpus (w_sched b3) ! c = (empty_queues (sc_cpus (w_sched b) ! c))\<lparr>cpu_idle := t1, cpu_current := t1\<rparr>"
    "c < length (sc_cpus (w_sched b3))" using s3(1) s2(1) s1(1) assms(2) by (simp_all add: b0_def on_cpu_def)
  have th: "cpu_threads (sc_cpus (w_sched b3) ! c) = q_realloc q_new 1024" using cpu(1) by (simp add: empty_queues_def)
  have "q_room (q_realloc q_new 1024 :: nat kqueue)" by (simp add: q_room_def q_realloc_def q_new_def q_new_sized_def)
  then have qv: "q_view q = [t2]" using q_push_ok [OF e(1), of 1024 t2] e(2) [of 1024] b3(2) th by auto
  have "\<forall>t \<in> {t1, t2}. \<exists>th. sc_thread (w_sched b') t = Some th \<and> th_process th = kp \<and> th_state th = Stopped"
    using s2(4) s3(4) assms(3) b3(3) by auto
  moreover have "bo_state b' = Started" using b3(3) s3(2) s2(2) s1(2) by simp
  moreover have "sc_cpus (w_sched b') ! c = (sc_cpus (w_sched b3) ! c)\<lparr>cpu_threads := q\<rparr>" using b3(3) cpu(2) by simp
  ultimately show ?thesis using cpu(1) qv e(2) [of 512] by (simp add: Let_def empty_queues_def)
qed

end
