(* ===== verification/App.thy ===== *)
theory App
  imports Syscalls
begin

text \<open>
  \<open>apps/app2.c\<close>, the program that prints a file, and the dispatch of \<open>kernel/syscalls/syscall.asm\<close>, through which it
  calls the kernel. The addresses of its string literals and of its buffer are arguments. A program ends with the
  status that it gives to \<open>exit\<close>.
\<close>

section \<open>Calls\<close>

datatype outcome = Returned int | Exited int

text \<open>
  The number is compared as a signed value, so a negative one selects a word in front of the table. Arguments are
  the registers \<open>rdi\<close>, \<open>rsi\<close>, \<open>rdx\<close> and \<open>r10\<close>; a 32-bit parameter is the lower half of its register.
\<close>

definition callSelected :: "('n, 's) node_ops \<Rightarrow> ('n, 's) sys \<Rightarrow> u64 \<Rightarrow> u64 \<Rightarrow> u64 \<Rightarrow> u64 \<Rightarrow> u64 \<Rightarrow> (outcome \<times> ('n, 's) sys) res option" where
  "callSelected ops s rax rdi rsi rdx r10 =
     (let ret = \<lambda>r. bind_opt r (\<lambda>(k, s). Some (Inr (Returned k, s))) in
      if sint rax > 3 then Some (Inr (Returned (- 88), s))
      else if rax = 0 then Some (Inr (Exited (sint (ucast rdi :: u32)), s))
      else if rax = 1 then ret (sysOpen ops s rdi (ucast rsi))
      else if rax = 2 then ret (sysWrite ops s (ucast rdi) rsi (ucast rdx) r10)
      else if rax = 3 then ret (sysRead ops s (ucast rdi) rsi (ucast rdx) r10)
      else Some (Inl BadAccess))"

text \<open>What follows a call, in a program that may have ended in it.\<close>

definition after :: "(outcome \<times> 'a) res option \<Rightarrow> (int \<Rightarrow> 'a \<Rightarrow> (outcome \<times> 'a) res option) \<Rightarrow> (outcome \<times> 'a) res option" where
  "after r f = bind_opt r (\<lambda>(x, s). case x of Exited e \<Rightarrow> Some (Inr (Exited e, s)) | Returned k \<Rightarrow> f k s)"

section \<open>The program\<close>

text \<open>The macros that define calls; registers that one leaves alone are not read by the calls it is used for.\<close>

definition syscall1 :: "u64 \<Rightarrow> ('n, 's) node_ops \<Rightarrow> ('n, 's) sys \<Rightarrow> u64 \<Rightarrow> (outcome \<times> ('n, 's) sys) res option" where
  "syscall1 num ops s p1 = callSelected ops s num p1 0 0 0"

definition syscall2 :: "u64 \<Rightarrow> ('n, 's) node_ops \<Rightarrow> ('n, 's) sys \<Rightarrow> u64 \<Rightarrow> u64 \<Rightarrow> (outcome \<times> ('n, 's) sys) res option" where
  "syscall2 num ops s p1 p2 = callSelected ops s num p1 p2 0 0"

definition syscall4 :: "u64 \<Rightarrow> ('n, 's) node_ops \<Rightarrow> ('n, 's) sys \<Rightarrow> u64 \<Rightarrow> u64 \<Rightarrow> u64 \<Rightarrow> u64 \<Rightarrow> (outcome \<times> ('n, 's) sys) res option" where
  "syscall4 num ops s p1 p2 p3 p4 = callSelected ops s num p1 p2 p3 p4"

definition syscall_exit :: "('n, 's) node_ops \<Rightarrow> ('n, 's) sys \<Rightarrow> int \<Rightarrow> (outcome \<times> ('n, 's) sys) res option" where
  "syscall_exit ops s p1 = syscall1 0 ops s (of_int p1)"

definition syscall_open :: "('n, 's) node_ops \<Rightarrow> ('n, 's) sys \<Rightarrow> u64 \<Rightarrow> u32 \<Rightarrow> (outcome \<times> ('n, 's) sys) res option" where
  "syscall_open ops s p1 p2 = syscall2 1 ops s p1 (ucast p2)"

definition syscall_write :: "('n, 's) node_ops \<Rightarrow> ('n, 's) sys \<Rightarrow> u32 \<Rightarrow> u64 \<Rightarrow> u32 \<Rightarrow> u64 \<Rightarrow> (outcome \<times> ('n, 's) sys) res option" where
  "syscall_write ops s p1 p2 p3 p4 = syscall4 2 ops s (ucast p1) p2 (ucast p3) p4"

definition syscall_read :: "('n, 's) node_ops \<Rightarrow> ('n, 's) sys \<Rightarrow> u32 \<Rightarrow> u64 \<Rightarrow> u32 \<Rightarrow> u64 \<Rightarrow> (outcome \<times> ('n, 's) sys) res option" where
  "syscall_read ops s p1 p2 p3 p4 = syscall4 3 ops s (ucast p1) p2 (ucast p3) p4"

lemmas syscall_defs = syscall1_def syscall2_def syscall4_def syscall_exit_def syscall_open_def syscall_write_def syscall_read_def

partial_function (option) app_len :: "kmem \<Rightarrow> u64 \<Rightarrow> u32 \<Rightarrow> u32 option" where
  "app_len mem e len = (if mem (e + ucast len) \<noteq> 0 then app_len mem e (len + 1) else Some (len + 1))"

definition app_error :: "('n, 's) node_ops \<Rightarrow> ('n, 's) sys \<Rightarrow> u64 \<Rightarrow> (outcome \<times> ('n, 's) sys) res option" where
  "app_error ops s e =
     (case app_len (sy_mem s) e 0 of None \<Rightarrow> None
      | Some len \<Rightarrow> after (syscall_write ops s 1 e len 0) (\<lambda>_ s. syscall_exit ops s (- 1)))"

definition app_start :: "('n, 's) node_ops \<Rightarrow> u64 \<Rightarrow> u64 \<Rightarrow> u64 \<Rightarrow> u64 \<Rightarrow> ('n, 's) sys \<Rightarrow> (outcome \<times> ('n, 's) sys) res option" where
  "app_start ops path buffer err1 err2 s =
     after (syscall_open ops s path 1) (\<lambda>fd s.
     after (if fd < 0 then app_error ops s err1 else Some (Inr (Returned 0, s))) (\<lambda>_ s.
     after (syscall_read ops s (of_int fd) buffer 100 0) (\<lambda>e s.
     after (if e < 0 then app_error ops s err2 else Some (Inr (Returned 0, s))) (\<lambda>_ s.
     after (syscall_write ops s 1 buffer 100 0) (\<lambda>_ s.
     after (syscall_exit ops s 0) (\<lambda>_ s. Some (Inr (Returned 0, s))))))))"

section \<open>What it does\<close>

lemma after_simps [simp]:
  "after (Some (Inr (Returned k, s))) f = f k s" "after (Some (Inr (Exited e, s))) f = Some (Inr (Exited e, s))"
  "after (Some (Inl x)) f = Some (Inl x)" "after None f = None"
  by (simp_all add: after_def bind_opt_def)

lemma app_len_ok:
  assumes "has_cstr mem e cs" "i \<le> length cs"
  shows "app_len mem e (of_nat i) = Some (of_nat (length cs) + 1)"
  using assms(2)
proof (induction "length cs - i" arbitrary: i)
  have n: "length cs < 2 ^ 32" using assms(1) by (simp add: has_cstr_def)
  have u: "ucast (of_nat i :: u32) = (of_nat i :: u64)" if "i \<le> length cs" for i
    using that n by (simp add: word_unat_eq_iff unat_of_nat_u64 unat_ucast_u32 unsigned_of_nat take_bit_nat_eq_self)
  { case 0
    then have "i = length cs" by simp
    then show ?case using assms(1) u [of i] by (subst app_len.simps) (simp add: has_cstr_def)
  next
    case (Suc d)
    then have "mem (e + of_nat i) \<noteq> 0" using has_cstr_bytes [OF assms(1)] by simp
    moreover have "app_len mem e (of_nat (Suc i)) = Some (of_nat (length cs) + 1)"
      using Suc.hyps(1) [of "Suc i"] Suc.hyps(2) by simp
    ultimately show ?case using u [of i] Suc by (subst app_len.simps) (simp add: add.commute) }
qed

lemma bytes_at_store_prefix:
  assumes "length bs \<le> n" "n < 2 ^ 64"
  shows "bytes_at (store_bytes m a bs) a n = bs @ bytes_at m (a + of_nat (length bs)) (n - length bs)"
proof (rule nth_equalityI)
  fix i assume "i < length (bytes_at (store_bytes m a bs) a n)"
  then have i: "i < n" by (simp add: bytes_at_def)
  then have u: "unat (of_nat i :: u64) = i" using assms(2) by (simp add: unat_of_nat_u64)
  show "bytes_at (store_bytes m a bs) a n ! i = (bs @ bytes_at m (a + of_nat (length bs)) (n - length bs)) ! i"
    using i u assms(1) by (cases "i < length bs") (simp_all add: bytes_at_def store_bytes_def nth_append add.assoc flip: of_nat_add)
qed (use assms(1) in \<open>simp add: bytes_at_def\<close>)

lemma ucast_u64_u32 [simp]: "ucast (ucast (x :: u32) :: u64) = x"
proof -
  have "unat x < 2 ^ 32" using unsigned_less [of x] by simp
  then show ?thesis by (simp add: word_unat_eq_iff unsigned_ucast_eq [of "ucast x :: u64"] unat_ucast_u32 take_bit_nat_eq_self)
qed

lemma callSelected_numbers:
  "callSelected ops s 0 rdi rsi rdx r10 = Some (Inr (Exited (sint (ucast rdi :: u32)), s))"
  "callSelected ops s 1 rdi rsi rdx r10 = bind_opt (sysOpen ops s rdi (ucast rsi)) (\<lambda>(k, s). Some (Inr (Returned k, s)))"
  "callSelected ops s 2 rdi rsi rdx r10 = bind_opt (sysWrite ops s (ucast rdi) rsi (ucast rdx) r10) (\<lambda>(k, s). Some (Inr (Returned k, s)))"
  "callSelected ops s 3 rdi rsi rdx r10 = bind_opt (sysRead ops s (ucast rdi) rsi (ucast rdx) r10) (\<lambda>(k, s). Some (Inr (Returned k, s)))"
  by (simp_all add: callSelected_def Let_def)

text \<open>An open that finds its node.\<close>

lemma sysOpen_node:
  assumes "checkStrAccess (sy_vm s) (pr_space (sy_proc s)) (sy_mem s) path = Some (Inr True)" "has_cstr (sy_mem s) path p"
    "resolvePath ops (sy_fs s) (sy_mounts s) p = Some (Inr (Inr nd, fs1))" "no_open ops fs1 nd mode = Inr (e, fs2)" "0 \<le> e"
    "vec_inv (pr_fds (sy_proc s))" "vsize (pr_fds (sy_proc s)) < 2 ^ 32 - 1" "mode AND MODE_READ \<noteq> 0"
  shows "\<exists>i fds. sysOpen ops s path mode = Some (Inr (int i, set_fds (s\<lparr>sy_fs := fs2\<rparr>) fds)) \<and>
    fd_lookup fds (of_nat i) MODE_READ = Inr (Inr nd)"
  using allocateFdEntry_stored [OF assms(6-8), of nd] cstr_at_has_cstr(2) [OF assms(2)] assms(1,3-5)
  by (auto simp: sysOpen_def)

lemma sysWrite_console:
  assumes "vm_inv (sy_vm s) (pr_space (sy_proc s))" "\<not> as_lock (pr_space (sy_proc s))" "b \<noteq> 0" "unat b + n < 2 ^ 32" "0 < n"
    "\<forall>i < n. accessible (sy_vm s) (pr_space (sy_proc s)) False (b + of_nat i)" "con_inv (sy_term s)"
    "CHR 0x08 \<notin> set (map byte_char (bytes_at (sy_mem s) b n))"
  shows "\<exists>t. sysWrite ops s 1 b (of_nat n) offset = Some (Inr (int n, s\<lparr>sy_term := t\<rparr>)) \<and>
    printStr (sy_term s) (map byte_char (bytes_at (sy_mem s) b n)) = Inr t"
proof -
  have n: "unat (of_nat n :: u32) = n" using assms(4) by (simp add: unsigned_of_nat take_bit_nat_eq_self)
  then have "ucast (of_nat n :: u32) = (of_nat n :: u64)"
    using assms(4) by (simp add: word_unat_eq_iff unat_ucast_u32 unat_of_nat_u64)
  moreover obtain t where "printStr (sy_term s) (map byte_char (bytes_at (sy_mem s) b n)) = Inr t"
    using printStr_ok [OF assms(7,8)] by blast
  ultimately show ?thesis using checkAccess_bytes [OF assms(1-5), of False] assms(6) n by (simp add: sysWrite_def)
qed

section \<open>The file is printed\<close>

text \<open>
  \<open>C25\<close> When the file can be opened and read, the program ends with status 0 after printing its whole buffer of 100 bytes:
  the bytes that were read, then what lay on the stack behind them.
\<close>

theorem app_prints_file:
  assumes fs: "resolvePath ops (sy_fs s) (sy_mounts s) ''/file'' = Some (Inr (Inr nd, fs1))" "no_open ops fs1 nd 1 = Inr (e, fs2)"
      "0 \<le> e" "no_read ops fs2 nd 0 100 = Some (Inr (k, bs))" "0 \<le> k" "length bs \<le> 100"
    and vm: "vm_inv (sy_vm s) (pr_space (sy_proc s))" "\<not> as_lock (pr_space (sy_proc s))"
    and path: "path \<noteq> 0" "has_cstr (sy_mem s) path ''/file''" "unat path + 25 < 2 ^ 32"
      "\<forall>i \<le> 5. accessible (sy_vm s) (pr_space (sy_proc s)) False (path + of_nat i)"
    and buf: "buffer \<noteq> 0" "unat buffer + 100 < 2 ^ 32"
      "\<forall>i < 100. accessible (sy_vm s) (pr_space (sy_proc s)) False (buffer + of_nat i)"
    and fds: "vec_inv (pr_fds (sy_proc s))" "vsize (pr_fds (sy_proc s)) < 2 ^ 32 - 1"
    and con: "con_inv (sy_term s)" "CHR 0x08 \<notin> set (map byte_char out)"
    and out: "out = bs @ bytes_at (sy_mem s) (buffer + of_nat (length bs)) (100 - length bs)"
  shows "\<exists>s'. app_start ops path buffer err1 err2 s = Some (Inr (Exited 0, s')) \<and>
    printStr (sy_term s) (map byte_char out) = Inr (sy_term s')"
proof -
  have chk: "checkStrAccess (sy_vm s) (pr_space (sy_proc s)) (sy_mem s) path = Some (Inr True)"
    using checkStrAccess_cstr [OF vm path(1) _ path(2)] path(3,4) by simp
  obtain i fds' where op: "sysOpen ops s path 1 = Some (Inr (int i, set_fds (s\<lparr>sy_fs := fs2\<rparr>) fds'))"
    "fd_lookup fds' (of_nat i) MODE_READ = Inr (Inr nd)"
    using sysOpen_node [OF chk path(2) fs(1-3) fds] by (auto simp: mode_defs)
  let ?s1 = "set_fds (s\<lparr>sy_fs := fs2\<rparr>) fds'"
  let ?s2 = "?s1\<lparr>sy_mem := store_bytes (sy_mem s) buffer bs\<rparr>"
  have acc: "checkAccess (sy_vm s) (pr_space (sy_proc s)) buffer 100 False = Some (Inr True)"
    using checkAccess_bytes [OF vm buf(1), of 100 False] buf(2,3) by simp
  have rd: "sysRead ops ?s1 (of_nat i) buffer 100 0 = Some (Inr (k, ?s2))"
    using op(2) fs(4) acc by (simp add: sysRead_def set_fds_def)
  have o: "bytes_at (sy_mem ?s2) buffer 100 = out" using bytes_at_store_prefix [OF fs(6)] by (simp add: out)
  obtain t where w: "sysWrite ops ?s2 1 buffer 100 0 = Some (Inr (100, ?s2\<lparr>sy_term := t\<rparr>))"
    "printStr (sy_term s) (map byte_char out) = Inr t"
    using sysWrite_console [of ?s2 buffer 100 ops 0] vm buf con o by (auto simp: set_fds_def)
  show ?thesis using op(1) rd fs(5) w by (simp add: app_start_def syscall_defs callSelected_numbers)
qed

text \<open>When it cannot be opened, it prints the message with its terminator and ends with status -1.\<close>

lemma app_open_fails:
  assumes "sysOpen ops s path 1 = Some (Inr (k, s1))" "k < 0" "sy_vm s1 = sy_vm s" "sy_proc s1 = sy_proc s" "sy_mem s1 = sy_mem s"
    "sy_term s1 = sy_term s" "has_cstr (sy_mem s) err1 msg" "CHR 0x08 \<notin> set msg" "con_inv (sy_term s)"
    "vm_inv (sy_vm s) (pr_space (sy_proc s))" "\<not> as_lock (pr_space (sy_proc s))" "err1 \<noteq> 0" "unat err1 + length msg + 1 < 2 ^ 32"
    "\<forall>i \<le> length msg. accessible (sy_vm s) (pr_space (sy_proc s)) False (err1 + of_nat i)"
  shows "\<exists>s'. app_start ops path buffer err1 err2 s = Some (Inr (Exited (- 1), s')) \<and>
    printStr (sy_term s) (msg @ [CHR 0x00]) = Inr (sy_term s')"
proof -
  have b: "bytes_at (sy_mem s) err1 (length msg) = map of_char msg" "sy_mem s (err1 + of_nat (length msg)) = 0"
    using assms(7) by (simp_all add: has_cstr_def)
  have o: "map byte_char (bytes_at (sy_mem s) err1 (length msg + 1)) = msg @ [CHR 0x00]"
  proof -
    have "bytes_at (sy_mem s) err1 (length msg + 1) = map of_char msg @ [0]" using b by (simp add: bytes_at_def)
    moreover have "byte_char 0 = CHR 0x00" by (simp add: byte_char_def char_of_def)
    ultimately show ?thesis by (simp add: comp_def)
  qed
  have len: "app_len (sy_mem s) err1 0 = Some (of_nat (length msg + 1))"
    using app_len_ok [OF assms(7), of 0] by (simp add: add.commute)
  obtain t where "sysWrite ops s1 1 err1 (of_nat (length msg + 1)) 0 = Some (Inr (int (length msg + 1), s1\<lparr>sy_term := t\<rparr>))"
    "printStr (sy_term s) (msg @ [CHR 0x00]) = Inr t"
    using sysWrite_console [of s1 err1 "length msg + 1" ops 0, unfolded assms(3-6) o] assms(8-14) by auto
  moreover have "sint (ucast (- 1 :: u64) :: u32) = - 1" by code_simp
  ultimately show ?thesis using len assms(1,2,5) by (simp add: app_start_def app_error_def syscall_defs callSelected_numbers)
qed

text \<open>A file of two bytes, and a buffer of zeros behind the path.\<close>

definition file_ops :: "(nat, unit) node_ops" where
  "file_ops = example_ops\<lparr>no_findEntry := (\<lambda>s n name. Some (Inr (if name = ''file'' then Inr 8 else Inl (- ENOENT), s))),
     no_read := (\<lambda>s n offset size. Some (Inr (2, [104, 105])))\<rparr>"

definition sample_app :: "vmem \<Rightarrow> (nat, unit) sys" where
  "sample_app m = \<lparr>sy_vm = m,
     sy_proc = \<lparr>pr_name = ''app'', pr_id = 1, pr_threadIdCounter = 0, pr_entryPoint = 0, pr_space = sample_space,
       pr_threads = vec_null, pr_fds = vec_null\<rparr>,
     sy_mem = store_bytes (\<lambda>_. 0) 0x400000 (map of_char ''/file''), sy_fs = (),
     sy_mounts = mountNode (fs_init 0) ''/'' 1, sy_term = sample_console\<rparr>"

theorem app_prints_file_witness:
  "\<exists>m s'. app_start file_ops 0x400000 0x400100 0 0 (sample_app m) = Some (Inr (Exited 0, s')) \<and>
    printStr sample_console (''hi'' @ replicate 98 (CHR 0x00)) = Inr (sy_term s')"
proof -
  obtain m where m: "vm_inv m sample_space" "\<forall>w k. k < 4096 \<longrightarrow> accessible m sample_space w (0x400000 + of_nat k)"
    using sample_user_page by blast
  let ?s = "sample_app m"
  let ?out = "[104, 105] @ bytes_at (sy_mem ?s) (0x400100 + of_nat (length [104, 105 :: u8])) (100 - length [104, 105 :: u8])"
  have fs: "resolvePath file_ops (sy_fs ?s) (sy_mounts ?s) ''/file'' = Some (Inr (Inr 8, ()))" "no_open file_ops () 8 1 = Inr (0, ())"
    "no_read file_ops () 8 0 100 = Some (Inr (2, [104, 105]))"
    by (simp_all add: sample_app_def file_ops_def example_ops_def resolvePath_def findMountPoint_def isPathSubset_prefix path_eval
        slice_def assert_res_def mode_defs)
  have vm: "vm_inv (sy_vm ?s) (pr_space (sy_proc ?s))" "\<not> as_lock (pr_space (sy_proc ?s))"
    using m(1) sample_vm_facts(3) by (simp_all add: sample_app_def)
  have str: "has_cstr (sy_mem ?s) 0x400000 ''/file''"
    unfolding sample_app_def sys.simps by (rule has_cstr_store_bytes) simp_all
  have acc: "\<forall>i \<le> 5. accessible (sy_vm ?s) (pr_space (sy_proc ?s)) False (0x400000 + of_nat i)"
    "\<forall>i < 100. accessible (sy_vm ?s) (pr_space (sy_proc ?s)) False (0x400100 + of_nat i)"
    using m(2) m(2) [rule_format, of "256 + _" False] by (simp_all add: sample_app_def)
  have fds: "vec_inv (pr_fds (sy_proc ?s))" "vsize (pr_fds (sy_proc ?s)) < 2 ^ 32 - 1"
    by (simp_all add: sample_app_def vec_null_inv) (simp add: vec_null_def)
  have z: "bytes_at (sy_mem ?s) 0x400102 98 = replicate 98 0"
  proof (rule nth_equalityI)
    fix i assume i: "i < length (bytes_at (sy_mem ?s) 0x400102 98)"
    have "unat (0x102 + of_nat i :: u64) = 0x102 + i" using i by (simp add: bytes_at_def unat_word_ariths(1) unat_of_nat_u64)
    then show "bytes_at (sy_mem ?s) 0x400102 98 ! i = replicate 98 0 ! i"
      using i by (simp add: bytes_at_def sample_app_def store_bytes_def)
  qed (simp add: bytes_at_def)
  have o: "map byte_char ?out = ''hi'' @ replicate 98 (CHR 0x00)" using z by (simp add: byte_char_def char_of_def bit_0)
  have con: "con_inv (sy_term ?s)" "CHR 0x08 \<notin> set (map byte_char ?out)"
    unfolding o by (simp_all add: sample_app_def con_inv_def sample_console_def)
  show ?thesis
    using app_prints_file [OF fs(1,2) _ fs(3) _ _ vm _ str _ acc(1) _ _ acc(2) fds con refl, of 0 0] o
    by (auto simp: sample_app_def)
qed

end
