(* ===== verification/Exclusive.thy ===== *)
theory Exclusive
  imports Reaper
begin

text \<open>
  Who runs what: the handlers of \<open>kernel/scheduler/scheduler.cpp\<close> on all processors as steps of one transition
  system. The first part takes each handler as one step and shows that the running threads are then exactly the
  current threads of the processors, a different one on each. The second part splits the tick where it releases
  the run queue: there another processor can take the thread that is still current, and both run on one stack.
\<close>

section \<open>Steps\<close>

inductive kernel_step :: "nat \<Rightarrow> nat \<Rightarrow> 'n world \<Rightarrow> 'n world \<Rightarrow> bool" for kp mark where
  tick: "c < length (sc_cpus (w_sched w)) \<Longrightarrow> tickHandler (w_sched w) c rsp = Some (Inr (s, rsp', cr3)) \<Longrightarrow>
    kernel_step kp mark w (w\<lparr>w_sched := s\<rparr>)"
| exit: "c < length (sc_cpus (w_sched w)) \<Longrightarrow> sched_exit (w_sched w) c = Some (Inr (s, rsp', cr3)) \<Longrightarrow>
    kernel_step kp mark w (w\<lparr>w_sched := s\<rparr>)"
| create: "sc_thread (w_sched w) t = None \<Longrightarrow> w_procs w pa = Some p \<Longrightarrow>
    createThread (w_mem w) pa p t entry u = Inr (th, st, p', m) \<Longrightarrow>
    kernel_step kp mark w (w\<lparr>w_sched := (w_sched w)\<lparr>sc_thread := (sc_thread (w_sched w))(t \<mapsto> th)\<rparr>, w_mem := m,
      w_procs := (w_procs w)(pa \<mapsto> p')\<rparr>)"
| add: "addThread (w_sched w) c t = Inr s \<Longrightarrow> kernel_step kp mark w (w\<lparr>w_sched := s\<rparr>)"
| reap: "reap_all kp mark c w = Some (Inr w') \<Longrightarrow> kernel_step kp mark w w'"

inductive_cases kernel_stepE: "kernel_step kp mark w w'"

section \<open>The invariant\<close>

text \<open>A thread runs exactly when it is the current one of a processor, and of one only.\<close>

definition current :: "sched \<Rightarrow> nat \<Rightarrow> nat" where
  "current s c = cpu_current (sc_cpus s ! c)"

definition running :: "sched \<Rightarrow> nat set" where
  "running s = {t. \<exists>th. sc_thread s t = Some th \<and> th_state th = Running}"

definition exclusive :: "sched \<Rightarrow> bool" where
  "exclusive s \<longleftrightarrow> running s = current s ` {..<length (sc_cpus s)} \<and> inj_on (current s) {..<length (sc_cpus s)}"

text \<open>What the operations on queues leave alone.\<close>

definition queues_moved :: "sched \<Rightarrow> sched \<Rightarrow> bool" where
  "queues_moved s s' \<longleftrightarrow> sc_thread s' = sc_thread s \<and> length (sc_cpus s') = length (sc_cpus s) \<and> current s' = current s"

lemma queues_moved_refl [simp, intro]: "queues_moved s s"
  by (simp add: queues_moved_def)

lemma queues_moved_trans: "queues_moved s s1 \<Longrightarrow> queues_moved s1 s2 \<Longrightarrow> queues_moved s s2"
  by (simp add: queues_moved_def)

lemma current_on_cpu: "(\<And>cpu. cpu_current (f cpu) = cpu_current cpu) \<Longrightarrow> current (on_cpu s c f) = current s"
  by (rule ext, cases "c < length (sc_cpus s)") (simp_all add: current_def on_cpu_def nth_list_update list_update_beyond not_less)

lemma current_threads: "current (s\<lparr>sc_thread := T\<rparr>) = current s"
  by (simp add: current_def fun_eq_iff)

lemma queues_moved_on_cpu:
  assumes "\<And>cpu. cpu_current (f cpu) = cpu_current cpu"
  shows "queues_moved s s1 \<Longrightarrow> queues_moved s (on_cpu s1 c f)"
  using assms by (simp add: queues_moved_def current_on_cpu)

lemma queues_moved_from_cpu:
  assumes "queues_moved (on_cpu s c f) s'" "\<And>cpu. cpu_current (f cpu) = cpu_current cpu"
  shows "queues_moved s s'"
  using assms by (simp add: queues_moved_def current_on_cpu)

lemma queues_moved_tick [simp]:
  "queues_moved s (s1\<lparr>sc_tick := i\<rparr>) = queues_moved s s1" "queues_moved s (s1\<lparr>sc_balancing := b\<rparr>) = queues_moved s s1"
  "queues_moved (s\<lparr>sc_tick := i\<rparr>) s1 = queues_moved s s1" "queues_moved (s\<lparr>sc_balancing := b\<rparr>) s1 = queues_moved s s1"
  by (simp_all add: queues_moved_def current_def fun_eq_iff)

lemma bind_opt_eq_Some: "bind_opt r f = Some (Inr y) \<longleftrightarrow> (\<exists>x. r = Some (Inr x) \<and> f x = Some (Inr y))"
  by (auto simp: bind_opt_def split: option.splits sum.splits)

lemma steal_moves: "steal s c ds = Some (Inr (t, s')) \<Longrightarrow> queues_moved s s'"
proof (induction ds arbitrary: s)
  case (Cons d ds)
  then show ?case
    by (auto simp: bind_opt_eq_Some Let_def split: if_splits prod.splits intro!: queues_moved_on_cpu
        dest!: Cons.IH intro: queues_moved_from_cpu)
qed simp

lemma bal_pair_moves: "bal_pair s c1 c2 = Some (Inr s') \<Longrightarrow> queues_moved s s'"
  by (auto simp: bal_pair_def bind_opt_eq_Some Let_def split: sum.splits intro!: queues_moved_on_cpu)

lemma bal_pairs_moves: "bal_pairs s arr is = Some (Inr s') \<Longrightarrow> queues_moved s s'"
proof (induction s arr "is" rule: bal_pairs.induct)
  case (2 s arr i "is")
  then show ?case by (auto simp: bind_opt_eq_Some split: option.splits dest!: bal_pair_moves intro: queues_moved_trans)
qed simp

lemma balance_moves: "balance s = Some (Inr s') \<Longrightarrow> queues_moved s s'"
  by (simp add: balance_def Let_def bal_pairs_moves)

section \<open>Switching\<close>

text \<open>A switch away from a thread that no longer runs.\<close>

definition switched :: "nat \<Rightarrow> sched \<Rightarrow> sched \<Rightarrow> bool" where
  "switched c s s' \<longleftrightarrow> (\<exists>t th. sc_thread s t = Some th \<and> th_state th = Stopped \<and>
     sc_thread s' = (sc_thread s)(t \<mapsto> th\<lparr>th_state := Running\<rparr>) \<and>
     length (sc_cpus s') = length (sc_cpus s) \<and> current s' = (current s)(c := t))"

lemma switchTo_switched:
  assumes "switchTo s c t = Inr (s', r, p)" "c < length (sc_cpus s)"
  shows "switched c s s'"
  using assms by (auto simp: switchTo_def set_state_def thread_at_def bind_res_eq_Inr assert_res_eq_Inr Let_def switched_def
      current_def on_cpu_def fun_eq_iff nth_list_update split: option.splits)

lemma switched_after_moves: "queues_moved s s1 \<Longrightarrow> switched c s1 s2 \<Longrightarrow> switched c s s2"
  by (simp add: queues_moved_def switched_def)

text \<open>The choice of the next thread and the balancing move threads between queues only.\<close>

lemma choice_moves:
  assumes "(if q_empty (cpu_threads (sc_cpus s ! c)) then steal s c ds
      else bind_opt (pick (sc_thread s) (cpu_threads (sc_cpus s ! c))) (\<lambda>(t, q).
             Some (Inr (t, on_cpu s c (\<lambda>cpu. cpu\<lparr>cpu_threads := q\<rparr>))))) = Some (Inr (t, s'))"
  shows "queues_moved s s'"
  using assms by (auto simp: bind_opt_eq_Some split: if_splits dest: steal_moves intro!: queues_moved_on_cpu)

lemma balancing_moves:
  assumes "(if b then case spin_tryLock (sc_balancing s) of (ok, l) \<Rightarrow>
        if ok then bind_opt (balance (s\<lparr>sc_tick := 0, sc_balancing := l\<rparr>)) (\<lambda>s.
                   Some (Inr (s\<lparr>sc_balancing := spin_unlock (sc_balancing s)\<rparr>)))
        else Some (Inr s)
      else Some (Inr s)) = Some (Inr s')"
  shows "queues_moved s s'"
  using assms by (auto simp: bind_opt_eq_Some split: if_splits prod.splits dest!: balance_moves)

lemma switchNext_switched:
  assumes "switchNext s c = Some (Inr (s', r, p))" "c < length (sc_cpus s)"
    "sc_thread s (current s c) = Some th" "th_state th \<noteq> Running"
  shows "switched c s s'"
proof -
  let ?s0 = "on_cpu s c (\<lambda>cpu. cpu\<lparr>cpu_lockLevel := 1\<rparr>)"
  let ?lock = "\<lambda>l s. on_cpu s c (\<lambda>cpu. cpu\<lparr>cpu_tlock := l\<rparr>)"
  let ?free = "\<lambda>s. on_cpu s c (\<lambda>cpu. cpu\<lparr>cpu_tlock := spin_unlock (cpu_tlock cpu)\<rparr>)"
  have cur: "cpu_current (sc_cpus ?s0 ! c) = current s c" using assms(2) by (simp add: current_def)
  have stop: "assert_res (current s c \<noteq> 0) (bind_res (thread_at ?s0 (current s c)) (\<lambda>th.
      if th_state th = Running then set_state ?s0 (current s c) Stopped else Inr ?s0)) =
      (if current s c \<noteq> 0 then Inr ?s0 else Inl Panic)"
    using assms(3,4) by (simp add: thread_at_def assert_res_def)
  have c0: "current s c \<noteq> 0"
  proof
    assume "current s c = 0"
    then show False
      using assms(1) unfolding switchNext_def Let_def cur stop by (simp only: if_False if_True simp_thms bind_opt_simps) simp
  qed
  note run = assms(1) [unfolded switchNext_def Let_def cur stop if_P [OF c0] bind_opt_simps(3) bind_opt_eq_Some option.inject]
  obtain l y where t: "(if q_empty (cpu_threads (sc_cpus (?lock l ?s0) ! c)) then steal (?lock l ?s0) c [0..<length (sc_cpus (?lock l ?s0))]
      else bind_opt (pick (sc_thread (?lock l ?s0)) (cpu_threads (sc_cpus (?lock l ?s0) ! c))) (\<lambda>(t, q).
             Some (Inr (t, on_cpu (?lock l ?s0) c (\<lambda>cpu. cpu\<lparr>cpu_threads := q\<rparr>))))) = Some (Inr y)"
    and go: "(case y of (t, s) \<Rightarrow>
        if t = 0 then Some (assert_res (cpu_idle (sc_cpus (?free s) ! c) \<noteq> 0) (switchTo (?free s) c (cpu_idle (sc_cpus (?free s) ! c))))
        else bind_opt (if sc_tick ((?free s)\<lparr>sc_tick := sc_tick (?free s) + 1\<rparr>) \<ge> 100
            then case spin_tryLock (sc_balancing ((?free s)\<lparr>sc_tick := sc_tick (?free s) + 1\<rparr>)) of (ok, l) \<Rightarrow>
                   if ok then bind_opt (balance ((?free s)\<lparr>sc_tick := sc_tick (?free s) + 1, sc_tick := 0, sc_balancing := l\<rparr>)) (\<lambda>s.
                              Some (Inr (s\<lparr>sc_balancing := spin_unlock (sc_balancing s)\<rparr>)))
                   else Some (Inr ((?free s)\<lparr>sc_tick := sc_tick (?free s) + 1\<rparr>))
            else Some (Inr ((?free s)\<lparr>sc_tick := sc_tick (?free s) + 1\<rparr>)))
          (\<lambda>s. Some (switchTo s c t))) = Some (Inr (s', r, p))"
    using run by blast
  obtain t s2 where y: "y = (t, s2)" by (cases y)
  have q: "queues_moved s (?free s2)"
    using choice_moves [OF t [unfolded y]] by (intro queues_moved_on_cpu queues_moved_trans [of s "?lock l ?s0" s2] queues_moved_refl) simp_all
  obtain s3 i where s3: "queues_moved (?free s2) s3" "switchTo s3 c i = Inr (s', r, p)"
  proof (cases "t = 0")
    case True
    then show ?thesis using go that unfolding y by (auto simp: assert_res_eq_Inr)
  next
    case False
    then show ?thesis using go that unfolding y prod.case if_not_P [OF False] bind_opt_eq_Some by (auto dest!: balancing_moves)
  qed
  have m: "queues_moved s s3" using queues_moved_trans [OF q s3(1)] .
  then have "c < length (sc_cpus s3)" using assms(2) by (simp add: queues_moved_def)
  from switched_after_moves [OF m switchTo_switched [OF s3(2) this]] show ?thesis .
qed

section \<open>Every step keeps the invariant\<close>

text \<open>A processor leaves its thread, stopped or killed, and takes a stopped one.\<close>

lemma exclusive_switch:
  assumes "exclusive s" "c < length (sc_cpus s)" "sc_thread s (current s c) = Some th"
    and s1: "sc_thread s1 = (sc_thread s)(current s c \<mapsto> th1)" "th_state th1 \<noteq> Running" "current s1 = current s"
      "length (sc_cpus s1) = length (sc_cpus s)"
    and "switched c s1 s2"
  shows "exclusive s2"
proof -
  let ?n = "length (sc_cpus s)" and ?old = "current s c"
  have run: "running s = current s ` {..<?n}" and inj: "inj_on (current s) {..<?n}" using assms(1) by (simp_all add: exclusive_def)
  obtain t th2 where t: "sc_thread s1 t = Some th2" "th_state th2 = Stopped" "sc_thread s2 = (sc_thread s1)(t \<mapsto> th2\<lparr>th_state := Running\<rparr>)"
    "length (sc_cpus s2) = ?n" "current s2 = (current s)(c := t)" using assms(8) s1(3,4) by (auto simp: switched_def)
  have r1: "running s1 = running s - {?old}" using s1(1,2) by (auto simp: running_def)
  have r2: "running s2 = insert t (running s - {?old})" using t(3) unfolding r1 [symmetric] by (auto simp: running_def)
  have "t \<notin> running s1" using t(1,2) by (simp add: running_def)
  then have nt: "t \<notin> current s ` ({..<?n} - {c})" using r1 run inj assms(2) by (auto simp: inj_on_def)
  have "running s - {?old} = current s ` ({..<?n} - {c})" unfolding run using inj assms(2) by (auto simp: inj_on_def)
  then have "running s2 = current s2 ` {..<length (sc_cpus s2)}" using r2 t(4,5) assms(2) by auto
  moreover have "inj_on (current s2) {..<length (sc_cpus s2)}" using inj nt t(4,5) by (auto simp: inj_on_def)
  ultimately show ?thesis by (simp add: exclusive_def)
qed

lemma current_thread: "exclusive s \<Longrightarrow> c < length (sc_cpus s) \<Longrightarrow> \<exists>th. sc_thread s (current s c) = Some th \<and> th_state th = Running"
  by (auto simp: exclusive_def running_def set_eq_iff)

lemma tick_exclusive:
  assumes "tickHandler s c rsp = Some (Inr (s', r, p))" "c < length (sc_cpus s)" "exclusive s"
  shows "exclusive s'"
proof -
  let ?lvl = "on_cpu s c (\<lambda>cpu. cpu\<lparr>cpu_lockLevel := 1\<rparr>)"
  obtain th where th: "sc_thread s (current s c) = Some th" "th_state th = Running" using current_thread [OF assms(3,2)] by blast
  have cur: "cpu_current (sc_cpus ?lvl ! c) = current s c" using assms(2) by (simp add: current_def)
  let ?th = "th\<lparr>th_state := Stopped, th_kernelStack := rsp\<rparr>"
  let ?s0 = "?lvl\<lparr>sc_thread := (sc_thread ?lvl)(current s c \<mapsto> ?th)\<rparr>"
  obtain q l where run: "switchNext (on_cpu ?s0 c (\<lambda>cpu. cpu\<lparr>cpu_threads := q, cpu_tlock := spin_unlock l\<rparr>)) c = Some (Inr (s', r, p))"
    using assms(1) th unfolding tickHandler_def Let_def cur
    by (auto simp: bind_opt_eq_Some assert_res_eq_Inr bind_res_eq_Inr thread_at_def)
  let ?s1 = "on_cpu ?s0 c (\<lambda>cpu. cpu\<lparr>cpu_threads := q, cpu_tlock := spin_unlock l\<rparr>)"
  have s1: "sc_thread ?s1 = (sc_thread s)(current s c \<mapsto> ?th)" "length (sc_cpus ?s1) = length (sc_cpus s)" "current ?s1 = current s"
    by (simp_all add: current_on_cpu current_threads)
  have "switched c ?s1 s'" by (rule switchNext_switched [OF run, of ?th]) (use assms(2) s1 in simp_all)
  then show ?thesis using exclusive_switch [OF assms(3,2) th(1) s1(1) _ s1(3,2)] by simp
qed

lemma exit_exclusive:
  assumes "sched_exit s c = Some (Inr (s', r, p))" "c < length (sc_cpus s)" "exclusive s"
  shows "exclusive s'"
proof -
  let ?lvl = "on_cpu s c (\<lambda>cpu. cpu\<lparr>cpu_lockLevel := cpu_lockLevel cpu + 1\<rparr>)"
  obtain th where th: "sc_thread s (current s c) = Some th" using current_thread [OF assms(3,2)] by blast
  have cur: "cpu_current (sc_cpus ?lvl ! c) = current s c" using assms(2) by (simp add: current_def)
  let ?th = "th\<lparr>th_state := Killed\<rparr>"
  let ?s0 = "?lvl\<lparr>sc_thread := (sc_thread ?lvl)(current s c \<mapsto> ?th)\<rparr>"
  obtain q l where run: "switchNext (on_cpu ?s0 c (\<lambda>cpu. cpu\<lparr>cpu_destroy := q, cpu_dlock := spin_unlock l\<rparr>)) c = Some (Inr (s', r, p))"
    using assms(1) th unfolding sched_exit_def Let_def cur
    by (auto simp: bind_opt_eq_Some set_state_def bind_res_eq_Inr thread_at_def)
  let ?s1 = "on_cpu ?s0 c (\<lambda>cpu. cpu\<lparr>cpu_destroy := q, cpu_dlock := spin_unlock l\<rparr>)"
  have s1: "sc_thread ?s1 = (sc_thread s)(current s c \<mapsto> ?th)" "length (sc_cpus ?s1) = length (sc_cpus s)" "current ?s1 = current s"
    by (simp_all add: current_on_cpu current_threads)
  have "switched c ?s1 s'" by (rule switchNext_switched [OF run, of ?th]) (use assms(2) s1 in simp_all)
  then show ?thesis using exclusive_switch [OF assms(3,2) th s1(1) _ s1(3,2)] by simp
qed

text \<open>Threads that do not run may come and go.\<close>

lemma exclusive_others:
  assumes "exclusive s" "running s' = running s" "length (sc_cpus s') = length (sc_cpus s)" "current s' = current s"
  shows "exclusive s'"
  using assms by (simp add: exclusive_def)

lemma create_stopped: "createThread m pa p t entry u = Inr (th, st, p', m') \<Longrightarrow> th_state th = Stopped"
  by (auto simp: createThread_def Let_def bind_res_eq_Inr split: if_splits)

lemma reap_thread_running:
  assumes "reap_thread kp c w t = Inr w'" "sc_thread (w_sched w) t = Some th" "th_state th = Killed"
  shows "running (w_sched w') = running (w_sched w)" "sc_cpus (w_sched w') = sc_cpus (w_sched w)"
  using assms(2,3) by (auto simp: running_def reap_thread_store [OF assms(1)] reap_thread_cpus [OF assms(1)])

lemma reap_all_removes:
  "reap_all kp mark c w = Some (Inr w') \<Longrightarrow> length (sc_cpus (w_sched w')) = length (sc_cpus (w_sched w)) \<and>
    current (w_sched w') = current (w_sched w) \<and> running (w_sched w') = running (w_sched w)"
proof (induction kp mark c w rule: reap_all.induct)
  case (1 kp mark c w)
  let ?cpu = "sc_cpus (w_sched w) ! c"
  show ?case
  proof (cases "length (sc_cpus (w_sched w)) \<le> c \<or> q_empty (cpu_destroy ?cpu)")
    case True
    then show ?thesis using 1(2) by (subst (asm) reap_all.simps) (auto split: if_splits)
  next
    case False
    let ?s = "\<lambda>q. on_cpu (w_sched w) c (\<lambda>cpu. cpu\<lparr>cpu_destroy := q\<rparr>)"
    let ?r = "\<lambda>q r l. on_cpu (?s q) c (\<lambda>cpu. cpu\<lparr>cpu_threads := r, cpu_tlock := spin_unlock l\<rparr>)"
    obtain t q l r w1 where q: "q_pop (cpu_destroy ?cpu) = Inr (t, q)"
      and l: "bind_res (thread_at (?s q) t) (\<lambda>th. assert_res (th_state th = Killed) (spin_lock (cpu_tlock (sc_cpus (?s q) ! c)))) = Inr l"
      and r: "q_replaceAll (cpu_threads (sc_cpus (?s q) ! c)) t mark = Some (Inr r)"
      and w1: "reap_thread kp c (w\<lparr>w_sched := ?r q r l\<rparr>) t = Inr w1" and rest: "reap_all kp mark c w1 = Some (Inr w')"
      using 1(2) False by (subst (asm) reap_all.simps) (auto simp: bind_opt_eq_Some Let_def)
    obtain th where th: "sc_thread (w_sched w) t = Some th" "th_state th = Killed"
      using l by (auto simp: thread_at_def bind_res_eq_Inr assert_res_eq_Inr split: option.splits)
    have w: "running (w_sched w1) = running (w_sched w)" "sc_cpus (w_sched w1) = sc_cpus (?r q r l)"
      using reap_thread_running [OF w1] th by (simp_all add: running_def)
    have cur: "current (w_sched w1) = current (w_sched w)"
    proof -
      have "current (w_sched w1) = current (?r q r l)" using w(2) by (simp add: current_def fun_eq_iff)
      then show ?thesis by (simp add: current_on_cpu)
    qed
    show ?thesis using 1(1) [OF _ _ arg_cong [OF q, of Some] refl refl arg_cong [OF l, of Some] r refl arg_cong [OF w1, of Some] rest]
        False w cur by simp
  qed
qed

lemma kernel_step_exclusive:
  assumes "kernel_step kp mark w w'" "exclusive (w_sched w)"
  shows "exclusive (w_sched w')"
  using assms(1)
proof cases
  case (tick c rsp s rsp' cr3)
  then show ?thesis using tick_exclusive assms(2) by fastforce
next
  case (exit c s rsp' cr3)
  then show ?thesis using exit_exclusive assms(2) by fastforce
next
  case (create t pa p entry u th st p' m)
  have "th_state th = Stopped" by (rule create_stopped [OF create(4)])
  then have "running (w_sched w') = running (w_sched w)" using create(1,2) by (auto simp: running_def)
  then show ?thesis using exclusive_others [OF assms(2)] create(1) by (simp add: current_threads)
next
  case (add c t s)
  then have "queues_moved (w_sched w) s" by (auto simp: addThread_def bind_res_eq_Inr intro!: queues_moved_on_cpu)
  then show ?thesis using exclusive_others [OF assms(2)] add(1) by (simp add: queues_moved_def running_def)
next
  case (reap c)
  then show ?thesis using exclusive_others [OF assms(2)] reap_all_removes by fastforce
qed

text \<open>
  \<open>C7\<close> Started with a thread of its own running on every processor, the kernel keeps it so: after any sequence of ticks,
  exits, creations, additions and destructions on any processors, the running threads are exactly the current
  threads of the processors, and no two processors share one, whatever was stolen or balanced in between.
\<close>

theorem running_threads_exclusive:
  assumes "(kernel_step kp mark)\<^sup>*\<^sup>* w w'" "exclusive (w_sched w)"
  shows "running (w_sched w') = current (w_sched w') ` {..<length (sc_cpus (w_sched w'))} \<and>
    inj_on (current (w_sched w')) {..<length (sc_cpus (w_sched w'))}"
proof -
  have "exclusive (w_sched w')" using assms by (induction rule: rtranclp_induct) (auto intro: kernel_step_exclusive)
  then show ?thesis by (simp add: exclusive_def)
qed

lemma sample_exclusive: "exclusive sample_sched"
proof -
  have c: "current sample_sched 0 = 11" "current sample_sched (Suc 0) = 14" "length (sc_cpus sample_sched) = 2"
    by (simp_all add: current_def sample_sched_def sample_cpu_def)
  have n: "{..<2 :: nat} = {0, Suc 0}" by auto
  have "running sample_sched = {11, 14}"
    by (auto simp: running_def sample_sched_def sample_threads_def sample_thread_def split: if_splits)
  then show ?thesis by (simp add: exclusive_def c n)
qed

text \<open>After the tick on the first processor and the exit on the second thread 11 has moved from the one to the other.\<close>

theorem running_threads_exclusive_witness:
  "\<exists>w w'. (kernel_step 9 0)\<^sup>*\<^sup>* (w :: nat world) w' \<and> w_sched w = sample_sched \<and> w_sched w' = sample_after_exit \<and>
    running sample_after_exit = {11, 12} \<and> current sample_after_exit 0 \<noteq> current sample_after_exit 1"
proof -
  define w where "w = sample_world sample_vm \<lparr>w_sched := sample_sched\<rparr>"
  have s: "w_sched w = sample_sched" by (simp add: w_def)
  have "kernel_step 9 0 w (w\<lparr>w_sched := sample_after_tick\<rparr>)"
    by (rule kernel_step.tick [where c = 0 and rsp = "0x5000"]) (simp add: s sample_sched_def, simp add: s sample_tick_run)
  moreover have "kernel_step 9 0 (w\<lparr>w_sched := sample_after_tick\<rparr>) ((w\<lparr>w_sched := sample_after_tick\<rparr>)\<lparr>w_sched := sample_after_exit\<rparr>)"
    by (rule kernel_step.exit [where c = 1]) (simp add: sample_after_tick_def, simp add: sample_exit_run [unfolded One_nat_def])
  ultimately have run: "(kernel_step 9 0)\<^sup>*\<^sup>* w (w\<lparr>w_sched := sample_after_exit\<rparr>)" by simp
  have c: "current sample_after_exit 0 = 12" "current sample_after_exit (Suc 0) = 11" "length (sc_cpus sample_after_exit) = 2"
    by (simp_all add: current_def sample_after_exit_def sample_cpu_def)
  have n: "{..<2 :: nat} = {0, Suc 0}" by auto
  have "running sample_after_exit = {11, 12}"
    using running_threads_exclusive [OF run] sample_exclusive by (simp add: s c n insert_commute)
  then show ?thesis using run s c by (intro exI [of _ w] exI [of _ "w\<lparr>w_sched := sample_after_exit\<rparr>"]) simp
qed

section \<open>Between the two halves of a tick\<close>

text \<open>The tick up to the release of the run queue; the rest of it is \<open>switchNext\<close>.\<close>

definition tick_queue :: "sched \<Rightarrow> nat \<Rightarrow> u64 \<Rightarrow> sched res" where
  "tick_queue s c rsp =
     (let s = on_cpu s c (\<lambda>cpu. cpu\<lparr>cpu_lockLevel := 1\<rparr>);
          cur = cpu_current (sc_cpus s ! c) in
      bind_res (assert_res (cur \<noteq> 0) (bind_res (thread_at s cur) (\<lambda>th.
        assert_res (th_state th = Running) (
        Inr (s\<lparr>sc_thread := (sc_thread s)(cur \<mapsto> th\<lparr>th_state := Stopped, th_kernelStack := rsp\<rparr>)\<rparr>))))) (\<lambda>s.
      bind_res (spin_lock (cpu_tlock (sc_cpus s ! c))) (\<lambda>l.
      bind_res (q_push (cpu_threads (sc_cpus s ! c)) cur) (\<lambda>q.
      Inr (on_cpu s c (\<lambda>cpu. cpu\<lparr>cpu_threads := q, cpu_tlock := spin_unlock l\<rparr>))))))"

lemma bind_opt_bind_res: "bind_opt (Some (bind_res r f)) g = bind_opt (Some r) (\<lambda>x. bind_opt (Some (f x)) g)"
  by (cases r) (simp_all add: bind_res_def)

lemma tick_halves: "tickHandler s c rsp = bind_opt (Some (tick_queue s c rsp)) (\<lambda>s. switchNext s c)"
  by (simp add: tickHandler_def tick_queue_def Let_def bind_opt_bind_res)

text \<open>Two processors with empty run queues: the first runs thread 11 and has the idle thread 12, the second runs 14.\<close>

definition race_sched :: sched where
  "race_sched = \<lparr>sc_thread = sample_threads Running 0 Stopped Running,
     sc_cpus = [sample_cpu 0 (q_new_sized 3) 12 11, sample_cpu 1 (q_new_sized 3) 13 14], sc_tick = 0, sc_balancing = False\<rparr>"

definition race_queued :: sched where
  "race_queued = \<lparr>sc_thread = sample_threads Stopped 0x5000 Stopped Running,
     sc_cpus = [(sample_cpu 0 (ring3 [Some 11, None, None] 1 0 1) 12 11)\<lparr>cpu_lockLevel := 1\<rparr>,
       sample_cpu 1 (q_new_sized 3) 13 14], sc_tick = 0, sc_balancing = False\<rparr>"

definition race_cpu1 :: cpu where
  "race_cpu1 = (sample_cpu 1 (q_new_sized 3) 13 11)\<lparr>cpu_RSP0 := 0x50A8, cpu_destroy :=
     \<lparr>qdata = [Some 14, None], qsize = 1, qdataSize = 2, qlastRead = 0, qlastWritten = 1\<rparr>\<rparr>"

definition race_stolen :: sched where
  "race_stolen = \<lparr>sc_thread = sample_threads Running 0x5000 Stopped Killed,
     sc_cpus = [(sample_cpu 0 (ring3 [Some 11, None, None] 0 1 1) 12 11)\<lparr>cpu_lockLevel := 1\<rparr>, race_cpu1],
     sc_tick = 1, sc_balancing = False\<rparr>"

definition race_left :: sched where
  "race_left = \<lparr>sc_thread = sample_threads Stopped 0x5000 Running Killed,
     sc_cpus = [(sample_cpu 0 (ring3 [Some 11, None, None] 0 1 1) 12 12)\<lparr>cpu_RSP0 := 0x20A8\<rparr>, race_cpu1],
     sc_tick = 1, sc_balancing = False\<rparr>"

lemma race_push: "q_push (q_new_sized 3) t = Inr (ring3 [Some t, None, None] (Suc 0) 0 (Suc 0))"
proof -
  have "replicate 3 (None :: nat option) = [None, None, None]" unfolding numeral_3_eq_3 by simp
  then show ?thesis by (simp add: ring3_def q_push_def q_new_sized_def)
qed

lemma race_pick:
  "T 11 = Some th \<Longrightarrow> th_state th = Stopped \<Longrightarrow> pick T (ring3 [Some 11, None, None] (Suc 0) 0 (Suc 0)) =
     Some (Inr (11, ring3 [Some 11, None, None] 0 (Suc 0) (Suc 0)))"
  by (subst pick.simps) (simp add: ring3_def q_empty_def q_pop_def q_front_def)

lemma race_queue_run: "tick_queue race_sched 0 0x5000 = Inr race_queued"
  unfolding tick_queue_def race_sched_def
  apply (simp add: sched_defs race_push)
  apply (simp add: race_queued_def sched_defs)
  apply (simp add: fun_eq_iff)
  done

lemma race_exit_run: "sched_exit race_queued 1 = Some (Inr (race_stolen, 0x5000, None))"
  unfolding sched_exit_def race_queued_def
  apply (simp add: sched_defs sample_push)
  apply (simp add: switchNext_def sched_defs sample_push race_pick q_empty_def no_balance upt_rec)
  apply (simp add: switchTo_def sched_defs sizeof_InterruptState_def race_stolen_def race_cpu1_def)
  apply (simp add: fun_eq_iff)
  done

lemma race_switch_run: "switchNext race_stolen 0 = Some (Inr (race_left, 0x2000, None))"
  unfolding race_stolen_def race_cpu1_def
  apply (simp add: switchNext_def sched_defs sample_push q_empty_def upt_rec)
  apply (simp add: switchTo_def sched_defs sizeof_InterruptState_def race_left_def race_cpu1_def)
  apply (simp add: fun_eq_iff)
  done

lemma race_panic_run: "tickHandler race_left 1 rsp = Some (Inl Panic)"
  by (simp add: tickHandler_def race_left_def race_cpu1_def sched_defs assert_res_def)

text \<open>
  \<open>C40\<close> The tick puts the interrupted thread into the run queue and releases the lock while the processor still runs on the
  thread's stack. In the sample system the second processor steals the thread at this point: it becomes the current
  thread of both processors, resumed at the stack pointer above which the first one is still working. When the first one
  goes on it marks the thread as stopped, and the next tick on the second panics.
\<close>

theorem tick_race_shares_thread:
  "\<exists>s1 s2 s3 p rsp' p'. tick_queue race_sched 0 0x5000 = Inr s1 \<and> sched_exit s1 1 = Some (Inr (s2, 0x5000, p)) \<and>
    current s2 0 = 11 \<and> current s2 1 = 11 \<and> 11 \<in> running s2 \<and>
    switchNext s2 0 = Some (Inr (s3, rsp', p')) \<and> 11 \<notin> running s3 \<and> current s3 1 = 11 \<and>
    (\<forall>rsp. tickHandler s3 1 rsp = Some (Inl Panic))"
proof -
  have "current race_stolen 0 = 11" "current race_stolen 1 = 11" "11 \<in> running race_stolen" "11 \<notin> running race_left"
    "current race_left 1 = 11"
    by (simp_all add: current_def running_def race_stolen_def race_left_def race_cpu1_def sample_cpu_def sample_threads_def
        sample_thread_def)
  then show ?thesis using race_queue_run race_exit_run race_switch_run race_panic_run by blast
qed

end
