(* ===== verification/Spec2Isabelle.thy ===== *)
theory Spec2Isabelle
  imports KMem KVector KString KList KQueue KHashMap KTrees Spinlock Physical Paging AddrSpace Sched Vfs KBytes Initrd Terminal Ext2 Process Syscalls Segments Elf Symbols Irq Multiboot Acpi Heap Liballoc Lapic Keyboard Modules KLog Exceptions Gdt Drivers Operators Reaper Smp Boot App Exclusive
begin

text \<open>
  A verification development of stacOS, a 64-bit x86 kernel written in C++ with some assembly. Paths below are
  relative to \<open>src/\<close> of the repository.

  \<^bold>\<open>The system.\<close> The boot loader hands the kernel a list of tags (Multiboot). \<open>kernelMain\<close> sets up the
  serial port, the terminal and the interrupt descriptor table, gives the free memory of the memory map to the physical
  page allocator and starts the heap on top of it, finds the processors and interrupt controllers in the ACPI
  tables, installs the segment descriptors, starts the scheduler and the other processors, and creates a first
  thread. This thread mounts the initial ram disk and the device file system, installs the kernel's symbols, loads
  the modules (keyboard, ext2) by relocating ELF objects against them, mounts an ext2 volume as the root and starts
  the first program. From then on the timer's tick switches threads, programs enter through the system call
  instruction, and killed threads are taken apart by a thread of each processor.

  The components rest on each other as the imports show: page tables take frames from the physical allocator;
  the heap, address spaces, stacks and program segments take pages from both; the loaders read files through the
  virtual methods of the file systems; system calls check user pointers in the page tables, resolve paths over
  the mount points and keep descriptors in the process; the scheduler moves threads between ring buffers.

  \<^bold>\<open>Conventions.\<close> \<open>Prelude\<close> fixes them. Machine integers are words; a \<open>nat\<close> stands for one where the operation
  cannot leave its range or where the wrap-around is written out. A function that can stop the kernel has a result of
  type \<open>'a res\<close>: \<open>Inl Panic\<close> for a failed assertion or panic, \<open>Inl BadAccess\<close> for an access to null, to a freed
  object or outside of an array, \<open>Inl Spin\<close> for waiting on a lock that nobody will release. A negative error number that
  the code returns is an ordinary value. A loop that may run for ever is a \<open>partial_function (option)\<close> whose
  value is then \<open>None\<close>; no fuel is used. Theorems about such functions state that the result is \<open>Some\<close>. All other
  loops are functions with a termination proof. State is passed explicitly: objects that the code shares by pointer live
  in stores indexed by address. An address that an allocation returns is an argument where the allocator plays no
  role in the property. Hardware is its registers; what a polled register answers over time is a function argument.

  \<^bold>\<open>Theories.\<close>

  \<^item> \<open>Prelude\<close>: machine types, outcomes and their binds, error numbers (\<open>include/types.h\<close>, \<open>include/errno.h\<close>),
    loops over lists, and the interfaces as locales: \<open>appendable\<close> with its extensions \<open>growable\<close> and \<open>fifo\<close>, \<open>lookup_table\<close>
    with its extension \<open>updating_table\<close>.
  \<^item> \<open>KMem\<close> (\<open>kernel/lib/mem.cpp\<close>): \<open>memcpy\<close>, \<open>memmove\<close>, \<open>memset\<close>, \<open>memcmp\<close>, \<open>strlen\<close> on a memory of bytes, each shown equal to a
    reference definition. \<open>KBytes\<close>: little-endian integers, C strings and reads into buffers.
  \<^item> \<open>KVector\<close>, \<open>KString\<close>, \<open>KList\<close>, \<open>KQueue\<close>, \<open>KHashMap\<close>, \<open>KTrees\<close> (\<open>include/lib/\<close>, \<open>kernel/lib/\<close>): the containers. Each has an
    invariant that its operations preserve and a view as a list or map that they act on. The vector and the list
    interpret \<open>growable\<close>, the queue \<open>fifo\<close>, the hash map \<open>lookup_table\<close>, the binary tree \<open>updating_table\<close>. The cases in which an
    operation does not act as on the view are theorems too.
  \<^item> \<open>Spinlock\<close> (\<open>include/synchronization/spinlock.h\<close>, \<open>include/lib/lockGuard.h\<close>): the lock, and mutual exclusion in all
    interleavings of any number of processors.
  \<^item> \<open>Physical\<close> (\<open>kernel/memory/physical.cpp\<close>): the bitmap of frames, its initialisation from the memory map, first-fit
    allocation, and the interleavings of an allocation with the unlocked release. It interprets
    \<open>frame_allocator\<close>.
  \<^item> \<open>Paging\<close>, \<open>AddrSpace\<close>, \<open>Segments\<close> (\<open>kernel/memory/virtual.cpp\<close>, \<open>include/memory.h\<close>): entries, \<open>mapPage\<close>, \<open>unmapPage\<close>, \<open>getPage\<close>;
    the search for free pages, creation and destruction of address spaces, the checks of user ranges; runs of
    mapped pages. \<open>mmu\<close> is the translation that the processor makes, \<open>vm_inv\<close> the invariant: the tables below a root
    form a tree of used frames.
  \<^item> \<open>Heap\<close>, \<open>Liballoc\<close> (\<open>kernel/memory/heap.cpp\<close>, \<open>kernel/memory/liballoc.c\<close>): the pages of the heap, and \<open>malloc\<close>, \<open>free\<close>,
    \<open>calloc\<close>, \<open>realloc\<close> on the linked blocks in them. The abstract view is a multiset of allocations; live ones are disjoint
    and mapped. \<open>Heap\<close> interprets \<open>page_heap\<close>, the contract of a provider of pages, whose facts \<open>Liballoc\<close> rests on.
  \<^item> \<open>Sched\<close>, \<open>Process\<close>, \<open>Reaper\<close>, \<open>Exclusive\<close>, \<open>Smp\<close>, \<open>Boot\<close> (\<open>kernel/scheduler/\<close>): threads and run queues, tick, yield, stealing and balancing;
    processes, descriptors and stacks; destroying killed threads; the handlers of all processors
    as one transition system; the start of the other processors as
    an interleaving of steps; the start of interrupts, memory, scheduler and the first program.
  \<^item> \<open>Vfs\<close>, \<open>Drivers\<close> (\<open>kernel/fs/fs.cpp\<close>, \<open>drivers.cpp\<close>, \<open>devfs.cpp\<close>): mount points, path resolution, drivers, devices. The virtual
    methods of a node are the record \<open>node_ops\<close>, which \<open>Initrd\<close> (\<open>kernel/fs/initrd.cpp\<close>) and \<open>Ext2\<close> (\<open>modules/ext2/\<close>) instantiate.
    A file of the ram disk interprets \<open>block_device\<close>, in which \<open>Elf\<close> and \<open>Ext2\<close> prove the loader and the reading of blocks.
  \<^item> \<open>Elf\<close>, \<open>Modules\<close>, \<open>Symbols\<close> (\<open>kernel/scheduler/elf.cpp\<close>, \<open>include/elf.h\<close>, \<open>kernel/symbols.cpp\<close>): programs, relocatable modules, and the symbols
    that they are linked with.
  \<^item> \<open>Syscalls\<close>, \<open>App\<close> (\<open>kernel/syscalls/\<close>, \<open>apps/app2.c\<close>): the calls on files with the checks of user strings, their
    dispatch, and a program that uses them.
  \<^item> \<open>Terminal\<close>, \<open>KLog\<close>, \<open>Exceptions\<close> (\<open>kernel/terminal.cpp\<close>, \<open>kernel/log.cpp\<close>, \<open>kernel/devices/serial.cpp\<close>,
    \<open>kernel/interrupts/exceptions.cpp\<close>, \<open>include/panic.h\<close>): the console, formatted printing, the serial log, panics and the reports of exceptions.
  \<^item> \<open>Irq\<close>, \<open>Lapic\<close>, \<open>Gdt\<close> (\<open>kernel/interrupts/\<close>, \<open>kernel/devices/\<close>, \<open>kernel/gdt.cpp\<close>, \<open>kernel/msr.cpp\<close>, \<open>kernel/syscalls/syscalls.cpp\<close>): gates,
    interrupt handlers and controllers, timers, segment descriptors and the registers of the system call instruction.
  \<^item> \<open>Multiboot\<close>, \<open>Acpi\<close> (\<open>kernel/multibootInformations.cpp\<close>, \<open>kernel/acpi.cpp\<close>): the searches through the tables in memory.
  \<^item> \<open>Keyboard\<close> (\<open>modules/ps2/main.cpp\<close>) and \<open>Operators\<close> (\<open>kernel/operators.cpp\<close>).

  \<^bold>\<open>What is shown.\<close> The properties are the theorems whose text begins with a number to \<open>C40\<close>; where one has
  hypotheses, the theorem after it applies it to concrete values.

  \<^item> Memory: mapping and unmapping change one translation and keep the tree of used frames (C1, C19); the frame
    allocator is first fit, and what is free after the start is exactly what the memory map gives (C2, C36); the heap and its
    allocations are disjoint, mapped and given back (C13 to C16); address spaces are created and destroyed
    without touching others (C17, C18); the checks of user ranges are exact below 4 GiB (C20, C21).
  \<^item> Threads: the tick is round robin (C3); a destroyed thread gives back exactly its pages, and the destroyer's
    loop ends (C6, C10); the other processors start one at a time in every interleaving, and the start ends when they
    answer (C8, C24); a lock excludes (C32); no thread runs on two processors as long as handlers are not interleaved (C7),
    but a tick can be cut in two by another processor (C40), and an idle thread can be stolen (C39).
  \<^item> Files and programs: opening and reading a file of the ram disk (C4, C28), path resolution and mounting (C27, C29), reading
    ext2 files (C33), loading programs and modules (C5, C11, C12), a program from its first call to its exit (C25).
  \<^item> Devices: selectors (C9), interrupt routing (C23), ACPI registration (C22), exception reports (C26), log (C30), terminal (C34, C35).
  \<^item> Containers: memory operations (C37), queue (C31); a file system that deletes its root (C38).

  \<^bold>\<open>Bounds.\<close> Page tables, heap and loaders are correct for physical memory below 2 GiB (\<open>ph_limited (2 ^ 19)\<close>): the shift of
  the 28-bit frame number is made in \<open>int\<close>, which is wrong above (\<open>pml_unshift_exact_iff\<close>). \<open>malloc\<close> is
  described for requests below 2 GiB, the size of the heap. Checks of user ranges end below 16 TiB. The start of the processors is shown for
  at most 256 of them, because the index that they read is a byte. Theorems about polled devices assume that
  the device answers at some time (\<open>lsr_ready\<close>, \<open>answers\<close>).

  \<^bold>\<open>Not modelled.\<close> The assembly that switches stacks, saves registers or starts processors (of \<open>syscall.asm\<close> only the
  dispatch is modelled), \<open>invlpg\<close> and caches. \<open>kernelMain\<close> and \<open>kernelSchedulerMain\<close>, which call the operations above in order: a state that
  holds all of their globals would only repeat the records. The constants of \<open>include/elf.h\<close>, \<open>include/errno.h\<close> and \<open>include/cpuid.h\<close> that no code
  uses, the debug output of \<open>liballoc.c\<close> and what the preprocessor leaves out of it. Fields that are written and never read. Memory orders
  other than the interleaving of the steps of \<open>Spinlock\<close>, \<open>Physical\<close>,
  \<open>Exclusive\<close> and \<open>Smp\<close>. The success of the search for free virtual pages,
  which covers a part of the address space only, so \<open>loadProcess\<close> and the initialisation of the scheduler are described for runs that
  return. The init function of a loaded module, which is a parameter.
\<close>

end
